(* ===== verification/Mk_Prelude.thy ===== *)
theory Mk_Prelude
  imports Main "HOL-Library.Word" "HOL-Library.Monad_Syntax" "HOL-Library.Code_Target_Nat"
begin

text \<open>
  Shared vocabulary of the development: the machine types of the Rust sources, list
  operations the components have in common (range fill, swap-remove, resize), and the
  locale of operation systems, in which an invariant is carried along a run once and for
  all.

  Conventions used by every component theory. \<^verbatim>\<open>usize\<close> values are \<open>nat\<close> (every value the
  code computes is bounded by the pool budget or by a 32-bit index, and the bounds are part
  of the invariants); \<^verbatim>\<open>u32\<close> and \<^verbatim>\<open>u64\<close> values whose width matters are words. An
  operation that can panic or abort the process (\<^verbatim>\<open>assert!\<close>, \<^verbatim>\<open>expect\<close>, an index out of
  range, \<^verbatim>\<open>handle_alloc_error\<close>) has an \<open>option\<close> result whose \<open>None\<close> is the panic; a
  Rust \<^verbatim>\<open>Result\<close> is a sum with \<open>Inl\<close> for the error.
\<close>

type_synonym u32 = "32 word"
type_synonym u64 = "64 word"

named_theorems list_ops \<open>length and element facts of the list operations below\<close>
named_theorems inv_intros \<open>preservation of component invariants\<close>

subsection \<open>Filling a range\<close>

text \<open>\<^verbatim>\<open>for x in &mut xs[a..b] { *x = v }\<close> for \<open>b \<le> length xs\<close>.\<close>

definition set_range :: "'a list \<Rightarrow> nat \<Rightarrow> nat \<Rightarrow> 'a \<Rightarrow> 'a list" where
  "set_range xs a b v = map (\<lambda>i. if a \<le> i \<and> i < b then v else xs ! i) [0..<length xs]"

lemma length_set_range [simp, list_ops]: "length (set_range xs a b v) = length xs"
  by (simp add: set_range_def)

lemma nth_set_range [simp, list_ops]:
  "i < length xs \<Longrightarrow> set_range xs a b v ! i = (if a \<le> i \<and> i < b then v else xs ! i)"
  by (simp add: set_range_def)

subsection \<open>Swap-remove\<close>

text \<open>\<^verbatim>\<open>Vec::swap_remove\<close>: the last element moves into the freed slot.\<close>

definition swap_remove :: "nat \<Rightarrow> 'a list \<Rightarrow> 'a list" where
  "swap_remove i xs = butlast (xs[i := last xs])"

lemma length_swap_remove [simp, list_ops]: "length (swap_remove i xs) = length xs - 1"
  by (simp add: swap_remove_def)

lemma nth_swap_remove [list_ops]:
  "j < length xs - 1 \<Longrightarrow> swap_remove i xs ! j = (if j = i then last xs else xs ! j)"
  by (auto simp: swap_remove_def nth_butlast nth_list_update)

lemma swap_remove_last: "i = length xs - 1 \<Longrightarrow> swap_remove i xs = butlast xs"
proof -
  assume "i = length xs - 1"
  then have "swap_remove i xs ! j = butlast xs ! j" if "j < length xs - 1" for j
    using that by (auto simp: nth_swap_remove nth_butlast)
  then show ?thesis by (intro nth_equalityI) auto
qed

lemma swap_remove_split:
  "i < length xs \<Longrightarrow> Suc i < length xs \<Longrightarrow>
   swap_remove i xs = take i xs @ last xs # butlast (drop (Suc i) xs)"
  by (auto simp: swap_remove_def upd_conv_take_nth_drop butlast_append)

lemma distinct_set_swap_remove:
  assumes d: "distinct xs" and i: "i < length xs"
  shows "distinct (swap_remove i xs) \<and> set (swap_remove i xs) = set xs - {xs ! i}"
proof (cases "Suc i < length xs")
  case True
  have xs: "xs = take i xs @ xs ! i # drop (Suc i) xs" using i by (rule id_take_nth_drop)
  define ds where "ds = drop (Suc i) xs"
  have ne: "ds \<noteq> []" using True by (simp add: ds_def)
  have ds: "ds = butlast ds @ [last ds]" using ne by simp
  have l: "last xs = last ds" using True by (simp add: ds_def last_drop)
  have e: "swap_remove i xs = take i xs @ last ds # butlast ds"
    using swap_remove_split [OF i True] l by (simp add: ds_def)
  have d': "distinct (take i xs @ xs ! i # butlast ds @ [last ds])"
    using d xs ds by (metis ds_def)
  have s: "set xs = set (take i xs @ xs ! i # butlast ds @ [last ds])"
    using xs ds by (metis ds_def)
  show ?thesis using d' unfolding e s by auto
next
  case False
  with i have last: "i = length xs - 1" by simp
  have xs: "xs = butlast xs @ [xs ! i]"
    using i last by (metis append_butlast_last_id last_conv_nth length_0_conv not_less_zero)
  then have "distinct (butlast xs @ [xs ! i])" using d by simp
  then show ?thesis using swap_remove_last [OF last] xs
    by (metis Diff_insert_absorb Un_insert_right distinct_append distinct.simps(2) disjoint_insert(2)
        list.set(1,2) set_append sup_bot.right_neutral)
qed

subsection \<open>Resizing\<close>

text \<open>\<^verbatim>\<open>Vec::resize(n, v)\<close>: truncate, or pad with \<open>v\<close>.\<close>

definition resize_list :: "nat \<Rightarrow> 'a \<Rightarrow> 'a list \<Rightarrow> 'a list" where
  "resize_list n v xs = take n xs @ replicate (n - length xs) v"

lemma length_resize_list [simp, list_ops]: "length (resize_list n v xs) = n"
  by (simp add: resize_list_def)

lemma nth_resize_list [list_ops]:
  "i < n \<Longrightarrow> resize_list n v xs ! i = (if i < length xs then xs ! i else v)"
  by (simp add: resize_list_def nth_append)

lemma resize_list_same [simp]: "resize_list (length xs) v xs = xs"
  by (simp add: resize_list_def)

subsection \<open>Runs of operations\<close>

text \<open>
  \<open>run_ops exec ops s\<close> performs the operations in order and stops (\<open>None\<close>) at the first
  one that panics or is refused.
\<close>

fun run_ops :: "('op \<Rightarrow> 's \<Rightarrow> 's option) \<Rightarrow> 'op list \<Rightarrow> 's \<Rightarrow> 's option" where
  "run_ops exec [] s = Some s"
| "run_ops exec (a # as) s = (case exec a s of None \<Rightarrow> None | Some s' \<Rightarrow> run_ops exec as s')"

lemma run_ops_append:
  "run_ops exec (as @ bs) s = Option.bind (run_ops exec as s) (run_ops exec bs)"
  by (induction as arbitrary: s) (auto split: option.splits)

text \<open>An operation system: every operation that completes keeps the invariant.\<close>

locale op_system =
  fixes exec :: "'op \<Rightarrow> 's \<Rightarrow> 's option"
    and inv :: "'s \<Rightarrow> bool"
  assumes exec_inv: "inv s \<Longrightarrow> exec a s = Some s' \<Longrightarrow> inv s'"
begin

lemma run_inv: "inv s \<Longrightarrow> run_ops exec as s = Some s' \<Longrightarrow> inv s'"
  by (induction as arbitrary: s) (auto split: option.splits dest: exec_inv)

end

text \<open>
  A total operation system: under the invariant no enabled operation panics, so a run whose
  operations are enabled when their turn comes completes.
\<close>

fun ops_enabled :: "('op \<Rightarrow> 's \<Rightarrow> bool) \<Rightarrow> ('op \<Rightarrow> 's \<Rightarrow> 's option) \<Rightarrow> 'op list \<Rightarrow> 's \<Rightarrow> bool" where
  "ops_enabled en exec [] s = True"
| "ops_enabled en exec (a # as) s =
     (en a s \<and> (case exec a s of None \<Rightarrow> True | Some s' \<Rightarrow> ops_enabled en exec as s'))"

locale total_op_system = op_system exec inv
  for exec :: "'op \<Rightarrow> 's \<Rightarrow> 's option" and inv :: "'s \<Rightarrow> bool" +
  fixes en :: "'op \<Rightarrow> 's \<Rightarrow> bool"
  assumes exec_total: "inv s \<Longrightarrow> en a s \<Longrightarrow> \<exists>s'. exec a s = Some s'"
begin

lemma run_total:
  "inv s \<Longrightarrow> ops_enabled en exec as s \<Longrightarrow> \<exists>s'. run_ops exec as s = Some s' \<and> inv s'"
proof (induction as arbitrary: s)
  case Nil
  then show ?case by simp
next
  case (Cons a as)
  then obtain s1 where s1: "exec a s = Some s1" using exec_total by force
  have "inv s1" using exec_inv [OF Cons.prems(1) s1] .
  with Cons s1 show ?case by simp
qed

end

subsection \<open>Region allocators\<close>

text \<open>
  The contract shared by every allocator of the pool: a set \<open>live\<close> of regions (start,
  length), an allocation that adds a region disjoint from all live ones or leaves the set
  alone, and a release that removes exactly the region it is given. Neither panics under
  the invariant.
\<close>

definition regions_disjoint :: "nat \<times> nat \<Rightarrow> nat \<times> nat \<Rightarrow> bool" where
  "regions_disjoint x y \<longleftrightarrow> fst x + snd x \<le> fst y \<or> fst y + snd y \<le> fst x"

definition all_disjoint :: "(nat \<times> nat) set \<Rightarrow> bool" where
  "all_disjoint L \<longleftrightarrow> (\<forall>x \<in> L. \<forall>y \<in> L. x \<noteq> y \<longrightarrow> regions_disjoint x y)"

lemma regions_disjoint_sym: "regions_disjoint x y = regions_disjoint y x"
  by (auto simp: regions_disjoint_def)

lemma regions_disjoint_no_overlap:
  assumes "0 < m" "0 < n"
  shows "regions_disjoint (a, m) (b, n) \<longleftrightarrow> {a..<a + m} \<inter> {b..<b + n} = {}"
proof
  assume e: "{a..<a + m} \<inter> {b..<b + n} = {}"
  show "regions_disjoint (a, m) (b, n)"
  proof (rule ccontr)
    assume "\<not> ?thesis"
    then have "max a b \<in> {a..<a + m} \<inter> {b..<b + n}"
      using assms by (auto simp: max_def regions_disjoint_def)
    with e show False by blast
  qed
qed (auto simp: regions_disjoint_def)

lemma all_disjoint_insert:
  "all_disjoint L \<Longrightarrow> (\<forall>y \<in> L. regions_disjoint x y) \<Longrightarrow> all_disjoint (insert x L)"
  by (auto simp: all_disjoint_def regions_disjoint_sym)

lemma all_disjoint_subset: "all_disjoint L \<Longrightarrow> M \<subseteq> L \<Longrightarrow> all_disjoint M"
  unfolding all_disjoint_def by blast

datatype 'r region_op = Alloc 'r | Free nat

text \<open>Callers release live regions only, as the \<^verbatim>\<open>unsafe\<close> contracts of the source demand.\<close>

fun region_exec :: "('s \<Rightarrow> (nat \<times> nat) set) \<Rightarrow> ('s \<Rightarrow> 'r \<Rightarrow> (nat option \<times> 's) option)
    \<Rightarrow> ('s \<Rightarrow> nat \<Rightarrow> 's option) \<Rightarrow> 'r region_op \<Rightarrow> 's \<Rightarrow> 's option" where
  "region_exec live alloc free (Alloc r) s = map_option snd (alloc s r)"
| "region_exec live alloc free (Free a) s = (if a \<in> fst ` live s then free s a else None)"

fun region_enabled :: "('s \<Rightarrow> (nat \<times> nat) set) \<Rightarrow> 'r region_op \<Rightarrow> 's \<Rightarrow> bool" where
  "region_enabled live (Alloc r) s = True"
| "region_enabled live (Free a) s = (a \<in> fst ` live s)"

locale region_alloc =
  fixes inv :: "'s \<Rightarrow> bool"
    and live :: "'s \<Rightarrow> (nat \<times> nat) set"
    and need :: "'r \<Rightarrow> nat"
    and alloc :: "'s \<Rightarrow> 'r \<Rightarrow> (nat option \<times> 's) option"
    and free :: "'s \<Rightarrow> nat \<Rightarrow> 's option"
  assumes alloc_ok: "inv s \<Longrightarrow> \<exists>res s'. alloc s r = Some (res, s') \<and> inv s' \<and>
      (case res of None \<Rightarrow> live s' = live s
       | Some a \<Rightarrow> \<exists>m. need r \<le> m \<and> (a, m) \<notin> live s \<and> live s' = insert (a, m) (live s)
           \<and> (\<forall>x \<in> live s. regions_disjoint (a, m) x))"
    and free_ok: "inv s \<Longrightarrow> (a, n) \<in> live s \<Longrightarrow>
      \<exists>s'. free s a = Some s' \<and> inv s' \<and> live s' = live s - {(a, n)}"
begin

lemma exec_keeps:
  assumes "inv s \<and> all_disjoint (live s)" "region_exec live alloc free a s = Some s'"
  shows "inv s' \<and> all_disjoint (live s')"
proof (cases a)
  case (Alloc r)
  then obtain res where al: "alloc s r = Some (res, s')" using assms(2) by auto
  with alloc_ok [of s r] assms(1) show ?thesis
    by (cases res) (auto intro: all_disjoint_insert)
next
  case (Free x)
  then have fr: "free s x = Some s'" "x \<in> fst ` live s" using assms(2) by (auto split: if_splits)
  then obtain n where "(x, n) \<in> live s" by force
  with free_ok [of s x n] assms(1) fr show ?thesis by (auto intro: all_disjoint_subset)
qed

lemma exec_enabled: "inv s \<and> all_disjoint (live s) \<Longrightarrow> region_enabled live a s \<Longrightarrow>
    \<exists>s'. region_exec live alloc free a s = Some s'"
proof (cases a)
  case (Alloc r)
  assume "inv s \<and> all_disjoint (live s)"
  with alloc_ok [of s r] Alloc show ?thesis by auto
next
  case (Free x)
  assume "inv s \<and> all_disjoint (live s)" "region_enabled live a s"
  with Free obtain n where "inv s" "(x, n) \<in> live s" by auto
  with free_ok Free show ?thesis by force
qed

end

sublocale region_alloc \<subseteq> ops: total_op_system "region_exec live alloc free"
    "\<lambda>s. inv s \<and> all_disjoint (live s)" "region_enabled live"
  by unfold_locales (use exec_keeps exec_enabled in blast)+

subsection \<open>Simulations\<close>

text \<open>
  A concrete operation returns its answer and the next state, or \<open>None\<close> when it aborts. It
  simulates an abstract one when, from a state that satisfies the invariant and within the
  caller's contract, the answers agree and the abstraction of the next state is the
  abstract next state.
\<close>

fun run_answers :: "('op \<Rightarrow> 'c \<Rightarrow> ('r \<times> 'c) option) \<Rightarrow> 'op list \<Rightarrow> 'c \<Rightarrow> ('r list \<times> 'c) option" where
  "run_answers step [] c = Some ([], c)"
| "run_answers step (a # as) c =
     do { (r, c') \<leftarrow> step a c; (rs, c'') \<leftarrow> run_answers step as c'; Some (r # rs, c'') }"

fun spec_answers :: "('op \<Rightarrow> 'a \<Rightarrow> 'r \<times> 'a) \<Rightarrow> 'op list \<Rightarrow> 'a \<Rightarrow> 'r list \<times> 'a" where
  "spec_answers spec [] s = ([], s)"
| "spec_answers spec (a # as) s =
     (let (r, s') = spec a s; (rs, s'') = spec_answers spec as s' in (r # rs, s''))"

fun spec_allows :: "('op \<Rightarrow> 'a \<Rightarrow> bool) \<Rightarrow> ('op \<Rightarrow> 'a \<Rightarrow> 'r \<times> 'a) \<Rightarrow> 'op list \<Rightarrow> 'a \<Rightarrow> bool" where
  "spec_allows pre spec [] s \<longleftrightarrow> True"
| "spec_allows pre spec (a # as) s \<longleftrightarrow> pre a s \<and> spec_allows pre spec as (snd (spec a s))"

text \<open>Steps outside the caller's contract do not happen.\<close>

definition guarded :: "('op \<Rightarrow> 'a \<Rightarrow> bool) \<Rightarrow> ('c \<Rightarrow> 'a) \<Rightarrow> ('op \<Rightarrow> 'c \<Rightarrow> ('r \<times> 'c) option) \<Rightarrow> 'op \<Rightarrow> 'c \<Rightarrow> ('r \<times> 'c) option" where
  "guarded pre view step a c = (if pre a (view c) then step a c else None)"

locale simulation =
  fixes step :: "'op \<Rightarrow> 'c \<Rightarrow> ('r \<times> 'c) option"
    and spec :: "'op \<Rightarrow> 'a \<Rightarrow> 'r \<times> 'a"
    and pre :: "'op \<Rightarrow> 'a \<Rightarrow> bool"
    and inv :: "'c \<Rightarrow> bool"
    and abs :: "'c \<Rightarrow> 'a"
  assumes step_sim: "inv c \<Longrightarrow> pre a (abs c) \<Longrightarrow> step a c = Some (r, c') \<Longrightarrow> inv c' \<and> spec a (abs c) = (r, abs c')"
begin

lemma run_sim:
  "inv c \<Longrightarrow> spec_allows pre spec as (abs c) \<Longrightarrow> run_answers step as c = Some (rs, c') \<Longrightarrow>
   inv c' \<and> spec_answers spec as (abs c) = (rs, abs c')"
proof (induction as arbitrary: c rs)
  case (Cons a as)
  then obtain r d rs' where d: "step a c = Some (r, d)" "run_answers step as d = Some (rs', c')" "rs = r # rs'"
    by (auto split: bind_splits)
  have "inv d \<and> spec a (abs c) = (r, abs d)" using step_sim [OF Cons.prems(1) _ d(1)] Cons.prems(2) by simp
  then show ?case using Cons.IH [of d rs'] Cons.prems(2) d by (auto simp: Let_def)
qed simp

lemma guarded_allows:
  "inv c \<Longrightarrow> run_answers (guarded pre abs step) as c = Some (rs, c') \<Longrightarrow> spec_allows pre spec as (abs c)"
proof (induction as arbitrary: c rs)
  case (Cons a as)
  then obtain r d rs' where g: "guarded pre abs step a c = Some (r, d)" and d':
      "run_answers (guarded pre abs step) as d = Some (rs', c')"
    by (auto split: bind_splits)
  have d: "step a c = Some (r, d)" "pre a (abs c)" using g by (auto simp: guarded_def split: if_splits)
  have "inv d \<and> spec a (abs c) = (r, abs d)" using step_sim [OF Cons.prems(1) d(2,1)] .
  then show ?case using Cons.IH [of d rs'] d' d(2) by auto
qed simp

lemma run_guarded:
  "inv c \<Longrightarrow> run_answers (guarded pre abs step) as c = Some (rs, c') \<Longrightarrow>
   inv c' \<and> spec_answers spec as (abs c) = (rs, abs c')"
proof (induction as arbitrary: c rs)
  case (Cons a as)
  then obtain r d rs' where g: "guarded pre abs step a c = Some (r, d)" and d': "rs = r # rs'"
      "run_answers (guarded pre abs step) as d = Some (rs', c')"
    by (auto split: bind_splits)
  have d: "step a c = Some (r, d)" "pre a (abs c)" using g by (auto simp: guarded_def split: if_splits)
  have "inv d \<and> spec a (abs c) = (r, abs d)" using step_sim [OF Cons.prems(1) d(2,1)] .
  then show ?case using Cons.IH [of d rs'] d' by (auto simp: Let_def)
qed simp

end

locale total_simulation = simulation +
  assumes step_total: "inv c \<Longrightarrow> pre a (abs c) \<Longrightarrow> step a c \<noteq> None"
begin

lemma run_refines:
  "inv c \<Longrightarrow> spec_allows pre spec as (abs c) \<Longrightarrow>
   \<exists>rs c'. run_answers step as c = Some (rs, c') \<and> inv c' \<and> spec_answers spec as (abs c) = (rs, abs c')"
proof (induction as arbitrary: c)
  case (Cons a as)
  then obtain r d where d: "step a c = Some (r, d)" using step_total by fastforce
  have d': "inv d" "spec a (abs c) = (r, abs d)" using step_sim [OF Cons.prems(1) _ d] Cons.prems(2) by auto
  with Cons.IH [of d] Cons.prems(2) obtain rs c' where "run_answers step as d = Some (rs, c')" "inv c'"
    "spec_answers spec as (abs d) = (rs, abs c')" by auto
  then show ?case using d d' by simp
qed simp

end

end
