(* ===== verification/Frontier.thy ===== *)
theory Frontier
  imports Mk_Prelude
begin

text \<open>
  The two opposing frontiers of the pool window (\<^verbatim>\<open>crates/minkowski/src/pool.rs\<close>,
  \<^verbatim>\<open>struct Frontier\<close>): slab chunks of 64 KiB are carved upward from offset 0, large runs of
  1 MiB units are taken downward from the end. The theory models every method of the
  struct, states the invariants the source documents, and proves that each method keeps
  them, never panics under them, and does to the set of live runs what its comment says.
  \<^verbatim>\<open>units\<close> entries are \<open>nat\<close> with the two sentinels of the source.
\<close>

subsection \<open>Constants\<close>

definition CHUNK_SIZE :: nat where "CHUNK_SIZE = 65536"

definition LARGE_UNIT :: nat where "LARGE_UNIT = 1048576"

definition UNIT_FREE :: nat where "UNIT_FREE = 0"

definition UNIT_INTERIOR :: nat where "UNIT_INTERIOR = 4294967295"

subsection \<open>State and operations\<close>

record frontier =
  fr_lo :: nat
  fr_hi :: nat
  fr_units :: "nat list"

definition bottom_limit :: "frontier \<Rightarrow> nat \<Rightarrow> nat" where
  "bottom_limit f tot =
     (if fr_hi f = length (fr_units f) then tot - tot mod CHUNK_SIZE
      else fr_hi f * LARGE_UNIT)"

definition carve_chunk :: "frontier \<Rightarrow> nat \<Rightarrow> (nat \<times> frontier) option" where
  "carve_chunk f tot =
     (let start = fr_lo f in
      if start + CHUNK_SIZE > bottom_limit f tot then None
      else Some (start, f\<lparr>fr_lo := fr_lo f + CHUNK_SIZE\<rparr>))"

text \<open>The downward scan \<^verbatim>\<open>for u in (hi..len).rev()\<close> with its running count of free units.\<close>

fun scan_run :: "nat list \<Rightarrow> nat \<Rightarrow> nat list \<Rightarrow> nat \<Rightarrow> nat option" where
  "scan_run us k [] free = None"
| "scan_run us k (u # r) free =
     (if us ! u = UNIT_FREE
      then (if free + 1 = k then Some u else scan_run us k r (free + 1))
      else scan_run us k r 0)"

text \<open>\<open>None\<close> is a panic (a slice out of range); the inner \<open>None\<close> is \<^verbatim>\<open>None\<close>.\<close>

definition write_run :: "frontier \<Rightarrow> nat \<Rightarrow> nat \<Rightarrow> frontier option" where
  "write_run f start k =
     (if start + k > length (fr_units f) \<or> k = 0 then None
      else Some (f\<lparr>fr_units := set_range ((fr_units f)[start := k]) (start + 1) (start + k) UNIT_INTERIOR\<rparr>))"

definition take_run :: "frontier \<Rightarrow> nat \<Rightarrow> (nat option \<times> frontier) option" where
  "take_run f k =
     (if k = 0 \<or> k > length (fr_units f) then Some (None, f)
      else if k > UNIT_INTERIOR then Some (None, f)
      else case scan_run (fr_units f) k (rev [fr_hi f..<length (fr_units f)]) 0 of
        Some u \<Rightarrow> map_option (Pair (Some u)) (write_run f u k)
      | None \<Rightarrow>
          if fr_hi f < k then Some (None, f)
          else let start = fr_hi f - k in
            if start * LARGE_UNIT < fr_lo f then Some (None, f)
            else map_option (Pair (Some start)) (write_run (f\<lparr>fr_hi := start\<rparr>) start k))"

text \<open>The two counting loops of \<^verbatim>\<open>grow_run\<close>.\<close>

function count_above :: "frontier \<Rightarrow> nat \<Rightarrow> nat \<Rightarrow> nat \<Rightarrow> nat" where
  "count_above f base extra n_above =
     (if n_above < extra \<and> base + n_above < length (fr_units f) \<and> fr_units f ! (base + n_above) = UNIT_FREE
      then count_above f base extra (n_above + 1) else n_above)"
  by pat_completeness auto
termination
  by (relation "measure (\<lambda>(f, base, extra, n_above). extra - n_above)") auto

function count_below :: "frontier \<Rightarrow> nat \<Rightarrow> nat \<Rightarrow> nat \<Rightarrow> nat" where
  "count_below f start shift n_below =
     (if n_below < shift then
        (if start < n_below + 1 then n_below
         else let u = start - (n_below + 1);
                  free = (if u \<ge> fr_hi f then fr_units f ! u = UNIT_FREE else u * LARGE_UNIT \<ge> fr_lo f)
              in if free then count_below f start shift (n_below + 1) else n_below)
      else n_below)"
  by pat_completeness auto
termination
  by (relation "measure (\<lambda>(f, start, shift, n_below). shift - n_below)") auto

declare count_above.simps [simp del] count_below.simps [simp del]

definition is_run_start :: "frontier \<Rightarrow> nat \<Rightarrow> bool" where
  "is_run_start f u \<longleftrightarrow> u < length (fr_units f) \<and> u \<ge> fr_hi f
     \<and> fr_units f ! u \<noteq> UNIT_FREE \<and> fr_units f ! u \<noteq> UNIT_INTERIOR"

definition grow_run :: "frontier \<Rightarrow> nat \<Rightarrow> nat \<Rightarrow> (nat option \<times> frontier) option" where
  "grow_run f start k_new =
     (if \<not> is_run_start f start then None
      else let k = fr_units f ! start in
      if k_new \<le> k then Some (Some start, f)
      else if k_new > length (fr_units f) then Some (None, f)
      else if k_new > UNIT_INTERIOR then Some (None, f)
      else let extra = k_new - k;
               n_above = count_above f (start + k) extra 0;
               shift = extra - n_above;
               n_below = count_below f start shift 0
      in if n_below < shift then Some (None, f)
         else let new_start = start - shift
              in map_option (\<lambda>f'. (Some new_start, f'\<lparr>fr_hi := min (fr_hi f) new_start\<rparr>))
                   (write_run f new_start k_new))"

function retreat :: "nat list \<Rightarrow> nat \<Rightarrow> nat" where
  "retreat us hi = (if hi < length us \<and> us ! hi = UNIT_FREE then retreat us (hi + 1) else hi)"
  by pat_completeness auto
termination
  by (relation "measure (\<lambda>(us, hi). length us - hi)") auto

declare retreat.simps [simp del]

definition release_run :: "frontier \<Rightarrow> nat \<Rightarrow> (nat \<times> frontier) option" where
  "release_run f start =
     (if \<not> is_run_start f start then None
      else let k = fr_units f ! start in
      if start + k > length (fr_units f) then None
      else let us = set_range (fr_units f) start (start + k) UNIT_FREE
           in Some (k, f\<lparr>fr_units := us, fr_hi := retreat us (fr_hi f)\<rparr>))"

definition new_frontier :: "nat \<Rightarrow> frontier" where
  "new_frontier tot =
     (let n_units = tot div LARGE_UNIT in
      \<lparr>fr_lo = 0, fr_hi = n_units, fr_units = replicate n_units UNIT_FREE\<rparr>)"

subsection \<open>The documented invariants\<close>

text \<open>
  \<open>runs f\<close> is the set of live runs \<open>(first unit, length)\<close>. The invariant spells the
  doc comment of \<^verbatim>\<open>struct Frontier\<close>: \<open>lo\<close> is chunk-aligned and inside the window, the top
  region starts at \<open>hi\<close> with a unit in use, everything below \<open>hi\<close> is free, every start
  entry is followed by its interior units and every interior unit lies in a run.
\<close>

definition runs :: "frontier \<Rightarrow> (nat \<times> nat) set" where
  "runs f = {(u, k). is_run_start f u \<and> k = fr_units f ! u}"

definition run_shape :: "nat list \<Rightarrow> bool" where
  "run_shape us \<longleftrightarrow>
     (\<forall>u < length us. us ! u \<noteq> UNIT_FREE \<and> us ! u \<noteq> UNIT_INTERIOR \<longrightarrow>
        u + us ! u \<le> length us \<and> (\<forall>j. u < j \<and> j < u + us ! u \<longrightarrow> us ! j = UNIT_INTERIOR))
   \<and> (\<forall>j < length us. us ! j = UNIT_INTERIOR \<longrightarrow>
        (\<exists>u < j. us ! u \<noteq> UNIT_FREE \<and> us ! u \<noteq> UNIT_INTERIOR \<and> j < u + us ! u))"

definition frontier_inv :: "nat \<Rightarrow> frontier \<Rightarrow> bool" where
  "frontier_inv tot f \<longleftrightarrow>
     length (fr_units f) = tot div LARGE_UNIT \<and> length (fr_units f) < UNIT_INTERIOR
   \<and> CHUNK_SIZE dvd fr_lo f \<and> fr_lo f \<le> tot
   \<and> fr_hi f \<le> length (fr_units f)
   \<and> (fr_hi f < length (fr_units f) \<longrightarrow>
        fr_lo f \<le> fr_hi f * LARGE_UNIT \<and> fr_units f ! fr_hi f \<noteq> UNIT_FREE)
   \<and> (\<forall>i < fr_hi f. fr_units f ! i = UNIT_FREE)
   \<and> run_shape (fr_units f)"

lemma unit_sentinels [simp]: "UNIT_FREE \<noteq> UNIT_INTERIOR" "0 < LARGE_UNIT" "0 < CHUNK_SIZE"
  by (simp_all add: UNIT_FREE_def UNIT_INTERIOR_def LARGE_UNIT_def CHUNK_SIZE_def)

subsection \<open>The shape of the unit table\<close>

definition starts_run :: "nat list \<Rightarrow> nat \<Rightarrow> bool" where
  "starts_run us u \<longleftrightarrow> u < length us \<and> us ! u \<noteq> UNIT_FREE \<and> us ! u \<noteq> UNIT_INTERIOR"

definition free_window :: "nat list \<Rightarrow> nat \<Rightarrow> nat \<Rightarrow> bool" where
  "free_window us s k \<longleftrightarrow> s + k \<le> length us \<and> (\<forall>j. s \<le> j \<and> j < s + k \<longrightarrow> us ! j = UNIT_FREE)"

lemma free_window_0: "s \<le> length us \<Longrightarrow> free_window us s 0"
  by (simp add: free_window_def)

lemma run_shape_alt:
  "run_shape us \<longleftrightarrow>
     (\<forall>u. starts_run us u \<longrightarrow> u + us ! u \<le> length us \<and> (\<forall>j. u < j \<and> j < u + us ! u \<longrightarrow> us ! j = UNIT_INTERIOR))
   \<and> (\<forall>j < length us. us ! j = UNIT_INTERIOR \<longrightarrow> (\<exists>u < j. starts_run us u \<and> j < u + us ! u))"
  unfolding run_shape_def starts_run_def by (meson less_trans)

lemma run_fits: "run_shape us \<Longrightarrow> starts_run us u \<Longrightarrow> u + us ! u \<le> length us"
  by (simp add: run_shape_alt)

lemma run_interior:
  "run_shape us \<Longrightarrow> starts_run us u \<Longrightarrow> u < j \<Longrightarrow> j < u + us ! u \<Longrightarrow> us ! j = UNIT_INTERIOR"
  by (simp add: run_shape_alt)

lemma run_pos: "starts_run us u \<Longrightarrow> 0 < us ! u"
  by (simp add: starts_run_def UNIT_FREE_def)

lemma interior_in_run:
  "run_shape us \<Longrightarrow> j < length us \<Longrightarrow> us ! j = UNIT_INTERIOR \<Longrightarrow>
   \<exists>u < j. starts_run us u \<and> j < u + us ! u"
  by (simp add: run_shape_alt)

text \<open>Live runs are pairwise disjoint, and disjoint from every free window.\<close>

lemma runs_ordered:
  assumes "run_shape us" "starts_run us u" "starts_run us v" "u < v"
  shows "u + us ! u \<le> v"
proof (rule ccontr)
  assume "\<not> u + us ! u \<le> v"
  with assms have "us ! v = UNIT_INTERIOR" by (intro run_interior) auto
  with assms(3) show False by (simp add: starts_run_def)
qed

lemma run_avoids_free:
  assumes "run_shape us" "starts_run us u" "free_window us s k" "0 < k"
  shows "u + us ! u \<le> s \<or> s + k \<le> u"
proof (rule ccontr)
  assume "\<not> ?thesis"
  then have o: "s < u + us ! u" "u < s + k" by auto
  show False
  proof (cases "u < s")
    case True
    with o assms(1,2) have "us ! s = UNIT_INTERIOR" by (intro run_interior) auto
    moreover have "us ! s = UNIT_FREE" using assms(3,4) by (simp add: free_window_def)
    ultimately show False by simp
  next
    case False
    with o assms(3) have "us ! u = UNIT_FREE" by (auto simp: free_window_def)
    with assms(2) show False by (simp add: starts_run_def)
  qed
qed

text \<open>Writing one run over a window that no other run straddles keeps the shape.\<close>

definition put_run :: "nat list \<Rightarrow> nat \<Rightarrow> nat \<Rightarrow> nat list" where
  "put_run us s k = set_range (us[s := k]) (s + 1) (s + k) UNIT_INTERIOR"

definition no_straddle :: "nat list \<Rightarrow> nat \<Rightarrow> nat \<Rightarrow> bool" where
  "no_straddle us s k \<longleftrightarrow>
     (\<forall>u. starts_run us u \<longrightarrow> u + us ! u \<le> s \<or> s + k \<le> u \<or> (s \<le> u \<and> u + us ! u \<le> s + k))"

lemma length_put_run [simp]: "length (put_run us s k) = length us"
  by (simp add: put_run_def)

lemma nth_put_run:
  "i < length us \<Longrightarrow> s < length us \<Longrightarrow>
   put_run us s k ! i = (if i = s then k else if s < i \<and> i < s + k then UNIT_INTERIOR else us ! i)"
  by (auto simp: put_run_def nth_list_update)

lemma starts_put_run:
  assumes "s + k \<le> length us" "0 < k" "k \<noteq> UNIT_INTERIOR"
  shows "starts_run (put_run us s k) u \<longleftrightarrow> u = s \<or> (starts_run us u \<and> \<not> (s \<le> u \<and> u < s + k))"
  using assms by (auto simp: starts_run_def nth_put_run UNIT_FREE_def split: if_splits)

lemma run_shape_put_run:
  assumes sh: "run_shape us" and fit: "s + k \<le> length us" and k: "0 < k" "k \<noteq> UNIT_INTERIOR"
    and ns: "no_straddle us s k"
  shows "run_shape (put_run us s k)"
  unfolding run_shape_alt
proof (intro conjI allI impI, goal_cases)
  case (1 u)
  then consider "u = s" | "starts_run us u" "\<not> (s \<le> u \<and> u < s + k)"
    using starts_put_run [OF fit k] by blast
  then show ?case
    by cases (use fit k 1 run_fits [OF sh, of u] in \<open>auto simp: nth_put_run starts_run_def\<close>)
next
  case (2 u j)
  then consider "u = s" | "starts_run us u" "\<not> (s \<le> u \<and> u < s + k)"
    using starts_put_run [OF fit k] by blast
  then show ?case
  proof cases
    case 1
    with 2 fit k show ?thesis by (auto simp: nth_put_run)
  next
    case 2
    have "put_run us s k ! u = us ! u" using 2 fit k by (auto simp: nth_put_run starts_run_def)
    with \<open>u < j \<and> _\<close> have j: "u < j" "j < u + us ! u" by auto
    then have "us ! j = UNIT_INTERIOR" "j < length us"
      using run_interior [OF sh 2(1)] run_fits [OF sh 2(1)] by auto
    moreover have "j \<noteq> s"
      using ns [unfolded no_straddle_def, rule_format, OF 2(1)] j 2(2) fit k by auto
    ultimately show ?thesis using fit k by (auto simp: nth_put_run)
  qed
next
  case (3 j)
  then have jl: "j < length us" by simp
  show ?case
  proof (cases "s \<le> j \<and> j < s + k")
    case True
    with 3 k fit have "s < j" by (auto simp: nth_put_run split: if_splits)
    with True fit k show ?thesis
      by (intro exI [of _ s]) (auto simp: starts_put_run nth_put_run)
  next
    case False
    with 3 jl fit k have "us ! j = UNIT_INTERIOR" by (auto simp: nth_put_run split: if_splits)
    with interior_in_run [OF sh jl] obtain u where u: "u < j" "starts_run us u" "j < u + us ! u"
      by blast
    have out: "\<not> (s \<le> u \<and> u < s + k)"
      using ns [unfolded no_straddle_def, rule_format, OF u(2)] u False by auto
    with u have "starts_run (put_run us s k) u" "put_run us s k ! u = us ! u"
      using fit k jl by (auto simp: starts_put_run nth_put_run)
    with u show ?thesis by auto
  qed
qed

text \<open>Freeing one run keeps the shape.\<close>

lemma run_shape_free_run:
  assumes sh: "run_shape us" and st: "starts_run us s"
  defines "vs \<equiv> set_range us s (s + us ! s) UNIT_FREE"
  shows "run_shape vs" and "starts_run vs u \<longleftrightarrow> starts_run us u \<and> u \<noteq> s"
proof -
  have starts: "starts_run vs u \<longleftrightarrow> starts_run us u \<and> u \<noteq> s" for u
  proof (cases "u = s")
    case True
    then show ?thesis using st run_pos [OF st] by (auto simp: vs_def starts_run_def)
  next
    case False
    have "starts_run us u \<Longrightarrow> \<not> (s \<le> u \<and> u < s + us ! s)"
      using runs_ordered [OF sh st] False by fastforce
    then show ?thesis using False by (auto simp: vs_def starts_run_def split: if_splits)
  qed
  then show "starts_run vs u \<longleftrightarrow> starts_run us u \<and> u \<noteq> s" .
  have same: "vs ! j = us ! j" if "starts_run us u" "u \<noteq> s" "u \<le> j" "j < u + us ! u" for u j
  proof -
    have "u + us ! u \<le> s \<or> s + us ! s \<le> u"
      using runs_ordered [OF sh st that(1)] runs_ordered [OF sh that(1) st] that(2) by linarith
    moreover have "j < length us" using run_fits [OF sh that(1)] that(4) by simp
    ultimately show ?thesis using that(3,4) by (auto simp: vs_def)
  qed
  show "run_shape vs"
    unfolding run_shape_alt
  proof (intro conjI allI impI, goal_cases)
    case (1 u)
    then have u: "starts_run us u" "u \<noteq> s" by (simp_all add: starts)
    with same [of u u] run_pos show ?case using run_fits [OF sh u(1)] by (auto simp: vs_def)
  next
    case (2 u j)
    then have u: "starts_run us u" "u \<noteq> s" by (simp_all add: starts)
    have "vs ! u = us ! u" using same [OF u, of u] run_pos [OF u(1)] by simp
    with 2 have "u < j" "j < u + us ! u" by auto
    with same [OF u, of j] run_interior [OF sh u(1), of j] show ?case by auto
  next
    case (3 j)
    then have "us ! j = UNIT_INTERIOR" "\<not> (s \<le> j \<and> j < s + us ! s)"
      by (auto simp: vs_def split: if_splits)
    with interior_in_run [OF sh, of j] 3 obtain u where u: "u < j" "starts_run us u" "j < u + us ! u"
      by (auto simp: vs_def)
    have "u \<noteq> s" using u \<open>\<not> _\<close> by auto
    moreover have "vs ! u = us ! u" using same [OF u(2) calculation, of u] run_pos [OF u(2)] by simp
    ultimately show ?case using u by (auto simp: starts)
  qed
qed

subsection \<open>The downward scan\<close>

lemma free_window_extend:
  "free_window us (Suc m) c \<Longrightarrow> us ! m = UNIT_FREE \<Longrightarrow> m < length us \<Longrightarrow> free_window us m (Suc c)"
  unfolding free_window_def by (metis Suc_leI add_Suc_shift order_le_less)

lemma scan_run_Some:
  assumes "scan_run us k (rev [hi..<m]) c = Some u" "free_window us m c" "c < k" "hi \<le> m"
  shows "hi \<le> u \<and> free_window us u k"
  using assms
proof (induction "m - hi" arbitrary: m c)
  case 0
  then show ?case by simp
next
  case (Suc n)
  then obtain m' where m: "m = Suc m'" "hi \<le> m'" by (cases m) auto
  have ext: "us ! m' = UNIT_FREE \<Longrightarrow> free_window us m' (Suc c)"
    using Suc.prems(2) m by (intro free_window_extend) (auto simp: free_window_def)
  show ?case
  proof (cases "us ! m' = UNIT_FREE")
    case True
    then show ?thesis using Suc.prems Suc.hyps(2) m ext Suc.hyps(1) [of m' "Suc c"]
      by (auto split: if_splits)
  next
    case False
    then show ?thesis using Suc.prems Suc.hyps(2) m Suc.hyps(1) [of m' 0]
      by (auto simp: free_window_def)
  qed
qed

lemma scan_run_None:
  assumes "scan_run us k (rev [hi..<m]) c = None" "c < k" "hi \<le> m" "m + c \<le> length us"
    and "hi \<le> s" "s + k \<le> m + c"
  shows "\<not> free_window us s k"
  using assms(1-4,6)
proof (induction "m - hi" arbitrary: m c)
  case 0
  then show ?case using assms(5) by simp
next
  case (Suc n)
  then obtain m' where m: "m = Suc m'" "hi \<le> m'" by (cases m) auto
  show ?case
  proof (cases "us ! m' = UNIT_FREE")
    case True
    then show ?thesis using Suc.prems Suc.hyps(2) m Suc.hyps(1) [of m' "Suc c"]
      by (auto split: if_splits)
  next
    case False
    show ?thesis
    proof (cases "s + k \<le> m'")
      case True
      then show ?thesis using False Suc.prems Suc.hyps(2) m Suc.hyps(1) [of m' 0] by auto
    next
      case s: False
      then have "s \<le> m' \<and> m' < s + k" using Suc.prems m by auto
      then show ?thesis using False by (auto simp: free_window_def)
    qed
  qed
qed

subsection \<open>What each operation does to the live runs\<close>

lemma runs_alt: "runs f = {(u, k). starts_run (fr_units f) u \<and> fr_hi f \<le> u \<and> k = fr_units f ! u}"
  by (auto simp: runs_def is_run_start_def starts_run_def)

lemma is_run_start_alt: "is_run_start f u \<longleftrightarrow> starts_run (fr_units f) u \<and> fr_hi f \<le> u"
  by (auto simp: is_run_start_def starts_run_def)

lemma frontier_startsD: "frontier_inv tot f \<Longrightarrow> starts_run (fr_units f) u \<Longrightarrow> fr_hi f \<le> u"
  unfolding frontier_inv_def starts_run_def by (meson not_le)

lemma frontier_runs:
  "frontier_inv tot f \<Longrightarrow> runs f = {(u, k). starts_run (fr_units f) u \<and> k = fr_units f ! u}"
  by (auto simp: runs_alt dest: frontier_startsD)

lemma write_run_eq:
  "start + k \<le> length (fr_units f) \<Longrightarrow> 0 < k \<Longrightarrow>
   write_run f start k = Some (f\<lparr>fr_units := put_run (fr_units f) start k\<rparr>)"
  by (simp add: write_run_def put_run_def)

lemma free_no_straddle: "run_shape us \<Longrightarrow> free_window us s k \<Longrightarrow> 0 < k \<Longrightarrow> no_straddle us s k"
  unfolding no_straddle_def using run_avoids_free by blast

lemma put_run_free_starts:
  assumes "free_window us s k" "0 < k" "k \<noteq> UNIT_INTERIOR"
  shows "{(u, n). starts_run (put_run us s k) u \<and> n = put_run us s k ! u} =
         insert (s, k) {(u, n). starts_run us u \<and> n = us ! u}"
proof -
  have fit: "s + k \<le> length us" using assms(1) by (simp add: free_window_def)
  have "\<not> (s \<le> u \<and> u < s + k)" if "starts_run us u" for u
    using that assms(1) by (auto simp: free_window_def starts_run_def)
  then have "starts_run (put_run us s k) u \<longleftrightarrow> u = s \<or> starts_run us u" for u
    using starts_put_run [OF fit assms(2,3)] by blast
  moreover have "starts_run us u \<Longrightarrow> put_run us s k ! u = us ! u" for u
    using assms fit by (auto simp: nth_put_run starts_run_def free_window_def)
  moreover have "put_run us s k ! s = k" using fit assms(2) by (auto simp: nth_put_run)
  moreover have "\<not> starts_run us s" using assms by (auto simp: free_window_def starts_run_def)
  ultimately show ?thesis by auto
qed

lemma frontier_inv_put:
  assumes inv: "frontier_inv tot f" and fit: "s + k \<le> length (fr_units f)" and k: "0 < k"
    and ns: "no_straddle (fr_units f) s k" and lo: "fr_lo f \<le> s * LARGE_UNIT"
  shows "frontier_inv tot (f\<lparr>fr_units := put_run (fr_units f) s k, fr_hi := min (fr_hi f) s\<rparr>)"
proof -
  note I = inv [unfolded frontier_inv_def]
  have kI: "k \<noteq> UNIT_INTERIOR" using I fit by linarith
  have shape: "run_shape (put_run (fr_units f) s k)"
    using I run_shape_put_run [OF _ fit k kI ns] by blast
  have edge: "put_run (fr_units f) s k ! min (fr_hi f) s \<noteq> UNIT_FREE"
    using I fit k by (cases "s \<le> fr_hi f") (auto simp: nth_put_run min_def UNIT_FREE_def)
  have "\<forall>i < min (fr_hi f) s. put_run (fr_units f) s k ! i = UNIT_FREE"
    using I fit k by (auto simp: nth_put_run)
  moreover have "fr_lo f \<le> min (fr_hi f) s * LARGE_UNIT"
    using I fit k lo by (auto simp: min_def)
  moreover have "min (fr_hi f) s \<le> length (fr_units f)" using I by (simp add: min_def)
  ultimately show ?thesis using I shape edge by (simp add: frontier_inv_def)
qed

lemma frontier_shape: "frontier_inv tot f \<Longrightarrow> run_shape (fr_units f)"
  by (simp add: frontier_inv_def)

lemma frontier_inv_put_free:
  "frontier_inv tot f \<Longrightarrow> free_window (fr_units f) s k \<Longrightarrow> 0 < k \<Longrightarrow> fr_lo f \<le> s * LARGE_UNIT \<Longrightarrow>
   frontier_inv tot (f\<lparr>fr_units := put_run (fr_units f) s k, fr_hi := min (fr_hi f) s\<rparr>)"
  by (rule frontier_inv_put)
    (auto simp: free_window_def intro: free_no_straddle frontier_shape)

lemma frontier_scan:
  assumes inv: "frontier_inv tot f" and k: "0 < k"
    and sc: "scan_run (fr_units f) k (rev [fr_hi f..<length (fr_units f)]) 0 = Some u"
  shows "free_window (fr_units f) u k \<and> fr_hi f < u \<and> fr_lo f \<le> u * LARGE_UNIT"
proof -
  note I = inv [unfolded frontier_inv_def]
  have w: "fr_hi f \<le> u" "free_window (fr_units f) u k"
    using scan_run_Some [OF sc] k I by (auto simp: free_window_def)
  then have "u < length (fr_units f)" "fr_units f ! u = UNIT_FREE"
    using k by (auto simp: free_window_def)
  with w I have "fr_hi f < u" "fr_lo f \<le> fr_hi f * LARGE_UNIT" by (auto simp: le_less)
  moreover have "fr_hi f * LARGE_UNIT \<le> u * LARGE_UNIT" using w(1) by (rule mult_le_mono1)
  ultimately show ?thesis using w(2) by linarith
qed

lemma frontier_edge_window:
  assumes inv: "frontier_inv tot f" and k: "k \<le> fr_hi f"
  shows "free_window (fr_units f) (fr_hi f - k) k"
  using inv k by (auto simp: frontier_inv_def free_window_def)

lemma take_run_cases:
  assumes inv: "frontier_inv tot f" and k: "0 < k"
  shows "take_run f k = Some (None, f)
           \<and> (\<forall>s. fr_lo f \<le> s * LARGE_UNIT \<longrightarrow> \<not> free_window (fr_units f) s k)
       \<or> (\<exists>s. free_window (fr_units f) s k \<and> fr_lo f \<le> s * LARGE_UNIT \<and>
            take_run f k = Some (Some s,
              f\<lparr>fr_units := put_run (fr_units f) s k, fr_hi := min (fr_hi f) s\<rparr>))"
proof (cases "k > length (fr_units f)")
  case True
  then show ?thesis by (auto simp: take_run_def free_window_def)
next
  case fits: False
  note I = inv [unfolded frontier_inv_def]
  have k32: "\<not> k > UNIT_INTERIOR" using I fits by linarith
  show ?thesis
  proof (cases "scan_run (fr_units f) k (rev [fr_hi f..<length (fr_units f)]) 0")
    case (Some u)
    have u: "free_window (fr_units f) u k" "fr_hi f < u" "fr_lo f \<le> u * LARGE_UNIT"
      using frontier_scan [OF inv k Some] by auto
    then have "write_run f u k = Some (f\<lparr>fr_units := put_run (fr_units f) u k\<rparr>)"
      using k by (intro write_run_eq) (auto simp: free_window_def)
    moreover have "min (fr_hi f) u = fr_hi f" using u by simp
    ultimately show ?thesis using u Some k fits k32 by (auto simp: take_run_def)
  next
    case None
    have above: "\<not> free_window (fr_units f) s k" if "fr_hi f \<le> s" for s
      using scan_run_None [OF None k] I that by (auto simp: free_window_def)
    have crossing: "\<not> free_window (fr_units f) s k"
      if "s < fr_hi f" "fr_hi f < s + k" for s
    proof
      assume "free_window (fr_units f) s k"
      then have "fr_units f ! fr_hi f = UNIT_FREE" "fr_hi f < length (fr_units f)"
        using that by (auto simp: free_window_def)
      with I show False by blast
    qed
    show ?thesis
    proof (cases "fr_hi f < k \<or> (fr_hi f - k) * LARGE_UNIT < fr_lo f")
      case True
      have "\<not> free_window (fr_units f) s k" if lo: "fr_lo f \<le> s * LARGE_UNIT" for s
      proof (cases "s + k \<le> fr_hi f")
        case sk: True
        then have "s * LARGE_UNIT \<le> (fr_hi f - k) * LARGE_UNIT"
          by (intro mult_le_mono1) simp
        with True lo sk show ?thesis by linarith
      next
        case False
        then show ?thesis using above crossing by (meson not_le)
      qed
      moreover have "take_run f k = Some (None, f)"
        using True None k fits k32 by (auto simp: take_run_def)
      ultimately show ?thesis by blast
    next
      case False
      define s where "s = fr_hi f - k"
      have w: "free_window (fr_units f) s k" "fr_lo f \<le> s * LARGE_UNIT" "s \<le> fr_hi f"
        using frontier_edge_window [OF inv] False by (auto simp: s_def)
      have "write_run (f\<lparr>fr_hi := s\<rparr>) s k =
          Some (f\<lparr>fr_hi := s, fr_units := put_run (fr_units f) s k\<rparr>)"
        using w k by (subst write_run_eq) (auto simp: free_window_def)
      moreover have "min (fr_hi f) s = s" using w by simp
      ultimately have "take_run f k = Some (Some s,
          f\<lparr>fr_units := put_run (fr_units f) s k, fr_hi := min (fr_hi f) s\<rparr>)"
        using False None k fits k32 by (simp add: take_run_def s_def [symmetric] Let_def)
      with w show ?thesis by blast
    qed
  qed
qed

lemma take_run_inv [inv_intros]:
  "frontier_inv tot f \<Longrightarrow> take_run f k = Some (r, f') \<Longrightarrow> frontier_inv tot f'"
proof (cases "k = 0")
  case False
  assume inv: "frontier_inv tot f" and t: "take_run f k = Some (r, f')"
  show ?thesis using take_run_cases [OF inv, of k] False t inv
    by (auto intro: frontier_inv_put_free)
qed (simp add: take_run_def)

subsection \<open>Growing a run\<close>

lemma count_above_spec:
  assumes "n \<le> extra" "free_window (fr_units f) base n"
  shows "n \<le> count_above f base extra n \<and> count_above f base extra n \<le> extra
       \<and> free_window (fr_units f) base (count_above f base extra n)"
  using assms
proof (induction f base extra n rule: count_above.induct)
  case (1 f base extra n)
  show ?case
  proof (cases "n < extra \<and> base + n < length (fr_units f) \<and> fr_units f ! (base + n) = UNIT_FREE")
    case True
    then have "free_window (fr_units f) base (n + 1)"
      using 1(3) by (auto simp: free_window_def less_Suc_eq)
    with 1(1) True show ?thesis by (auto simp: count_above.simps [of f base extra n])
  next
    case False
    with 1(2,3) show ?thesis by (auto simp: count_above.simps [of f base extra n])
  qed
qed

text \<open>What \<^verbatim>\<open>count_below\<close> has checked: the \<open>n\<close> units under \<open>start\<close> are claimable.\<close>

definition claimable :: "frontier \<Rightarrow> nat \<Rightarrow> nat \<Rightarrow> bool" where
  "claimable f start n \<longleftrightarrow> n \<le> start \<and> (\<forall>u. start - n \<le> u \<and> u < start \<longrightarrow>
     (if fr_hi f \<le> u then fr_units f ! u = UNIT_FREE else fr_lo f \<le> u * LARGE_UNIT))"

lemma claimable_0: "claimable f start 0"
  by (simp add: claimable_def)

lemma claimable_Suc:
  assumes "claimable f start n" "n < start"
    and c: "if fr_hi f \<le> start - (Suc n) then fr_units f ! (start - (Suc n)) = UNIT_FREE
       else fr_lo f \<le> (start - (Suc n)) * LARGE_UNIT"
  shows "claimable f start (Suc n)"
  unfolding claimable_def
proof (intro conjI allI impI, goal_cases)
  case 1
  then show ?case using assms by simp
next
  case (2 u)
  then consider "u = start - (Suc n)" | "start - n \<le> u" by linarith
  then show ?case
  proof cases
    case 1
    then show ?thesis using c by simp
  next
    case le: 2
    then show ?thesis using assms(1) 2 by (simp add: claimable_def)
  qed
qed

lemma count_below_spec:
  assumes "n \<le> shift" "claimable f start n"
  shows "count_below f start shift n \<le> shift \<and> claimable f start (count_below f start shift n)"
  using assms
proof (induction f start shift n rule: count_below.induct)
  case (1 f start shift n)
  define free where "free \<longleftrightarrow> (if start - (Suc n) \<ge> fr_hi f then fr_units f ! (start - (Suc n)) = UNIT_FREE
      else (start - (Suc n)) * LARGE_UNIT \<ge> fr_lo f)"
  show ?case
  proof (cases "n < shift \<and> \<not> start < Suc n \<and> free")
    case True
    then have step: "claimable f start (Suc n)"
      using 1(3) by (intro claimable_Suc) (auto simp: free_def)
    from True have "count_below f start shift n = count_below f start shift (Suc n)"
      by (simp add: count_below.simps [of f start shift n] free_def Let_def)
    with 1(1) [OF _ _ refl refl] step True show ?thesis by (simp add: free_def)
  next
    case False
    then have "count_below f start shift n = n"
      by (auto simp: count_below.simps [of f start shift n] free_def Let_def)
    with 1(2,3) show ?thesis by simp
  qed
qed

lemma claimable_window:
  assumes inv: "frontier_inv tot f" and "is_run_start f start" "claimable f start n"
  shows "free_window (fr_units f) (start - n) n \<and> fr_lo f \<le> (start - n) * LARGE_UNIT"
proof -
  note I = inv [unfolded frontier_inv_def]
  have st: "start < length (fr_units f)" "fr_hi f \<le> start" using assms(2) by (auto simp: is_run_start_def)
  then have lo_hi: "fr_lo f \<le> fr_hi f * LARGE_UNIT" using I by linarith
  have "fr_lo f \<le> (start - n) * LARGE_UNIT"
  proof (cases "fr_hi f \<le> start - n")
    case True
    then have "fr_hi f * LARGE_UNIT \<le> (start - n) * LARGE_UNIT" by (rule mult_le_mono1)
    with lo_hi show ?thesis by linarith
  next
    case False
    then have "start - n < start" using st by linarith
    with assms(3) False show ?thesis by (auto simp: claimable_def)
  qed
  moreover have "free_window (fr_units f) (start - n) n"
    unfolding free_window_def
  proof (intro conjI allI impI)
    show "start - n + n \<le> length (fr_units f)" using assms(3) st by (simp add: claimable_def)
    fix j assume "start - n \<le> j \<and> j < start - n + n"
    then have "start - n \<le> j" "j < start" using assms(3) by (auto simp: claimable_def)
    then show "fr_units f ! j = UNIT_FREE"
      using assms(3) I by (cases "fr_hi f \<le> j") (auto simp: claimable_def)
  qed
  ultimately show ?thesis by simp
qed

lemma grow_no_straddle:
  assumes sh: "run_shape us" and st: "starts_run us start"
    and lo: "free_window us (start - d) d" "d \<le> start" and up: "free_window us (start + us ! start) a"
  shows "no_straddle us (start - d) (d + us ! start + a)"
  unfolding no_straddle_def
proof (intro allI impI)
  fix u assume u: "starts_run us u"
  consider "u < start" | "u = start" | "start < u" by linarith
  then show "u + us ! u \<le> start - d \<or> start - d + (d + us ! start + a) \<le> u \<or>
      start - d \<le> u \<and> u + us ! u \<le> start - d + (d + us ! start + a)"
  proof cases
    case 1
    have "u + us ! u \<le> start" using runs_ordered [OF sh u st 1] .
    moreover have "d = 0 \<or> u + us ! u \<le> start - d \<or> start \<le> u"
      using run_avoids_free [OF sh u lo(1)] lo(2) by auto
    ultimately show ?thesis using 1 by linarith
  next
    case 2
    then show ?thesis using lo by simp
  next
    case 3
    have "start + us ! start \<le> u" using runs_ordered [OF sh st u 3] .
    moreover have "a = 0 \<or> u + us ! u \<le> start + us ! start \<or> start + us ! start + a \<le> u"
      using run_avoids_free [OF sh u up] by auto
    ultimately show ?thesis using lo run_pos [OF u] by linarith
  qed
qed

lemma put_run_grow_starts:
  assumes sh: "run_shape us" and st: "starts_run us start" and d: "d \<le> start"
    and fit: "start + us ! start + a \<le> length us" and kI: "d + us ! start + a \<noteq> UNIT_INTERIOR"
    and lo: "free_window us (start - d) d" and up: "free_window us (start + us ! start) a"
  defines "s \<equiv> start - d" and "k \<equiv> d + us ! start + a"
  shows "{(u, n). starts_run (put_run us s k) u \<and> n = put_run us s k ! u} =
         insert (s, k) ({(u, n). starts_run us u \<and> n = us ! u} - {(start, us ! start)})"
proof -
  have k: "0 < k" "s + k \<le> length us" "s < length us"
    using run_pos [OF st] fit d by (auto simp: k_def s_def)
  have inside: "starts_run us u \<and> s \<le> u \<and> u < s + k \<longleftrightarrow> u = start" for u
  proof
    assume u: "starts_run us u \<and> s \<le> u \<and> u < s + k"
    have "u + us ! u \<le> s \<or> start \<le> u" if "0 < d"
      using run_avoids_free [OF sh _ lo that] u d by (auto simp: s_def)
    moreover have "u + us ! u \<le> start + us ! start \<or> start + us ! start + a \<le> u" if "0 < a"
      using run_avoids_free [OF sh _ up that] u by auto
    moreover have "start < u \<Longrightarrow> start + us ! start \<le> u" using runs_ordered [OF sh st] u by blast
    ultimately show "u = start"
      using u d run_pos [of us u] unfolding s_def k_def by (cases u start rule: linorder_cases) force+
  qed (use st d run_pos [OF st] in \<open>auto simp: s_def k_def\<close>)
  have "starts_run (put_run us s k) u \<longleftrightarrow> u = s \<or> starts_run us u \<and> u \<noteq> start" for u
    using starts_put_run [OF k(2) k(1), of u] kI inside [of u] by (auto simp: k_def)
  moreover have "put_run us s k ! s = k" using k by (simp add: nth_put_run)
  moreover have "put_run us s k ! u = us ! u" if "starts_run us u" "u \<noteq> start" for u
    using inside [of u] that k by (auto simp: nth_put_run starts_run_def)
  moreover have "starts_run us s \<Longrightarrow> s = start" using inside [of s] k by auto
  ultimately show ?thesis by (auto; metis)
qed

text \<open>
  \<^verbatim>\<open>grow_run\<close> under the invariant: it never panics on a live run, leaves the state alone when
  it reports no room, and otherwise replaces exactly the run it was asked to widen.
\<close>

lemma grow_run_cases:
  assumes inv: "frontier_inv tot f" and st: "is_run_start f start"
  shows "\<exists>r f'. grow_run f start k_new = Some (r, f') \<and> frontier_inv tot f' \<and> fr_lo f' = fr_lo f
     \<and> (case r of None \<Rightarrow> f' = f
        | Some s \<Rightarrow> s \<le> start \<and> (start, fr_units f ! start) \<in> runs f
            \<and> runs f' = insert (s, max k_new (fr_units f ! start)) (runs f - {(start, fr_units f ! start)})
            \<and> start + fr_units f ! start \<le> s + max k_new (fr_units f ! start))"
proof -
  note I = inv [unfolded frontier_inv_def]
  define k where "k = fr_units f ! start"
  have S: "starts_run (fr_units f) start" using st by (simp add: is_run_start_alt)
  have sh: "run_shape (fr_units f)" using inv by (rule frontier_shape)
  have mem: "(start, k) \<in> runs f" using st by (simp add: runs_def k_def)
  show ?thesis
  proof (cases "k_new \<le> k")
    case True
    then have "insert (start, max k_new k) (runs f - {(start, k)}) = runs f"
      using mem by (auto simp: max_def)
    with True mem show ?thesis using inv st
      by (intro exI [of _ "Some start"] exI [of _ f]) (simp add: grow_run_def k_def)
  next
    case big: False
    define a where "a = count_above f (start + k) (k_new - k) 0"
    define sft where "sft = k_new - k - a"
    define b where "b = count_below f start sft 0"
    have unfold: "grow_run f start k_new =
       (if k_new > length (fr_units f) \<or> k_new > UNIT_INTERIOR \<or> b < sft then Some (None, f)
        else map_option (\<lambda>f'. (Some (start - sft), f'\<lparr>fr_hi := min (fr_hi f) (start - sft)\<rparr>))
               (write_run f (start - sft) k_new))"
      unfolding grow_run_def Let_def k_def [symmetric] a_def [symmetric] sft_def [symmetric] b_def [symmetric]
      using st big by (auto simp only: if_True if_False not_True_eq_False not_False_eq_True split: if_splits)
    show ?thesis
    proof (cases "k_new > length (fr_units f) \<or> k_new > UNIT_INTERIOR \<or> b < sft")
      case True
      then show ?thesis using unfold inv by auto
    next
      case ok: False
      have a: "a \<le> k_new - k" "free_window (fr_units f) (start + k) a"
        using count_above_spec [OF le0 free_window_0] run_fits [OF sh S]
        unfolding a_def k_def by blast+
      have "b \<le> sft" "claimable f start b"
        using count_below_spec [OF le0 claimable_0] unfolding b_def by blast+
      then have c: "claimable f start sft" using ok by simp
      then have d: "sft \<le> start" by (simp add: claimable_def)
      have w: "free_window (fr_units f) (start - sft) sft" "fr_lo f \<le> (start - sft) * LARGE_UNIT"
        using claimable_window [OF inv st c] by auto
      have kn: "sft + k + a = k_new" using a big by (simp add: sft_def)
      have fit: "start + k + a \<le> length (fr_units f)" using a(2) by (simp add: free_window_def)
      have ns: "no_straddle (fr_units f) (start - sft) k_new"
        using grow_no_straddle [OF sh S w(1) d a(2) [unfolded k_def]] kn by (simp add: k_def)
      let ?f = "f\<lparr>fr_units := put_run (fr_units f) (start - sft) k_new, fr_hi := min (fr_hi f) (start - sft)\<rparr>"
      have fit': "start - sft + k_new \<le> length (fr_units f)" using fit kn d by linarith
      have eq: "grow_run f start k_new = Some (Some (start - sft), ?f)"
        using unfold ok fit' big by (simp add: write_run_eq)
      have inv': "frontier_inv tot ?f"
        using frontier_inv_put [OF inv fit' _ ns w(2)] big by simp
      have kI: "sft + k + a \<noteq> UNIT_INTERIOR" using I ok kn by linarith
      have runs': "runs ?f = insert (start - sft, k_new) (runs f - {(start, k)})"
        using put_run_grow_starts [OF sh S d fit [unfolded k_def] kI [unfolded k_def] w(1) a(2) [unfolded k_def]]
          kn frontier_runs [OF inv] frontier_runs [OF inv']
        by (simp add: k_def)
      have "max k_new k = k_new" using big by simp
      with eq inv' runs' mem show ?thesis using kn d
        by (intro exI [of _ "Some (start - sft)"] exI [of _ ?f]) (simp add: k_def)
    qed
  qed
qed

subsection \<open>Releasing a run\<close>

lemma retreat_spec:
  assumes "hi \<le> length us"
  shows "hi \<le> retreat us hi \<and> retreat us hi \<le> length us
    \<and> (\<forall>i. hi \<le> i \<and> i < retreat us hi \<longrightarrow> us ! i = UNIT_FREE)
    \<and> (retreat us hi < length us \<longrightarrow> us ! retreat us hi \<noteq> UNIT_FREE)"
  using assms
proof (induction us hi rule: retreat.induct)
  case (1 us hi)
  show ?case
  proof (cases "hi < length us \<and> us ! hi = UNIT_FREE")
    case True
    with 1 have IH: "hi + 1 \<le> retreat us (hi + 1)" "retreat us (hi + 1) \<le> length us"
      "\<forall>i. hi + 1 \<le> i \<and> i < retreat us (hi + 1) \<longrightarrow> us ! i = UNIT_FREE"
      "retreat us (hi + 1) < length us \<longrightarrow> us ! retreat us (hi + 1) \<noteq> UNIT_FREE" by auto
    have "us ! i = UNIT_FREE" if "hi \<le> i" "i < retreat us (hi + 1)" for i
      using IH(3) True that by (cases "i = hi") auto
    with IH True show ?thesis by (simp add: retreat.simps [of us hi])
  next
    case False
    with 1(2) show ?thesis by (auto simp: retreat.simps [of us hi])
  qed
qed

lemma release_run_ok:
  assumes inv: "frontier_inv tot f" and st: "is_run_start f start"
  shows "\<exists>f'. release_run f start = Some (fr_units f ! start, f') \<and> frontier_inv tot f'
     \<and> fr_lo f' = fr_lo f \<and> runs f' = runs f - {(start, fr_units f ! start)}"
proof -
  note I = inv [unfolded frontier_inv_def]
  define k where "k = fr_units f ! start"
  define us where "us = set_range (fr_units f) start (start + k) UNIT_FREE"
  have S: "starts_run (fr_units f) start" "fr_hi f \<le> start" using st by (simp_all add: is_run_start_alt)
  have sh: "run_shape (fr_units f)" using inv by (rule frontier_shape)
  have len: "length us = length (fr_units f)" by (simp add: us_def)
  have shape: "run_shape us" using run_shape_free_run(1) [OF sh S(1)] by (simp add: us_def k_def)
  have starts: "starts_run us u \<longleftrightarrow> starts_run (fr_units f) u \<and> u \<noteq> start" for u
    using run_shape_free_run(2) [OF sh S(1)] by (simp add: us_def k_def)
  have same: "us ! u = fr_units f ! u" if "starts_run us u" for u
    using that by (auto simp: starts_run_def us_def split: if_splits)
  let ?f = "f\<lparr>fr_units := us, fr_hi := retreat us (fr_hi f)\<rparr>"
  have fit: "start + k \<le> length (fr_units f)" using run_fits [OF sh S(1)] by (simp add: k_def)
  have eq: "release_run f start = Some (k, ?f)"
    using st fit by (simp add: release_run_def k_def us_def Let_def)
  have hi: "fr_hi f < length (fr_units f)" using S by (simp add: starts_run_def)
  note R = retreat_spec [of "fr_hi f" us, unfolded len, OF less_imp_le [OF hi]]
  have lo: "fr_lo f \<le> retreat us (fr_hi f) * LARGE_UNIT"
    using I hi R mult_le_mono1 [of "fr_hi f" "retreat us (fr_hi f)" LARGE_UNIT] by linarith
  have below: "us ! i = UNIT_FREE" if "i < retreat us (fr_hi f)" for i
  proof (cases "i < fr_hi f")
    case True
    then show ?thesis using I S(2) hi by (auto simp: us_def)
  next
    case False
    then show ?thesis using R that by simp
  qed
  have inv': "frontier_inv tot ?f"
    using I R shape lo below by (simp add: frontier_inv_def len)
  have "runs ?f = runs f - {(start, k)}"
    using starts same unfolding frontier_runs [OF inv] frontier_runs [OF inv']
    by (auto simp: k_def; metis)
  with eq inv' show ?thesis by (simp add: k_def)
qed

subsection \<open>Carving a chunk and the fresh frontier\<close>

text \<open>Byte regions of the live runs.\<close>

definition run_bytes :: "frontier \<Rightarrow> (nat \<times> nat) set" where
  "run_bytes f = (\<lambda>(u, k). (u * LARGE_UNIT, k * LARGE_UNIT)) ` runs f"

lemma runs_above_lo:
  assumes inv: "frontier_inv tot f" and r: "(u, k) \<in> runs f"
  shows "fr_lo f \<le> u * LARGE_UNIT \<and> u + k \<le> length (fr_units f) \<and> 0 < k"
proof -
  have S: "starts_run (fr_units f) u" "fr_hi f \<le> u" "k = fr_units f ! u" using r by (auto simp: runs_alt)
  then have "fr_lo f \<le> fr_hi f * LARGE_UNIT"
    using inv by (auto simp: frontier_inv_def starts_run_def)
  also have "\<dots> \<le> u * LARGE_UNIT" using S(2) by (rule mult_le_mono1)
  finally show ?thesis using run_fits [OF frontier_shape [OF inv] S(1)] run_pos [OF S(1)] S(3) by simp
qed

lemma carve_chunk_ok:
  assumes inv: "frontier_inv tot f" and c: "carve_chunk f tot = Some (start, f')"
  shows "start = fr_lo f \<and> fr_lo f' = start + CHUNK_SIZE \<and> fr_units f' = fr_units f \<and> fr_hi f' = fr_hi f
     \<and> frontier_inv tot f' \<and> start + CHUNK_SIZE \<le> tot"
proof -
  note I = inv [unfolded frontier_inv_def]
  have f': "start = fr_lo f" "f' = f\<lparr>fr_lo := fr_lo f + CHUNK_SIZE\<rparr>" "fr_lo f + CHUNK_SIZE \<le> bottom_limit f tot"
    using c by (auto simp: carve_chunk_def Let_def split: if_splits)
  have lim: "bottom_limit f tot \<le> tot"
  proof (cases "fr_hi f = length (fr_units f)")
    case False
    have "fr_hi f * LARGE_UNIT \<le> (tot div LARGE_UNIT) * LARGE_UNIT" using I by (intro mult_le_mono1) simp
    also have "\<dots> \<le> tot" by simp
    finally show ?thesis using False by (simp add: bottom_limit_def)
  qed (simp add: bottom_limit_def)
  have "fr_hi f < length (fr_units f) \<longrightarrow> fr_lo f + CHUNK_SIZE \<le> fr_hi f * LARGE_UNIT"
    using f'(3) by (auto simp: bottom_limit_def split: if_splits)
  with I f' lim show ?thesis by (auto simp: frontier_inv_def)
qed

lemma run_shape_replicate_free: "run_shape (replicate n UNIT_FREE)"
  by (auto simp: run_shape_def)

lemma new_frontier_inv: "tot div LARGE_UNIT < UNIT_INTERIOR \<Longrightarrow> frontier_inv tot (new_frontier tot)"
  by (simp add: new_frontier_def frontier_inv_def run_shape_replicate_free Let_def)

lemma new_frontier_runs: "runs (new_frontier tot) = {}"
  by (auto simp: runs_def new_frontier_def is_run_start_def Let_def)

subsection \<open>The frontier as a region allocator\<close>

definition release_unit :: "frontier \<Rightarrow> nat \<Rightarrow> frontier option" where
  "release_unit f start = map_option snd (release_run f start)"

lemma live_runs_disjoint:
  assumes inv: "frontier_inv tot f" shows "all_disjoint (runs f)"
  unfolding all_disjoint_def
proof (intro ballI impI)
  fix x y assume xy: "x \<in> runs f" "y \<in> runs f" "x \<noteq> y"
  have S: "starts_run (fr_units f) (fst x)" "starts_run (fr_units f) (fst y)"
    "snd x = fr_units f ! fst x" "snd y = fr_units f ! fst y" using xy by (auto simp: runs_alt)
  with xy(3) have "fst x \<noteq> fst y" by (auto simp: prod_eq_iff)
  then show "regions_disjoint x y"
    using runs_ordered [OF frontier_shape [OF inv] S(1,2)] runs_ordered [OF frontier_shape [OF inv] S(2,1)]
    unfolding regions_disjoint_def S(3,4) by linarith
qed

lemma take_run_live:
  assumes inv: "frontier_inv tot f"
  shows "\<exists>r f'. take_run f k = Some (r, f') \<and> frontier_inv tot f' \<and> fr_lo f' = fr_lo f
    \<and> (case r of None \<Rightarrow> f' = f
       | Some s \<Rightarrow> (s, k) \<notin> runs f \<and> runs f' = insert (s, k) (runs f)
           \<and> (\<forall>x \<in> runs f. regions_disjoint (s, k) x))"
proof (cases "k = 0")
  case True
  then show ?thesis using inv by (simp add: take_run_def)
next
  case False
  then have k: "0 < k" by simp
  from take_run_cases [OF inv k] show ?thesis
  proof
    assume "take_run f k = Some (None, f) \<and>
      (\<forall>s. fr_lo f \<le> s * LARGE_UNIT \<longrightarrow> \<not> free_window (fr_units f) s k)"
    with inv show ?thesis by auto
  next
    assume "\<exists>s. free_window (fr_units f) s k \<and> fr_lo f \<le> s * LARGE_UNIT \<and> take_run f k =
      Some (Some s, f\<lparr>fr_units := put_run (fr_units f) s k, fr_hi := min (fr_hi f) s\<rparr>)"
    then obtain s where s: "free_window (fr_units f) s k" "fr_lo f \<le> s * LARGE_UNIT"
      and t: "take_run f k = Some (Some s, f\<lparr>fr_units := put_run (fr_units f) s k, fr_hi := min (fr_hi f) s\<rparr>)"
      by blast
    have inv': "frontier_inv tot (f\<lparr>fr_units := put_run (fr_units f) s k, fr_hi := min (fr_hi f) s\<rparr>)"
      using frontier_inv_put_free [OF inv s(1) k s(2)] .
    have kI: "k \<noteq> UNIT_INTERIOR" using s(1) inv unfolding free_window_def frontier_inv_def by linarith
    have "regions_disjoint (s, k) x" if "x \<in> runs f" for x
      using run_avoids_free [OF frontier_shape [OF inv] _ s(1) k] that
      by (fastforce simp: runs_alt regions_disjoint_def)
    moreover have "(s, k) \<notin> runs f"
      using s(1) k by (auto simp: runs_alt starts_run_def free_window_def)
    ultimately show ?thesis
      using t inv' put_run_free_starts [OF s(1) k kI] frontier_runs [OF inv] frontier_runs [OF inv'] by simp
  qed
qed

interpretation units: region_alloc "frontier_inv tot" runs "\<lambda>k. k" take_run release_unit
proof unfold_locales
  fix s r assume inv: "frontier_inv tot s"
  obtain res f' where t: "take_run s r = Some (res, f')" "frontier_inv tot f'"
    "case res of None \<Rightarrow> f' = s | Some a \<Rightarrow> (a, r) \<notin> runs s \<and> runs f' = insert (a, r) (runs s)
       \<and> (\<forall>x \<in> runs s. regions_disjoint (a, r) x)"
    using take_run_live [OF inv, of r] by blast
  then show "\<exists>res s'. take_run s r = Some (res, s') \<and> frontier_inv tot s' \<and>
      (case res of None \<Rightarrow> runs s' = runs s
       | Some a \<Rightarrow> \<exists>m. r \<le> m \<and> (a, m) \<notin> runs s \<and> runs s' = insert (a, m) (runs s)
           \<and> (\<forall>x \<in> runs s. regions_disjoint (a, m) x))"
    by (cases res) auto
next
  fix s a n assume "frontier_inv tot s" "(a, n) \<in> runs s"
  then show "\<exists>s'. release_unit s a = Some s' \<and> frontier_inv tot s' \<and> runs s' = runs s - {(a, n)}"
    using release_run_ok [of tot s a] by (auto simp: release_unit_def runs_def)
qed

subsection \<open>Runs of frontier operations\<close>

datatype frontier_op = Carve | Take nat | Grow nat nat | Release nat

fun frontier_exec :: "nat \<Rightarrow> frontier_op \<Rightarrow> frontier \<Rightarrow> frontier option" where
  "frontier_exec tot Carve f = Some (case carve_chunk f tot of None \<Rightarrow> f | Some (_, f') \<Rightarrow> f')"
| "frontier_exec tot (Take k) f = map_option snd (take_run f k)"
| "frontier_exec tot (Grow s k) f = map_option snd (grow_run f s k)"
| "frontier_exec tot (Release s) f = release_unit f s"

fun frontier_enabled :: "frontier_op \<Rightarrow> frontier \<Rightarrow> bool" where
  "frontier_enabled (Grow s k) f = is_run_start f s"
| "frontier_enabled (Release s) f = is_run_start f s"
| "frontier_enabled _ f = True"

lemma frontier_exec_total:
  assumes inv: "frontier_inv tot f" and en: "frontier_enabled a f"
  shows "\<exists>f'. frontier_exec tot a f = Some f' \<and> frontier_inv tot f'"
proof (cases a)
  case Carve
  then show ?thesis using inv carve_chunk_ok [OF inv] by (auto split: option.splits)
next
  case (Take k)
  then show ?thesis using take_run_live [OF inv, of k] by auto
next
  case (Grow s k)
  with en have "is_run_start f s" by simp
  from grow_run_cases [OF inv this, of k] Grow show ?thesis by auto
next
  case (Release s)
  with en have "is_run_start f s" by simp
  from release_run_ok [OF inv this] Release show ?thesis by (auto simp: release_unit_def)
qed

lemma frontier_exec_live: "frontier_exec tot a f = Some f' \<Longrightarrow> frontier_enabled a f"
  by (cases a) (auto simp: grow_run_def release_unit_def release_run_def split: if_splits)

interpretation fops: total_op_system "frontier_exec tot" "frontier_inv tot" frontier_enabled
proof unfold_locales
  show "frontier_inv tot s'" if "frontier_inv tot s" "frontier_exec tot a s = Some s'" for s a s'
    using frontier_exec_total [OF that(1) frontier_exec_live [OF that(2)]] that(2) by simp
  show "\<exists>s'. frontier_exec tot a s = Some s'" if "frontier_inv tot s" "frontier_enabled a s" for s a
    using frontier_exec_total [OF that] by blast
qed

subsection \<open>Properties\<close>

text \<open>
  (C19) From a fresh window of \<open>tot\<close> bytes, any sequence of chunk carves, run takes, grows
  and releases in which grow and release name live runs completes without a panic and ends
  in a state with the documented invariants, whose live runs are pairwise disjoint, lie
  inside the window and above every carved chunk.
\<close>

theorem frontier_ops_safe:
  assumes "tot div LARGE_UNIT < UNIT_INTERIOR"
    and "ops_enabled frontier_enabled (frontier_exec tot) ops (new_frontier tot)"
  shows "\<exists>f. run_ops (frontier_exec tot) ops (new_frontier tot) = Some f \<and> frontier_inv tot f
     \<and> all_disjoint (runs f)
     \<and> (\<forall>(u, k) \<in> runs f. fr_lo f \<le> u * LARGE_UNIT \<and> (u + k) * LARGE_UNIT \<le> tot)"
proof -
  obtain f where f: "run_ops (frontier_exec tot) ops (new_frontier tot) = Some f" "frontier_inv tot f"
    using fops.run_total [OF new_frontier_inv [OF assms(1)] assms(2)] by blast
  have "fr_lo f \<le> u * LARGE_UNIT \<and> (u + k) * LARGE_UNIT \<le> tot" if "(u, k) \<in> runs f" for u k
  proof -
    have "u + k \<le> tot div LARGE_UNIT" "fr_lo f \<le> u * LARGE_UNIT"
      using runs_above_lo [OF f(2) that] f(2) by (auto simp: frontier_inv_def)
    moreover have "(u + k) * LARGE_UNIT \<le> (tot div LARGE_UNIT) * LARGE_UNIT"
      using calculation(1) by (rule mult_le_mono1)
    moreover have "(tot div LARGE_UNIT) * LARGE_UNIT \<le> tot" by simp
    ultimately show ?thesis by linarith
  qed
  with f live_runs_disjoint [OF f(2)] show ?thesis by blast
qed

definition ops_example :: "frontier_op list" where
  "ops_example = [Take 1, Take 2, Release 3, Grow 1 3, Carve]"

lemma frontier_ops_safe_witness:
  "\<exists>f. run_ops (frontier_exec 4194304) ops_example (new_frontier 4194304) = Some f
     \<and> frontier_inv 4194304 f \<and> all_disjoint (runs f)
     \<and> (\<forall>(u, k) \<in> runs f. fr_lo f \<le> u * LARGE_UNIT \<and> (u + k) * LARGE_UNIT \<le> 4194304)"
  by (rule frontier_ops_safe) code_simp+

text \<open>
  (C20) \<^verbatim>\<open>take_run\<close> is complete and sound: a request for \<open>k > 0\<close> units is refused exactly
  when no \<open>k\<close> consecutive free units lie above the bottom frontier, a refusal changes
  nothing, and a grant hands out such a window and adds exactly that run to the live runs.
\<close>

theorem take_run_complete:
  assumes "frontier_inv tot f" "0 < k"
  shows "(take_run f k = Some (None, f) \<longleftrightarrow>
            (\<forall>s. fr_lo f \<le> s * LARGE_UNIT \<longrightarrow> \<not> free_window (fr_units f) s k))
    \<and> (take_run f k \<noteq> Some (None, f) \<longrightarrow>
         (\<exists>s f'. take_run f k = Some (Some s, f') \<and> free_window (fr_units f) s k
            \<and> fr_lo f \<le> s * LARGE_UNIT \<and> runs f' = insert (s, k) (runs f) \<and> frontier_inv tot f'))"
proof -
  obtain r f' where t: "take_run f k = Some (r, f')" "frontier_inv tot f'"
    and r: "case r of None \<Rightarrow> f' = f | Some s \<Rightarrow> (s, k) \<notin> runs f \<and> runs f' = insert (s, k) (runs f)
           \<and> (\<forall>x \<in> runs f. regions_disjoint (s, k) x)"
    using take_run_live [OF assms(1), of k] by blast
  show ?thesis
    using take_run_cases [OF assms] t r by (cases r) (simp_all, blast+)
qed

lemma take_run_complete_witness:
  "take_run (new_frontier 2097152) 3 = Some (None, new_frontier 2097152)"
proof -
  have inv: "frontier_inv 2097152 (new_frontier 2097152)" by (rule new_frontier_inv) code_simp
  have "\<not> free_window (fr_units (new_frontier 2097152)) s 3" for s
    by (simp add: free_window_def new_frontier_def LARGE_UNIT_def Let_def)
  then show ?thesis using take_run_complete [OF inv, of 3] by simp
qed

text \<open>
  \<^verbatim>\<open>grow_run\<close> on a live run: without room it changes nothing; otherwise the run it was
  given is replaced by one of \<open>max k_new k\<close> units that covers the old one (its first unit
  moves down only), every other run is untouched, and the invariants hold.
\<close>

theorem grow_run_replaces:
  assumes "frontier_inv tot f" "is_run_start f start"
  shows "\<exists>r f'. grow_run f start k_new = Some (r, f') \<and> frontier_inv tot f' \<and> fr_lo f' = fr_lo f
     \<and> (case r of None \<Rightarrow> f' = f
        | Some s \<Rightarrow> s \<le> start \<and> (start, fr_units f ! start) \<in> runs f
            \<and> runs f' = insert (s, max k_new (fr_units f ! start)) (runs f - {(start, fr_units f ! start)})
            \<and> start + fr_units f ! start \<le> s + max k_new (fr_units f ! start))"
  by (rule grow_run_cases [OF assms])

definition grown_example :: frontier where
  "grown_example = \<lparr>fr_lo = 65536, fr_hi = 2, fr_units = [0, 0, 1, 0]\<rparr>"

lemma grown_example_inv: "frontier_inv 4194304 grown_example"
proof (rule fops.run_inv)
  show "frontier_inv 4194304 (new_frontier 4194304)" by (rule new_frontier_inv) code_simp
  show "run_ops (frontier_exec 4194304) [Carve, Take 1, Take 1, Release 3] (new_frontier 4194304)
      = Some grown_example" by code_simp
qed

lemma grow_run_replaces_witness:
  "\<exists>r f'. grow_run grown_example 2 3 = Some (r, f') \<and> frontier_inv 4194304 f'"
  using grow_run_replaces [OF grown_example_inv, of 2 3]
  by (auto simp: is_run_start_def grown_example_def UNIT_FREE_def UNIT_INTERIOR_def)

end
