(* ===== verification/Slab_Pool.thy ===== *)
theory Slab_Pool
  imports Frontier
begin

text \<open>
  The slab pool (\<^verbatim>\<open>crates/minkowski/src/pool.rs\<close>): size classes, the shared inner state
  (free lists, frontier, side table, accounting), the per-thread block caches and the
  public \<^verbatim>\<open>SlabPool\<close> operations \<^verbatim>\<open>allocate\<close>, \<^verbatim>\<open>deallocate\<close>, \<^verbatim>\<open>grow\<close> and \<^verbatim>\<open>flush_caches\<close>.

  Addresses are byte offsets from the window base (the base is aligned to \<^verbatim>\<open>LARGE_UNIT\<close>, so an
  offset has the alignment of its address). A free list is the list of its blocks, head
  first; the intrusive next-pointers and the compare-and-swap loops behind it are the
  subject of a later theory. Each operation is one atomic step of the calling thread
  \<open>t\<close>; the thread caches are a list indexed by thread. The bytes \<^verbatim>\<open>grow\<close> copies are not part
  of the state. An outer \<open>None\<close> is a failed \<^verbatim>\<open>assert!\<close>.
\<close>

subsection \<open>Size classes\<close>

record layout =
  l_size :: nat
  l_align :: nat

datatype pool_exhausted = PoolExhausted layout

definition SIZE_CLASSES :: "nat list" where
  "SIZE_CLASSES = [64, 256, 1024, 4096, 65536, LARGE_UNIT]"

definition NUM_SLAB_CLASSES :: nat where "NUM_SLAB_CLASSES = 5"

definition LARGE_CLASS :: nat where "LARGE_CLASS = NUM_SLAB_CLASSES"

definition NUM_SIZE_CLASSES :: nat where "NUM_SIZE_CLASSES = 6"

definition SIDE_TABLE_UNALLOCATED :: nat where "SIDE_TABLE_UNALLOCATED = 255"

text \<open>\<^verbatim>\<open>Iterator::position\<close>.\<close>

fun position :: "('a \<Rightarrow> bool) \<Rightarrow> 'a list \<Rightarrow> nat option" where
  "position P [] = None"
| "position P (x # xs) = (if P x then Some 0 else map_option Suc (position P xs))"

definition size_class_for :: "layout \<Rightarrow> nat option" where
  "size_class_for l =
     (if l_align l > LARGE_UNIT then None
      else let size = max (l_size l) (l_align l) in
        Some (case position (\<lambda>s. s \<ge> size) (take NUM_SLAB_CLASSES SIZE_CLASSES) of
                Some c \<Rightarrow> c | None \<Rightarrow> LARGE_CLASS))"

definition div_ceil :: "nat \<Rightarrow> nat \<Rightarrow> nat" where
  "div_ceil a b = (a div b) + (if a mod b = 0 then 0 else 1)"

definition large_units_for :: "layout \<Rightarrow> nat" where
  "large_units_for l = div_ceil (max (l_size l) (l_align l)) LARGE_UNIT"

subsection \<open>The shared state\<close>

record slab_inner =
  si_total :: nat
  si_heads :: "nat list list"
  si_frontier :: frontier
  si_side :: "nat \<Rightarrow> nat"
  si_used :: nat
  si_epoch :: nat

definition slab_inner_new :: "nat \<Rightarrow> slab_inner" where
  "slab_inner_new budget =
     \<lparr>si_total = budget, si_heads = replicate NUM_SIZE_CLASSES [],
      si_frontier = new_frontier budget, si_side = (\<lambda>_. SIDE_TABLE_UNALLOCATED),
      si_used = 0, si_epoch = 0\<rparr>"

definition side_index :: "nat \<Rightarrow> nat" where
  "side_index addr = addr div (SIZE_CLASSES ! 0)"

definition record_allocation :: "slab_inner \<Rightarrow> nat \<Rightarrow> nat \<Rightarrow> nat \<Rightarrow> slab_inner" where
  "record_allocation p block class bytes =
     p\<lparr>si_used := si_used p + bytes, si_side := (si_side p)(side_index block := class)\<rparr>"

definition pop_free :: "slab_inner \<Rightarrow> nat \<Rightarrow> (nat \<times> slab_inner) option" where
  "pop_free p class =
     (case si_heads p ! class of
        [] \<Rightarrow> None
      | b # bs \<Rightarrow> Some (b, p\<lparr>si_heads := (si_heads p)[class := bs]\<rparr>))"

definition push_chain :: "slab_inner \<Rightarrow> nat \<Rightarrow> nat list \<Rightarrow> slab_inner" where
  "push_chain p class chain = p\<lparr>si_heads := (si_heads p)[class := chain @ si_heads p ! class]\<rparr>"

definition carve :: "slab_inner \<Rightarrow> nat \<Rightarrow> (nat \<times> slab_inner) option" where
  "carve p class =
     (case carve_chunk (si_frontier p) (si_total p) of
        None \<Rightarrow> None
      | Some (offset, f) \<Rightarrow>
          let block_size = SIZE_CLASSES ! class;
              count = CHUNK_SIZE div block_size;
              p' = p\<lparr>si_frontier := f\<rparr>
          in Some (offset, if count > 1
               then push_chain p' class (map (\<lambda>i. offset + i * block_size) [1..<count]) else p'))"

definition slab_allocate :: "slab_inner \<Rightarrow> nat \<Rightarrow> layout \<Rightarrow> (pool_exhausted + nat) \<times> slab_inner" where
  "slab_allocate p class l =
     (case (case pop_free p class of Some r \<Rightarrow> Some r | None \<Rightarrow> carve p class) of
        None \<Rightarrow> (Inl (PoolExhausted l), p)
      | Some (block, p') \<Rightarrow> (Inr block, record_allocation p' block class (SIZE_CLASSES ! class)))"

definition large_allocate :: "slab_inner \<Rightarrow> layout \<Rightarrow> ((pool_exhausted + nat) \<times> slab_inner) option" where
  "large_allocate p l =
     (let k = large_units_for l in
      case take_run (si_frontier p) k of
        None \<Rightarrow> None
      | Some (None, f) \<Rightarrow> Some (Inl (PoolExhausted l), p\<lparr>si_frontier := f\<rparr>)
      | Some (Some start, f) \<Rightarrow>
          Some (Inr (start * LARGE_UNIT),
            record_allocation (p\<lparr>si_frontier := f\<rparr>) (start * LARGE_UNIT) LARGE_CLASS (k * LARGE_UNIT)))"

definition large_deallocate :: "slab_inner \<Rightarrow> nat \<Rightarrow> slab_inner option" where
  "large_deallocate p block =
     (if block mod LARGE_UNIT \<noteq> 0 then None
      else case release_run (si_frontier p) (block div LARGE_UNIT) of
        None \<Rightarrow> None
      | Some (k, f) \<Rightarrow>
          Some (p\<lparr>si_side := (si_side p)(side_index block := SIDE_TABLE_UNALLOCATED),
                   si_frontier := f, si_used := si_used p - k * LARGE_UNIT\<rparr>))"

definition large_grow :: "slab_inner \<Rightarrow> nat \<Rightarrow> layout \<Rightarrow> (nat option \<times> slab_inner) option" where
  "large_grow p block new =
     (if block mod LARGE_UNIT \<noteq> 0 then None
      else let start = block div LARGE_UNIT;
               k_new = large_units_for new;
               k_old = fr_units (si_frontier p) ! start
      in case grow_run (si_frontier p) start k_new of
        None \<Rightarrow> None
      | Some (None, f) \<Rightarrow> Some (None, p\<lparr>si_frontier := f\<rparr>)
      | Some (Some new_start, f) \<Rightarrow>
          let k_new' = max k_new k_old;
              new_block = new_start * LARGE_UNIT;
              side = (if new_start \<noteq> start
                then ((si_side p)(side_index block := SIDE_TABLE_UNALLOCATED))
                       (side_index new_block := si_side p (side_index block))
                else si_side p)
          in Some (Some new_block,
               p\<lparr>si_frontier := f, si_side := side, si_used := si_used p + (k_new' - k_old) * LARGE_UNIT\<rparr>))"

text \<open>A zero-sized request gets the dangling pointer of its alignment.\<close>

datatype ptr = Dangling nat | At nat

definition global_allocate :: "slab_inner \<Rightarrow> layout \<Rightarrow> ((pool_exhausted + ptr) \<times> slab_inner) option" where
  "global_allocate p l =
     (if l_size l = 0 then Some (Inr (Dangling (l_align l)), p)
      else case size_class_for l of
        None \<Rightarrow> Some (Inl (PoolExhausted l), p)
      | Some class \<Rightarrow>
          if class = LARGE_CLASS then map_option (apfst (map_sum id At)) (large_allocate p l)
          else Some (apfst (map_sum id At) (slab_allocate p class l)))"

definition lookup :: "slab_inner \<Rightarrow> nat \<Rightarrow> nat option" where
  "lookup p addr =
     (if addr \<ge> si_total p then None
      else let class = si_side p (side_index addr) in
        if class < NUM_SIZE_CLASSES then Some class else None)"

definition slab_deallocate :: "slab_inner \<Rightarrow> nat \<Rightarrow> nat \<Rightarrow> slab_inner" where
  "slab_deallocate p class block =
     (let p1 = p\<lparr>si_side := (si_side p)(side_index block := SIDE_TABLE_UNALLOCATED)\<rparr>;
          p2 = push_chain p1 class [block]
      in p2\<lparr>si_used := si_used p2 - SIZE_CLASSES ! class\<rparr>)"

definition global_deallocate :: "slab_inner \<Rightarrow> ptr \<Rightarrow> layout \<Rightarrow> slab_inner option" where
  "global_deallocate p a l =
     (if l_size l = 0 then Some p
      else case a of
        Dangling _ \<Rightarrow> None
      | At block \<Rightarrow>
          (case lookup p block of
             None \<Rightarrow> None
           | Some class \<Rightarrow> if class = LARGE_CLASS then large_deallocate p block
                           else Some (slab_deallocate p class block)))"

text \<open>Routed by the side table entry; the bin's class is only a debug check.\<close>

definition global_deallocate_to_class :: "slab_inner \<Rightarrow> nat \<Rightarrow> nat \<Rightarrow> slab_inner option" where
  "global_deallocate_to_class p class block =
     (case lookup p block of
        None \<Rightarrow> None
      | Some actual \<Rightarrow> if actual = LARGE_CLASS then large_deallocate p block
                       else Some (slab_deallocate p actual block))"

subsection \<open>Thread caches\<close>

definition TCACHE_REFILL :: nat where "TCACHE_REFILL = 16"
definition TCACHE_CAPACITY :: nat where "TCACHE_CAPACITY = 32"
definition TCACHE_SPILL :: nat where "TCACHE_SPILL = 16"

text \<open>A bin is the list \<^verbatim>\<open>stack[0..count]\<close>, bottom first.\<close>

record tcache =
  tc_bins :: "nat list list"
  tc_epoch :: nat

definition bin_pop :: "nat list \<Rightarrow> (nat \<times> nat list) option" where
  "bin_pop bin = (if bin = [] then None else Some (last bin, butlast bin))"

definition bin_push :: "nat list \<Rightarrow> nat \<Rightarrow> nat list option" where
  "bin_push bin b = (if length bin < TCACHE_CAPACITY then Some (bin @ [b]) else None)"

definition bin_is_full :: "nat list \<Rightarrow> bool" where
  "bin_is_full bin \<longleftrightarrow> length bin \<ge> TCACHE_CAPACITY"

definition tcache_new :: "slab_inner \<Rightarrow> tcache" where
  "tcache_new p = \<lparr>tc_bins = replicate NUM_SLAB_CLASSES [], tc_epoch = si_epoch p\<rparr>"

fun dealloc_all :: "slab_inner \<Rightarrow> nat \<Rightarrow> nat list \<Rightarrow> slab_inner option" where
  "dealloc_all p class [] = Some p"
| "dealloc_all p class (b # bs) =
     (case global_deallocate_to_class p class b of None \<Rightarrow> None | Some p' \<Rightarrow> dealloc_all p' class bs)"

fun flush_classes :: "slab_inner \<Rightarrow> nat list \<Rightarrow> nat list list \<Rightarrow> slab_inner option" where
  "flush_classes p [] bins = Some p"
| "flush_classes p (class # cs) bins =
     (case dealloc_all p class (bins ! class) of None \<Rightarrow> None | Some p' \<Rightarrow> flush_classes p' cs bins)"

definition flush_all :: "slab_inner \<Rightarrow> tcache \<Rightarrow> (slab_inner \<times> tcache) option" where
  "flush_all p c =
     map_option (\<lambda>p'. (p', c\<lparr>tc_bins := replicate NUM_SLAB_CLASSES []\<rparr>))
       (flush_classes p [0..<NUM_SLAB_CLASSES] (tc_bins c))"

definition spill :: "slab_inner \<Rightarrow> tcache \<Rightarrow> nat \<Rightarrow> (slab_inner \<times> tcache) option" where
  "spill p c class =
     (let bin = tc_bins c ! class; n = min TCACHE_SPILL (length bin) in
      map_option (\<lambda>p'. (p', c\<lparr>tc_bins := (tc_bins c)[class := drop n bin]\<rparr>))
        (dealloc_all p class (take n bin)))"

definition cache_push :: "slab_inner \<Rightarrow> tcache \<Rightarrow> nat \<Rightarrow> nat \<Rightarrow> (slab_inner \<times> tcache) option" where
  "cache_push p c class b =
     (case (if bin_is_full (tc_bins c ! class) then spill p c class else Some (p, c)) of
        None \<Rightarrow> None
      | Some (p', c') \<Rightarrow>
          map_option (\<lambda>bin. (p', c'\<lparr>tc_bins := (tc_bins c')[class := bin]\<rparr>)) (bin_push (tc_bins c' ! class) b))"

fun refill_loop :: "nat \<Rightarrow> slab_inner \<Rightarrow> tcache \<Rightarrow> nat \<Rightarrow> (slab_inner \<times> tcache) option" where
  "refill_loop 0 p c class = Some (p, c)"
| "refill_loop (Suc n) p c class =
     (case pop_free p class of
        None \<Rightarrow> Some (p, c)
      | Some (b, p') \<Rightarrow>
          (case cache_push (record_allocation p' b class (SIZE_CLASSES ! class)) c class b of
             None \<Rightarrow> None
           | Some (p'', c') \<Rightarrow> refill_loop n p'' c' class))"

definition refill :: "slab_inner \<Rightarrow> tcache \<Rightarrow> nat \<Rightarrow> layout
    \<Rightarrow> ((pool_exhausted + ptr) \<times> slab_inner \<times> tcache) option" where
  "refill p c class l =
     (case global_allocate p l of
        None \<Rightarrow> None
      | Some (Inl e, p') \<Rightarrow> Some (Inl e, p', c)
      | Some (Inr first, p') \<Rightarrow> map_option (Pair (Inr first)) (refill_loop (TCACHE_REFILL - 1) p' c class))"

subsection \<open>The public pool\<close>

record slab_pool =
  sp_inner :: slab_inner
  sp_caches :: "tcache option list"

definition slab_pool_new :: "nat \<Rightarrow> nat \<Rightarrow> slab_pool" where
  "slab_pool_new budget threads = \<lparr>sp_inner = slab_inner_new budget, sp_caches = replicate threads None\<rparr>"

text \<open>The cache of thread \<open>t\<close>: created on first use, flushed when its epoch is stale.\<close>

definition current_cache :: "slab_pool \<Rightarrow> nat \<Rightarrow> (slab_inner \<times> tcache) option" where
  "current_cache p t =
     (let c = (case sp_caches p ! t of Some c \<Rightarrow> c | None \<Rightarrow> tcache_new (sp_inner p));
          ge = si_epoch (sp_inner p)
      in if tc_epoch c \<noteq> ge
         then map_option (\<lambda>(i, c'). (i, c'\<lparr>tc_epoch := ge\<rparr>)) (flush_all (sp_inner p) c)
         else Some (sp_inner p, c))"

definition put_cache :: "slab_pool \<Rightarrow> nat \<Rightarrow> slab_inner \<Rightarrow> tcache \<Rightarrow> slab_pool" where
  "put_cache p t i c = p\<lparr>sp_inner := i, sp_caches := (sp_caches p)[t := Some c]\<rparr>"

definition allocate :: "slab_pool \<Rightarrow> nat \<Rightarrow> layout \<Rightarrow> ((pool_exhausted + ptr) \<times> slab_pool) option" where
  "allocate p t l =
     (if l_size l = 0 then Some (Inr (Dangling (l_align l)), p)
      else case size_class_for l of
        None \<Rightarrow> Some (Inl (PoolExhausted l), p)
      | Some class \<Rightarrow>
          if class = LARGE_CLASS
          then map_option (\<lambda>(r, i). (map_sum id At r, p\<lparr>sp_inner := i\<rparr>)) (large_allocate (sp_inner p) l)
          else case current_cache p t of
            None \<Rightarrow> None
          | Some (i, c) \<Rightarrow>
              (case bin_pop (tc_bins c ! class) of
                 Some (b, bin) \<Rightarrow> Some (Inr (At b), put_cache p t i (c\<lparr>tc_bins := (tc_bins c)[class := bin]\<rparr>))
               | None \<Rightarrow> map_option (\<lambda>(r, i', c'). (r, put_cache p t i' c')) (refill i c class l)))"

definition deallocate :: "slab_pool \<Rightarrow> nat \<Rightarrow> ptr \<Rightarrow> layout \<Rightarrow> slab_pool option" where
  "deallocate p t a l =
     (if l_size l = 0 then Some p
      else case a of
        Dangling _ \<Rightarrow> None
      | At block \<Rightarrow>
          (case lookup (sp_inner p) block of
             None \<Rightarrow> None
           | Some class \<Rightarrow>
               if class = LARGE_CLASS
               then map_option (\<lambda>i. p\<lparr>sp_inner := i\<rparr>) (global_deallocate (sp_inner p) a l)
               else case current_cache p t of
                 None \<Rightarrow> None
               | Some (i, c) \<Rightarrow> map_option (\<lambda>(i', c'). put_cache p t i' c') (cache_push i c class block)))"

definition grow :: "slab_pool \<Rightarrow> nat \<Rightarrow> ptr \<Rightarrow> layout \<Rightarrow> layout
    \<Rightarrow> ((pool_exhausted + ptr) \<times> slab_pool) option" where
  "grow p t a old new =
     (if l_size old = 0 then allocate p t new
      else case size_class_for new of
        None \<Rightarrow> Some (Inl (PoolExhausted new), p)
      | Some new_class \<Rightarrow>
          (case a of Dangling _ \<Rightarrow> None
           | At block \<Rightarrow>
          (case lookup (sp_inner p) block of
             None \<Rightarrow> None
           | Some class \<Rightarrow>
               if class < NUM_SLAB_CLASSES \<and> new_class \<le> class then Some (Inr a, p)
               else case (if class < NUM_SLAB_CLASSES then Some (None, sp_inner p)
                          else large_grow (sp_inner p) block new) of
                 None \<Rightarrow> None
               | Some (Some grown, i) \<Rightarrow> Some (Inr (At grown), p\<lparr>sp_inner := i\<rparr>)
               | Some (None, i) \<Rightarrow>
                   (case allocate (p\<lparr>sp_inner := i\<rparr>) t new of
                      None \<Rightarrow> None
                    | Some (Inl e, p') \<Rightarrow> Some (Inl e, p')
                    | Some (Inr new_ptr, p') \<Rightarrow>
                        map_option (Pair (Inr new_ptr)) (deallocate p' t a old)))))"

definition flush_caches :: "slab_pool \<Rightarrow> nat \<Rightarrow> slab_pool option" where
  "flush_caches p t =
     (case sp_caches p ! t of
        None \<Rightarrow> Some (p\<lparr>sp_inner := (sp_inner p)\<lparr>si_epoch := si_epoch (sp_inner p) + 1\<rparr>\<rparr>)
      | Some c \<Rightarrow>
          (case flush_all (sp_inner p) c of
             None \<Rightarrow> None
           | Some (i, c') \<Rightarrow> Some (put_cache p t (i\<lparr>si_epoch := si_epoch i + 1\<rparr>) c')))"

text \<open>\<^verbatim>\<open>Drop for TCache\<close> with the pool still alive: the thread ends, or turns to another pool.\<close>

definition tcache_release :: "slab_pool \<Rightarrow> nat \<Rightarrow> slab_pool option" where
  "tcache_release p t =
     (case sp_caches p ! t of
        None \<Rightarrow> Some p
      | Some c \<Rightarrow> map_option (\<lambda>(i, c'). p\<lparr>sp_inner := i, sp_caches := (sp_caches p)[t := None]\<rparr>)
                    (flush_all (sp_inner p) c))"

end
