(* ===== verification/Slab_Pool_Inv.thy ===== *)
theory Slab_Pool_Inv
  imports Slab_Pool
begin

text \<open>
  The invariant of the slab pool's shared state and what its elementary steps do to the set
  of allocated blocks: taking a block off a free list or a fresh chunk, giving one back,
  and the three large-run operations. The invariant names the class that owns each carved
  chunk (\<open>cc\<close>, a ghost the code does not store).
\<close>

subsection \<open>Blocks\<close>

abbreviation class_size :: "nat \<Rightarrow> nat" where
  "class_size c \<equiv> SIZE_CLASSES ! c"

definition slab_block :: "(nat \<Rightarrow> nat) \<Rightarrow> nat \<Rightarrow> nat \<Rightarrow> nat \<Rightarrow> bool" where
  "slab_block cc lo c b \<longleftrightarrow>
     c < NUM_SLAB_CLASSES \<and> class_size c dvd b \<and> b + class_size c \<le> lo \<and> cc (b div CHUNK_SIZE) = c"

lemma slab_classes: "c < NUM_SLAB_CLASSES \<longleftrightarrow> c = 0 \<or> c = 1 \<or> c = 2 \<or> c = 3 \<or> c = 4"
  by (auto simp: NUM_SLAB_CLASSES_def)

lemma class_size_facts:
  assumes "c < NUM_SLAB_CLASSES"
  shows "64 dvd class_size c" "class_size c dvd CHUNK_SIZE" "0 < class_size c"
proof -
  have d: "class_size c \<in> {64, 256, 1024, 4096, 65536}"
    using assms by (auto simp: slab_classes SIZE_CLASSES_def)
  show "64 dvd class_size c" "class_size c dvd CHUNK_SIZE" "0 < class_size c"
    using d by (auto simp: CHUNK_SIZE_def)
qed

lemma class_consts [simp]:
  "SIZE_CLASSES ! 0 = 64" "length SIZE_CLASSES = NUM_SIZE_CLASSES"
  "NUM_SLAB_CLASSES < NUM_SIZE_CLASSES" "LARGE_CLASS = NUM_SLAB_CLASSES"
  "NUM_SIZE_CLASSES \<le> SIDE_TABLE_UNALLOCATED" "NUM_SLAB_CLASSES \<noteq> SIDE_TABLE_UNALLOCATED"
  "SIDE_TABLE_UNALLOCATED \<noteq> NUM_SLAB_CLASSES"
  by (simp_all add: SIZE_CLASSES_def NUM_SLAB_CLASSES_def NUM_SIZE_CLASSES_def LARGE_CLASS_def
      SIDE_TABLE_UNALLOCATED_def)

lemma slab_block_dvd: "slab_block cc lo c b \<Longrightarrow> 64 dvd b"
  unfolding slab_block_def using class_size_facts(1) dvd_trans by blast

lemma block_in_chunk:
  assumes "(s::nat) dvd b" "s dvd C" "0 < s" "0 < C"
  shows "b + s \<le> (b div C + 1) * C"
proof -
  obtain m n where m: "b = s * m" "(b div C + 1) * C = s * n" using assms(1,2) by (meson dvdE dvd_mult)
  have "b < (b div C + 1) * C" using assms(4) by (metis add.commute dividend_less_div_times mult.commute
        mult_Suc_right plus_1_eq_Suc)
  then have "m < n" using m assms(3) by simp
  then have "s * (m + 1) \<le> s * n" by (intro mult_le_mono2) simp
  then show ?thesis using m by (simp add: algebra_simps)
qed

lemma slab_blocks_disjoint:
  assumes a: "slab_block cc lo c b" and b: "slab_block cc lo d b'" and ne: "b \<noteq> b'"
  shows "regions_disjoint (b, class_size c) (b', class_size d)"
proof -
  have main: "b + class_size c \<le> b'"
    if a: "slab_block cc lo c b" and b: "slab_block cc lo d b'" and lt: "b < b'" for b b' c d
  proof (cases "b div CHUNK_SIZE = b' div CHUNK_SIZE")
    case True
    then have cd: "d = c" using a b by (auto simp: slab_block_def)
    obtain m n where "b = class_size c * m" "b' = class_size c * n"
      using a b cd by (auto simp: slab_block_def elim!: dvdE)
    with lt have "class_size c * (m + 1) \<le> class_size c * n"
      by (intro mult_le_mono2) simp
    then show ?thesis using \<open>b = _\<close> \<open>b' = _\<close> by simp
  next
    case False
    have "b div CHUNK_SIZE \<le> b' div CHUNK_SIZE" using lt by (simp add: div_le_mono)
    with False have q: "b div CHUNK_SIZE + 1 \<le> b' div CHUNK_SIZE" by simp
    have "b + class_size c \<le> (b div CHUNK_SIZE + 1) * CHUNK_SIZE"
      using a class_size_facts [of c] by (intro block_in_chunk) (auto simp: slab_block_def)
    also have "\<dots> \<le> (b' div CHUNK_SIZE) * CHUNK_SIZE" using q by (rule mult_le_mono1)
    also have "\<dots> \<le> b'" by simp
    finally show ?thesis .
  qed
  show ?thesis
    using main [OF a b] main [OF b a] ne by (cases "b < b'") (auto simp: regions_disjoint_def)
qed

subsection \<open>The invariant\<close>

definition alloc_addrs :: "slab_inner \<Rightarrow> nat set" where
  "alloc_addrs p = {b. 64 dvd b \<and> si_side p (b div 64) \<noteq> SIDE_TABLE_UNALLOCATED}"

definition block_len :: "slab_inner \<Rightarrow> nat \<Rightarrow> nat" where
  "block_len p b =
     (let class = si_side p (b div 64) in
      if class = LARGE_CLASS then fr_units (si_frontier p) ! (b div LARGE_UNIT) * LARGE_UNIT
      else class_size class)"

definition inner_inv :: "(nat \<Rightarrow> nat) \<Rightarrow> slab_inner \<Rightarrow> bool" where
  "inner_inv cc p \<longleftrightarrow>
     frontier_inv (si_total p) (si_frontier p)
   \<and> length (si_heads p) = NUM_SIZE_CLASSES
   \<and> (\<forall>c < NUM_SLAB_CLASSES. distinct (si_heads p ! c) \<and>
        (\<forall>b \<in> set (si_heads p ! c). slab_block cc (fr_lo (si_frontier p)) c b
           \<and> si_side p (b div 64) = SIDE_TABLE_UNALLOCATED))
   \<and> (\<forall>j. si_side p j \<noteq> SIDE_TABLE_UNALLOCATED \<longrightarrow>
        slab_block cc (fr_lo (si_frontier p)) (si_side p j) (j * 64)
        \<or> si_side p j = LARGE_CLASS \<and> (\<exists>u. is_run_start (si_frontier p) u \<and> j * 64 = u * LARGE_UNIT))
   \<and> (\<forall>u. is_run_start (si_frontier p) u \<longrightarrow> si_side p (u * LARGE_UNIT div 64) = LARGE_CLASS)
   \<and> si_used p = (\<Sum>b \<in> alloc_addrs p. block_len p b)"

definition regions :: "slab_inner \<Rightarrow> (nat \<times> nat) set" where
  "regions p = (\<lambda>b. (b, block_len p b)) ` alloc_addrs p"

lemma addr_div_mult: "64 dvd b \<Longrightarrow> b div 64 * 64 = (b::nat)"
  by simp

lemma unit_dvd_64 [simp]: "64 dvd u * LARGE_UNIT"
  by (simp add: LARGE_UNIT_def)

lemma unit_addr_inj [simp]: "u * LARGE_UNIT div 64 = v * LARGE_UNIT div 64 \<longleftrightarrow> u = v"
  by (simp add: LARGE_UNIT_def)

lemma unit_addr_div [simp]: "u * LARGE_UNIT div LARGE_UNIT = u"
  by (simp add: LARGE_UNIT_def)

lemma inner_alloc_cases:
  assumes inv: "inner_inv cc p" and b: "b \<in> alloc_addrs p"
  obtains (slab) c where "c = si_side p (b div 64)" "slab_block cc (fr_lo (si_frontier p)) c b"
      "block_len p b = class_size c"
  | (large) u where "si_side p (b div 64) = LARGE_CLASS" "is_run_start (si_frontier p) u" "b = u * LARGE_UNIT"
      "block_len p b = fr_units (si_frontier p) ! u * LARGE_UNIT"
proof -
  have s: "si_side p (b div 64) \<noteq> SIDE_TABLE_UNALLOCATED" "b div 64 * 64 = b"
    using b by (auto simp: alloc_addrs_def)
  then consider "slab_block cc (fr_lo (si_frontier p)) (si_side p (b div 64)) b"
    | u where "si_side p (b div 64) = LARGE_CLASS" "is_run_start (si_frontier p) u" "b = u * LARGE_UNIT"
    using inv unfolding inner_inv_def by metis
  then show ?thesis
  proof cases
    case 1
    then have "si_side p (b div 64) \<noteq> LARGE_CLASS" by (auto simp: slab_block_def)
    then show ?thesis using 1 slab by (simp add: block_len_def Let_def)
  next
    case 2
    then show ?thesis using large by (simp add: block_len_def Let_def)
  qed
qed

lemma inner_block_bounds:
  assumes inv: "inner_inv cc p" and b: "b \<in> alloc_addrs p"
  shows "b + block_len p b \<le> si_total p \<and> 0 < block_len p b"
  using assms
proof (cases rule: inner_alloc_cases)
  case (slab c)
  have "fr_lo (si_frontier p) \<le> si_total p" using inv by (simp add: inner_inv_def frontier_inv_def)
  with slab class_size_facts(3) [of c] show ?thesis by (auto simp: slab_block_def)
next
  case (large u)
  have F: "frontier_inv (si_total p) (si_frontier p)" using inv by (simp add: inner_inv_def)
  have "u + fr_units (si_frontier p) ! u \<le> length (fr_units (si_frontier p))" "0 < fr_units (si_frontier p) ! u"
    using large(2) runs_above_lo [OF F, of u] by (auto simp: runs_def)
  then have "(u + fr_units (si_frontier p) ! u) * LARGE_UNIT \<le> (si_total p div LARGE_UNIT) * LARGE_UNIT"
    using F by (intro mult_le_mono1) (simp add: frontier_inv_def)
  also have "\<dots> \<le> si_total p" by simp
  finally show ?thesis using large \<open>0 < _\<close> by (simp add: algebra_simps)
qed

lemma finite_alloc_addrs: "inner_inv cc p \<Longrightarrow> finite (alloc_addrs p)"
proof (rule finite_subset)
  assume inv: "inner_inv cc p"
  show "alloc_addrs p \<subseteq> {..si_total p}"
  proof
    fix b assume "b \<in> alloc_addrs p"
    from inner_block_bounds [OF inv this] show "b \<in> {..si_total p}" by simp
  qed
qed simp

text \<open>Allocated blocks never overlap.\<close>

lemma regions_all_disjoint:
  assumes inv: "inner_inv cc p"
  shows "all_disjoint (regions p)"
proof -
  have F: "frontier_inv (si_total p) (si_frontier p)" using inv by (simp add: inner_inv_def)
  have "regions_disjoint (a, block_len p a) (b, block_len p b)"
    if a: "a \<in> alloc_addrs p" and b: "b \<in> alloc_addrs p" and ne: "a \<noteq> b" for a b
    using inv a
  proof (cases rule: inner_alloc_cases)
    case sa: (slab c)
    show ?thesis using inv b
    proof (cases rule: inner_alloc_cases)
      case (slab d)
      then show ?thesis using sa slab_blocks_disjoint [OF sa(2) slab(2) ne] by simp
    next
      case (large u)
      then have "fr_lo (si_frontier p) \<le> b" using runs_above_lo [OF F, of u] by (auto simp: runs_def)
      then show ?thesis using sa large by (auto simp: slab_block_def regions_disjoint_def)
    qed
  next
    case la: (large u)
    have lo: "fr_lo (si_frontier p) \<le> a" using la runs_above_lo [OF F, of u] by (auto simp: runs_def)
    show ?thesis using inv b
    proof (cases rule: inner_alloc_cases)
      case (slab d)
      then show ?thesis using la lo by (auto simp: slab_block_def regions_disjoint_def)
    next
      case (large v)
      have "regions_disjoint (u, fr_units (si_frontier p) ! u) (v, fr_units (si_frontier p) ! v)"
        using live_runs_disjoint [OF F] la(2) large(2) ne la(3) large(3)
        by (auto simp: all_disjoint_def runs_def)
      then have "regions_disjoint (u * LARGE_UNIT, fr_units (si_frontier p) ! u * LARGE_UNIT)
          (v * LARGE_UNIT, fr_units (si_frontier p) ! v * LARGE_UNIT)"
        unfolding regions_disjoint_def
        by (metis add_mult_distrib fst_conv mult_le_mono1 snd_conv)
      then show ?thesis using la large by simp
    qed
  qed
  then show ?thesis by (auto simp: all_disjoint_def regions_def)
qed

lemma slab_inner_new_inv:
  assumes "budget div LARGE_UNIT < UNIT_INTERIOR"
  shows "inner_inv cc (slab_inner_new budget)"
proof -
  have "replicate NUM_SIZE_CLASSES ([] :: nat list) ! c = []" if "c < NUM_SLAB_CLASSES" for c
    using that class_consts(3) by (intro nth_replicate) linarith
  moreover have "\<not> is_run_start (new_frontier budget) u" for u
    using new_frontier_runs [of budget] by (auto simp: runs_def)
  ultimately show ?thesis
    using new_frontier_inv [OF assms] by (simp add: inner_inv_def slab_inner_new_def alloc_addrs_def)
qed

subsection \<open>Taking and giving slab blocks\<close>

text \<open>A block of class \<open>c\<close> that belongs to nobody: neither allocated nor on a free list.\<close>

definition free_block :: "(nat \<Rightarrow> nat) \<Rightarrow> slab_inner \<Rightarrow> nat \<Rightarrow> nat \<Rightarrow> bool" where
  "free_block cc p c b \<longleftrightarrow> slab_block cc (fr_lo (si_frontier p)) c b \<and> b \<notin> alloc_addrs p
     \<and> (\<forall>k < NUM_SLAB_CLASSES. b \<notin> set (si_heads p ! k))"

text \<open>What a step on slab blocks leaves alone.\<close>

definition same_blocks :: "slab_inner \<Rightarrow> slab_inner \<Rightarrow> nat set \<Rightarrow> bool" where
  "same_blocks p q A \<longleftrightarrow> si_total q = si_total p \<and> si_epoch q = si_epoch p \<and>
     (\<forall>a \<in> A. si_side q (a div 64) = si_side p (a div 64) \<and> block_len q a = block_len p a)"

lemma block_len_cong:
  "si_side q (a div 64) = si_side p (a div 64) \<Longrightarrow> si_frontier q = si_frontier p \<Longrightarrow>
   block_len q a = block_len p a"
  by (simp add: block_len_def Let_def)

lemma slab_class_lt [simp]: "c < NUM_SLAB_CLASSES \<Longrightarrow> c < NUM_SIZE_CLASSES"
  using class_consts(3) by linarith

lemma same_blocks_refl [simp]: "same_blocks p p A"
  by (simp add: same_blocks_def)

lemma same_blocks_trans: "same_blocks p q A \<Longrightarrow> same_blocks q r B \<Longrightarrow> C \<subseteq> A \<Longrightarrow> C \<subseteq> B \<Longrightarrow> same_blocks p r C"
  unfolding same_blocks_def by (metis subsetD)

lemma alloc_addrs_side:
  "64 dvd b \<Longrightarrow> si_side q = (si_side p)(b div 64 := k) \<Longrightarrow>
   alloc_addrs q = (if k = SIDE_TABLE_UNALLOCATED then alloc_addrs p - {b} else insert b (alloc_addrs p))"
  by (auto simp: alloc_addrs_def dvd_div_eq_iff)

lemma slab_not_unallocated: "c < NUM_SLAB_CLASSES \<Longrightarrow> c \<noteq> SIDE_TABLE_UNALLOCATED \<and> c \<noteq> LARGE_CLASS"
  by (auto simp: NUM_SLAB_CLASSES_def SIDE_TABLE_UNALLOCATED_def)

lemma record_inner:
  assumes inv: "inner_inv cc p" and fb: "free_block cc p c b"
  defines "q \<equiv> record_allocation p b c (class_size c)"
  shows "inner_inv cc q \<and> alloc_addrs q = insert b (alloc_addrs p) \<and> si_side q (b div 64) = c
     \<and> block_len q b = class_size c \<and> same_blocks p q (alloc_addrs p) \<and> si_frontier q = si_frontier p"
proof -
  note I = inv [unfolded inner_inv_def]
  have b: "64 dvd b" "c < NUM_SLAB_CLASSES" using fb slab_block_dvd by (auto simp: free_block_def slab_block_def)
  have cN: "c \<noteq> SIDE_TABLE_UNALLOCATED" "c \<noteq> LARGE_CLASS" using slab_not_unallocated [OF b(2)] by auto
  have side: "si_side q = (si_side p)(b div 64 := c)" by (simp add: q_def record_allocation_def side_index_def)
  have rest: "si_frontier q = si_frontier p" "si_heads q = si_heads p" "si_total q = si_total p"
    "si_epoch q = si_epoch p" "si_used q = si_used p + class_size c"
    by (simp_all add: q_def record_allocation_def)
  have al: "alloc_addrs q = insert b (alloc_addrs p)" using alloc_addrs_side [OF b(1) side] cN by simp
  have nb: "b \<notin> alloc_addrs p" using fb by (simp add: free_block_def)
  then have un: "si_side p (b div 64) = SIDE_TABLE_UNALLOCATED" using b(1) by (auto simp: alloc_addrs_def)
  have ne: "a div 64 \<noteq> b div 64" if "a \<in> alloc_addrs p" for a
    using that un by (auto simp: alloc_addrs_def)
  have same: "same_blocks p q (alloc_addrs p)"
    using ne by (auto simp: same_blocks_def rest side intro!: block_len_cong)
  have len: "block_len q b = class_size c" using cN by (simp add: block_len_def side rest)
  have used: "si_used q = (\<Sum>a \<in> alloc_addrs q. block_len q a)"
  proof -
    have "(\<Sum>a \<in> alloc_addrs q. block_len q a) = block_len q b + (\<Sum>a \<in> alloc_addrs p. block_len q a)"
      using al nb finite_alloc_addrs [OF inv] by simp
    also have "(\<Sum>a \<in> alloc_addrs p. block_len q a) = (\<Sum>a \<in> alloc_addrs p. block_len p a)"
      using same by (intro sum.cong) (auto simp: same_blocks_def)
    finally show ?thesis using I len rest by simp
  qed
  have heads: "si_side q (a div 64) = SIDE_TABLE_UNALLOCATED"
    if "k < NUM_SLAB_CLASSES" "a \<in> set (si_heads p ! k)" for k a
  proof -
    have "slab_block cc (fr_lo (si_frontier p)) k a" "si_side p (a div 64) = SIDE_TABLE_UNALLOCATED"
      using I that by auto
    moreover have "a \<noteq> b" using fb that by (auto simp: free_block_def)
    ultimately show ?thesis using slab_block_dvd b(1) by (auto simp: side dvd_div_eq_iff)
  qed
  have runs_side: "si_side q (u * LARGE_UNIT div 64) = LARGE_CLASS" if "is_run_start (si_frontier p) u" for u
  proof -
    have "si_side p (u * LARGE_UNIT div 64) = LARGE_CLASS" using I that by auto
    then show ?thesis using un by (auto simp: side)
  qed
  have sides: "slab_block cc (fr_lo (si_frontier p)) (si_side q j) (j * 64)
        \<or> si_side q j = LARGE_CLASS \<and> (\<exists>u. is_run_start (si_frontier p) u \<and> j * 64 = u * LARGE_UNIT)"
    if "si_side q j \<noteq> SIDE_TABLE_UNALLOCATED" for j
    using that I fb b(1) by (cases "j = b div 64") (auto simp: side free_block_def)
  have "inner_inv cc q"
    unfolding inner_inv_def using I used heads runs_side sides by (simp add: rest)
  then show ?thesis using al len same side rest by simp
qed

lemma pop_inner:
  assumes inv: "inner_inv cc p" and c: "c < NUM_SLAB_CLASSES" and pop: "pop_free p c = Some (b, q)"
  shows "inner_inv cc q \<and> free_block cc q c b \<and> alloc_addrs q = alloc_addrs p
     \<and> same_blocks p q (alloc_addrs p) \<and> si_frontier q = si_frontier p"
proof -
  note I = inv [unfolded inner_inv_def]
  obtain bs where bs: "si_heads p ! c = b # bs" "q = p\<lparr>si_heads := (si_heads p)[c := bs]\<rparr>"
    using pop by (auto simp: pop_free_def split: list.splits)
  have cl: "c < length (si_heads p)" using I c by simp
  have sb: "slab_block cc (fr_lo (si_frontier p)) c b" "si_side p (b div 64) = SIDE_TABLE_UNALLOCATED"
    using I c bs(1) by auto
  have sub: "set (si_heads q ! k) \<subseteq> set (si_heads p ! k)" "distinct (si_heads p ! k) \<longrightarrow> distinct (si_heads q ! k)" for k
    using bs cl by (auto simp: nth_list_update)
  have al: "alloc_addrs q = alloc_addrs p" using bs by (simp add: alloc_addrs_def)
  have lens: "block_len q a = block_len p a" for a using bs by (simp add: block_len_def Let_def)
  have "inner_inv cc q"
    unfolding inner_inv_def using I sub bs al lens by (simp, blast)
  moreover have "b \<notin> set (si_heads q ! k)" if "k < NUM_SLAB_CLASSES" for k
  proof
    assume "b \<in> set (si_heads q ! k)"
    then have "slab_block cc (fr_lo (si_frontier p)) k b" using I that sub by blast
    then have "k = c" using sb(1) by (simp add: slab_block_def)
    with \<open>b \<in> _\<close> have "b \<in> set bs" using bs cl by simp
    then show False using I c bs(1) by (metis distinct.simps(2))
  qed
  moreover have "b \<notin> alloc_addrs p" using sb(2) by (simp add: alloc_addrs_def)
  ultimately show ?thesis using al lens sb(1) bs by (simp add: free_block_def same_blocks_def)
qed

lemma carve_inner:
  assumes inv: "inner_inv cc p" and c: "c < NUM_SLAB_CLASSES" and cv: "carve p c = Some (b, q)"
  shows "\<exists>cc'. inner_inv cc' q \<and> free_block cc' q c b \<and> alloc_addrs q = alloc_addrs p
     \<and> same_blocks p q (alloc_addrs p) \<and> runs (si_frontier q) = runs (si_frontier p)"
proof -
  note I = inv [unfolded inner_inv_def]
  have F: "frontier_inv (si_total p) (si_frontier p)" using I by simp
  let ?S = "class_size c"
  define rest where "rest = map (\<lambda>i. b + i * ?S) [1..<CHUNK_SIZE div ?S]"
  obtain f where f: "carve_chunk (si_frontier p) (si_total p) = Some (b, f)"
    and q0: "q = (if CHUNK_SIZE div ?S > 1 then push_chain (p\<lparr>si_frontier := f\<rparr>) c rest else p\<lparr>si_frontier := f\<rparr>)"
    using cv by (auto simp: carve_def rest_def Let_def split: option.splits)
  have q: "q = push_chain (p\<lparr>si_frontier := f\<rparr>) c rest"
  proof (cases "CHUNK_SIZE div ?S > 1")
    case False
    then have "rest = []" by (simp add: rest_def)
    then show ?thesis using q0 False by (simp add: push_chain_def)
  qed (use q0 in simp)
  define lo where "lo = fr_lo (si_frontier p)"
  have cf: "b = lo" "fr_lo f = lo + CHUNK_SIZE" "fr_units f = fr_units (si_frontier p)"
    "fr_hi f = fr_hi (si_frontier p)" "frontier_inv (si_total p) f"
    using carve_chunk_ok [OF F f] by (simp_all add: lo_def)
  have starts: "is_run_start f u \<longleftrightarrow> is_run_start (si_frontier p) u" for u
    using cf by (simp add: is_run_start_def)
  have above: "lo + CHUNK_SIZE \<le> u * LARGE_UNIT" if "is_run_start f u" for u
    using runs_above_lo [OF cf(5), of u] that cf(2) by (auto simp: runs_def)
  have lo_dvd: "CHUNK_SIZE dvd lo" using F by (simp add: frontier_inv_def lo_def)
  note S = class_size_facts [OF c]
  define cc' where "cc' = cc(lo div CHUNK_SIZE := c)"
  have old: "slab_block cc' (lo + CHUNK_SIZE) k a \<and> a + class_size k \<le> lo" if "slab_block cc lo k a" for k a
  proof -
    have "a < lo" using that class_size_facts(3) [of k] by (auto simp: slab_block_def)
    then have "a div CHUNK_SIZE < lo div CHUNK_SIZE"
      using lo_dvd by (metis div_less_iff_less_mult dvd_div_mult_self unit_sentinels(3))
    then show ?thesis using that by (auto simp: slab_block_def cc'_def)
  qed
  have new: "slab_block cc' (lo + CHUNK_SIZE) c (lo + i * ?S)" if "i < CHUNK_SIZE div ?S" for i
  proof -
    have "(i + 1) * ?S \<le> CHUNK_SIZE div ?S * ?S" using that by (intro mult_le_mono1) simp
    then have fit: "i * ?S + ?S \<le> CHUNK_SIZE" using S(2) by simp
    then have "i * ?S < CHUNK_SIZE" using S(3) by linarith
    then have "(lo + i * ?S) div CHUNK_SIZE = lo div CHUNK_SIZE"
      using lo_dvd by (metis add.right_neutral div_less div_plus_div_distrib_dvd_left)
    moreover have "?S dvd lo" using S(2) lo_dvd dvd_trans by blast
    ultimately show ?thesis using fit c by (simp add: slab_block_def cc'_def)
  qed
  have fresh: "si_side p (a div 64) = SIDE_TABLE_UNALLOCATED" if "slab_block cc' (lo + CHUNK_SIZE) c a" "lo \<le> a" for a
  proof (rule ccontr)
    assume "si_side p (a div 64) \<noteq> SIDE_TABLE_UNALLOCATED"
    moreover have a64: "a div 64 * 64 = a" using slab_block_dvd [OF that(1)] by simp
    ultimately consider k where "slab_block cc lo k a" | u where "is_run_start f u" "a = u * LARGE_UNIT"
      using I starts unfolding lo_def by metis
    then show False
    proof cases
      case 1
      then show False using old [OF 1] that(2) class_size_facts(3) [of k] by (auto simp: slab_block_def)
    next
      case 2
      then show False using above [OF 2(1)] that S(3) by (auto simp: slab_block_def)
    qed
  qed
  have cl: "c < length (si_heads p)" using I c by simp
  have heads: "si_heads q ! k = (if k = c then rest @ si_heads p ! c else si_heads p ! k)" for k
    using q cl by (auto simp: push_chain_def)
  have rest_b: "slab_block cc' (lo + CHUNK_SIZE) c a \<and> lo < a" if "a \<in> set rest" for a
    using that new cf(1) S(3) by (auto simp: rest_def)
  have dist: "distinct (rest @ si_heads p ! c)"
  proof -
    have "distinct rest" using S(3) by (auto simp: rest_def distinct_map inj_on_def)
    moreover have "a \<notin> set (si_heads p ! c)" if "a \<in> set rest" for a
      using rest_b [OF that] I c old [of c a] class_size_facts(3) [OF c] by (fastforce simp: lo_def)
    ultimately show ?thesis using I c by auto
  qed
  have qf: "si_frontier q = f" "si_side q = si_side p" "si_total q = si_total p" "si_used q = si_used p"
    "length (si_heads q) = length (si_heads p)" "si_epoch q = si_epoch p" using q by (simp_all add: push_chain_def)
  have al: "alloc_addrs q = alloc_addrs p" by (simp add: alloc_addrs_def qf)
  have lens: "block_len q a = block_len p a" for a by (simp add: block_len_def qf cf Let_def)
  have hd_ok: "distinct (si_heads q ! k) \<and> (\<forall>a \<in> set (si_heads q ! k).
      slab_block cc' (lo + CHUNK_SIZE) k a \<and> si_side p (a div 64) = SIDE_TABLE_UNALLOCATED)"
    if k: "k < NUM_SLAB_CLASSES" for k
    using I k dist rest_b fresh old unfolding heads lo_def by (auto simp: less_imp_le)
  have sides: "slab_block cc' (lo + CHUNK_SIZE) (si_side p j) (j * 64)
        \<or> si_side p j = LARGE_CLASS \<and> (\<exists>u. is_run_start f u \<and> j * 64 = u * LARGE_UNIT)"
    if "si_side p j \<noteq> SIDE_TABLE_UNALLOCATED" for j
    using I that old starts unfolding lo_def by metis
  have "inner_inv cc' q"
    unfolding inner_inv_def using I cf hd_ok sides starts al lens by (simp add: qf)
  moreover have "free_block cc' q c b"
  proof -
    have b: "slab_block cc' (lo + CHUNK_SIZE) c b"
      using new [of 0] S cf(1) by (auto simp: div_greater_zero_iff dvd_imp_le)
    have "b \<notin> set (si_heads q ! k)" if "k < NUM_SLAB_CLASSES" for k
    proof
      assume "b \<in> set (si_heads q ! k)"
      then consider "b \<in> set rest" | "b \<in> set (si_heads p ! k)" by (auto simp: heads split: if_splits)
      then show False
        using rest_b [of b] cf(1) old [of k b] I that class_size_facts(3) [OF that]
        by cases (auto simp: lo_def)
    qed
    moreover have "b \<notin> alloc_addrs q" using fresh [OF b] cf(1) by (simp add: alloc_addrs_def qf)
    ultimately show ?thesis using b by (simp add: free_block_def qf cf)
  qed
  moreover have "runs f = runs (si_frontier p)" using starts cf by (simp add: runs_def)
  ultimately show ?thesis using al lens by (auto simp: same_blocks_def qf)
qed

lemma give_inner:
  assumes inv: "inner_inv cc p" and b: "b \<in> alloc_addrs p" and k: "si_side p (b div 64) = k" "k < NUM_SLAB_CLASSES"
  defines "q \<equiv> slab_deallocate p k b"
  shows "inner_inv cc q \<and> alloc_addrs q = alloc_addrs p - {b} \<and> same_blocks p q (alloc_addrs p - {b})
     \<and> lookup p b = Some k \<and> si_frontier q = si_frontier p"
proof -
  note I = inv [unfolded inner_inv_def]
  have b64: "64 dvd b" using b by (simp add: alloc_addrs_def)
  have sb: "slab_block cc (fr_lo (si_frontier p)) k b" "block_len p b = class_size k"
    using inv b by (cases rule: inner_alloc_cases; use k in simp)+
  have bt: "b < si_total p" using inner_block_bounds [OF inv b] by linarith
  have lk: "lookup p b = Some k" using bt k by (simp add: lookup_def side_index_def)
  have kl: "k < length (si_heads p)" using I k by simp
  have side: "si_side q = (si_side p)(b div 64 := SIDE_TABLE_UNALLOCATED)"
    and heads: "si_heads q = (si_heads p)[k := b # si_heads p ! k]"
    and rest: "si_frontier q = si_frontier p" "si_total q = si_total p" "si_epoch q = si_epoch p"
      "si_used q = si_used p - class_size k"
    by (simp_all add: q_def slab_deallocate_def push_chain_def side_index_def Let_def)
  have al: "alloc_addrs q = alloc_addrs p - {b}" using alloc_addrs_side [OF b64 side] by simp
  have ne: "a div 64 \<noteq> b div 64" if "a \<in> alloc_addrs p - {b}" for a
    using that b64 by (auto simp: alloc_addrs_def dvd_div_eq_iff)
  have same: "same_blocks p q (alloc_addrs p - {b})"
    unfolding same_blocks_def
  proof (intro conjI ballI)
    fix a assume "a \<in> alloc_addrs p - {b}"
    from ne [OF this] show eq: "si_side q (a div 64) = si_side p (a div 64)" by (simp add: side)
    show "block_len q a = block_len p a" by (rule block_len_cong [OF eq rest(1)])
  qed (simp_all add: rest)
  have used: "si_used q = (\<Sum>a \<in> alloc_addrs q. block_len q a)"
  proof -
    have "(\<Sum>a \<in> alloc_addrs p. block_len p a) = block_len p b + (\<Sum>a \<in> alloc_addrs p - {b}. block_len p a)"
      using b finite_alloc_addrs [OF inv] by (simp add: sum.remove)
    moreover have "(\<Sum>a \<in> alloc_addrs p - {b}. block_len p a) = (\<Sum>a \<in> alloc_addrs q. block_len q a)"
      unfolding al using same by (intro sum.cong) (auto simp: same_blocks_def)
    ultimately show ?thesis using I sb rest by simp
  qed
  have notin: "b \<notin> set (si_heads p ! c)" if "c < NUM_SLAB_CLASSES" for c
  proof
    assume "b \<in> set (si_heads p ! c)"
    then have "si_side p (b div 64) = SIDE_TABLE_UNALLOCATED" using I that by blast
    then show False using k slab_not_unallocated by auto
  qed
  have hd: "distinct (si_heads q ! c) \<and> (\<forall>a \<in> set (si_heads q ! c).
      slab_block cc (fr_lo (si_frontier p)) c a \<and> si_side q (a div 64) = SIDE_TABLE_UNALLOCATED)"
    if c: "c < NUM_SLAB_CLASSES" for c
  proof -
    have "si_side q (a div 64) = SIDE_TABLE_UNALLOCATED" if "a \<in> set (si_heads p ! c)" for a
      using I c that by (simp add: side)
    then show ?thesis using I c notin [OF c] sb kl by (cases "c = k") (auto simp: heads side)
  qed
  have sides: "slab_block cc (fr_lo (si_frontier p)) (si_side q j) (j * 64)
        \<or> si_side q j = LARGE_CLASS \<and> (\<exists>u. is_run_start (si_frontier p) u \<and> j * 64 = u * LARGE_UNIT)"
    if "si_side q j \<noteq> SIDE_TABLE_UNALLOCATED" for j
    using I that by (auto simp: side split: if_splits)
  have "si_side q (u * LARGE_UNIT div 64) = LARGE_CLASS" if "is_run_start (si_frontier p) u" for u
  proof -
    have "si_side p (u * LARGE_UNIT div 64) = LARGE_CLASS" using I that by auto
    then show ?thesis using k by (auto simp: side)
  qed
  then have "inner_inv cc q"
    unfolding inner_inv_def using I hd sides used by (simp add: rest heads)
  then show ?thesis using al same lk rest by simp
qed

subsection \<open>Large runs\<close>

lemma large_starts: "is_run_start f u \<longleftrightarrow> (u, fr_units f ! u) \<in> runs f"
  by (simp add: runs_def)

lemma start_iff: "is_run_start f u \<longleftrightarrow> u \<in> fst ` runs f"
  by (auto simp: runs_def image_iff)

lemma inner_run_alloc: "inner_inv cc p \<Longrightarrow> is_run_start (si_frontier p) u \<Longrightarrow>
    u * LARGE_UNIT \<in> alloc_addrs p \<and> si_side p (u * LARGE_UNIT div 64) = LARGE_CLASS"
  by (simp add: inner_inv_def alloc_addrs_def)

text \<open>Replacing the frontier by one with the same bottom keeps every slab fact.\<close>

lemma inner_inv_frontier:
  assumes inv: "inner_inv cc p" and F: "frontier_inv (si_total p) f" "fr_lo f = fr_lo (si_frontier p)"
    and q: "si_frontier q = f" "si_heads q = si_heads p" "si_total q = si_total p"
    and slab: "\<And>j. si_side q j < NUM_SLAB_CLASSES \<Longrightarrow> si_side q j = si_side p j"
    and keep: "\<And>j. si_side p j = SIDE_TABLE_UNALLOCATED \<Longrightarrow> j * 64 < fr_lo f \<Longrightarrow> si_side q j = SIDE_TABLE_UNALLOCATED"
    and large: "\<And>j. si_side q j \<noteq> SIDE_TABLE_UNALLOCATED \<Longrightarrow> \<not> si_side q j < NUM_SLAB_CLASSES \<Longrightarrow>
       si_side q j = LARGE_CLASS \<and> (\<exists>u. is_run_start f u \<and> j * 64 = u * LARGE_UNIT)"
    and runs: "\<And>u. is_run_start f u \<Longrightarrow> si_side q (u * LARGE_UNIT div 64) = LARGE_CLASS"
    and used: "si_used q = (\<Sum>b \<in> alloc_addrs q. block_len q b)"
  shows "inner_inv cc q"
proof -
  note I = inv [unfolded inner_inv_def]
  have hd: "distinct (si_heads p ! c) \<and> (\<forall>b \<in> set (si_heads p ! c). slab_block cc (fr_lo f) c b
      \<and> si_side q (b div 64) = SIDE_TABLE_UNALLOCATED)" if c: "c < NUM_SLAB_CLASSES" for c
  proof (intro conjI ballI)
    show "distinct (si_heads p ! c)" using I c by simp
    fix b assume b: "b \<in> set (si_heads p ! c)"
    then have sb: "slab_block cc (fr_lo f) c b" "si_side p (b div 64) = SIDE_TABLE_UNALLOCATED"
      using I c F(2) by auto
    then show "slab_block cc (fr_lo f) c b" by simp
    have "b div 64 * 64 < fr_lo f"
      using sb(1) class_size_facts(3) [OF c] slab_block_dvd [OF sb(1)] by (auto simp: slab_block_def)
    then show "si_side q (b div 64) = SIDE_TABLE_UNALLOCATED" using keep sb(2) by blast
  qed
  have sides: "slab_block cc (fr_lo f) (si_side q j) (j * 64)
        \<or> si_side q j = LARGE_CLASS \<and> (\<exists>u. is_run_start f u \<and> j * 64 = u * LARGE_UNIT)"
    if j: "si_side q j \<noteq> SIDE_TABLE_UNALLOCATED" for j
  proof (cases "si_side q j < NUM_SLAB_CLASSES")
    case True
    then have "si_side p j = si_side q j" using slab by simp
    then show ?thesis using I j True F(2) by (metis less_irrefl class_consts(4))
  qed (use large [OF j] in blast)
  show ?thesis unfolding inner_inv_def using I F hd sides runs used q by simp
qed

lemma runs_units: "(u, n) \<in> runs f \<Longrightarrow> fr_units f ! u = n \<and> is_run_start f u"
  by (simp add: runs_def)

text \<open>Lengths of the blocks whose side entry and run are both kept.\<close>

lemma block_len_keep:
  assumes inv: "inner_inv cc p" and b: "b \<in> alloc_addrs p" and s: "si_side q (b div 64) = si_side p (b div 64)"
    and r: "\<And>u. is_run_start (si_frontier p) u \<Longrightarrow> b = u * LARGE_UNIT \<Longrightarrow>
       fr_units (si_frontier q) ! u = fr_units (si_frontier p) ! u"
  shows "block_len q b = block_len p b"
  using inv b
proof (cases rule: inner_alloc_cases)
  case (slab c)
  then have "c \<noteq> LARGE_CLASS" by (auto simp: slab_block_def)
  then show ?thesis using slab s by (simp add: block_len_def)
next
  case (large u)
  then show ?thesis using r [OF large(2,3)] s by (simp add: block_len_def)
qed

lemma unit_addr_alloc:
  assumes inv: "inner_inv cc p" and lo: "fr_lo (si_frontier p) \<le> u * LARGE_UNIT"
  shows "u * LARGE_UNIT \<in> alloc_addrs p \<longleftrightarrow> is_run_start (si_frontier p) u"
proof
  assume a: "u * LARGE_UNIT \<in> alloc_addrs p"
  show "is_run_start (si_frontier p) u" using inv a
  proof (cases rule: inner_alloc_cases)
    case (slab c)
    then show ?thesis using lo class_size_facts(3) [of c] by (auto simp: slab_block_def)
  next
    case (large v)
    then have "u = v" using unit_sentinels(2) by (metis mult_right_cancel less_irrefl)
    with large show ?thesis by simp
  qed
qed (use inner_run_alloc [OF inv] in blast)

lemma large_alloc_inner:
  assumes inv: "inner_inv cc p"
  shows "\<exists>r q. large_allocate p l = Some (r, q) \<and> inner_inv cc q
    \<and> (case r of Inl e \<Rightarrow> e = PoolExhausted l \<and> q = p
       | Inr a \<Rightarrow> a \<notin> alloc_addrs p \<and> alloc_addrs q = insert a (alloc_addrs p)
           \<and> si_side q (a div 64) = LARGE_CLASS \<and> LARGE_UNIT dvd a
           \<and> block_len q a = large_units_for l * LARGE_UNIT \<and> same_blocks p q (alloc_addrs p))"
proof -
  note I = inv [unfolded inner_inv_def]
  define k where "k = large_units_for l"
  obtain r f where t: "take_run (si_frontier p) k = Some (r, f)" "frontier_inv (si_total p) f"
      "fr_lo f = fr_lo (si_frontier p)"
    and r: "case r of None \<Rightarrow> f = si_frontier p
       | Some s \<Rightarrow> (s, k) \<notin> runs (si_frontier p) \<and> runs f = insert (s, k) (runs (si_frontier p))
           \<and> (\<forall>x \<in> runs (si_frontier p). regions_disjoint (s, k) x)"
    using take_run_live [of "si_total p" "si_frontier p" k] I by blast
  show ?thesis
  proof (cases r)
    case None
    then show ?thesis using t r inv by (simp add: large_allocate_def k_def Let_def)
  next
    case (Some s)
    with r have runs: "runs f = insert (s, k) (runs (si_frontier p))"
      and dj: "\<And>x. x \<in> runs (si_frontier p) \<Longrightarrow> regions_disjoint (s, k) x" by auto
    have s: "is_run_start f s" "fr_units f ! s = k" "fr_lo (si_frontier p) \<le> s * LARGE_UNIT" "0 < k"
      using runs_units [of s k f] runs_above_lo [OF t(2), of s k] runs t(3) by auto
    have ns: "\<not> is_run_start (si_frontier p) s"
    proof
      assume st: "is_run_start (si_frontier p) s"
      then have mem: "(s, fr_units (si_frontier p) ! s) \<in> runs (si_frontier p)" by (simp add: runs_def)
      have "0 < fr_units (si_frontier p) ! s" using runs_above_lo [OF _ mem] I by blast
      with dj [OF mem] s(4) show False by (simp add: regions_disjoint_def)
    qed
    define a where "a = s * LARGE_UNIT"
    define q where "q = record_allocation (p\<lparr>si_frontier := f\<rparr>) a LARGE_CLASS (k * LARGE_UNIT)"
    have eq: "large_allocate p l = Some (Inr a, q)"
      using t Some by (simp add: large_allocate_def k_def [symmetric] a_def q_def Let_def)
    have na: "a \<notin> alloc_addrs p" using ns unit_addr_alloc [OF inv s(3)] by (simp add: a_def)
    have side: "si_side q = (si_side p)(a div 64 := LARGE_CLASS)"
      and rest: "si_frontier q = f" "si_heads q = si_heads p" "si_total q = si_total p" "si_epoch q = si_epoch p"
        "si_used q = si_used p + k * LARGE_UNIT"
      by (simp_all add: q_def record_allocation_def side_index_def)
    have al: "alloc_addrs q = insert a (alloc_addrs p)"
      using alloc_addrs_side [of a q p LARGE_CLASS] side by (simp add: a_def)
    have un: "si_side p (a div 64) = SIDE_TABLE_UNALLOCATED" using na by (simp add: alloc_addrs_def a_def)
    have old: "is_run_start f u \<longleftrightarrow> u = s \<or> is_run_start (si_frontier p) u" for u
      by (simp add: start_iff runs)
    have units: "fr_units f ! u = fr_units (si_frontier p) ! u" if "is_run_start (si_frontier p) u" for u
      using runs_units [of u "fr_units (si_frontier p) ! u" f] runs that by (simp add: large_starts)
    have keep: "block_len q b = block_len p b \<and> si_side q (b div 64) = si_side p (b div 64)"
      if b: "b \<in> alloc_addrs p" for b
    proof -
      have "b div 64 \<noteq> a div 64" using b un by (auto simp: alloc_addrs_def)
      then have eq: "si_side q (b div 64) = si_side p (b div 64)" by (simp add: side)
      moreover have "block_len q b = block_len p b"
        by (rule block_len_keep [OF inv b eq]) (simp add: rest(1) units)
      ultimately show ?thesis by simp
    qed
    have la: "block_len q a = k * LARGE_UNIT" by (simp add: block_len_def side rest a_def s)
    have used: "si_used q = (\<Sum>b \<in> alloc_addrs q. block_len q b)"
      using al na finite_alloc_addrs [OF inv] la rest I keep by simp
    have "inner_inv cc q"
    proof (rule inner_inv_frontier [OF inv t(2,3) rest(1-3) _ _ _ _ used])
      fix j
      show "si_side q j < NUM_SLAB_CLASSES \<Longrightarrow> si_side q j = si_side p j"
        by (auto simp: side split: if_splits)
      show "si_side p j = SIDE_TABLE_UNALLOCATED \<Longrightarrow> j * 64 < fr_lo f \<Longrightarrow> si_side q j = SIDE_TABLE_UNALLOCATED"
        using s(3) t(3) by (auto simp: side a_def)
      show "si_side q j = LARGE_CLASS \<and> (\<exists>u. is_run_start f u \<and> j * 64 = u * LARGE_UNIT)"
        if "si_side q j \<noteq> SIDE_TABLE_UNALLOCATED" "\<not> si_side q j < NUM_SLAB_CLASSES"
      proof (cases "j = a div 64")
        case True
        then show ?thesis using s(1) by (auto simp: side a_def)
      next
        case False
        then have "si_side p j \<noteq> SIDE_TABLE_UNALLOCATED" "\<not> slab_block cc (fr_lo (si_frontier p)) (si_side p j) (j * 64)"
          using that by (auto simp: side slab_block_def)
        with I have "si_side p j = LARGE_CLASS \<and> (\<exists>u. is_run_start (si_frontier p) u \<and> j * 64 = u * LARGE_UNIT)"
          by blast
        then show ?thesis using False old by (auto simp: side)
      qed
      show "is_run_start f u \<Longrightarrow> si_side q (u * LARGE_UNIT div 64) = LARGE_CLASS" for u
        using old I by (auto simp: side a_def)
    qed
    then show ?thesis using eq na al side la keep rest
      by (auto simp: same_blocks_def k_def a_def)
  qed
qed

lemma inner_large_start:
  assumes inv: "inner_inv cc p" and a: "a \<in> alloc_addrs p" "si_side p (a div 64) = LARGE_CLASS"
  obtains u where "is_run_start (si_frontier p) u" "a = u * LARGE_UNIT"
    "block_len p a = fr_units (si_frontier p) ! u * LARGE_UNIT" "lookup p a = Some LARGE_CLASS"
proof -
  have "a < si_total p" using inner_block_bounds [OF inv a(1)] by linarith
  then have lk: "lookup p a = Some LARGE_CLASS" using a(2) by (simp add: lookup_def side_index_def)
  from inv a(1) show thesis
  proof (cases rule: inner_alloc_cases)
    case (slab c)
    then show ?thesis using a(2) by (simp add: slab_block_def)
  next
    case (large u)
    then show ?thesis using that lk by blast
  qed
qed

lemma large_side_cases:
  assumes inv: "inner_inv cc p" and j: "si_side p j \<noteq> SIDE_TABLE_UNALLOCATED" "\<not> si_side p j < NUM_SLAB_CLASSES"
  shows "si_side p j = LARGE_CLASS \<and> (\<exists>u. is_run_start (si_frontier p) u \<and> j * 64 = u * LARGE_UNIT)"
  using inv j unfolding inner_inv_def slab_block_def by blast

lemma unit_slot: "j * 64 = u * LARGE_UNIT \<Longrightarrow> j = u * LARGE_UNIT div 64"
  by (metis nonzero_mult_div_cancel_right zero_neq_numeral)

lemma sum_keep:
  assumes "finite A" "\<And>b. b \<in> A \<Longrightarrow> f b = g b"
  shows "sum f A = sum g A"
  using assms by (intro sum.cong) auto

lemma large_dealloc_inner:
  assumes inv: "inner_inv cc p" and a: "a \<in> alloc_addrs p" "si_side p (a div 64) = LARGE_CLASS"
  shows "\<exists>q. large_deallocate p a = Some q \<and> inner_inv cc q \<and> alloc_addrs q = alloc_addrs p - {a}
     \<and> same_blocks p q (alloc_addrs p - {a}) \<and> lookup p a = Some LARGE_CLASS"
proof -
  note I = inv [unfolded inner_inv_def]
  obtain u where u: "is_run_start (si_frontier p) u" "a = u * LARGE_UNIT"
    "block_len p a = fr_units (si_frontier p) ! u * LARGE_UNIT" "lookup p a = Some LARGE_CLASS"
    using inner_large_start [OF inv a] .
  define k where "k = fr_units (si_frontier p) ! u"
  obtain f where f: "release_run (si_frontier p) u = Some (k, f)" "frontier_inv (si_total p) f"
      "fr_lo f = fr_lo (si_frontier p)" "runs f = runs (si_frontier p) - {(u, k)}"
    using release_run_ok [OF _ u(1), of "si_total p"] I by (auto simp: k_def)
  define q where "q = p\<lparr>si_side := (si_side p)(a div 64 := SIDE_TABLE_UNALLOCATED), si_frontier := f,
      si_used := si_used p - k * LARGE_UNIT\<rparr>"
  have eq: "large_deallocate p a = Some q"
    using f(1) u(2) by (simp add: large_deallocate_def q_def side_index_def)
  have side: "si_side q = (si_side p)(a div 64 := SIDE_TABLE_UNALLOCATED)"
    and rest: "si_frontier q = f" "si_heads q = si_heads p" "si_total q = si_total p" "si_epoch q = si_epoch p"
      "si_used q = si_used p - k * LARGE_UNIT" by (simp_all add: q_def)
  have al: "alloc_addrs q = alloc_addrs p - {a}"
    using alloc_addrs_side [of a q p SIDE_TABLE_UNALLOCATED] side u(2) by simp
  have old: "is_run_start f v \<longleftrightarrow> is_run_start (si_frontier p) v \<and> v \<noteq> u" for v
    by (auto simp: start_iff f(4) image_iff k_def dest: runs_units)
  have units: "fr_units f ! v = fr_units (si_frontier p) ! v" if "is_run_start (si_frontier p) v" "v \<noteq> u" for v
    using runs_units [of v "fr_units (si_frontier p) ! v" f] that by (simp add: f(4) large_starts)
  have keep: "block_len q b = block_len p b \<and> si_side q (b div 64) = si_side p (b div 64)"
    if b: "b \<in> alloc_addrs p - {a}" for b
  proof -
    have "b div 64 \<noteq> a div 64" using b u(2) by (auto simp: alloc_addrs_def dvd_div_eq_iff)
    then have eq: "si_side q (b div 64) = si_side p (b div 64)" by (simp add: side)
    have "block_len q b = block_len p b"
      by (rule block_len_keep [OF inv _ eq]) (use b u(2) units rest(1) in auto)
    then show ?thesis using eq by simp
  qed
  have used: "si_used q = (\<Sum>b \<in> alloc_addrs q. block_len q b)"
  proof -
    have "(\<Sum>b \<in> alloc_addrs p. block_len p b) = block_len p a + (\<Sum>b \<in> alloc_addrs p - {a}. block_len p b)"
      using a(1) finite_alloc_addrs [OF inv] by (simp add: sum.remove)
    moreover have "(\<Sum>b \<in> alloc_addrs p - {a}. block_len p b) = (\<Sum>b \<in> alloc_addrs q. block_len q b)"
      unfolding al using keep finite_alloc_addrs [OF inv] by (intro sum_keep) auto
    ultimately show ?thesis using I u rest by (simp add: k_def)
  qed
  have "inner_inv cc q"
  proof (rule inner_inv_frontier [OF inv f(2,3) rest(1-3) _ _ _ _ used])
    fix j
    show "si_side q j < NUM_SLAB_CLASSES \<Longrightarrow> si_side q j = si_side p j"
      by (auto simp: side SIDE_TABLE_UNALLOCATED_def NUM_SLAB_CLASSES_def split: if_splits)
    show "si_side p j = SIDE_TABLE_UNALLOCATED \<Longrightarrow> j * 64 < fr_lo f \<Longrightarrow> si_side q j = SIDE_TABLE_UNALLOCATED"
      by (simp add: side)
    show "si_side q j = LARGE_CLASS \<and> (\<exists>v. is_run_start f v \<and> j * 64 = v * LARGE_UNIT)"
      if jl: "si_side q j \<noteq> SIDE_TABLE_UNALLOCATED" "\<not> si_side q j < NUM_SLAB_CLASSES"
    proof -
      have j: "j \<noteq> a div 64" "si_side p j = si_side q j" using jl by (auto simp: side split: if_splits)
      then obtain v where v: "si_side p j = LARGE_CLASS" "is_run_start (si_frontier p) v" "j * 64 = v * LARGE_UNIT"
        using large_side_cases [OF inv, of j] jl by auto
      then have "v \<noteq> u" using j u(2) unit_slot by blast
      then show ?thesis using v old j by auto
    qed
    show "is_run_start f v \<Longrightarrow> si_side q (v * LARGE_UNIT div 64) = LARGE_CLASS" for v
      using old I u(2) by (auto simp: side)
  qed
  then show ?thesis using eq al keep u(4) rest by (auto simp: same_blocks_def)
qed

lemma large_grow_inner:
  assumes inv: "inner_inv cc p" and a: "a \<in> alloc_addrs p" "si_side p (a div 64) = LARGE_CLASS"
  shows "\<exists>r q. large_grow p a new = Some (r, q) \<and> inner_inv cc q
    \<and> (case r of None \<Rightarrow> q = p
       | Some a' \<Rightarrow> a' \<notin> alloc_addrs p - {a} \<and> alloc_addrs q = insert a' (alloc_addrs p - {a})
           \<and> si_side q (a' div 64) = LARGE_CLASS \<and> LARGE_UNIT dvd a' \<and> a' \<le> a
           \<and> large_units_for new * LARGE_UNIT \<le> block_len q a' \<and> a + block_len p a \<le> a' + block_len q a'
           \<and> same_blocks p q (alloc_addrs p - {a}))"
proof -
  note I = inv [unfolded inner_inv_def]
  obtain u where u: "is_run_start (si_frontier p) u" "a = u * LARGE_UNIT"
    "block_len p a = fr_units (si_frontier p) ! u * LARGE_UNIT"
    using inner_large_start [OF inv a] .
  define k where "k = fr_units (si_frontier p) ! u"
  define kn where "kn = max (large_units_for new) k"
  have F: "frontier_inv (si_total p) (si_frontier p)" using I by simp
  obtain r f where g: "grow_run (si_frontier p) u (large_units_for new) = Some (r, f)"
      "frontier_inv (si_total p) f" "fr_lo f = fr_lo (si_frontier p)"
    and r: "case r of None \<Rightarrow> f = si_frontier p
        | Some s \<Rightarrow> s \<le> u \<and> (u, k) \<in> runs (si_frontier p)
            \<and> runs f = insert (s, kn) (runs (si_frontier p) - {(u, k)}) \<and> u + k \<le> s + kn"
    using grow_run_cases [OF F u(1), of "large_units_for new"] unfolding kn_def k_def by blast
  show ?thesis
  proof (cases r)
    case None
    then show ?thesis using g r u inv by (simp add: large_grow_def Let_def)
  next
    case (Some s)
    with r have s: "s \<le> u" "runs f = insert (s, kn) (runs (si_frontier p) - {(u, k)})" "u + k \<le> s + kn"
      by auto
    have fs: "is_run_start f s" "fr_units f ! s = kn" "fr_lo f \<le> s * LARGE_UNIT"
      using runs_units [of s kn f] runs_above_lo [OF g(2), of s kn] s(2) by auto
    define a' where "a' = s * LARGE_UNIT"
    define q where "q = p\<lparr>si_frontier := f,
      si_side := (if s \<noteq> u then ((si_side p)(a div 64 := SIDE_TABLE_UNALLOCATED))(a' div 64 := si_side p (a div 64))
         else si_side p), si_used := si_used p + (kn - k) * LARGE_UNIT\<rparr>"
    have eq: "large_grow p a new = Some (Some a', q)"
      using g(1) Some u(2) by (simp add: large_grow_def q_def side_index_def kn_def k_def a'_def Let_def)
    have side: "si_side q = ((si_side p)(a div 64 := SIDE_TABLE_UNALLOCATED))(a' div 64 := LARGE_CLASS)"
      using a(2) u(2) by (auto simp: q_def a'_def fun_eq_iff)
    have rest: "si_frontier q = f" "si_heads q = si_heads p" "si_total q = si_total p" "si_epoch q = si_epoch p"
      "si_used q = si_used p + (kn - k) * LARGE_UNIT" by (simp_all add: q_def)
    have al: "alloc_addrs q = insert a' (alloc_addrs p - {a})"
      using u(2) by (auto simp: alloc_addrs_def side a'_def dvd_div_eq_iff)
    have old: "is_run_start f v \<longleftrightarrow> v = s \<or> is_run_start (si_frontier p) v \<and> v \<noteq> u" for v
      by (auto simp: start_iff s(2) image_iff k_def dest: runs_units)
    have ns: "\<not> (is_run_start (si_frontier p) s \<and> s \<noteq> u)"
    proof
      assume st: "is_run_start (si_frontier p) s \<and> s \<noteq> u"
      then have m: "(s, fr_units (si_frontier p) ! s) \<in> runs f" "(s, kn) \<in> runs f"
        using s(2) by (auto simp: runs_def)
      then have "fr_units (si_frontier p) ! s = kn" using runs_units by metis
      moreover have "s + fr_units (si_frontier p) ! s \<le> u"
        using runs_ordered [OF frontier_shape [OF F], of s u] st u(1) s(1) by (auto simp: is_run_start_alt)
      moreover have "0 < k" using runs_above_lo [OF F, of u k] u(1) by (auto simp: runs_def k_def)
      ultimately show False using s(3) by simp
    qed
    have na: "a' \<notin> alloc_addrs p - {a}"
      using unit_addr_alloc [OF inv, of s] fs(3) g(3) ns u(2) by (auto simp: a'_def)
    have units: "fr_units f ! v = fr_units (si_frontier p) ! v" if "is_run_start (si_frontier p) v" "v \<noteq> u" for v
      using runs_units [of v "fr_units (si_frontier p) ! v" f] that by (simp add: s(2) large_starts)
    have keep: "block_len q b = block_len p b \<and> si_side q (b div 64) = si_side p (b div 64)"
      if b: "b \<in> alloc_addrs p - {a}" for b
    proof -
      have "b \<noteq> a'" using na b by blast
      then have "b div 64 \<noteq> a div 64" "b div 64 \<noteq> a' div 64"
        using b u(2) by (auto simp: alloc_addrs_def dvd_div_eq_iff a'_def)
      then have eq: "si_side q (b div 64) = si_side p (b div 64)" by (simp add: side)
      have "block_len q b = block_len p b"
        by (rule block_len_keep [OF inv _ eq]) (use b u(2) units rest(1) in auto)
      then show ?thesis using eq by simp
    qed
    have la: "block_len q a' = kn * LARGE_UNIT" by (simp add: block_len_def side rest a'_def fs)
    have kk: "k \<le> kn" by (simp add: kn_def)
    have used: "si_used q = (\<Sum>b \<in> alloc_addrs q. block_len q b)"
    proof -
      have "(\<Sum>b \<in> alloc_addrs p. block_len p b) = block_len p a + (\<Sum>b \<in> alloc_addrs p - {a}. block_len p b)"
        using a(1) finite_alloc_addrs [OF inv] by (simp add: sum.remove)
      moreover have "(\<Sum>b \<in> alloc_addrs p - {a}. block_len p b) = (\<Sum>b \<in> alloc_addrs p - {a}. block_len q b)"
        using keep finite_alloc_addrs [OF inv] by (intro sum_keep) auto
      moreover have "(\<Sum>b \<in> alloc_addrs q. block_len q b) = kn * LARGE_UNIT + (\<Sum>b \<in> alloc_addrs p - {a}. block_len q b)"
        using na finite_alloc_addrs [OF inv] la by (simp add: al)
      moreover have "(kn - k) * LARGE_UNIT + k * LARGE_UNIT = kn * LARGE_UNIT"
        using kk by (metis add_mult_distrib le_add_diff_inverse2)
      ultimately show ?thesis using I u(3) rest by (simp add: k_def)
    qed
    have "inner_inv cc q"
    proof (rule inner_inv_frontier [OF inv g(2,3) rest(1-3) _ _ _ _ used])
      fix j
      show "si_side q j < NUM_SLAB_CLASSES \<Longrightarrow> si_side q j = si_side p j"
        by (auto simp: side SIDE_TABLE_UNALLOCATED_def NUM_SLAB_CLASSES_def LARGE_CLASS_def split: if_splits)
      show "si_side p j = SIDE_TABLE_UNALLOCATED \<Longrightarrow> j * 64 < fr_lo f \<Longrightarrow> si_side q j = SIDE_TABLE_UNALLOCATED"
        using fs(3) by (auto simp: side a'_def)
      show "si_side q j = LARGE_CLASS \<and> (\<exists>v. is_run_start f v \<and> j * 64 = v * LARGE_UNIT)"
        if jl: "si_side q j \<noteq> SIDE_TABLE_UNALLOCATED" "\<not> si_side q j < NUM_SLAB_CLASSES"
      proof (cases "j = a' div 64")
        case True
        then show ?thesis using fs(1) by (auto simp: side a'_def)
      next
        case False
        then have j: "j \<noteq> a div 64" "si_side p j = si_side q j" using jl by (auto simp: side split: if_splits)
        then obtain v where v: "si_side p j = LARGE_CLASS" "is_run_start (si_frontier p) v" "j * 64 = v * LARGE_UNIT"
          using large_side_cases [OF inv, of j] jl by auto
        then have "v \<noteq> u" using j u(2) unit_slot by blast
        then show ?thesis using v old j by auto
      qed
      show "is_run_start f v \<Longrightarrow> si_side q (v * LARGE_UNIT div 64) = LARGE_CLASS" for v
        using old I u(2) by (auto simp: side a'_def)
    qed
    moreover have "large_units_for new \<le> kn" by (simp add: kn_def)
    moreover have "(u + k) * LARGE_UNIT \<le> (s + kn) * LARGE_UNIT" using s(3) by (rule mult_le_mono1)
    moreover have "a' \<le> a" using s(1) u(2) by (simp add: a'_def)
    ultimately show ?thesis using eq al na side la keep u rest
      by (auto simp: same_blocks_def a'_def k_def algebra_simps)
  qed
qed

end
