(* ===== verification/Slab_Pool_Safe.thy ===== *)
theory Slab_Pool_Safe
  imports Slab_Pool_Inv
begin

text \<open>
  Safety of the slab pool as its clients see it: thread caches in front of the shared
  state. A block the side table lists as allocated is either parked in exactly one thread
  cache or owned by a client; every pool operation of any thread keeps that partition,
  hands out only blocks nobody owns, and never fails an assertion.
\<close>

subsection \<open>A cache in front of the shared state\<close>

definition inner_ok :: "slab_inner \<Rightarrow> bool" where
  "inner_ok p \<longleftrightarrow> (\<exists>cc. inner_inv cc p)"

definition cset :: "tcache \<Rightarrow> nat set" where
  "cset c = (\<Union>k < NUM_SLAB_CLASSES. set (tc_bins c ! k))"

definition cache_ok :: "slab_inner \<Rightarrow> tcache \<Rightarrow> bool" where
  "cache_ok p c \<longleftrightarrow> length (tc_bins c) = NUM_SLAB_CLASSES \<and>
     (\<forall>k < NUM_SLAB_CLASSES. length (tc_bins c ! k) \<le> TCACHE_CAPACITY \<and> distinct (tc_bins c ! k) \<and>
        (\<forall>b \<in> set (tc_bins c ! k). b \<in> alloc_addrs p \<and> si_side p (b div 64) = k))"

text \<open>\<open>own\<close>: the allocated blocks that are not in this cache.\<close>

definition local_inv :: "slab_inner \<Rightarrow> tcache \<Rightarrow> nat set \<Rightarrow> bool" where
  "local_inv p c own \<longleftrightarrow> inner_ok p \<and> cache_ok p c \<and> cset c \<inter> own = {} \<and> alloc_addrs p = cset c \<union> own"

lemma cacheE:
  assumes "cache_ok p c" "k < NUM_SLAB_CLASSES"
  shows "length (tc_bins c) = NUM_SLAB_CLASSES" "length (tc_bins c ! k) \<le> TCACHE_CAPACITY"
    "distinct (tc_bins c ! k)" "\<And>b. b \<in> set (tc_bins c ! k) \<Longrightarrow> b \<in> alloc_addrs p \<and> si_side p (b div 64) = k \<and> b \<in> cset c"
  using assms by (auto simp: cache_ok_def cset_def)

lemma cache_side: "cache_ok p c \<Longrightarrow> b \<in> cset c \<Longrightarrow> si_side p (b div 64) < NUM_SLAB_CLASSES"
  by (auto simp: cache_ok_def cset_def)

lemma cache_bin_of: "cache_ok p c \<Longrightarrow> b \<in> cset c \<Longrightarrow> b \<in> set (tc_bins c ! si_side p (b div 64))"
  by (auto simp: cache_ok_def cset_def)

lemma same_blocks_sub: "same_blocks p q A \<Longrightarrow> B \<subseteq> A \<Longrightarrow> same_blocks p q B"
  by (auto simp: same_blocks_def)

text \<open>Replacing one bin.\<close>

lemma cset_update:
  assumes c: "cache_ok p c" and k: "k < NUM_SLAB_CLASSES"
  shows "cset (c\<lparr>tc_bins := (tc_bins c)[k := bin]\<rparr>) = (cset c - set (tc_bins c ! k)) \<union> set bin"
proof -
  have len: "length (tc_bins c) = NUM_SLAB_CLASSES" using c by (simp add: cache_ok_def)
  have dj: "set (tc_bins c ! j) \<inter> set (tc_bins c ! k) = {}" if "j < NUM_SLAB_CLASSES" "j \<noteq> k" for j
    using cacheE(4) [OF c that(1)] cacheE(4) [OF c k] that by blast
  show ?thesis
  proof (intro set_eqI iffI)
    fix b assume "b \<in> cset (c\<lparr>tc_bins := (tc_bins c)[k := bin]\<rparr>)"
    then obtain j where "j < NUM_SLAB_CLASSES" "b \<in> set ((tc_bins c)[k := bin] ! j)" by (auto simp: cset_def)
    then show "b \<in> (cset c - set (tc_bins c ! k)) \<union> set bin"
      using dj [of j] k len by (cases "j = k") (auto simp: cset_def)
  next
    fix b assume b: "b \<in> (cset c - set (tc_bins c ! k)) \<union> set bin"
    show "b \<in> cset (c\<lparr>tc_bins := (tc_bins c)[k := bin]\<rparr>)"
    proof (cases "b \<in> set bin")
      case True
      then show ?thesis using k len by (auto simp: cset_def intro!: bexI [of _ k])
    next
      case False
      then obtain j where "j < NUM_SLAB_CLASSES" "b \<in> set (tc_bins c ! j)" "j \<noteq> k" using b by (auto simp: cset_def)
      then show ?thesis by (auto simp: cset_def intro!: bexI [of _ j])
    qed
  qed
qed

lemma local_update:
  assumes c: "cache_ok p c" and k: "k < NUM_SLAB_CLASSES" and q: "inner_ok q"
    and bin: "length bin \<le> TCACHE_CAPACITY" "distinct bin" "\<And>b. b \<in> set bin \<Longrightarrow> si_side q (b div 64) = k"
    and rest: "\<And>b. b \<in> cset c \<Longrightarrow> b \<notin> set (tc_bins c ! k) \<Longrightarrow> si_side q (b div 64) = si_side p (b div 64)"
    and al: "alloc_addrs q = (cset c - set (tc_bins c ! k)) \<union> set bin \<union> own"
    and dj: "((cset c - set (tc_bins c ! k)) \<union> set bin) \<inter> own = {}"
  shows "local_inv q (c\<lparr>tc_bins := (tc_bins c)[k := bin]\<rparr>) own"
proof -
  let ?c = "c\<lparr>tc_bins := (tc_bins c)[k := bin]\<rparr>"
  note cs = cset_update [OF c k, of bin]
  have len: "length (tc_bins c) = NUM_SLAB_CLASSES" using c by (simp add: cache_ok_def)
  have "cache_ok q ?c"
    unfolding cache_ok_def
  proof (intro conjI allI impI ballI)
    fix j assume j: "j < NUM_SLAB_CLASSES"
    show "length (tc_bins ?c ! j) \<le> TCACHE_CAPACITY" "distinct (tc_bins ?c ! j)"
      using cacheE(2,3) [OF c j] bin len k by (cases "j = k"; simp)+
    fix b assume b: "b \<in> set (tc_bins ?c ! j)"
    then have "b \<in> cset ?c" using j by (auto simp: cset_def)
    then show "b \<in> alloc_addrs q" using al cs by blast
    show "si_side q (b div 64) = j"
    proof (cases "j = k")
      case False
      then have bj: "b \<in> set (tc_bins c ! j)" using b by simp
      then have "b \<notin> set (tc_bins c ! k)" using cacheE(4) [OF c j bj] cacheE(4) [OF c k, of b] False by blast
      then show ?thesis using rest [of b] cacheE(4) [OF c j bj] by simp
    qed (use b bin(3) len k in simp)
  qed (simp add: len)
  then show ?thesis using q al dj cs by (simp add: local_inv_def)
qed

subsection \<open>Returning blocks to the shared state\<close>

lemma dealloc_class_ok:
  assumes p: "inner_ok p" and b: "b \<in> alloc_addrs p"
  shows "\<exists>q. global_deallocate_to_class p k b = Some q \<and> inner_ok q \<and> alloc_addrs q = alloc_addrs p - {b}
     \<and> same_blocks p q (alloc_addrs p - {b})"
proof -
  obtain cc where inv: "inner_inv cc p" using p by (auto simp: inner_ok_def)
  show ?thesis
  proof (cases "si_side p (b div 64) < NUM_SLAB_CLASSES")
    case True
    from give_inner [OF inv b refl True] True show ?thesis
      by (auto simp: global_deallocate_to_class_def inner_ok_def)
  next
    case False
    then have "si_side p (b div 64) = LARGE_CLASS"
      using large_side_cases [OF inv, of "b div 64"] b by (auto simp: alloc_addrs_def)
    from large_dealloc_inner [OF inv b this] show ?thesis
      by (auto simp: global_deallocate_to_class_def inner_ok_def)
  qed
qed

lemma dealloc_all_ok:
  assumes "inner_ok p" "distinct bs" "set bs \<subseteq> alloc_addrs p"
  shows "\<exists>q. dealloc_all p k bs = Some q \<and> inner_ok q \<and> alloc_addrs q = alloc_addrs p - set bs
     \<and> same_blocks p q (alloc_addrs p - set bs)"
  using assms
proof (induction bs arbitrary: p)
  case (Cons b bs)
  then obtain q where q: "global_deallocate_to_class p k b = Some q" "inner_ok q"
      "alloc_addrs q = alloc_addrs p - {b}" "same_blocks p q (alloc_addrs p - {b})"
    using dealloc_class_ok [of p b k] by auto
  from Cons.IH [of q] q Cons.prems obtain r where r: "dealloc_all q k bs = Some r" "inner_ok r"
      "alloc_addrs r = alloc_addrs q - set bs" "same_blocks q r (alloc_addrs q - set bs)" by auto
  have "same_blocks p r (alloc_addrs p - set (b # bs))"
    by (rule same_blocks_trans [OF q(4) r(4)]) (use q(3) in auto)
  then show ?case using q r by auto
qed simp

text \<open>The class is only a debug check, so a flush is one long return.\<close>

lemma dealloc_all_class: "dealloc_all p k bs = dealloc_all p j bs"
proof (induction bs arbitrary: p)
  case (Cons b bs)
  have "global_deallocate_to_class p k b = global_deallocate_to_class p j b"
    by (simp add: global_deallocate_to_class_def)
  then show ?case using Cons by (simp split: option.splits)
qed simp

lemma dealloc_all_append:
  "dealloc_all p k (as @ bs) = (case dealloc_all p k as of None \<Rightarrow> None | Some q \<Rightarrow> dealloc_all q k bs)"
  by (induction as arbitrary: p) (auto split: option.splits)

lemma flush_classes_concat: "flush_classes p cs bins = dealloc_all p 0 (concat (map ((!) bins) cs))"
proof (induction cs arbitrary: p)
  case (Cons k cs)
  show ?case by (simp add: Cons dealloc_all_append dealloc_all_class [of p k _ 0] split: option.split)
qed simp

lemma concat_bins_distinct:
  assumes c: "cache_ok p c" and n: "n \<le> NUM_SLAB_CLASSES"
  shows "distinct (concat (map ((!) (tc_bins c)) [0..<n]))"
  using n
proof (induction n)
  case (Suc n)
  have "set (concat (map ((!) (tc_bins c)) [0..<n])) \<inter> set (tc_bins c ! n) = {}"
  proof -
    have "False" if "j < n" "b \<in> set (tc_bins c ! j)" "b \<in> set (tc_bins c ! n)" for j b
      using cacheE(4) [OF c, of j b] cacheE(4) [OF c, of n b] that Suc.prems by auto
    then show ?thesis by auto
  qed
  then show ?case using Suc cacheE(3) [OF c, of n] by simp
qed simp

lemma empty_cache [simp]:
  "cset (c\<lparr>tc_bins := replicate NUM_SLAB_CLASSES []\<rparr>) = {}" "cache_ok p (c\<lparr>tc_bins := replicate NUM_SLAB_CLASSES []\<rparr>)"
  by (simp_all add: cset_def cache_ok_def)

lemma cset_epoch [simp]: "cset (c\<lparr>tc_epoch := e\<rparr>) = cset c" "cache_ok p (c\<lparr>tc_epoch := e\<rparr>) = cache_ok p c"
  "local_inv p (c\<lparr>tc_epoch := e\<rparr>) own = local_inv p c own"
  by (simp_all add: cset_def cache_ok_def local_inv_def)

lemma flush_all_ok:
  assumes L: "local_inv p c own"
  shows "\<exists>q. flush_all p c = Some (q, c\<lparr>tc_bins := replicate NUM_SLAB_CLASSES []\<rparr>)
     \<and> local_inv q (c\<lparr>tc_bins := replicate NUM_SLAB_CLASSES []\<rparr>) own \<and> same_blocks p q own"
proof -
  note L' = L [unfolded local_inv_def]
  let ?bs = "concat (map ((!) (tc_bins c)) [0..<NUM_SLAB_CLASSES])"
  have set: "set ?bs = cset c" by (auto simp: cset_def)
  from dealloc_all_ok [of p ?bs 0] concat_bins_distinct [of p c NUM_SLAB_CLASSES] L' set
  obtain q where q: "dealloc_all p 0 ?bs = Some q" "inner_ok q" "alloc_addrs q = alloc_addrs p - cset c"
    "same_blocks p q (alloc_addrs p - cset c)" by auto
  moreover have "alloc_addrs p - cset c = own" using L' by blast
  ultimately show ?thesis by (simp add: flush_all_def flush_classes_concat local_inv_def)
qed

lemma spill_ok:
  assumes L: "local_inv p c own" and k: "k < NUM_SLAB_CLASSES"
  shows "\<exists>q. spill p c k = Some (q, c\<lparr>tc_bins := (tc_bins c)[k := drop TCACHE_SPILL (tc_bins c ! k)]\<rparr>)
     \<and> local_inv q (c\<lparr>tc_bins := (tc_bins c)[k := drop TCACHE_SPILL (tc_bins c ! k)]\<rparr>) own \<and> same_blocks p q own"
proof -
  note L' = L [unfolded local_inv_def]
  have c: "cache_ok p c" using L' by simp
  define bin where "bin = tc_bins c ! k"
  define n where "n = min TCACHE_SPILL (length bin)"
  have drop: "drop n bin = drop TCACHE_SPILL bin" by (auto simp: n_def min_def)
  have bin: "length bin \<le> TCACHE_CAPACITY" "distinct bin" "set bin \<subseteq> cset c" "\<And>b. b \<in> set bin \<Longrightarrow> si_side p (b div 64) = k"
    using cacheE [OF c k] by (auto simp: bin_def)
  have split: "set bin = set (take n bin) \<union> set (drop n bin)" "set (take n bin) \<inter> set (drop n bin) = {}"
    using set_append [of "take n bin" "drop n bin"] bin(2) by (auto dest: set_take_disj_set_drop_if_distinct)
  have "distinct (take n bin)" "set (take n bin) \<subseteq> alloc_addrs p"
    using bin L' split by auto
  from dealloc_all_ok [OF _ this, of k] L'
  obtain q where q: "dealloc_all p k (take n bin) = Some q" "inner_ok q" "alloc_addrs q = alloc_addrs p - set (take n bin)"
    "same_blocks p q (alloc_addrs p - set (take n bin))" by auto
  have sides: "si_side q (b div 64) = si_side p (b div 64)" if "b \<in> alloc_addrs p" "b \<notin> set (take n bin)" for b
    using q(4) that by (simp add: same_blocks_def)
  have "local_inv q (c\<lparr>tc_bins := (tc_bins c)[k := drop n bin]\<rparr>) own"
  proof (rule local_update [OF c k q(2)])
    show "length (drop n bin) \<le> TCACHE_CAPACITY" "distinct (drop n bin)" using bin by auto
    show "si_side q (b div 64) = k" if "b \<in> set (drop n bin)" for b
      using that sides [of b] bin split L' by blast
    show "si_side q (b div 64) = si_side p (b div 64)" if "b \<in> cset c" "b \<notin> set (tc_bins c ! k)" for b
      using that sides [of b] L' split by (auto simp: bin_def)
    show "alloc_addrs q = cset c - set (tc_bins c ! k) \<union> set (drop n bin) \<union> own"
      using q(3) L' bin split unfolding bin_def [symmetric] by blast
    show "(cset c - set (tc_bins c ! k) \<union> set (drop n bin)) \<inter> own = {}"
      using L' bin split unfolding bin_def [symmetric] by blast
  qed
  moreover have "same_blocks p q own"
    by (rule same_blocks_sub [OF q(4)]) (use L' bin split in blast)
  ultimately show ?thesis using q(1) drop by (simp add: spill_def bin_def [symmetric] n_def [symmetric] Let_def)
qed

lemma bin_push_ok:
  assumes L: "local_inv p c own" and b: "b \<in> own" "si_side p (b div 64) = k" and k: "k < NUM_SLAB_CLASSES"
    and room: "length (tc_bins c ! k) < TCACHE_CAPACITY"
  shows "local_inv p (c\<lparr>tc_bins := (tc_bins c)[k := tc_bins c ! k @ [b]]\<rparr>) (own - {b})"
proof -
  note L' = L [unfolded local_inv_def]
  have c: "cache_ok p c" using L' by simp
  have sub: "set (tc_bins c ! k) \<subseteq> cset c" using cacheE(4) [OF c k] by blast
  show ?thesis
  proof (rule local_update [OF c k])
    show "distinct (tc_bins c ! k @ [b])" using cacheE(3) [OF c k] sub b L' by auto
    show "alloc_addrs p = cset c - set (tc_bins c ! k) \<union> set (tc_bins c ! k @ [b]) \<union> (own - {b})"
      using L' sub b by auto
    show "(cset c - set (tc_bins c ! k) \<union> set (tc_bins c ! k @ [b])) \<inter> (own - {b}) = {}"
      using L' sub by auto
  qed (use L' b room cacheE(4) [OF c k] in auto)
qed

lemma cache_push_ok:
  assumes L: "local_inv p c own" and b: "b \<in> own" "si_side p (b div 64) = k" and k: "k < NUM_SLAB_CLASSES"
  shows "\<exists>q c'. cache_push p c k b = Some (q, c') \<and> local_inv q c' (own - {b}) \<and> same_blocks p q own"
proof (cases "bin_is_full (tc_bins c ! k)")
  case False
  then have "length (tc_bins c ! k) < TCACHE_CAPACITY" by (simp add: bin_is_full_def)
  then show ?thesis using bin_push_ok [OF L b k] False by (simp add: cache_push_def bin_push_def)
next
  case True
  let ?c = "c\<lparr>tc_bins := (tc_bins c)[k := drop TCACHE_SPILL (tc_bins c ! k)]\<rparr>"
  obtain q where q: "spill p c k = Some (q, ?c)" "local_inv q ?c own" "same_blocks p q own"
    using spill_ok [OF L k] by blast
  have c: "cache_ok p c" using L by (simp add: local_inv_def)
  have room: "length (tc_bins ?c ! k) < TCACHE_CAPACITY"
    using cacheE(1,2) [OF c k] k by (simp add: TCACHE_CAPACITY_def TCACHE_SPILL_def)
  have "si_side q (b div 64) = k" using q(3) b by (simp add: same_blocks_def)
  from bin_push_ok [OF q(2) b(1) this k room] show ?thesis
    using True q(1,3) room by (simp add: cache_push_def bin_push_def)
qed

subsection \<open>Taking blocks from the shared state\<close>

lemma take_slab_ok:
  assumes p: "inner_ok p" and k: "k < NUM_SLAB_CLASSES"
    and t: "pop_free p k = Some (b, p') \<or> carve p k = Some (b, p')"
  defines "q \<equiv> record_allocation p' b k (class_size k)"
  shows "inner_ok q \<and> b \<notin> alloc_addrs p \<and> alloc_addrs q = insert b (alloc_addrs p) \<and> si_side q (b div 64) = k
     \<and> same_blocks p q (alloc_addrs p)"
proof -
  obtain cc where inv: "inner_inv cc p" using p by (auto simp: inner_ok_def)
  obtain cc' where t': "inner_inv cc' p'" "free_block cc' p' k b" "alloc_addrs p' = alloc_addrs p"
    "same_blocks p p' (alloc_addrs p)"
    using t pop_inner [OF inv k, of b p'] carve_inner [OF inv k, of b p'] by blast
  have r: "inner_inv cc' q \<and> alloc_addrs q = insert b (alloc_addrs p') \<and> si_side q (b div 64) = k
     \<and> same_blocks p' q (alloc_addrs p')"
    using record_inner [OF t'(1,2)] by (simp add: q_def)
  moreover have "b \<notin> alloc_addrs p" using t'(2,3) by (simp add: free_block_def)
  moreover have "same_blocks p q (alloc_addrs p)"
    by (rule same_blocks_trans [OF t'(4), of q "alloc_addrs p'"]) (use r t'(3) in auto)
  ultimately show ?thesis using t'(3) by (auto simp: inner_ok_def)
qed

lemma local_take:
  assumes L: "local_inv p c own" and q: "inner_ok q" "b \<notin> alloc_addrs p" "alloc_addrs q = insert b (alloc_addrs p)"
    and s: "same_blocks p q (alloc_addrs p)"
  shows "local_inv q c (insert b own)" "same_blocks p q own"
proof -
  note L' = L [unfolded local_inv_def]
  have "cache_ok q c" unfolding cache_ok_def
    using L' q(3) s by (auto simp: cache_ok_def same_blocks_def)
  then show "local_inv q c (insert b own)" using L' q by (auto simp: local_inv_def)
  show "same_blocks p q own" by (rule same_blocks_sub [OF s]) (use L' in blast)
qed

lemma refill_loop_ok:
  assumes "local_inv p c own" "k < NUM_SLAB_CLASSES"
  shows "\<exists>q c'. refill_loop n p c k = Some (q, c') \<and> local_inv q c' own \<and> same_blocks p q own"
  using assms(1)
proof (induction n arbitrary: p c)
  case (Suc n)
  show ?case
  proof (cases "pop_free p k")
    case None
    then show ?thesis using Suc.prems by simp
  next
    case (Some r)
    then obtain b p' where t: "pop_free p k = Some (b, p')" by (cases r) auto
    define q where "q = record_allocation p' b k (class_size k)"
    have in_p: "inner_ok p" using Suc.prems by (simp add: local_inv_def)
    have q: "inner_ok q" "b \<notin> alloc_addrs p" "alloc_addrs q = insert b (alloc_addrs p)"
        "si_side q (b div 64) = k" "same_blocks p q (alloc_addrs p)"
      using take_slab_ok [OF in_p assms(2), of b p'] t by (auto simp: q_def)
    note lt = local_take [OF Suc.prems q(1,2,3,5)]
    obtain r c' where r: "cache_push q c k b = Some (r, c')" "local_inv r c' (insert b own - {b})"
        "same_blocks q r (insert b own)"
      using cache_push_ok [OF lt(1) _ q(4) assms(2)] by blast
    have ob: "insert b own - {b} = own" using q(2) Suc.prems by (auto simp: local_inv_def)
    from Suc.IH [of r c'] r ob obtain s c'' where s: "refill_loop n r c' k = Some (s, c'')" "local_inv s c'' own"
        "same_blocks r s own" by auto
    have "same_blocks p r own" by (rule same_blocks_trans [OF lt(2) r(3)]) auto
    then have "same_blocks p s own" by (rule same_blocks_trans [OF _ s(3)]) auto
    then show ?thesis using t r(1) s by (simp add: q_def)
  qed
qed simp

lemma size_class_slab:
  assumes "size_class_for l = Some k" "k \<noteq> LARGE_CLASS"
  shows "k < NUM_SLAB_CLASSES" "max (l_size l) (l_align l) \<le> class_size k"
proof -
  have pos: "position P xs = Some i \<Longrightarrow> i < length xs \<and> P (xs ! i)" for P and xs :: "nat list" and i
    by (induction xs arbitrary: i) (auto split: if_splits)
  let ?P = "(\<le>) (max (l_size l) (l_align l))"
  have "position ?P (take NUM_SLAB_CLASSES SIZE_CLASSES) = Some k"
    using assms by (auto simp: size_class_for_def Let_def split: if_splits option.splits)
  from pos [OF this] show "k < NUM_SLAB_CLASSES" "?P (class_size k)" by auto
qed

lemma refill_ok:
  assumes L: "local_inv p c own" and k: "size_class_for l = Some k" "k \<noteq> LARGE_CLASS" and z: "l_size l \<noteq> 0"
  shows "\<exists>r q c'. refill p c k l = Some (r, q, c') \<and> (case r of
      Inl e \<Rightarrow> e = PoolExhausted l \<and> q = p \<and> c' = c
    | Inr a \<Rightarrow> \<exists>b. a = At b \<and> b \<notin> alloc_addrs p \<and> si_side q (b div 64) = k \<and> local_inv q c' (insert b own)
        \<and> same_blocks p q own)"
proof -
  have k': "k < NUM_SLAB_CLASSES" using size_class_slab [OF k] by simp
  define t where "t = (case pop_free p k of Some r \<Rightarrow> Some r | None \<Rightarrow> carve p k)"
  have g: "global_allocate p l = Some (case t of None \<Rightarrow> (Inl (PoolExhausted l), p)
      | Some (b, p') \<Rightarrow> (Inr (At b), record_allocation p' b k (class_size k)))"
    using k z by (auto simp: global_allocate_def slab_allocate_def t_def split: option.splits prod.splits)
  show ?thesis
  proof (cases t)
    case None
    then show ?thesis using g by (simp add: refill_def)
  next
    case (Some x)
    then obtain b p' where x: "t = Some (b, p')" by (cases x) auto
    then have t: "pop_free p k = Some (b, p') \<or> carve p k = Some (b, p')"
      by (auto simp: t_def split: option.splits)
    define q where "q = record_allocation p' b k (class_size k)"
    have in_p: "inner_ok p" using L by (simp add: local_inv_def)
    have q: "inner_ok q" "b \<notin> alloc_addrs p" "alloc_addrs q = insert b (alloc_addrs p)"
        "si_side q (b div 64) = k" "same_blocks p q (alloc_addrs p)"
      using take_slab_ok [OF in_p k' t] by (auto simp: q_def)
    note lt = local_take [OF L q(1,2,3,5)]
    obtain r c' where r: "refill_loop (TCACHE_REFILL - 1) q c k = Some (r, c')" "local_inv r c' (insert b own)"
        "same_blocks q r (insert b own)"
      using refill_loop_ok [OF lt(1) k'] by blast
    have "same_blocks p r own" by (rule same_blocks_trans [OF lt(2) r(3)]) auto
    moreover have "si_side r (b div 64) = k" using r(3) q(4) by (simp add: same_blocks_def)
    ultimately show ?thesis using g x r q(2) by (simp add: refill_def q_def)
  qed
qed

subsection \<open>The pool with all its threads\<close>

definition cached :: "slab_pool \<Rightarrow> nat \<Rightarrow> nat set" where
  "cached P t = (case sp_caches P ! t of None \<Rightarrow> {} | Some c \<Rightarrow> cset c)"

definition foreign :: "slab_pool \<Rightarrow> nat \<Rightarrow> nat set" where
  "foreign P t = (\<Union>s \<in> {..<length (sp_caches P)} - {t}. cached P s)"

text \<open>The blocks clients own, and the regions of memory they span.\<close>

definition owned :: "slab_pool \<Rightarrow> nat set" where
  "owned P = alloc_addrs (sp_inner P) - (\<Union>t < length (sp_caches P). cached P t)"

definition live :: "slab_pool \<Rightarrow> (nat \<times> nat) set" where
  "live P = (\<lambda>b. (b, block_len (sp_inner P) b)) ` owned P"

definition pool_inv :: "slab_pool \<Rightarrow> bool" where
  "pool_inv P \<longleftrightarrow> inner_ok (sp_inner P)
   \<and> (\<forall>t < length (sp_caches P). \<forall>c. sp_caches P ! t = Some c \<longrightarrow> cache_ok (sp_inner P) c)
   \<and> (\<forall>s < length (sp_caches P). \<forall>t < length (sp_caches P). s \<noteq> t \<longrightarrow> cached P s \<inter> cached P t = {})"

lemma cached_alloc: "pool_inv P \<Longrightarrow> t < length (sp_caches P) \<Longrightarrow> cached P t \<subseteq> alloc_addrs (sp_inner P)"
  by (auto simp: pool_inv_def cached_def cache_ok_def cset_def split: option.splits)

lemma cached_disjoint:
  "pool_inv P \<Longrightarrow> s < length (sp_caches P) \<Longrightarrow> t < length (sp_caches P) \<Longrightarrow> s \<noteq> t \<Longrightarrow> cached P s \<inter> cached P t = {}"
  by (simp add: pool_inv_def)

lemma cache_ok_transfer:
  assumes o: "cache_ok p c" and sub: "cset c \<subseteq> A" "cset c \<subseteq> alloc_addrs q" and s: "same_blocks p q A"
  shows "cache_ok q c"
  unfolding cache_ok_def
proof (intro conjI allI impI ballI)
  fix k b assume k: "k < NUM_SLAB_CLASSES" "b \<in> set (tc_bins c ! k)"
  have b: "b \<in> cset c" "si_side p (b div 64) = k" using cacheE(4) [OF o k] by auto
  then show "b \<in> alloc_addrs q" using sub by blast
  show "si_side q (b div 64) = k" using b s sub by (auto simp: same_blocks_def)
qed (use cacheE(2,3) [OF o] o in \<open>auto simp: cache_ok_def\<close>)

lemma owned_split:
  assumes "t < length (sp_caches P)"
  shows "owned P = alloc_addrs (sp_inner P) - cached P t - foreign P t"
proof -
  have "(\<Union>s < length (sp_caches P). cached P s) = cached P t \<union> foreign P t"
    using assms by (auto simp: foreign_def)
  then show ?thesis by (auto simp: owned_def)
qed

text \<open>The view of thread \<open>t\<close>: its cache, and every other allocated block.\<close>

lemma thread_view:
  assumes P: "pool_inv P" and t: "t < length (sp_caches P)"
  shows "local_inv (sp_inner P) (case sp_caches P ! t of Some c \<Rightarrow> c | None \<Rightarrow> tcache_new (sp_inner P))
     (owned P \<union> foreign P t)"
    "foreign P t \<inter> cached P t = {}" "foreign P t \<inter> owned P = {}"
proof -
  have f: "foreign P t \<inter> cached P t = {}" using cached_disjoint [OF P _ t] by (force simp: foreign_def)
  have fa: "foreign P t \<subseteq> alloc_addrs (sp_inner P)" using cached_alloc [OF P] by (auto simp: foreign_def)
  have nc: "cset (tcache_new p) = {}" "cache_ok p (tcache_new p)" for p
    by (simp_all add: tcache_new_def cset_def cache_ok_def)
  show "local_inv (sp_inner P) (case sp_caches P ! t of Some c \<Rightarrow> c | None \<Rightarrow> tcache_new (sp_inner P))
     (owned P \<union> foreign P t)"
    using P t f fa cached_alloc [OF P t] unfolding owned_split [OF t] local_inv_def
    by (cases "sp_caches P ! t") (auto simp: nc cached_def pool_inv_def)
  show "foreign P t \<inter> cached P t = {}" by (rule f)
  show "foreign P t \<inter> owned P = {}" using owned_split [OF t] by blast
qed

lemma pool_put:
  assumes P: "pool_inv P" and t: "t < length (sp_caches P)" and L: "local_inv i c own" and sub: "foreign P t \<subseteq> own"
    and s: "same_blocks (sp_inner P) i (foreign P t)" and co: "co = Some c \<or> co = None \<and> cset c = {}"
  defines "Q \<equiv> P\<lparr>sp_inner := i, sp_caches := (sp_caches P)[t := co]\<rparr>"
  shows "pool_inv Q" "owned Q = own - foreign P t"
proof -
  note L' = L [unfolded local_inv_def]
  have ct: "cached Q t = cset c" using co t by (auto simp: cached_def Q_def)
  have cs: "cached Q s = cached P s" if "s \<noteq> t" for s using that by (simp add: cached_def Q_def)
  have fr: "foreign Q t = foreign P t" using cs by (simp add: foreign_def Q_def)
  have sub_f: "cached P s \<subseteq> foreign P t" if "s < length (sp_caches P)" "s \<noteq> t" for s
    using that by (auto simp: foreign_def)
  have ok: "cache_ok i d" if st: "s < length (sp_caches P)" "sp_caches Q ! s = Some d" for s d
  proof (cases "s = t")
    case True
    then show ?thesis using st co L' t by (auto simp: Q_def)
  next
    case False
    then have d: "sp_caches P ! s = Some d" using st by (simp add: Q_def)
    then have o: "cache_ok (sp_inner P) d" using P st by (simp add: pool_inv_def)
    have "cset d \<subseteq> foreign P t" using sub_f [OF st(1) False] d by (simp add: cached_def)
    then show ?thesis using sub L' by (intro cache_ok_transfer [OF o _ _ s]) auto
  qed
  have dj: "cached Q s \<inter> cached Q r = {}" if "s < length (sp_caches P)" "r < length (sp_caches P)" "s \<noteq> r" for s r
  proof -
    have "cset c \<inter> foreign P t = {}" using L' sub by blast
    then show ?thesis
      using that sub_f [of s] sub_f [of r] ct cs cached_disjoint [OF P that] by (cases "s = t"; cases "r = t") auto
  qed
  have lens: "length (sp_caches Q) = length (sp_caches P)" "sp_inner Q = i" by (simp_all add: Q_def)
  show "pool_inv Q" using L' ok dj by (simp add: pool_inv_def lens)
  show "owned Q = own - foreign P t" using owned_split [of t Q] t ct fr lens L' by auto
qed

lemma pool_inner:
  assumes P: "pool_inv P" and i: "inner_ok i" and s: "same_blocks (sp_inner P) i (\<Union>t < length (sp_caches P). cached P t)"
    and sub: "(\<Union>t < length (sp_caches P). cached P t) \<subseteq> alloc_addrs i"
  shows "pool_inv (P\<lparr>sp_inner := i\<rparr>)" "owned (P\<lparr>sp_inner := i\<rparr>) = alloc_addrs i - (\<Union>t < length (sp_caches P). cached P t)"
proof -
  have cs: "cached (P\<lparr>sp_inner := i\<rparr>) = cached P" by (auto simp: cached_def)
  have "cache_ok i c" if "t < length (sp_caches P)" "sp_caches P ! t = Some c" for t c
  proof -
    have o: "cache_ok (sp_inner P) c" using P that by (simp add: pool_inv_def)
    have sc: "cset c \<subseteq> (\<Union>t < length (sp_caches P). cached P t)" using that by (force simp: cached_def)
    show ?thesis using sub sc by (intro cache_ok_transfer [OF o sc _ s]) auto
  qed
  then show "pool_inv (P\<lparr>sp_inner := i\<rparr>)" using P i by (simp add: pool_inv_def cs)
  show "owned (P\<lparr>sp_inner := i\<rparr>) = alloc_addrs i - (\<Union>t < length (sp_caches P). cached P t)"
    by (simp add: owned_def cs)
qed

lemma current_cache_ok:
  assumes P: "pool_inv P" and t: "t < length (sp_caches P)"
  shows "\<exists>i c. current_cache P t = Some (i, c) \<and> local_inv i c (owned P \<union> foreign P t)
     \<and> same_blocks (sp_inner P) i (owned P \<union> foreign P t)"
proof -
  let ?c = "case sp_caches P ! t of Some c \<Rightarrow> c | None \<Rightarrow> tcache_new (sp_inner P)"
  note L = thread_view(1) [OF P t]
  show ?thesis
  proof (cases "tc_epoch ?c = si_epoch (sp_inner P)")
    case True
    then show ?thesis using L by (simp add: current_cache_def Let_def)
  next
    case False
    then show ?thesis using flush_all_ok [OF L] by (auto simp: current_cache_def Let_def)
  qed
qed

subsection \<open>Allocation\<close>

text \<open>What a successful allocation promises its caller.\<close>

definition fits :: "slab_pool \<Rightarrow> layout \<Rightarrow> nat \<Rightarrow> bool" where
  "fits P l b \<longleftrightarrow> max (l_size l) (l_align l) \<le> block_len (sp_inner P) b
     \<and> b + block_len (sp_inner P) b \<le> si_total (sp_inner P) \<and> (\<forall>j. l_align l = 2 ^ j \<longrightarrow> l_align l dvd b)"

lemma class_pow2:
  assumes "k < NUM_SIZE_CLASSES" "a = 2 ^ j" "a \<le> class_size k"
  shows "a dvd class_size k"
proof -
  obtain m where m: "class_size k = 2 ^ m"
  proof -
    have "k = 0 \<or> k = 1 \<or> k = 2 \<or> k = 3 \<or> k = 4 \<or> k = 5" using assms(1) by (auto simp: NUM_SIZE_CLASSES_def)
    then have "class_size k \<in> {2 ^ 6, 2 ^ 8, 2 ^ 10, 2 ^ 12, 2 ^ 16, 2 ^ 20}"
      by (auto simp: SIZE_CLASSES_def LARGE_UNIT_def)
    then show thesis using that by blast
  qed
  have "j \<le> m" using assms(2,3) m by simp
  then show ?thesis using assms(2) m by (simp add: le_imp_power_dvd)
qed

lemma slab_fits:
  assumes i: "inner_ok (sp_inner Q)" and b: "b \<in> alloc_addrs (sp_inner Q)" "si_side (sp_inner Q) (b div 64) = k"
    and sz: "k < NUM_SLAB_CLASSES" "max (l_size l) (l_align l) \<le> class_size k"
  shows "fits Q l b"
proof -
  obtain cc where inv: "inner_inv cc (sp_inner Q)" using i by (auto simp: inner_ok_def)
  have "class_size k dvd b \<and> block_len (sp_inner Q) b = class_size k"
    using inv b(1)
  proof (cases rule: inner_alloc_cases)
    case (slab c)
    then show ?thesis using b(2) by (simp add: slab_block_def)
  next
    case (large u)
    then show ?thesis using b(2) sz(1) by simp
  qed
  moreover have "l_align l dvd b" if "l_align l = 2 ^ j" for j
    using class_pow2 [OF slab_class_lt [OF sz(1)] that] sz(2) calculation dvd_trans by auto
  ultimately show ?thesis using sz inner_block_bounds [OF inv b(1)] by (simp add: fits_def)
qed

lemma div_ceil_upper: "0 < b \<Longrightarrow> a \<le> div_ceil a b * b"
proof -
  assume "0 < b"
  then have "a mod b \<le> b" by (simp add: less_imp_le)
  moreover have "div_ceil a b * b = a div b * b + (if a mod b = 0 then 0 else b)" by (simp add: div_ceil_def)
  ultimately show ?thesis using div_mult_mod_eq [of a b] by (cases "a mod b = 0"; simp only: if_True if_False simp_thms; linarith)
qed

lemma large_fits:
  assumes i: "inner_ok (sp_inner Q)" and b: "b \<in> alloc_addrs (sp_inner Q)" "LARGE_UNIT dvd b"
    and k: "large_units_for l * LARGE_UNIT \<le> block_len (sp_inner Q) b" and al: "l_align l \<le> LARGE_UNIT"
  shows "fits Q l b"
proof -
  obtain cc where inv: "inner_inv cc (sp_inner Q)" using i by (auto simp: inner_ok_def)
  have "0 < LARGE_UNIT" by (simp add: LARGE_UNIT_def)
  then have "max (l_size l) (l_align l) \<le> large_units_for l * LARGE_UNIT"
    unfolding large_units_for_def by (rule div_ceil_upper)
  moreover have "l_align l dvd LARGE_UNIT" if "l_align l = 2 ^ j" for j
    using class_pow2 [of 5, OF _ that] al by (simp add: NUM_SIZE_CLASSES_def SIZE_CLASSES_def)
  ultimately show ?thesis using k inner_block_bounds [OF inv b(1)] dvd_trans [OF _ b(2)] by (auto simp: fits_def)
qed

lemma size_class_align: "size_class_for l = Some k \<Longrightarrow> l_align l \<le> LARGE_UNIT"
  by (auto simp: size_class_for_def split: if_splits)

lemma bin_pop_ok:
  assumes L: "local_inv p c own" and k: "k < NUM_SLAB_CLASSES" and pop: "bin_pop (tc_bins c ! k) = Some (b, bin)"
  shows "local_inv p (c\<lparr>tc_bins := (tc_bins c)[k := bin]\<rparr>) (insert b own)" "b \<notin> own" "si_side p (b div 64) = k"
proof -
  note L' = L [unfolded local_inv_def]
  have c: "cache_ok p c" using L' by simp
  have bin: "tc_bins c ! k = bin @ [b]" using pop by (auto simp: bin_pop_def split: if_splits)
  have d: "distinct bin" "b \<notin> set bin" "set (tc_bins c ! k) = insert b (set bin)" using cacheE(3) [OF c k] bin by auto
  have sub: "insert b (set bin) \<subseteq> cset c" using cacheE(4) [OF c k] d by blast
  show "local_inv p (c\<lparr>tc_bins := (tc_bins c)[k := bin]\<rparr>) (insert b own)"
  proof (rule local_update [OF c k])
    show "alloc_addrs p = cset c - set (tc_bins c ! k) \<union> set bin \<union> insert b own" using L' d sub by blast
    show "(cset c - set (tc_bins c ! k) \<union> set bin) \<inter> insert b own = {}" using L' d sub by blast
    show "length bin \<le> TCACHE_CAPACITY" using cacheE(2) [OF c k] bin by simp
  qed (use L' d cacheE(4) [OF c k] in auto)
  show "b \<notin> own" using L' sub by blast
  show "si_side p (b div 64) = k" using cacheE(4) [OF c k] d by blast
qed

text \<open>The shape of an answer: refused with nothing changed for the clients, or a block nobody owned.\<close>

definition alloc_answer :: "slab_pool \<Rightarrow> layout \<Rightarrow> (pool_exhausted + ptr) \<Rightarrow> slab_pool \<Rightarrow> bool" where
  "alloc_answer P l r Q \<longleftrightarrow> pool_inv Q \<and> length (sp_caches Q) = length (sp_caches P)
    \<and> same_blocks (sp_inner P) (sp_inner Q) (owned P)
    \<and> (case r of Inl e \<Rightarrow> e = PoolExhausted l \<and> owned Q = owned P
       | Inr a \<Rightarrow> \<exists>b. a = At b \<and> b \<notin> owned P \<and> owned Q = insert b (owned P) \<and> fits Q l b)"

lemma put_answer:
  assumes P: "pool_inv P" and t: "t < length (sp_caches P)" and L: "local_inv q c (insert b (owned P \<union> foreign P t))"
    and b: "b \<notin> owned P \<union> foreign P t" "si_side q (b div 64) = k" and k: "size_class_for l = Some k" "k \<noteq> LARGE_CLASS"
    and s: "same_blocks (sp_inner P) q (owned P \<union> foreign P t)"
  shows "alloc_answer P l (Inr (At b)) (put_cache P t q c)"
proof -
  have sf: "same_blocks (sp_inner P) q (foreign P t)" "same_blocks (sp_inner P) q (owned P)"
    using s by (auto intro: same_blocks_sub)
  have Q: "pool_inv (put_cache P t q c)" "owned (put_cache P t q c) = insert b (owned P)"
    using pool_put [OF P t L _ sf(1), of "Some c"] b(1) thread_view(3) [OF P t] by (auto simp: put_cache_def)
  have "fits (put_cache P t q c) l b"
  proof (rule slab_fits [OF _ _ _ size_class_slab [OF k]])
    show "inner_ok (sp_inner (put_cache P t q c))" "b \<in> alloc_addrs (sp_inner (put_cache P t q c))"
      "si_side (sp_inner (put_cache P t q c)) (b div 64) = k"
      using L b(2) by (auto simp: put_cache_def local_inv_def)
  qed
  then show ?thesis using Q sf(2) b(1) by (simp add: alloc_answer_def put_cache_def)
qed

lemma allocate_slab:
  assumes P: "pool_inv P" and t: "t < length (sp_caches P)" and z: "l_size l \<noteq> 0"
    and k: "size_class_for l = Some k" "k \<noteq> LARGE_CLASS"
  shows "\<exists>r Q. allocate P t l = Some (r, Q) \<and> alloc_answer P l r Q"
proof -
  obtain i c where cc: "current_cache P t = Some (i, c)" and L: "local_inv i c (owned P \<union> foreign P t)"
    and s: "same_blocks (sp_inner P) i (owned P \<union> foreign P t)"
    using current_cache_ok [OF P t] by blast
  have kn: "k < NUM_SLAB_CLASSES" using size_class_slab [OF k] by simp
  have eq: "allocate P t l = (case bin_pop (tc_bins c ! k) of
       Some (b, bin) \<Rightarrow> Some (Inr (At b), put_cache P t i (c\<lparr>tc_bins := (tc_bins c)[k := bin]\<rparr>))
     | None \<Rightarrow> map_option (\<lambda>(r, i', c'). (r, put_cache P t i' c')) (refill i c k l))"
    using z k cc by (simp add: allocate_def)
  show ?thesis
  proof (cases "bin_pop (tc_bins c ! k)")
    case (Some x)
    then obtain b bin where x: "bin_pop (tc_bins c ! k) = Some (b, bin)" by (cases x) auto
    then show ?thesis using eq put_answer [OF P t _ _ _ k s] bin_pop_ok [OF L kn x] by simp
  next
    case None
    obtain r q c' where r: "refill i c k l = Some (r, q, c')"
      and rc: "case r of Inl e \<Rightarrow> e = PoolExhausted l \<and> q = i \<and> c' = c
        | Inr a \<Rightarrow> \<exists>b. a = At b \<and> b \<notin> alloc_addrs i \<and> si_side q (b div 64) = k
           \<and> local_inv q c' (insert b (owned P \<union> foreign P t)) \<and> same_blocks i q (owned P \<union> foreign P t)"
      using refill_ok [OF L k z] by blast
    show ?thesis
    proof (cases r)
      case (Inl e)
      have sf: "same_blocks (sp_inner P) i (foreign P t)" "same_blocks (sp_inner P) i (owned P)"
        using s by (auto intro: same_blocks_sub)
      have "pool_inv (put_cache P t i c)" "owned (put_cache P t i c) = owned P"
        using pool_put [OF P t L _ sf(1), of "Some c"] thread_view(3) [OF P t] by (auto simp: put_cache_def)
      then show ?thesis using eq None r rc Inl sf(2) by (auto simp: alloc_answer_def put_cache_def)
    next
      case (Inr a)
      then obtain b where b: "a = At b" "b \<notin> alloc_addrs i" "si_side q (b div 64) = k"
        and Lq: "local_inv q c' (insert b (owned P \<union> foreign P t))" and sq: "same_blocks i q (owned P \<union> foreign P t)"
        using rc by auto
      have "same_blocks (sp_inner P) q (owned P \<union> foreign P t)" by (rule same_blocks_trans [OF s sq]) auto
      moreover have "b \<notin> owned P \<union> foreign P t" using L b(2) by (auto simp: local_inv_def)
      ultimately show ?thesis using eq None r Inr b put_answer [OF P t Lq _ _ k] by simp
    qed
  qed
qed

lemma allocate_large:
  assumes P: "pool_inv P" and z: "l_size l \<noteq> 0" and k: "size_class_for l = Some LARGE_CLASS"
  shows "\<exists>r Q. allocate P t l = Some (r, Q) \<and> alloc_answer P l r Q"
proof -
  let ?C = "\<Union>t < length (sp_caches P). cached P t"
  obtain cc where inv: "inner_inv cc (sp_inner P)" using P by (auto simp: pool_inv_def inner_ok_def)
  obtain r i where la: "large_allocate (sp_inner P) l = Some (r, i)" "inner_inv cc i"
    and r: "case r of Inl e \<Rightarrow> e = PoolExhausted l \<and> i = sp_inner P
     | Inr a \<Rightarrow> a \<notin> alloc_addrs (sp_inner P) \<and> alloc_addrs i = insert a (alloc_addrs (sp_inner P))
         \<and> si_side i (a div 64) = LARGE_CLASS \<and> LARGE_UNIT dvd a
         \<and> block_len i a = large_units_for l * LARGE_UNIT \<and> same_blocks (sp_inner P) i (alloc_addrs (sp_inner P))"
    using large_alloc_inner [OF inv, of l] by blast
  have al: "allocate P t l = Some (map_sum id At r, P\<lparr>sp_inner := i\<rparr>)"
    using k z la(1) by (simp add: allocate_def)
  show ?thesis
  proof (cases r)
    case (Inl e)
    then show ?thesis using al r P by (simp add: alloc_answer_def)
  next
    case (Inr a)
    have CA: "?C \<subseteq> alloc_addrs (sp_inner P)" using cached_alloc [OF P] by blast
    have i: "inner_ok i" using la(2) by (auto simp: inner_ok_def)
    have sb: "same_blocks (sp_inner P) i (alloc_addrs (sp_inner P))" using r Inr by simp
    have Q: "pool_inv (P\<lparr>sp_inner := i\<rparr>)" "owned (P\<lparr>sp_inner := i\<rparr>) = alloc_addrs i - ?C"
      using pool_inner [OF P i same_blocks_sub [OF sb CA]] CA r Inr by auto
    have "a \<notin> owned P" "alloc_addrs i - ?C = insert a (owned P)" using r Inr CA by (auto simp: owned_def)
    moreover have "fits (P\<lparr>sp_inner := i\<rparr>) l a" using r Inr i size_class_align [OF k] by (intro large_fits) auto
    moreover have "same_blocks (sp_inner P) i (owned P)" by (rule same_blocks_sub [OF sb]) (auto simp: owned_def)
    ultimately show ?thesis using al Inr Q by (auto simp: alloc_answer_def)
  qed
qed

lemma allocate_ok:
  assumes "pool_inv P" "t < length (sp_caches P)" "l_size l \<noteq> 0"
  shows "\<exists>r Q. allocate P t l = Some (r, Q) \<and> alloc_answer P l r Q"
proof (cases "size_class_for l")
  case None
  then show ?thesis using assms by (simp add: allocate_def alloc_answer_def)
next
  case (Some k)
  then show ?thesis using allocate_slab [OF assms Some] allocate_large [OF assms(1,3)] by blast
qed

subsection \<open>Release\<close>

definition free_answer :: "slab_pool \<Rightarrow> nat \<Rightarrow> slab_pool \<Rightarrow> bool" where
  "free_answer P b Q \<longleftrightarrow> pool_inv Q \<and> length (sp_caches Q) = length (sp_caches P)
    \<and> same_blocks (sp_inner P) (sp_inner Q) (owned P - {b}) \<and> owned Q = owned P - {b}"

lemma owned_lookup:
  assumes i: "inner_ok p" and b: "b \<in> alloc_addrs p"
  shows "\<exists>k \<le> LARGE_CLASS. lookup p b = Some k \<and> si_side p (b div 64) = k"
proof -
  obtain cc where inv: "inner_inv cc p" using i by (auto simp: inner_ok_def)
  show ?thesis
  proof (cases "si_side p (b div 64) < NUM_SLAB_CLASSES")
    case True
    from give_inner [OF inv b refl True] True show ?thesis by (simp add: less_imp_le)
  next
    case False
    then have "si_side p (b div 64) = LARGE_CLASS"
      using large_side_cases [OF inv, of "b div 64"] b by (auto simp: alloc_addrs_def)
    from large_dealloc_inner [OF inv b this] this show ?thesis by auto
  qed
qed

lemma deallocate_slab:
  assumes P: "pool_inv P" and t: "t < length (sp_caches P)" and b: "b \<in> owned P" and z: "l_size l \<noteq> 0"
    and k: "lookup (sp_inner P) b = Some k" "si_side (sp_inner P) (b div 64) = k" "k < NUM_SLAB_CLASSES"
  shows "\<exists>Q. deallocate P t (At b) l = Some Q \<and> free_answer P b Q"
proof -
  obtain i c where cc: "current_cache P t = Some (i, c)" and L: "local_inv i c (owned P \<union> foreign P t)"
    and s: "same_blocks (sp_inner P) i (owned P \<union> foreign P t)"
    using current_cache_ok [OF P t] by blast
  have bi: "b \<in> owned P \<union> foreign P t" "si_side i (b div 64) = k" using b s k(2) by (auto simp: same_blocks_def)
  obtain q c' where q: "cache_push i c k b = Some (q, c')" "local_inv q c' (owned P \<union> foreign P t - {b})"
      "same_blocks i q (owned P \<union> foreign P t)"
    using cache_push_ok [OF L bi k(3)] by blast
  have "same_blocks (sp_inner P) q (owned P \<union> foreign P t)" by (rule same_blocks_trans [OF s q(3)]) auto
  then have sf: "same_blocks (sp_inner P) q (foreign P t)" "same_blocks (sp_inner P) q (owned P - {b})"
    by (auto intro: same_blocks_sub)
  note tv = thread_view(3) [OF P t]
  have Q: "pool_inv (put_cache P t q c')" "owned (put_cache P t q c') = owned P - {b}"
    using pool_put [OF P t q(2) _ sf(1), of "Some c'"] tv b by (auto simp: put_cache_def)
  have "deallocate P t (At b) l = Some (put_cache P t q c')"
    using z k cc q(1) by (simp add: deallocate_def)
  then show ?thesis using Q sf(2) by (simp add: free_answer_def put_cache_def)
qed

lemma deallocate_large:
  assumes P: "pool_inv P" and b: "b \<in> owned P" and z: "l_size l \<noteq> 0"
    and k: "lookup (sp_inner P) b = Some LARGE_CLASS" "si_side (sp_inner P) (b div 64) = LARGE_CLASS"
  shows "\<exists>Q. deallocate P t (At b) l = Some Q \<and> free_answer P b Q"
proof -
  let ?C = "\<Union>t < length (sp_caches P). cached P t"
  obtain cc where inv: "inner_inv cc (sp_inner P)" using P by (auto simp: pool_inv_def inner_ok_def)
  have ba: "b \<in> alloc_addrs (sp_inner P)" "b \<notin> ?C" using b by (auto simp: owned_def)
  obtain i where i: "large_deallocate (sp_inner P) b = Some i" "inner_inv cc i"
      "alloc_addrs i = alloc_addrs (sp_inner P) - {b}" "same_blocks (sp_inner P) i (alloc_addrs (sp_inner P) - {b})"
    using large_dealloc_inner [OF inv ba(1) k(2)] by blast
  have CA: "?C \<subseteq> alloc_addrs (sp_inner P) - {b}" using cached_alloc [OF P] ba(2) by blast
  have Q: "pool_inv (P\<lparr>sp_inner := i\<rparr>)" "owned (P\<lparr>sp_inner := i\<rparr>) = alloc_addrs i - ?C"
    using pool_inner [OF P _ same_blocks_sub [OF i(4) CA]] CA i(2,3) by (auto simp: inner_ok_def)
  have "same_blocks (sp_inner P) i (owned P - {b})" by (rule same_blocks_sub [OF i(4)]) (auto simp: owned_def)
  moreover have "alloc_addrs i - ?C = owned P - {b}" using i(3) by (auto simp: owned_def)
  moreover have "deallocate P t (At b) l = Some (P\<lparr>sp_inner := i\<rparr>)"
    using z k i(1) by (simp add: deallocate_def global_deallocate_def)
  ultimately show ?thesis using Q by (simp add: free_answer_def)
qed

lemma owned_cases:
  assumes P: "pool_inv P" and b: "b \<in> owned P"
  obtains (slab) k where "lookup (sp_inner P) b = Some k" "si_side (sp_inner P) (b div 64) = k" "k < NUM_SLAB_CLASSES"
    | (large) "lookup (sp_inner P) b = Some LARGE_CLASS" "si_side (sp_inner P) (b div 64) = LARGE_CLASS"
proof -
  have "inner_ok (sp_inner P)" "b \<in> alloc_addrs (sp_inner P)" using P b by (auto simp: pool_inv_def owned_def)
  from owned_lookup [OF this] obtain k where k: "k \<le> LARGE_CLASS" "lookup (sp_inner P) b = Some k" "si_side (sp_inner P) (b div 64) = k" by blast
  show thesis
  proof (cases "k = LARGE_CLASS")
    case True
    then show ?thesis using k large by blast
  next
    case False
    then have "k < NUM_SLAB_CLASSES" using k(1) by simp
    then show ?thesis using k(2,3) slab by blast
  qed
qed

lemma deallocate_ok:
  assumes P: "pool_inv P" and t: "t < length (sp_caches P)" and b: "b \<in> owned P" and z: "l_size l \<noteq> 0"
  shows "\<exists>Q. deallocate P t (At b) l = Some Q \<and> free_answer P b Q"
  using P b
proof (cases rule: owned_cases)
  case (slab k)
  then show ?thesis using deallocate_slab [OF assms] by blast
next
  case large
  then show ?thesis using deallocate_large [OF P b z] by blast
qed

subsection \<open>Growth\<close>

definition grow_answer :: "slab_pool \<Rightarrow> nat \<Rightarrow> layout \<Rightarrow> (pool_exhausted + ptr) \<Rightarrow> slab_pool \<Rightarrow> bool" where
  "grow_answer P b new r Q \<longleftrightarrow> pool_inv Q \<and> length (sp_caches Q) = length (sp_caches P)
    \<and> (case r of Inl e \<Rightarrow> e = PoolExhausted new \<and> owned Q = owned P \<and> same_blocks (sp_inner P) (sp_inner Q) (owned P)
       | Inr a \<Rightarrow> \<exists>b'. a = At b' \<and> b' \<notin> owned P - {b} \<and> owned Q = insert b' (owned P - {b}) \<and> fits Q new b'
           \<and> same_blocks (sp_inner P) (sp_inner Q) (owned P - {b}))"

lemma class_size_mono: "j \<le> k \<Longrightarrow> k < NUM_SLAB_CLASSES \<Longrightarrow> class_size j \<le> class_size k"
proof -
  assume a: "j \<le> k" "k < NUM_SLAB_CLASSES"
  then have "j < NUM_SLAB_CLASSES" by simp
  with a show ?thesis by (auto simp: slab_classes SIZE_CLASSES_def)
qed

text \<open>Same or smaller class: the block itself.\<close>

lemma grow_in_class:
  assumes P: "pool_inv P" and b: "b \<in> owned P"
    and k: "si_side (sp_inner P) (b div 64) = k" "k < NUM_SLAB_CLASSES" and n: "size_class_for new = Some j" "j \<le> k"
  shows "grow_answer P b new (Inr (At b)) P"
proof -
  have "j \<noteq> LARGE_CLASS" using n k by simp
  then have "max (l_size new) (l_align new) \<le> class_size k"
    using size_class_slab [OF n(1)] class_size_mono [OF n(2) k(2)] by linarith
  then have "fits P new b" using P b k by (intro slab_fits) (auto simp: pool_inv_def owned_def)
  then show ?thesis using P b by (auto simp: grow_answer_def)
qed

text \<open>Otherwise: a fresh block, then the old one is released.\<close>

lemma grow_by_copy:
  assumes P: "pool_inv P" and t: "t < length (sp_caches P)" and b: "b \<in> owned P" and z: "l_size old \<noteq> 0" "l_size new \<noteq> 0"
  shows "\<exists>r Q. (case allocate P t new of None \<Rightarrow> None
        | Some (Inl e, P') \<Rightarrow> Some (Inl e, P')
        | Some (Inr a, P') \<Rightarrow> map_option (Pair (Inr a)) (deallocate P' t (At b) old)) = Some (r, Q)
     \<and> grow_answer P b new r Q"
proof -
  obtain r P' where a: "allocate P t new = Some (r, P')" "alloc_answer P new r P'" using allocate_ok [OF P t z(2)] by blast
  note A = a(2) [unfolded alloc_answer_def]
  show ?thesis
  proof (cases r)
    case (Inl e)
    then show ?thesis using a A by (simp add: grow_answer_def)
  next
    case (Inr x)
    then obtain b' where x: "x = At b'" "b' \<notin> owned P" "owned P' = insert b' (owned P)" "fits P' new b'" using A by auto
    obtain Q where q: "deallocate P' t (At b) old = Some Q" "free_answer P' b Q"
      using deallocate_ok [of P' t b old] A x b t z by auto
    note F = q(2) [unfolded free_answer_def]
    have ne: "b' \<noteq> b" using x(2) b by blast
    have ow: "owned Q = insert b' (owned P - {b})" using F x(3) ne by auto
    have s: "same_blocks (sp_inner P) (sp_inner Q) (owned P - {b})"
    proof (rule same_blocks_trans)
      show "same_blocks (sp_inner P) (sp_inner P') (owned P)" using A by simp
      show "same_blocks (sp_inner P') (sp_inner Q) (owned P' - {b})" using F by simp
    qed (use x(3) in auto)
    have "fits Q new b'" using x(3,4) ne F by (auto simp: fits_def same_blocks_def)
    then show ?thesis using a(1) Inr q(1) x F A ow s by (auto simp: grow_answer_def)
  qed
qed

lemma grow_large_run:
  assumes P: "pool_inv P" and b: "b \<in> owned P" and k: "si_side (sp_inner P) (b div 64) = LARGE_CLASS"
    and n: "size_class_for new = Some j"
  shows "\<exists>r i. large_grow (sp_inner P) b new = Some (r, i) \<and> (case r of None \<Rightarrow> i = sp_inner P
      | Some b' \<Rightarrow> grow_answer P b new (Inr (At b')) (P\<lparr>sp_inner := i\<rparr>))"
proof -
  let ?C = "\<Union>t < length (sp_caches P). cached P t"
  obtain cc where inv: "inner_inv cc (sp_inner P)" using P by (auto simp: pool_inv_def inner_ok_def)
  have ba: "b \<in> alloc_addrs (sp_inner P)" "b \<notin> ?C" using b by (auto simp: owned_def)
  obtain r i where g: "large_grow (sp_inner P) b new = Some (r, i)" "inner_inv cc i"
    and r: "case r of None \<Rightarrow> i = sp_inner P
       | Some a' \<Rightarrow> a' \<notin> alloc_addrs (sp_inner P) - {b} \<and> alloc_addrs i = insert a' (alloc_addrs (sp_inner P) - {b})
           \<and> si_side i (a' div 64) = LARGE_CLASS \<and> LARGE_UNIT dvd a' \<and> a' \<le> b
           \<and> large_units_for new * LARGE_UNIT \<le> block_len i a' \<and> b + block_len (sp_inner P) b \<le> a' + block_len i a'
           \<and> same_blocks (sp_inner P) i (alloc_addrs (sp_inner P) - {b})"
    using large_grow_inner [OF inv ba(1) k, of new] by blast
  show ?thesis
  proof (cases r)
    case None
    then show ?thesis using g r by simp
  next
    case (Some a')
    have sb: "same_blocks (sp_inner P) i (alloc_addrs (sp_inner P) - {b})" and al: "alloc_addrs i = insert a' (alloc_addrs (sp_inner P) - {b})"
      and na: "a' \<notin> alloc_addrs (sp_inner P) - {b}" using r Some by auto
    have CA: "?C \<subseteq> alloc_addrs (sp_inner P) - {b}" using cached_alloc [OF P] ba(2) by blast
    have Q: "pool_inv (P\<lparr>sp_inner := i\<rparr>)" "owned (P\<lparr>sp_inner := i\<rparr>) = alloc_addrs i - ?C"
      using pool_inner [OF P _ same_blocks_sub [OF sb CA]] CA g(2) al by (auto simp: inner_ok_def)
    have "fits (P\<lparr>sp_inner := i\<rparr>) new a'"
      using g(2) r Some size_class_align [OF n] by (intro large_fits) (auto simp: inner_ok_def)
    moreover have "same_blocks (sp_inner P) i (owned P - {b})" by (rule same_blocks_sub [OF sb]) (auto simp: owned_def)
    moreover have "alloc_addrs i - ?C = insert a' (owned P - {b})" "a' \<notin> owned P - {b}"
      using al na CA by (auto simp: owned_def)
    ultimately show ?thesis using g(1) Some Q by (simp add: grow_answer_def)
  qed
qed

lemma grow_ok:
  assumes P: "pool_inv P" and t: "t < length (sp_caches P)" and b: "b \<in> owned P" and z: "l_size old \<noteq> 0" "l_size new \<noteq> 0"
  shows "\<exists>r Q. grow P t (At b) old new = Some (r, Q) \<and> grow_answer P b new r Q"
proof (cases "size_class_for new")
  case None
  then show ?thesis using P z by (auto simp: grow_def grow_answer_def)
next
  case (Some j)
  note copy = grow_by_copy [OF assms]
  from P b show ?thesis
  proof (cases rule: owned_cases)
    case (slab k)
    then show ?thesis using copy grow_in_class [OF P b slab(2,3) Some] Some z by (cases "j \<le> k") (simp_all add: grow_def)
  next
    case large
    obtain r i where g: "large_grow (sp_inner P) b new = Some (r, i)" and r: "case r of None \<Rightarrow> i = sp_inner P
      | Some b' \<Rightarrow> grow_answer P b new (Inr (At b')) (P\<lparr>sp_inner := i\<rparr>)"
      using grow_large_run [OF P b large(2) Some] by blast
    show ?thesis using large g r copy Some z by (cases r) (simp_all add: grow_def)
  qed
qed

end
