(* ===== verification/Pool_Spec.thy ===== *)
theory Pool_Spec
  imports Slab_Pool_Safe
begin

text \<open>
  The contract of the slab pool over whole histories: any interleaving of the atomic pool
  operations of any number of threads, each within its \<^verbatim>\<open>unsafe\<close> contract, runs without a
  failed assertion and keeps the memory of distinct owners apart; the accounting counter
  is exactly the bytes of the blocks handed out or parked in a cache.
\<close>

subsection \<open>Flushing and thread exit\<close>

lemma epoch_free [simp]:
  "alloc_addrs (p\<lparr>si_epoch := e\<rparr>) = alloc_addrs p" "block_len (p\<lparr>si_epoch := e\<rparr>) b = block_len p b"
  by (simp_all add: alloc_addrs_def block_len_def Let_def)

lemma epoch_free_inv [simp]:
  "inner_ok (p\<lparr>si_epoch := e\<rparr>) = inner_ok p" "cache_ok (p\<lparr>si_epoch := e\<rparr>) c = cache_ok p c"
  by (simp_all add: inner_ok_def inner_inv_def cache_ok_def)

lemma pool_epoch:
  "pool_inv (P\<lparr>sp_inner := (sp_inner P)\<lparr>si_epoch := e\<rparr>\<rparr>) = pool_inv P"
  "owned (P\<lparr>sp_inner := (sp_inner P)\<lparr>si_epoch := e\<rparr>\<rparr>) = owned P"
  by (simp_all add: pool_inv_def owned_def cached_def)

text \<open>What a flush leaves the clients with: everything they had.\<close>

definition kept :: "slab_pool \<Rightarrow> slab_pool \<Rightarrow> bool" where
  "kept P Q \<longleftrightarrow> pool_inv Q \<and> length (sp_caches Q) = length (sp_caches P) \<and> owned Q = owned P
     \<and> (\<forall>b \<in> owned P. block_len (sp_inner Q) b = block_len (sp_inner P) b)
     \<and> si_total (sp_inner Q) = si_total (sp_inner P)"

lemma flush_thread:
  assumes P: "pool_inv P" and t: "t < length (sp_caches P)" and c: "sp_caches P ! t = Some c"
  shows "\<exists>i c'. flush_all (sp_inner P) c = Some (i, c') \<and> cset c' = {}
     \<and> kept P (put_cache P t i c') \<and> kept P (P\<lparr>sp_inner := i, sp_caches := (sp_caches P)[t := None]\<rparr>)
     \<and> cached (put_cache P t i c') t = {}"
proof -
  let ?c = "c\<lparr>tc_bins := replicate NUM_SLAB_CLASSES []\<rparr>"
  have L: "local_inv (sp_inner P) c (owned P \<union> foreign P t)" using thread_view(1) [OF P t] c by simp
  obtain i where i: "flush_all (sp_inner P) c = Some (i, ?c)" "local_inv i ?c (owned P \<union> foreign P t)"
      "same_blocks (sp_inner P) i (owned P \<union> foreign P t)" using flush_all_ok [OF L] by blast
  have sf: "same_blocks (sp_inner P) i (foreign P t)" by (rule same_blocks_sub [OF i(3)]) simp
  note put = pool_put [OF P t i(2) _ sf]
  have ow: "owned P \<union> foreign P t - foreign P t = owned P" using thread_view(3) [OF P t] by blast
  have "kept P (put_cache P t i ?c)" "kept P (P\<lparr>sp_inner := i, sp_caches := (sp_caches P)[t := None]\<rparr>)"
    using put [of "Some ?c"] put [of None] ow i(3) by (auto simp: kept_def put_cache_def same_blocks_def)
  then show ?thesis using i(1) t by (auto simp: cached_def put_cache_def)
qed

lemma kept_epoch: "kept P Q \<Longrightarrow> kept P (Q\<lparr>sp_inner := (sp_inner Q)\<lparr>si_epoch := e\<rparr>\<rparr>)"
  by (simp add: kept_def pool_epoch)

lemma flush_caches_ok:
  assumes P: "pool_inv P" and t: "t < length (sp_caches P)"
  shows "\<exists>Q. flush_caches P t = Some Q \<and> kept P Q \<and> cached Q t = {}
     \<and> si_epoch (sp_inner Q) = si_epoch (sp_inner P) + 1"
proof (cases "sp_caches P ! t")
  case None
  have "kept P P" using P by (simp add: kept_def)
  from kept_epoch [OF this] None show ?thesis by (simp add: flush_caches_def cached_def)
next
  case (Some c)
  obtain i c' where f: "flush_all (sp_inner P) c = Some (i, c')" "cset c' = {}" "kept P (put_cache P t i c')"
    using flush_thread [OF P t Some] by blast
  have ep: "si_epoch i = si_epoch (sp_inner P)"
    using thread_view(1) [OF P t] Some flush_all_ok [of "sp_inner P" c "owned P \<union> foreign P t"] f(1)
    by (auto simp: same_blocks_def)
  have eq: "put_cache P t (i\<lparr>si_epoch := e\<rparr>) c' = (put_cache P t i c')\<lparr>sp_inner := (sp_inner (put_cache P t i c'))\<lparr>si_epoch := e\<rparr>\<rparr>" for e
    by (simp add: put_cache_def)
  have "kept P (put_cache P t (i\<lparr>si_epoch := e\<rparr>) c')" for e unfolding eq by (rule kept_epoch [OF f(3)])
  then show ?thesis using Some f ep t by (simp add: flush_caches_def cached_def put_cache_def)
qed

lemma tcache_release_ok:
  assumes P: "pool_inv P" and t: "t < length (sp_caches P)"
  shows "\<exists>Q. tcache_release P t = Some Q \<and> kept P Q \<and> cached Q t = {}"
proof (cases "sp_caches P ! t")
  case None
  then show ?thesis using P by (simp add: tcache_release_def kept_def cached_def)
next
  case (Some c)
  from flush_thread [OF P t Some] Some t show ?thesis by (auto simp: tcache_release_def cached_def)
qed

subsection \<open>Histories\<close>

datatype pool_op = PAlloc nat layout | PFree nat nat layout | PGrow nat nat layout layout | PFlush nat | PRelease nat

fun pool_exec :: "pool_op \<Rightarrow> slab_pool \<Rightarrow> slab_pool option" where
  "pool_exec (PAlloc t l) P = map_option snd (allocate P t l)"
| "pool_exec (PFree t b l) P = deallocate P t (At b) l"
| "pool_exec (PGrow t b old new) P = map_option snd (grow P t (At b) old new)"
| "pool_exec (PFlush t) P = flush_caches P t"
| "pool_exec (PRelease t) P = tcache_release P t"

definition owns :: "slab_pool \<Rightarrow> nat \<Rightarrow> bool" where
  "owns P b \<longleftrightarrow> 64 dvd b \<and> si_side (sp_inner P) (b div 64) \<noteq> SIDE_TABLE_UNALLOCATED
     \<and> list_all (\<lambda>co. case co of None \<Rightarrow> True | Some c \<Rightarrow>
         list_all (\<lambda>k. b \<notin> set (tc_bins c ! k)) [0..<NUM_SLAB_CLASSES]) (sp_caches P)"

lemma owns_owned: "owns P b \<longleftrightarrow> b \<in> owned P"
  by (auto simp: owns_def owned_def alloc_addrs_def cached_def cset_def list_all_length split: option.splits)

text \<open>The callers' side of the contracts: threads exist, layouts are not zero-sized, and only owned blocks are released or grown.\<close>

fun pool_enabled :: "pool_op \<Rightarrow> slab_pool \<Rightarrow> bool" where
  "pool_enabled (PAlloc t l) P = (t < length (sp_caches P) \<and> l_size l \<noteq> 0)"
| "pool_enabled (PFree t b l) P = (t < length (sp_caches P) \<and> l_size l \<noteq> 0 \<and> owns P b)"
| "pool_enabled (PGrow t b old new) P =
     (t < length (sp_caches P) \<and> l_size old \<noteq> 0 \<and> l_size new \<noteq> 0 \<and> owns P b)"
| "pool_enabled (PFlush t) P = (t < length (sp_caches P))"
| "pool_enabled (PRelease t) P = (t < length (sp_caches P))"

lemma pool_step:
  assumes "pool_inv P" "pool_enabled a P"
  shows "\<exists>Q. pool_exec a P = Some Q \<and> pool_inv Q \<and> si_total (sp_inner Q) = si_total (sp_inner P)"
proof (cases a)
  case (PAlloc t l)
  then show ?thesis using allocate_ok [OF assms(1), of t l] assms(2) by (auto simp: alloc_answer_def same_blocks_def)
next
  case (PFree t b l)
  then show ?thesis using deallocate_ok [OF assms(1), of t b l] assms(2) by (auto simp: free_answer_def same_blocks_def owns_owned)
next
  case (PGrow t b old new)
  then obtain r Q where "grow P t (At b) old new = Some (r, Q)" "grow_answer P b new r Q"
    using grow_ok [OF assms(1), of t b old new] assms(2) by (auto simp: owns_owned)
  then show ?thesis using PGrow by (cases r) (auto simp: grow_answer_def same_blocks_def)
next
  case (PFlush t)
  then show ?thesis using flush_caches_ok [OF assms(1), of t] assms(2) by (auto simp: kept_def)
next
  case (PRelease t)
  then show ?thesis using tcache_release_ok [OF assms(1), of t] assms(2) by (auto simp: kept_def)
qed

text \<open>Histories as one step function that refuses what the contract forbids.\<close>

definition pool_contract :: "pool_op \<Rightarrow> slab_pool \<Rightarrow> slab_pool option" where
  "pool_contract a P = (if pool_enabled a P then pool_exec a P else None)"

interpretation pool: total_op_system pool_contract "\<lambda>P. pool_inv P \<and> si_total (sp_inner P) = n" pool_enabled
proof
  show "pool_inv Q \<and> si_total (sp_inner Q) = n"
    if "pool_inv P \<and> si_total (sp_inner P) = n" "pool_contract a P = Some Q" for P Q a
    using that pool_step [of P a] by (auto simp: pool_contract_def split: if_splits)
  show "\<exists>Q. pool_contract a P = Some Q"
    if "pool_inv P \<and> si_total (sp_inner P) = n" "pool_enabled a P" for P a
    using that pool_step [of P a] by (auto simp: pool_contract_def)
qed

lemma slab_pool_new_inv:
  assumes "budget div LARGE_UNIT < UNIT_INTERIOR"
  shows "pool_inv (slab_pool_new budget n)" "si_total (sp_inner (slab_pool_new budget n)) = budget"
  using slab_inner_new_inv [OF assms]
  by (auto simp: pool_inv_def slab_pool_new_def inner_ok_def cached_def slab_inner_new_def)

lemma live_disjoint:
  assumes "pool_inv P"
  shows "all_disjoint (live P)"
proof -
  obtain cc where "inner_inv cc (sp_inner P)" using assms by (auto simp: pool_inv_def inner_ok_def)
  from regions_all_disjoint [OF this] show ?thesis
    by (rule all_disjoint_subset) (auto simp: live_def regions_def owned_def)
qed

lemma live_bounds:
  assumes "pool_inv P" "(b, n) \<in> live P"
  shows "0 < n" "b + n \<le> si_total (sp_inner P)"
proof -
  obtain cc where inv: "inner_inv cc (sp_inner P)" using assms by (auto simp: pool_inv_def inner_ok_def)
  have b: "b \<in> alloc_addrs (sp_inner P)" "n = block_len (sp_inner P) b" using assms(2) by (auto simp: live_def owned_def)
  show "0 < n" "b + n \<le> si_total (sp_inner P)" using inner_block_bounds [OF inv b(1)] b(2) by auto
qed

text \<open>(C13) The pool is safe over every history: from a fresh pool of any budget below the unit
  table's limit, any interleaved sequence of allocations, releases, growths, cache flushes
  and thread exits in which callers respect their contracts runs without an assertion
  failure, and in the state it reaches the regions the clients own are inside the
  window and pairwise disjoint.\<close>

theorem pool_histories_safe:
  assumes "budget div LARGE_UNIT < UNIT_INTERIOR"
    and "ops_enabled pool_enabled pool_contract ops (slab_pool_new budget threads)"
  shows "\<exists>P. run_ops pool_contract ops (slab_pool_new budget threads) = Some P \<and> all_disjoint (live P)
     \<and> (\<forall>(b, n) \<in> live P. 0 < n \<and> b + n \<le> budget)"
proof -
  obtain P where P: "run_ops pool_contract ops (slab_pool_new budget threads) = Some P"
      "pool_inv P \<and> si_total (sp_inner P) = budget"
    using pool.run_total [OF _ assms(2)] slab_pool_new_inv [OF assms(1)] by blast
  then show ?thesis using live_disjoint [of P] live_bounds [of P] by auto
qed

theorem pool_histories_safe_witness:
  "\<exists>P. run_ops pool_contract
       [PAlloc 0 \<lparr>l_size = 5000, l_align = 8\<rparr>, PAlloc 1 \<lparr>l_size = 3000000, l_align = 64\<rparr>,
        PGrow 1 5242880 \<lparr>l_size = 3000000, l_align = 64\<rparr> \<lparr>l_size = 4000000, l_align = 64\<rparr>, PFlush 0]
       (slab_pool_new 8388608 2) = Some P \<and> all_disjoint (live P) \<and> (\<forall>(b, n) \<in> live P. 0 < n \<and> b + n \<le> 8388608)"
  by (rule pool_histories_safe; code_simp)

text \<open>Lengths of owned blocks are what \<open>live\<close> records.\<close>

lemma live_insert:
  "same_blocks (sp_inner P) (sp_inner Q) A \<Longrightarrow> owned Q = insert b A \<Longrightarrow> A \<subseteq> owned P \<Longrightarrow>
   live Q = insert (b, block_len (sp_inner Q) b) ((\<lambda>a. (a, block_len (sp_inner P) a)) ` A)"
  by (auto simp: live_def same_blocks_def)

lemma live_keep:
  "same_blocks (sp_inner P) (sp_inner Q) (owned P) \<Longrightarrow> owned Q = owned P \<Longrightarrow> live Q = live P"
  by (auto simp: live_def same_blocks_def)

lemma new_region_disjoint:
  assumes "pool_inv Q" "live Q = insert (b, n) L" "(b, n) \<notin> L"
  shows "\<forall>x \<in> L. regions_disjoint (b, n) x"
  using live_disjoint [OF assms(1)] assms(2,3) unfolding all_disjoint_def by (metis insertCI)

text \<open>(C14) The contract of \<^verbatim>\<open>allocate\<close>: in every consistent state it returns without panicking;
  a refusal is \<^verbatim>\<open>PoolExhausted\<close> for the requested layout and leaves every owned region as it
  was; a success is a new region at least as long as the layout, aligned to it, inside
  the window and disjoint from everything owned before, all of which stays owned unchanged.\<close>

theorem allocate_contract:
  assumes "pool_inv P" "t < length (sp_caches P)" "l_size l \<noteq> 0" "l_align l = 2 ^ j"
  shows "\<exists>r Q. allocate P t l = Some (r, Q) \<and> pool_inv Q \<and> (case r of
      Inl e \<Rightarrow> e = PoolExhausted l \<and> live Q = live P
    | Inr a \<Rightarrow> \<exists>b n. a = At b \<and> l_size l \<le> n \<and> l_align l dvd b \<and> b + n \<le> si_total (sp_inner P)
        \<and> (\<forall>x \<in> live P. regions_disjoint (b, n) x) \<and> live Q = insert (b, n) (live P))"
proof -
  obtain r Q where a: "allocate P t l = Some (r, Q)" "alloc_answer P l r Q" using allocate_ok [OF assms(1-3)] by blast
  note A = a(2) [unfolded alloc_answer_def]
  show ?thesis
  proof (cases r)
    case (Inl e)
    then show ?thesis using a A live_keep [of P Q] by simp
  next
    case (Inr x)
    then obtain b where b: "x = At b" "b \<notin> owned P" "owned Q = insert b (owned P)" "fits Q l b" using A by auto
    have lv: "live Q = insert (b, block_len (sp_inner Q) b) (live P)"
      using live_insert [OF _ b(3)] A by (auto simp: live_def)
    have "(b, block_len (sp_inner Q) b) \<notin> live P" using b(2) by (auto simp: live_def)
    then have "\<forall>x \<in> live P. regions_disjoint (b, block_len (sp_inner Q) b) x"
      using new_region_disjoint [OF _ lv] A by blast
    then show ?thesis using a(1) A b Inr lv assms(4)
      by (auto simp: fits_def same_blocks_def intro!: exI [of _ "block_len (sp_inner Q) b"])
  qed
qed

theorem allocate_contract_witness:
  "\<exists>r Q. allocate (slab_pool_new 2097152 1) 0 \<lparr>l_size = 100, l_align = 2 ^ 3\<rparr> = Some (r, Q) \<and> pool_inv Q \<and> (case r of
      Inl e \<Rightarrow> e = PoolExhausted \<lparr>l_size = 100, l_align = 2 ^ 3\<rparr> \<and> live Q = live (slab_pool_new 2097152 1)
    | Inr a \<Rightarrow> \<exists>b n. a = At b \<and> l_size \<lparr>l_size = 100, l_align = 2 ^ 3\<rparr> \<le> n \<and> l_align \<lparr>l_size = 100, l_align = 2 ^ 3\<rparr> dvd b
        \<and> b + n \<le> si_total (sp_inner (slab_pool_new 2097152 1))
        \<and> (\<forall>x \<in> live (slab_pool_new 2097152 1). regions_disjoint (b, n) x)
        \<and> live Q = insert (b, n) (live (slab_pool_new 2097152 1)))"
proof -
  have "2097152 div LARGE_UNIT < UNIT_INTERIOR" by code_simp
  then show ?thesis
    by (intro allocate_contract [OF slab_pool_new_inv(1), where j = 3]) (simp_all add: slab_pool_new_def)
qed

text \<open>(C17) The contract of \<^verbatim>\<open>grow\<close>: it never panics on an owned block; when it reports
  \<^verbatim>\<open>PoolExhausted\<close> the old block is still owned with its length, like everything else; when it
  succeeds, the old region is replaced by one that fits the new layout and is disjoint from
  every other owned region.\<close>

theorem grow_contract:
  assumes "pool_inv P" "t < length (sp_caches P)" "(b, m) \<in> live P" "l_size old \<noteq> 0" "l_size new \<noteq> 0"
  shows "\<exists>r Q. grow P t (At b) old new = Some (r, Q) \<and> pool_inv Q \<and> (case r of
      Inl e \<Rightarrow> e = PoolExhausted new \<and> live Q = live P
    | Inr a \<Rightarrow> \<exists>b' n. a = At b' \<and> l_size new \<le> n \<and> live Q = insert (b', n) (live P - {(b, m)})
        \<and> (\<forall>x \<in> live P - {(b, m)}. regions_disjoint (b', n) x))"
proof -
  have b: "b \<in> owned P" "m = block_len (sp_inner P) b" using assms(3) by (auto simp: live_def)
  obtain r Q where g: "grow P t (At b) old new = Some (r, Q)" "grow_answer P b new r Q"
    using grow_ok [OF assms(1,2) b(1) assms(4,5)] by blast
  note G = g(2) [unfolded grow_answer_def]
  show ?thesis
  proof (cases r)
    case (Inl e)
    then show ?thesis using g G live_keep [of P Q] by simp
  next
    case (Inr x)
    then obtain b' where b': "x = At b'" "b' \<notin> owned P - {b}" "owned Q = insert b' (owned P - {b})" "fits Q new b'"
        "same_blocks (sp_inner P) (sp_inner Q) (owned P - {b})" using G by auto
    have rest: "(\<lambda>a. (a, block_len (sp_inner P) a)) ` (owned P - {b}) = live P - {(b, m)}"
      using b by (auto simp: live_def)
    have lv: "live Q = insert (b', block_len (sp_inner Q) b') (live P - {(b, m)})"
      using live_insert [OF b'(5,3)] rest by simp
    have "(b', block_len (sp_inner Q) b') \<notin> live P - {(b, m)}"
      unfolding rest [symmetric] using b'(2) by blast
    then have "\<forall>x \<in> live P - {(b, m)}. regions_disjoint (b', block_len (sp_inner Q) b') x"
      using new_region_disjoint [OF _ lv] G by blast
    then show ?thesis using g(1) G b' Inr lv
      by (auto simp: fits_def intro!: exI [of _ "block_len (sp_inner Q) b'"])
  qed
qed

text \<open>A state the witnesses of this section use: one block handed out by the first thread.\<close>

definition demo_pool :: slab_pool where
  "demo_pool = the (run_ops pool_contract [PAlloc 0 \<lparr>l_size = 5000, l_align = 8\<rparr>] (slab_pool_new 2097152 1))"

lemma demo_pool_inv: "pool_inv demo_pool" "length (sp_caches demo_pool) = 1" "(0, 65536) \<in> live demo_pool"
proof -
  have b: "2097152 div LARGE_UNIT < UNIT_INTERIOR" by code_simp
  have en: "ops_enabled pool_enabled pool_contract [PAlloc 0 \<lparr>l_size = 5000, l_align = 8\<rparr>] (slab_pool_new 2097152 1)"
    by code_simp
  obtain P where P: "run_ops pool_contract [PAlloc 0 \<lparr>l_size = 5000, l_align = 8\<rparr>] (slab_pool_new 2097152 1) = Some P" "pool_inv P"
    using pool.run_total [OF _ en] slab_pool_new_inv [OF b, of 1] by blast
  then have "demo_pool = P" unfolding demo_pool_def by (simp only: option.sel)
  with P(2) show "pool_inv demo_pool" by simp
  show "length (sp_caches demo_pool) = 1" by code_simp
  have "owns demo_pool 0 \<and> block_len (sp_inner demo_pool) 0 = 65536" by code_simp
  then show "(0, 65536) \<in> live demo_pool" by (force simp: live_def owns_owned)
qed

theorem grow_contract_witness:
  "\<exists>r Q. grow demo_pool 0 (At 0) \<lparr>l_size = 5000, l_align = 8\<rparr> \<lparr>l_size = 70000, l_align = 8\<rparr> = Some (r, Q) \<and> pool_inv Q \<and> (case r of
      Inl e \<Rightarrow> e = PoolExhausted \<lparr>l_size = 70000, l_align = 8\<rparr> \<and> live Q = live demo_pool
    | Inr a \<Rightarrow> \<exists>b' n. a = At b' \<and> l_size \<lparr>l_size = 70000, l_align = 8\<rparr> \<le> n \<and> live Q = insert (b', n) (live demo_pool - {(0, 65536)})
        \<and> (\<forall>x \<in> live demo_pool - {(0, 65536)}. regions_disjoint (b', n) x))"
  using grow_contract [OF demo_pool_inv(1) _ demo_pool_inv(3), of 0 "\<lparr>l_size = 5000, l_align = 8\<rparr>" "\<lparr>l_size = 70000, l_align = 8\<rparr>"]
  by (simp add: demo_pool_inv(2))

lemma used_split:
  assumes P: "pool_inv P"
  shows "si_used (sp_inner P) = (\<Sum>(b, n) \<in> live P. n)
     + (\<Sum>t < length (sp_caches P). \<Sum>b \<in> cached P t. block_len (sp_inner P) b)"
proof -
  let ?C = "\<Union>t < length (sp_caches P). cached P t" and ?len = "block_len (sp_inner P)"
  obtain cc where inv: "inner_inv cc (sp_inner P)" using P by (auto simp: pool_inv_def inner_ok_def)
  note fin = finite_alloc_addrs [OF inv]
  have CA: "?C \<subseteq> alloc_addrs (sp_inner P)" using cached_alloc [OF P] by blast
  have fc: "finite (cached P t)" if "t < length (sp_caches P)" for t
    using cached_alloc [OF P that] fin finite_subset by blast
  have "si_used (sp_inner P) = (\<Sum>b \<in> alloc_addrs (sp_inner P). ?len b)" using inv by (simp add: inner_inv_def)
  also have "\<dots> = (\<Sum>b \<in> owned P. ?len b) + (\<Sum>b \<in> ?C. ?len b)"
    unfolding owned_def using sum.subset_diff [OF CA fin] by blast
  also have "(\<Sum>b \<in> ?C. ?len b) = (\<Sum>t < length (sp_caches P). \<Sum>b \<in> cached P t. ?len b)"
    using fc cached_disjoint [OF P] by (intro sum.UNION_disjoint) auto
  also have "(\<Sum>b \<in> owned P. ?len b) = (\<Sum>(b, n) \<in> live P. n)"
    unfolding live_def by (subst sum.reindex) (auto simp: inj_on_def)
  finally show ?thesis .
qed

text \<open>(C18) The accounting is exact over every history: \<^verbatim>\<open>used\<close> is the bytes of the owned
  regions plus those of the blocks parked in the thread caches. In particular blocks in a
  cache count as used until a flush returns them.\<close>

theorem pool_accounting_exact:
  assumes "budget div LARGE_UNIT < UNIT_INTERIOR"
    and "run_ops pool_contract ops (slab_pool_new budget threads) = Some P"
  shows "si_used (sp_inner P) = (\<Sum>(b, n) \<in> live P. n)
     + (\<Sum>t < length (sp_caches P). \<Sum>b \<in> cached P t. block_len (sp_inner P) b)"
proof -
  have "pool_inv P"
    using pool.run_inv [OF _ assms(2)] slab_pool_new_inv [OF assms(1)] by blast
  then show ?thesis by (rule used_split)
qed

theorem pool_accounting_exact_witness:
  "\<exists>P. run_ops pool_contract [PAlloc 0 \<lparr>l_size = 5000, l_align = 8\<rparr>] (slab_pool_new 2097152 1) = Some P
     \<and> si_used (sp_inner P) = (\<Sum>(b, n) \<in> live P. n)
       + (\<Sum>t < length (sp_caches P). \<Sum>b \<in> cached P t. block_len (sp_inner P) b)"
proof -
  have b: "2097152 div LARGE_UNIT < UNIT_INTERIOR" by code_simp
  have "run_ops pool_contract [PAlloc 0 \<lparr>l_size = 5000, l_align = 8\<rparr>] (slab_pool_new 2097152 1) \<noteq> None" by code_simp
  then obtain P where P: "run_ops pool_contract [PAlloc 0 \<lparr>l_size = 5000, l_align = 8\<rparr>] (slab_pool_new 2097152 1) = Some P" by blast
  show ?thesis using pool_accounting_exact [OF b P] P by blast
qed

end
