(* ===== verification/Pool_Vec.thy ===== *)
theory Pool_Vec
  imports Pool_Spec
begin

text \<open>
  \<^verbatim>\<open>PoolVec<T>\<close> (\<^verbatim>\<open>crates/minkowski/src/storage/pool_vec.rs\<close>): the growable vector of the
  per-entity bookkeeping, stored in the slab pool. The vector is its initialised elements,
  its capacity, its data pointer and the size and alignment of \<^verbatim>\<open>T\<close>; every operation
  that may allocate takes the pool and the calling thread and returns the pool. An outer
  \<open>None\<close> is a panic or an abort (capacity overflow, \<^verbatim>\<open>handle_alloc_error\<close>, a failed
  \<^verbatim>\<open>assert!\<close>); \<open>Inl\<close> is \<^verbatim>\<open>PoolExhausted\<close>.
\<close>

record 'a pool_vec =
  pv_elems :: "'a list"
  pv_cap :: nat
  pv_data :: ptr
  pv_type :: layout

abbreviation pv_len :: "'a pool_vec \<Rightarrow> nat" where
  "pv_len v \<equiv> length (pv_elems v)"

definition USIZE_MAX :: nat where "USIZE_MAX = 18446744073709551615"

definition ISIZE_MAX :: nat where "ISIZE_MAX = 9223372036854775807"

definition pv_new :: "layout \<Rightarrow> 'a pool_vec" where
  "pv_new ty = \<lparr>pv_elems = [], pv_cap = 0, pv_data = Dangling (l_align ty), pv_type = ty\<rparr>"

text \<open>\<^verbatim>\<open>Layout::array::<T>(cap)\<close>, refused when its size rounded to the alignment exceeds \<^verbatim>\<open>isize::MAX\<close>.\<close>

definition array_layout :: "layout \<Rightarrow> nat \<Rightarrow> layout option" where
  "array_layout ty cap =
     (if l_size ty * cap > ISIZE_MAX - (l_align ty - 1) then None
      else Some \<lparr>l_size = l_size ty * cap, l_align = l_align ty\<rparr>)"

definition pv_try_reserve :: "nat \<Rightarrow> slab_pool \<Rightarrow> 'a pool_vec \<Rightarrow> nat
    \<Rightarrow> ((pool_exhausted + unit) \<times> slab_pool \<times> 'a pool_vec) option" where
  "pv_try_reserve t p v additional =
     (let required = pv_len v + additional in
      if required > USIZE_MAX then None
      else if required \<le> pv_cap v then Some (Inr (), p, v)
      else let new_cap = max (max required (min (pv_cap v * 2) USIZE_MAX)) 4 in
        do {
          new_layout \<leftarrow> array_layout (pv_type v) new_cap;
          (r, p') \<leftarrow> (if pv_cap v = 0 then allocate p t new_layout
                      else do { old \<leftarrow> array_layout (pv_type v) (pv_cap v);
                                grow p t (pv_data v) old new_layout });
          Some (case r of
              Inl e \<Rightarrow> (Inl e, p', v)
            | Inr new_data \<Rightarrow> (Inr (), p', v\<lparr>pv_data := new_data, pv_cap := new_cap\<rparr>))
        })"

definition pv_reserve :: "nat \<Rightarrow> slab_pool \<Rightarrow> 'a pool_vec \<Rightarrow> nat \<Rightarrow> (slab_pool \<times> 'a pool_vec) option" where
  "pv_reserve t p v additional =
     do { (r, p', v') \<leftarrow> pv_try_reserve t p v additional;
          (case r of Inl e \<Rightarrow> None | Inr _ \<Rightarrow> Some (p', v')) }"

definition pv_try_push :: "nat \<Rightarrow> slab_pool \<Rightarrow> 'a pool_vec \<Rightarrow> 'a
    \<Rightarrow> ((pool_exhausted + unit) \<times> slab_pool \<times> 'a pool_vec) option" where
  "pv_try_push t p v x =
     do { (r, p', v') \<leftarrow> pv_try_reserve t p v 1;
          Some (case r of Inl e \<Rightarrow> (Inl e, p', v') | Inr _ \<Rightarrow> (Inr (), p', v'\<lparr>pv_elems := pv_elems v' @ [x]\<rparr>)) }"

definition pv_push :: "nat \<Rightarrow> slab_pool \<Rightarrow> 'a pool_vec \<Rightarrow> 'a \<Rightarrow> (slab_pool \<times> 'a pool_vec) option" where
  "pv_push t p v x =
     do { (p', v') \<leftarrow> pv_reserve t p v 1; Some (p', v'\<lparr>pv_elems := pv_elems v' @ [x]\<rparr>) }"

definition pv_try_resize :: "nat \<Rightarrow> slab_pool \<Rightarrow> 'a pool_vec \<Rightarrow> nat \<Rightarrow> 'a
    \<Rightarrow> ((pool_exhausted + unit) \<times> slab_pool \<times> 'a pool_vec) option" where
  "pv_try_resize t p v new_len x =
     (if new_len \<le> pv_len v then Some (Inr (), p, v\<lparr>pv_elems := take new_len (pv_elems v)\<rparr>)
      else do { (r, p', v') \<leftarrow> pv_try_reserve t p v (new_len - pv_len v);
                Some (case r of Inl e \<Rightarrow> (Inl e, p', v')
                  | Inr _ \<Rightarrow> (Inr (), p', v'\<lparr>pv_elems := pv_elems v' @ replicate (new_len - pv_len v') x\<rparr>)) })"

definition pv_resize :: "nat \<Rightarrow> slab_pool \<Rightarrow> 'a pool_vec \<Rightarrow> nat \<Rightarrow> 'a \<Rightarrow> (slab_pool \<times> 'a pool_vec) option" where
  "pv_resize t p v new_len x =
     do { (r, p', v') \<leftarrow> pv_try_resize t p v new_len x;
          (case r of Inl e \<Rightarrow> None | Inr _ \<Rightarrow> Some (p', v')) }"

definition pv_extend_from_slice :: "nat \<Rightarrow> slab_pool \<Rightarrow> 'a pool_vec \<Rightarrow> 'a list \<Rightarrow> (slab_pool \<times> 'a pool_vec) option" where
  "pv_extend_from_slice t p v items =
     do { (p', v') \<leftarrow> pv_reserve t p v (length items); Some (p', v'\<lparr>pv_elems := pv_elems v' @ items\<rparr>) }"

definition pv_swap_remove :: "'a pool_vec \<Rightarrow> nat \<Rightarrow> ('a \<times> 'a pool_vec) option" where
  "pv_swap_remove v index =
     (if index < pv_len v
      then let value = pv_elems v ! index; last_el = pv_elems v ! (pv_len v - 1);
               es = (pv_elems v)[index := last_el]
           in Some (value, v\<lparr>pv_elems := take (pv_len v - 1) es\<rparr>)
      else None)"

definition pv_pop :: "'a pool_vec \<Rightarrow> 'a option \<times> 'a pool_vec" where
  "pv_pop v =
     (if pv_elems v = [] then (None, v)
      else (Some (last (pv_elems v)), v\<lparr>pv_elems := take (pv_len v - 1) (pv_elems v)\<rparr>))"

definition pv_truncate :: "'a pool_vec \<Rightarrow> nat \<Rightarrow> 'a pool_vec" where
  "pv_truncate v n = v\<lparr>pv_elems := take (min (pv_len v) n) (pv_elems v)\<rparr>"

text \<open>The in-place compaction loop: \<open>read\<close> runs over the elements, kept ones move down to \<open>write\<close>.\<close>

function retain_loop :: "('a \<Rightarrow> bool) \<Rightarrow> 'a list \<Rightarrow> nat \<Rightarrow> nat \<Rightarrow> 'a list \<times> nat" where
  "retain_loop keep xs read wr =
     (if read < length xs
      then let v = xs ! read in
        if keep v then retain_loop keep (xs[wr := v]) (read + 1) (wr + 1)
        else retain_loop keep xs (read + 1) wr
      else (xs, wr))"
  by pat_completeness auto
termination by (relation "measure (\<lambda>(keep, xs, read, wr). length xs - read)") auto

declare retain_loop.simps [simp del]

definition pv_retain :: "('a \<Rightarrow> bool) \<Rightarrow> 'a pool_vec \<Rightarrow> 'a pool_vec" where
  "pv_retain keep v = (let (xs, n) = retain_loop keep (pv_elems v) 0 0 in v\<lparr>pv_elems := take n xs\<rparr>)"

definition pv_drop :: "nat \<Rightarrow> slab_pool \<Rightarrow> 'a pool_vec \<Rightarrow> slab_pool option" where
  "pv_drop t p v =
     (if pv_cap v > 0
      then do { l \<leftarrow> array_layout (pv_type v) (pv_cap v); deallocate p t (pv_data v) l }
      else Some p)"

subsection \<open>Operations that do not allocate\<close>

lemma retain_loop_filter:
  assumes "wr \<le> read" "read \<le> length xs" "take wr xs = filter keep zs"
  shows "take (snd (retain_loop keep xs read wr)) (fst (retain_loop keep xs read wr))
     = filter keep zs @ filter keep (drop read xs)"
  using assms
proof (induction keep xs read wr arbitrary: zs rule: retain_loop.induct)
  case (1 keep xs read wr)
  show ?case
  proof (cases "read < length xs")
    case False
    then show ?thesis using 1(5) by (simp add: retain_loop.simps)
  next
    case True
    have d: "drop read xs = xs ! read # drop (read + 1) xs" using True by (simp add: Cons_nth_drop_Suc)
    show ?thesis
    proof (cases "keep (xs ! read)")
      case keep: True
      have "take (wr + 1) (xs[wr := xs ! read]) = filter keep (zs @ [xs ! read])"
        using 1(3,5) True keep by (simp add: take_Suc_conv_app_nth)
      then show ?thesis
        using 1(1) [OF True refl keep, of "zs @ [xs ! read]"] 1(3) True keep d
        by (simp add: retain_loop.simps [of keep xs read wr])
    next
      case False
      then show ?thesis
        using 1(2) [OF True refl False, of zs] 1(3,5) True d by (simp add: retain_loop.simps [of keep xs read wr])
    qed
  qed
qed

lemma pv_retain_filter [simp]: "pv_retain keep v = v\<lparr>pv_elems := filter keep (pv_elems v)\<rparr>"
  using retain_loop_filter [of 0 0 "pv_elems v" keep "[]"] by (simp add: pv_retain_def case_prod_beta)

lemma pv_swap_remove_eq [simp]:
  "pv_swap_remove v i = (if i < pv_len v then Some (pv_elems v ! i, v\<lparr>pv_elems := swap_remove i (pv_elems v)\<rparr>) else None)"
  by (cases "pv_elems v = []") (simp_all add: pv_swap_remove_def swap_remove_def butlast_conv_take last_conv_nth Let_def)

lemma pv_pop_eq: "pv_pop v = (if pv_elems v = [] then (None, v)
    else (Some (last (pv_elems v)), v\<lparr>pv_elems := butlast (pv_elems v)\<rparr>))"
  by (simp add: pv_pop_def butlast_conv_take)

lemma pv_truncate_eq [simp]: "pv_truncate v n = v\<lparr>pv_elems := take n (pv_elems v)\<rparr>"
  by (simp add: pv_truncate_def min_def)

subsection \<open>The vector's buffer in the pool\<close>

definition pv_block :: "'a pool_vec \<Rightarrow> nat set" where
  "pv_block v = (if pv_cap v = 0 then {} else case pv_data v of At b \<Rightarrow> {b} | Dangling _ \<Rightarrow> {})"

definition vec_inv :: "slab_pool \<Rightarrow> 'a pool_vec \<Rightarrow> bool" where
  "vec_inv P v \<longleftrightarrow> 0 < l_size (pv_type v) \<and> pv_len v \<le> pv_cap v \<and> array_layout (pv_type v) (pv_cap v) \<noteq> None
     \<and> (0 < pv_cap v \<longrightarrow> (\<exists>b. pv_data v = At b \<and> b \<in> owned P
          \<and> l_size (pv_type v) * pv_cap v \<le> block_len (sp_inner P) b))"

text \<open>What an operation on one vector does to the pool: only its own buffer is exchanged.\<close>

definition vec_step :: "slab_pool \<Rightarrow> 'a pool_vec \<Rightarrow> slab_pool \<Rightarrow> 'a pool_vec \<Rightarrow> bool" where
  "vec_step P v Q w \<longleftrightarrow> pool_inv Q \<and> length (sp_caches Q) = length (sp_caches P) \<and> vec_inv Q w \<and> pv_type w = pv_type v
     \<and> owned Q - pv_block w = owned P - pv_block v \<and> same_blocks (sp_inner P) (sp_inner Q) (owned P - pv_block v)"

text \<open>Room for the request in the address space, which the code checks with \<^verbatim>\<open>expect\<close>.\<close>

definition new_cap :: "'a pool_vec \<Rightarrow> nat \<Rightarrow> nat" where
  "new_cap v n = max (max (pv_len v + n) (min (pv_cap v * 2) USIZE_MAX)) 4"

definition reserve_fits :: "'a pool_vec \<Rightarrow> nat \<Rightarrow> bool" where
  "reserve_fits v n \<longleftrightarrow> pv_len v + n \<le> USIZE_MAX \<and>
     (pv_cap v < pv_len v + n \<longrightarrow> array_layout (pv_type v) (new_cap v n) \<noteq> None)"

lemma pv_new_inv [simp]: "0 < l_size ty \<Longrightarrow> vec_inv P (pv_new ty)" "pv_block (pv_new ty) = {}"
  by (simp_all add: vec_inv_def pv_new_def pv_block_def array_layout_def)

lemma vec_block: "vec_inv P v \<Longrightarrow> pv_block v \<subseteq> owned P"
  by (auto simp: vec_inv_def pv_block_def split: ptr.splits if_splits)

text \<open>The frame rule: a step on one vector keeps every vector with another buffer.\<close>

lemma vec_frame:
  assumes "vec_step P v Q v'" "vec_inv P w" "pv_block v \<inter> pv_block w = {}"
  shows "vec_inv Q w" "pv_block v' \<inter> pv_block w = {}"
proof -
  have w: "pv_block w \<subseteq> owned P - pv_block v" using vec_block [OF assms(2)] assms(3) by blast
  then have wq: "pv_block w \<subseteq> owned Q - pv_block v'" using assms(1) by (simp add: vec_step_def)
  then show "pv_block v' \<inter> pv_block w = {}" by blast
  show "vec_inv Q w" unfolding vec_inv_def
  proof (intro conjI impI)
    assume c: "0 < pv_cap w"
    then obtain b where b: "pv_data w = At b" "l_size (pv_type w) * pv_cap w \<le> block_len (sp_inner P) b"
      using assms(2) by (auto simp: vec_inv_def)
    then have "pv_block w = {b}" using c by (simp add: pv_block_def)
    with w wq assms(1) have "b \<in> owned Q" "block_len (sp_inner Q) b = block_len (sp_inner P) b"
      by (auto simp: vec_step_def same_blocks_def)
    then show "\<exists>b. pv_data w = At b \<and> b \<in> owned Q \<and> l_size (pv_type w) * pv_cap w \<le> block_len (sp_inner Q) b"
      using b by auto
  qed (use assms(2) in \<open>auto simp: vec_inv_def\<close>)
qed

lemma pv_reserve_room [simp]: "pv_len v + n \<le> pv_cap v \<Longrightarrow> pv_cap v \<le> USIZE_MAX \<Longrightarrow> pv_try_reserve t p v n = Some (Inr (), p, v)"
  by (simp add: pv_try_reserve_def)

lemma array_layout_le: "array_layout ty n = Some l \<Longrightarrow> l_size l = l_size ty * n \<and> l_align l = l_align ty"
  by (auto simp: array_layout_def split: if_splits)

lemma cap_le_usize:
  assumes "vec_inv P v"
  shows "pv_cap v \<le> USIZE_MAX"
proof -
  have "l_size (pv_type v) * pv_cap v \<le> ISIZE_MAX" "0 < l_size (pv_type v)"
    using assms by (auto simp: vec_inv_def array_layout_def split: if_splits)
  then have "pv_cap v \<le> ISIZE_MAX" by (metis dual_order.trans le_add1 mult.commute mult_le_mono2 mult_numeral_1_right
        Suc_leI nat_mult_1_right numeral_One One_nat_def)
  then show ?thesis by (simp add: ISIZE_MAX_def USIZE_MAX_def)
qed

lemma new_buffer:
  assumes P: "pool_inv P" and t: "t < length (sp_caches P)" and v: "vec_inv P v" "0 < pv_cap v"
    and nl: "array_layout (pv_type v) n = Some l" "0 < n"
  shows "\<exists>old r Q. array_layout (pv_type v) (pv_cap v) = Some old \<and> grow P t (pv_data v) old l = Some (r, Q)
     \<and> (case r of Inl e \<Rightarrow> vec_step P v Q v
        | Inr a \<Rightarrow> pv_len v \<le> n \<longrightarrow> vec_step P v Q (v\<lparr>pv_data := a, pv_cap := n\<rparr>))"
proof -
  obtain b where b: "pv_data v = At b" "b \<in> owned P" "l_size (pv_type v) * pv_cap v \<le> block_len (sp_inner P) b"
    using v by (auto simp: vec_inv_def)
  obtain old where old: "array_layout (pv_type v) (pv_cap v) = Some old" using v(1) by (auto simp: vec_inv_def)
  have nz: "l_size old \<noteq> 0" "l_size l \<noteq> 0" "l_size l = l_size (pv_type v) * n"
    using array_layout_le [OF old] array_layout_le [OF nl(1)] v nl(2) by (auto simp: vec_inv_def)
  have blk: "pv_block v = {b}" using v(2) b(1) by (simp add: pv_block_def)
  obtain r Q where g: "grow P t (At b) old l = Some (r, Q)" "grow_answer P b l r Q"
    using grow_ok [OF P t b(2) nz(1,2)] by blast
  have "case r of Inl e \<Rightarrow> vec_step P v Q v
        | Inr a \<Rightarrow> pv_len v \<le> n \<longrightarrow> vec_step P v Q (v\<lparr>pv_data := a, pv_cap := n\<rparr>)"
  proof (cases r)
    case (Inl e)
    with g(2) have q: "pool_inv Q" "length (sp_caches Q) = length (sp_caches P)" "owned Q = owned P"
      "same_blocks (sp_inner P) (sp_inner Q) (owned P)" by (auto simp: grow_answer_def)
    have "vec_inv Q v" using v(1) b q(3,4) by (auto simp: vec_inv_def same_blocks_def)
    then show ?thesis using Inl q same_blocks_sub [OF q(4), of "owned P - pv_block v"] by (simp add: vec_step_def)
  next
    case (Inr a)
    with g(2) obtain b' where b': "a = At b'" "b' \<notin> owned P - {b}" "owned Q = insert b' (owned P - {b})" "fits Q l b'"
      "same_blocks (sp_inner P) (sp_inner Q) (owned P - {b})" "pool_inv Q" "length (sp_caches Q) = length (sp_caches P)"
      by (auto simp: grow_answer_def)
    have "vec_inv Q (v\<lparr>pv_data := a, pv_cap := n\<rparr>)" if "pv_len v \<le> n"
      using v(1) b'(1,3,4) nz(3) nl that by (auto simp: vec_inv_def fits_def)
    then show ?thesis using Inr b' blk nl(2) by (auto simp: vec_step_def pv_block_def)
  qed
  then show ?thesis using old g(1) b(1) by auto
qed

lemma first_buffer:
  assumes P: "pool_inv P" and t: "t < length (sp_caches P)" and v: "vec_inv P v" "pv_cap v = 0"
    and nl: "array_layout (pv_type v) n = Some l" "0 < n"
  shows "\<exists>r Q. allocate P t l = Some (r, Q)
     \<and> (case r of Inl e \<Rightarrow> vec_step P v Q v | Inr a \<Rightarrow> vec_step P v Q (v\<lparr>pv_data := a, pv_cap := n\<rparr>))"
proof -
  have nz: "l_size l \<noteq> 0" "l_size l = l_size (pv_type v) * n"
    using array_layout_le [OF nl(1)] v nl(2) by (auto simp: vec_inv_def)
  have blk: "pv_block v = {}" using v(2) by (simp add: pv_block_def)
  obtain r Q where g: "allocate P t l = Some (r, Q)" "alloc_answer P l r Q" using allocate_ok [OF P t nz(1)] by blast
  have "case r of Inl e \<Rightarrow> vec_step P v Q v | Inr a \<Rightarrow> vec_step P v Q (v\<lparr>pv_data := a, pv_cap := n\<rparr>)"
  proof (cases r)
    case (Inl e)
    then show ?thesis using g(2) v blk by (auto simp: alloc_answer_def vec_step_def vec_inv_def)
  next
    case (Inr a)
    with g(2) obtain b' where b': "a = At b'" "b' \<notin> owned P" "owned Q = insert b' (owned P)" "fits Q l b'"
      "same_blocks (sp_inner P) (sp_inner Q) (owned P)" "pool_inv Q" "length (sp_caches Q) = length (sp_caches P)"
      by (auto simp: alloc_answer_def)
    have "vec_inv Q (v\<lparr>pv_data := a, pv_cap := n\<rparr>)"
      using v b'(1,3,4) nz(2) nl by (auto simp: vec_inv_def fits_def)
    then show ?thesis using Inr b' blk nl(2) by (auto simp: vec_step_def pv_block_def)
  qed
  then show ?thesis using g(1) by auto
qed

lemma pv_try_reserve_ok:
  assumes P: "pool_inv P" and t: "t < length (sp_caches P)" and v: "vec_inv P v" and fit: "reserve_fits v n"
  shows "\<exists>r Q w. pv_try_reserve t P v n = Some (r, Q, w) \<and> vec_step P v Q w \<and> pv_elems w = pv_elems v
     \<and> (case r of Inl e \<Rightarrow> w = v | Inr _ \<Rightarrow> pv_len v + n \<le> pv_cap w) \<and> pv_cap v \<le> pv_cap w"
proof (cases "pv_len v + n \<le> pv_cap v")
  case True
  then show ?thesis using P v cap_le_usize [OF v] by (simp add: vec_step_def)
next
  case False
  obtain l where l: "array_layout (pv_type v) (new_cap v n) = Some l" using fit False by (auto simp: reserve_fits_def)
  have nc: "0 < new_cap v n" "pv_len v + n \<le> new_cap v n" "pv_cap v \<le> new_cap v n"
    using cap_le_usize [OF v] by (auto simp: new_cap_def)
  note st = fit [unfolded reserve_fits_def]
  show ?thesis
  proof (cases "pv_cap v = 0")
    case True
    obtain r Q where r: "allocate P t l = Some (r, Q)"
      "case r of Inl e \<Rightarrow> vec_step P v Q v | Inr a \<Rightarrow> vec_step P v Q (v\<lparr>pv_data := a, pv_cap := new_cap v n\<rparr>)"
      using first_buffer [OF P t v True l nc(1)] by blast
    then show ?thesis using False True st l nc
      by (cases r) (auto simp: pv_try_reserve_def new_cap_def [symmetric] Let_def new_cap_def [of v n, unfolded True, simplified, symmetric])
  next
    case cap: False
    obtain old r Q where r: "array_layout (pv_type v) (pv_cap v) = Some old" "grow P t (pv_data v) old l = Some (r, Q)"
      "case r of Inl e \<Rightarrow> vec_step P v Q v
        | Inr a \<Rightarrow> pv_len v \<le> new_cap v n \<longrightarrow> vec_step P v Q (v\<lparr>pv_data := a, pv_cap := new_cap v n\<rparr>)"
      using new_buffer [OF P t v _ l nc(1)] cap by blast
    then show ?thesis using False cap st l nc
      by (cases r) (auto simp: pv_try_reserve_def new_cap_def [symmetric] Let_def)
  qed
qed

subsection \<open>With room: the pool is not touched\<close>

lemma pv_push_room [simp]:
  "pv_len v < pv_cap v \<Longrightarrow> pv_cap v \<le> USIZE_MAX \<Longrightarrow> pv_push t p v x = Some (p, v\<lparr>pv_elems := pv_elems v @ [x]\<rparr>)"
  by (simp add: pv_push_def pv_reserve_def)

lemma pv_resize_room:
  "pv_len v \<le> n \<Longrightarrow> n \<le> pv_cap v \<Longrightarrow> pv_cap v \<le> USIZE_MAX \<Longrightarrow>
   pv_resize t p v n x = Some (p, v\<lparr>pv_elems := pv_elems v @ replicate (n - pv_len v) x\<rparr>)"
  by (cases "n = pv_len v") (simp_all add: pv_resize_def pv_try_resize_def)

text \<open>Without room: the contents are still those of the list operation.\<close>

lemma pv_try_reserve_elems:
  "pv_try_reserve t p v n = Some (r, q, w) \<Longrightarrow> pv_elems w = pv_elems v \<and> pv_type w = pv_type v
     \<and> pv_cap v \<le> pv_cap w \<and> (r = Inr () \<longrightarrow> pv_len v + n \<le> pv_cap w) \<and> (r \<noteq> Inr () \<longrightarrow> w = v)"
  by (fastforce simp: pv_try_reserve_def Let_def split: if_splits sum.splits bind_splits prod.splits)

lemma pv_reserve_elems:
  "pv_reserve t p v n = Some (q, w) \<Longrightarrow> pv_elems w = pv_elems v \<and> pv_len v + n \<le> pv_cap w \<and> pv_cap v \<le> pv_cap w"
  by (auto simp: pv_reserve_def split: bind_splits sum.splits dest!: pv_try_reserve_elems)

lemma pv_push_elems:
  "pv_push t p v x = Some (q, w) \<Longrightarrow> pv_elems w = pv_elems v @ [x] \<and> pv_len w \<le> pv_cap w \<and> pv_cap v \<le> pv_cap w"
  by (auto simp: pv_push_def split: bind_splits dest!: pv_reserve_elems)

lemma pv_resize_elems:
  "pv_resize t p v n x = Some (q, w) \<Longrightarrow> pv_elems w = resize_list n x (pv_elems v) \<and> pv_cap v \<le> pv_cap w"
  by (auto simp: pv_resize_def pv_try_resize_def resize_list_def
      split: bind_splits sum.splits if_splits dest!: pv_try_reserve_elems)

text \<open>(C21) The contract of \<^verbatim>\<open>try_push\<close>: on a consistent pool it never panics short of address
  space overflow; \<^verbatim>\<open>Err\<close> leaves the vector exactly as it was, \<^verbatim>\<open>Ok\<close> appends the value; and in
  both cases every other vector in the pool keeps its own, disjoint buffer.\<close>

theorem pv_try_push_contract:
  fixes v :: "'a pool_vec" and u :: "'b pool_vec"
  assumes "pool_inv P" "t < length (sp_caches P)" "vec_inv P v" "reserve_fits v 1"
    and "vec_inv P u" "pv_block v \<inter> pv_block u = {}"
  shows "\<exists>r Q w. pv_try_push t P v x = Some (r, Q, w) \<and> pool_inv Q \<and> vec_inv Q w
     \<and> (case r of Inl e \<Rightarrow> w = v | Inr _ \<Rightarrow> pv_elems w = pv_elems v @ [x])
     \<and> vec_inv Q u \<and> pv_block w \<inter> pv_block u = {}"
proof -
  obtain r Q w where r: "pv_try_reserve t P v 1 = Some (r, Q, w)" "vec_step P v Q w" "pv_elems w = pv_elems v"
    "case r of Inl e \<Rightarrow> w = v | Inr _ \<Rightarrow> pv_len v + 1 \<le> pv_cap w"
    using pv_try_reserve_ok [OF assms(1-4)] by blast
  note fr = vec_frame [OF r(2) assms(5,6)]
  show ?thesis
  proof (cases r)
    case (Inl e)
    then show ?thesis using r fr by (auto simp: pv_try_push_def vec_step_def)
  next
    case (Inr y)
    then show ?thesis using r fr by (auto simp: pv_try_push_def vec_step_def vec_inv_def pv_block_def)
  qed
qed

theorem pv_try_push_contract_witness:
  "\<exists>r Q w. pv_try_push 0 (slab_pool_new 2097152 1) (pv_new \<lparr>l_size = 4, l_align = 4\<rparr>) (7 :: u32) = Some (r, Q, w)
     \<and> pool_inv Q \<and> vec_inv Q w
     \<and> (case r of Inl e \<Rightarrow> w = pv_new \<lparr>l_size = 4, l_align = 4\<rparr>
        | Inr _ \<Rightarrow> pv_elems w = pv_elems (pv_new \<lparr>l_size = 4, l_align = 4\<rparr>) @ [7])
     \<and> vec_inv Q (pv_new \<lparr>l_size = 8, l_align = 8\<rparr> :: u64 pool_vec) \<and> pv_block w \<inter> pv_block (pv_new \<lparr>l_size = 8, l_align = 8\<rparr> :: u64 pool_vec) = {}"
proof -
  have b: "2097152 div LARGE_UNIT < UNIT_INTERIOR" by code_simp
  have f: "reserve_fits (pv_new \<lparr>l_size = 4, l_align = 4\<rparr> :: u32 pool_vec) 1" by code_simp
  show ?thesis
    by (rule pv_try_push_contract [OF slab_pool_new_inv(1) [OF b] _ _ f]) (simp_all add: slab_pool_new_def)
qed

text \<open>Reserve, then append: once \<^verbatim>\<open>try_reserve(n)\<close> has succeeded, appending up to \<open>n\<close> elements one by one
  neither fails nor touches the pool, and leaves exactly the list with the items appended.\<close>

theorem pv_reserve_then_push:
  assumes "pool_inv P" "t < length (sp_caches P)" "vec_inv P v" "reserve_fits v n"
    and "pv_try_reserve t P v n = Some (Inr (), Q, w)" "length xs \<le> n"
  shows "run_ops (\<lambda>x (p, u). pv_push t p u x) xs (Q, w) = Some (Q, w\<lparr>pv_elems := pv_elems v @ xs\<rparr>)"
proof -
  have w: "vec_inv Q w" "pv_elems w = pv_elems v" "pv_len v + n \<le> pv_cap w"
    using pv_try_reserve_ok [OF assms(1-4)] assms(5) by (auto simp: vec_step_def)
  have cap: "pv_cap w \<le> USIZE_MAX" by (rule cap_le_usize [OF w(1)])
  have run: "run_ops (\<lambda>x (p, u). pv_push t p u x) xs (Q, w\<lparr>pv_elems := ys\<rparr>) = Some (Q, w\<lparr>pv_elems := ys @ xs\<rparr>)"
    if "length ys + length xs \<le> pv_cap w" for ys
    using that by (induction xs arbitrary: ys) (simp_all add: cap)
  have "w\<lparr>pv_elems := pv_elems v\<rparr> = w" using w(2) [symmetric] by simp
  moreover have "pv_len v + length xs \<le> pv_cap w" using w(3) assms(6) by linarith
  ultimately show ?thesis using run [of "pv_elems v"] by simp
qed

theorem pv_reserve_then_push_witness:
  "\<exists>Q w. pv_try_reserve 0 (slab_pool_new 2097152 1) (pv_new \<lparr>l_size = 4, l_align = 4\<rparr> :: u32 pool_vec) 2000 = Some (Inr (), Q, w)
     \<and> run_ops (\<lambda>x (p, u). pv_push 0 p u x) [1, 2] (Q, w)
        = Some (Q, w\<lparr>pv_elems := pv_elems (pv_new \<lparr>l_size = 4, l_align = 4\<rparr>) @ [1, 2]\<rparr>)"
proof -
  let ?v = "pv_new \<lparr>l_size = 4, l_align = 4\<rparr> :: u32 pool_vec"
  have b: "2097152 div LARGE_UNIT < UNIT_INTERIOR" by code_simp
  have f: "reserve_fits ?v 2000" by code_simp
  have "map_option fst (pv_try_reserve 0 (slab_pool_new 2097152 1) ?v 2000) = Some (Inr ())" by code_simp
  then obtain Q w where q: "pv_try_reserve 0 (slab_pool_new 2097152 1) ?v 2000 = Some (Inr (), Q, w)" by auto
  have "run_ops (\<lambda>x (p, u). pv_push 0 p u x) [1, 2] (Q, w) = Some (Q, w\<lparr>pv_elems := pv_elems ?v @ [1, 2]\<rparr>)"
    by (rule pv_reserve_then_push [OF slab_pool_new_inv(1) [OF b] _ _ f q]) (simp_all add: slab_pool_new_def)
  with q show ?thesis by blast
qed

lemma pv_drop_ok:
  assumes "pool_inv P" "t < length (sp_caches P)" "vec_inv P v"
  shows "\<exists>Q. pv_drop t P v = Some Q \<and> pool_inv Q \<and> owned Q = owned P - pv_block v
     \<and> same_blocks (sp_inner P) (sp_inner Q) (owned P - pv_block v)"
proof (cases "pv_cap v = 0")
  case True
  then show ?thesis using assms by (simp add: pv_drop_def pv_block_def)
next
  case False
  obtain b l where b: "pv_data v = At b" "b \<in> owned P" "array_layout (pv_type v) (pv_cap v) = Some l"
    using assms(3) False by (auto simp: vec_inv_def)
  have "l_size l \<noteq> 0" using array_layout_le [OF b(3)] assms(3) False by (simp add: vec_inv_def)
  from deallocate_ok [OF assms(1,2) b(2) this] show ?thesis
    using b False by (auto simp: pv_drop_def pv_block_def free_answer_def)
qed

end
