(* ===== verification/Free_List.thy ===== *)
theory Free_List
  imports Pool_Vec
begin

text \<open>
  The entity allocator's \<^verbatim>\<open>FreeList\<close> (\<^verbatim>\<open>crates/minkowski/src/entity.rs\<close>): an ordered stack of free
  indices whose replay path removes arbitrary entries by tombstoning them, with a lazily
  built position index and a lazily built snapshot. Its specification is the plain
  ordered list of the live entries.
\<close>

record free_list =
  fl_slots :: "u32 pool_vec"
  fl_positions :: "(u32 \<rightharpoonup> nat) option"
  fl_holes :: nat
  fl_snapshot :: "u32 list option"

definition U32_LAYOUT :: layout where "U32_LAYOUT = \<lparr>l_size = 4, l_align = 4\<rparr>"

definition REMOVED :: u32 where "REMOVED = 4294967295"

definition fl_new :: free_list where
  "fl_new = \<lparr>fl_slots = pv_new U32_LAYOUT, fl_positions = None, fl_holes = 0, fl_snapshot = None\<rparr>"

definition fl_assign :: "nat \<Rightarrow> slab_pool \<Rightarrow> free_list \<Rightarrow> u32 list \<Rightarrow> (slab_pool \<times> free_list) option" where
  "fl_assign t p l slots =
     do { (p', s) \<leftarrow> pv_extend_from_slice t p (pv_truncate (fl_slots l) 0) slots;
          Some (p', l\<lparr>fl_slots := s, fl_positions := None, fl_holes := 0, fl_snapshot := None\<rparr>) }"

definition fl_try_reserve_total :: "nat \<Rightarrow> slab_pool \<Rightarrow> free_list \<Rightarrow> nat
    \<Rightarrow> ((pool_exhausted + unit) \<times> slab_pool \<times> free_list) option" where
  "fl_try_reserve_total t p l tot =
     do { (r, p', s) \<leftarrow> pv_try_reserve t p (fl_slots l) (tot - pv_len (fl_slots l));
          Some (r, p', l\<lparr>fl_slots := s\<rparr>) }"

definition fl_reserve_total :: "nat \<Rightarrow> slab_pool \<Rightarrow> free_list \<Rightarrow> nat \<Rightarrow> (slab_pool \<times> free_list) option" where
  "fl_reserve_total t p l tot =
     do { (p', s) \<leftarrow> pv_reserve t p (fl_slots l) (tot - pv_len (fl_slots l)); Some (p', l\<lparr>fl_slots := s\<rparr>) }"

definition fl_capacity :: "free_list \<Rightarrow> nat" where
  "fl_capacity l = pv_cap (fl_slots l)"

text \<open>\<^verbatim>\<open>iter().enumerate().map(|(pos, &i)| (i, pos)).collect()\<close>: later positions win.\<close>

definition index_slots :: "u32 list \<Rightarrow> (u32 \<rightharpoonup> nat)" where
  "index_slots xs = fold (\<lambda>(pos, i) m. m(i \<mapsto> pos)) (enumerate 0 xs) Map.empty"

definition fl_compact :: "free_list \<Rightarrow> free_list" where
  "fl_compact l =
     (let slots = pv_retain (\<lambda>i. i \<noteq> REMOVED) (fl_slots l) in
      l\<lparr>fl_slots := slots, fl_holes := 0,
        fl_positions := map_option (\<lambda>_. index_slots (pv_elems slots)) (fl_positions l)\<rparr>)"

definition fl_len :: "free_list \<Rightarrow> nat" where
  "fl_len l = pv_len (fl_slots l) - fl_holes l"

definition fl_as_slice :: "free_list \<Rightarrow> u32 list \<times> free_list" where
  "fl_as_slice l =
     (if fl_holes l = 0 then (pv_elems (fl_slots l), l)
      else case fl_snapshot l of
        Some s \<Rightarrow> (s, l)
      | None \<Rightarrow> let s = filter (\<lambda>i. i \<noteq> REMOVED) (pv_elems (fl_slots l)) in (s, l\<lparr>fl_snapshot := Some s\<rparr>))"

definition fl_push :: "nat \<Rightarrow> slab_pool \<Rightarrow> free_list \<Rightarrow> u32 \<Rightarrow> (slab_pool \<times> free_list) option" where
  "fl_push t p l index =
     (let l1 = l\<lparr>fl_snapshot := None\<rparr>;
          l2 = (if pv_len (fl_slots l1) = pv_cap (fl_slots l1) \<and> fl_holes l1 > 0 then fl_compact l1 else l1);
          l3 = l2\<lparr>fl_positions := map_option (\<lambda>m. m(index \<mapsto> pv_len (fl_slots l2))) (fl_positions l2)\<rparr>
      in do { (p', s) \<leftarrow> pv_push t p (fl_slots l3) index; Some (p', l3\<lparr>fl_slots := s\<rparr>) })"

fun fl_extend :: "nat \<Rightarrow> slab_pool \<Rightarrow> free_list \<Rightarrow> u32 list \<Rightarrow> (slab_pool \<times> free_list) option" where
  "fl_extend t p l [] = Some (p, l)"
| "fl_extend t p l (i # is) = do { (p', l') \<leftarrow> fl_push t p l i; fl_extend t p' l' is }"

function fl_pop_loop :: "free_list \<Rightarrow> u32 option \<times> free_list" where
  "fl_pop_loop l =
     (case pv_pop (fl_slots l) of
        (None, _) \<Rightarrow> (None, l\<lparr>fl_positions := None\<rparr>)
      | (Some index, s) \<Rightarrow>
          if index = REMOVED then fl_pop_loop (l\<lparr>fl_slots := s, fl_holes := fl_holes l - 1\<rparr>)
          else (Some index, l\<lparr>fl_slots := s, fl_positions := map_option (\<lambda>m. m(index := None)) (fl_positions l)\<rparr>))"
  by pat_completeness auto
termination
  by (relation "measure (\<lambda>l. pv_len (fl_slots l))") (auto simp: pv_pop_eq split: if_splits)

declare fl_pop_loop.simps [simp del]

definition fl_pop :: "free_list \<Rightarrow> u32 option \<times> free_list" where
  "fl_pop l = fl_pop_loop (l\<lparr>fl_snapshot := None\<rparr>)"

definition get_positions :: "free_list \<Rightarrow> (u32 \<rightharpoonup> nat) \<times> free_list" where
  "get_positions l =
     (case fl_positions l of
        Some m \<Rightarrow> (m, l)
      | None \<Rightarrow> let m = index_slots (pv_elems (fl_slots l)) in (m, l\<lparr>fl_positions := Some m\<rparr>))"

definition last_is :: "u32 list \<Rightarrow> u32 \<Rightarrow> bool" where
  "last_is xs i \<longleftrightarrow> xs \<noteq> [] \<and> last xs = i"

definition fl_contains :: "free_list \<Rightarrow> u32 \<Rightarrow> bool \<times> free_list" where
  "fl_contains l index =
     (if last_is (pv_elems (fl_slots l)) index then (True, l)
      else let (m, l') = get_positions l in (m index \<noteq> None, l'))"

definition fl_remove :: "free_list \<Rightarrow> u32 \<Rightarrow> (bool \<times> free_list) option" where
  "fl_remove l index =
     (if last_is (pv_elems (fl_slots l)) index then Some (True, snd (fl_pop l))
      else let (m, l1) = get_positions l in
        case m index of
          None \<Rightarrow> Some (False, l1)
        | Some pos \<Rightarrow>
            if pos < pv_len (fl_slots l1)
            then let l2 = l1\<lparr>fl_positions := Some (m(index := None)), fl_snapshot := None,
                    fl_slots := (fl_slots l1)\<lparr>pv_elems := (pv_elems (fl_slots l1))[pos := REMOVED]\<rparr>,
                    fl_holes := fl_holes l1 + 1\<rparr>
              in Some (True, if fl_holes l2 > pv_len (fl_slots l2) div 2 then fl_compact l2 else l2)
            else None)"

subsection \<open>Abstraction and invariant\<close>

definition fl_abs :: "free_list \<Rightarrow> u32 list" where
  "fl_abs l = filter (\<lambda>i. i \<noteq> REMOVED) (pv_elems (fl_slots l))"

definition positions_ok :: "u32 list \<Rightarrow> (u32 \<rightharpoonup> nat) \<Rightarrow> bool" where
  "positions_ok xs m \<longleftrightarrow> (\<forall>i p. m i = Some p \<longleftrightarrow> p < length xs \<and> xs ! p = i \<and> i \<noteq> REMOVED)"

definition fl_inv :: "free_list \<Rightarrow> bool" where
  "fl_inv l \<longleftrightarrow> distinct (fl_abs l) \<and> fl_holes l = count_list (pv_elems (fl_slots l)) REMOVED
     \<and> (case fl_positions l of None \<Rightarrow> fl_holes l = 0 | Some m \<Rightarrow> positions_ok (pv_elems (fl_slots l)) m)
     \<and> (\<forall>s. fl_snapshot l = Some s \<longrightarrow> s = fl_abs l)"

lemma count_zero_filter: "count_list xs x = 0 \<Longrightarrow> filter (\<lambda>i. i \<noteq> x) xs = xs"
  by (auto simp: count_list_0_iff filter_id_conv)

lemma count_filter_out: "count_list (filter (\<lambda>i. i \<noteq> x) xs) x = 0"
  by (simp add: count_list_0_iff)

lemma length_filter_count: "length (filter (\<lambda>i. i \<noteq> x) xs) = length xs - count_list xs x \<and> count_list xs x \<le> length xs"
  by (induction xs) auto

lemma index_slots_snoc: "index_slots (xs @ [x]) = (index_slots xs)(x \<mapsto> length xs)"
  by (simp add: index_slots_def enumerate_append_eq)

lemma index_slots_ok:
  assumes "distinct xs" "REMOVED \<notin> set xs"
  shows "positions_ok xs (index_slots xs)"
  using assms
proof (induction xs rule: rev_induct)
  case Nil
  then show ?case by (simp add: positions_ok_def index_slots_def)
next
  case (snoc x xs)
  then have IH: "positions_ok xs (index_slots xs)" by simp
  have "((index_slots xs)(x \<mapsto> length xs)) i = Some p \<longleftrightarrow> p < length (xs @ [x]) \<and> (xs @ [x]) ! p = i \<and> i \<noteq> REMOVED" for i p
  proof (cases "p < length xs")
    case True
    then have "xs ! p \<noteq> x" using snoc.prems(1) nth_mem by fastforce
    then show ?thesis using IH True by (auto simp: positions_ok_def nth_append)
  next
    case False
    then have "index_slots xs i \<noteq> Some p" using IH by (simp add: positions_ok_def)
    then show ?thesis using False snoc.prems by (auto simp: nth_append less_Suc_eq)
  qed
  then show ?case by (simp add: positions_ok_def index_slots_snoc)
qed

lemma fl_no_holes:
  assumes "fl_inv l" "fl_holes l = 0"
  shows "fl_abs l = pv_elems (fl_slots l)" "distinct (pv_elems (fl_slots l))" "REMOVED \<notin> set (pv_elems (fl_slots l))"
proof -
  have c: "count_list (pv_elems (fl_slots l)) REMOVED = 0" using assms by (simp add: fl_inv_def)
  show a: "fl_abs l = pv_elems (fl_slots l)" using count_zero_filter [OF c] by (simp add: fl_abs_def)
  show "distinct (pv_elems (fl_slots l))" using assms(1) a by (simp add: fl_inv_def)
  show "REMOVED \<notin> set (pv_elems (fl_slots l))" using c by (simp add: count_list_0_iff)
qed

lemma fl_new_inv: "fl_inv fl_new" "fl_abs fl_new = []"
  by (simp_all add: fl_inv_def fl_new_def fl_abs_def pv_new_def)

lemma fl_len_abs: "fl_inv l \<Longrightarrow> fl_len l = length (fl_abs l)"
  using length_filter_count [of REMOVED "pv_elems (fl_slots l)"] by (simp add: fl_len_def fl_abs_def fl_inv_def)

lemma fl_compact_ok:
  assumes "fl_inv l"
  shows "fl_inv (fl_compact l)" "fl_abs (fl_compact l) = fl_abs l" "fl_holes (fl_compact l) = 0"
    "pv_elems (fl_slots (fl_compact l)) = fl_abs l" "pv_cap (fl_slots (fl_compact l)) = pv_cap (fl_slots l)"
proof -
  have d: "distinct (fl_abs l)" using assms by (simp add: fl_inv_def)
  have el: "pv_elems (fl_slots (fl_compact l)) = fl_abs l" by (simp add: fl_compact_def fl_abs_def Let_def)
  then show "pv_elems (fl_slots (fl_compact l)) = fl_abs l" .
  show ab: "fl_abs (fl_compact l) = fl_abs l" using el by (simp add: fl_abs_def)
  show "fl_holes (fl_compact l) = 0" "pv_cap (fl_slots (fl_compact l)) = pv_cap (fl_slots l)"
    by (simp_all add: fl_compact_def Let_def)
  have "REMOVED \<notin> set (fl_abs l)" by (simp add: fl_abs_def)
  then have "positions_ok (fl_abs l) (index_slots (fl_abs l))" using d by (rule index_slots_ok [rotated])
  moreover have "fl_positions (fl_compact l) = map_option (\<lambda>_. index_slots (fl_abs l)) (fl_positions l)"
    "fl_snapshot (fl_compact l) = fl_snapshot l" "fl_holes (fl_compact l) = 0"
    by (simp_all add: fl_compact_def fl_abs_def Let_def)
  moreover have "count_list (fl_abs l) REMOVED = 0" by (simp add: fl_abs_def count_filter_out)
  ultimately show "fl_inv (fl_compact l)"
    using assms d ab el by (auto simp: fl_inv_def split: option.splits)
qed

subsection \<open>Each operation against the ordered list\<close>

lemma positions_push:
  assumes "positions_ok xs m" "i \<notin> set xs" "i \<noteq> REMOVED"
  shows "positions_ok (xs @ [i]) (m(i \<mapsto> length xs))"
  unfolding positions_ok_def
proof (intro allI)
  fix j p
  show "((m(i \<mapsto> length xs)) j = Some p) \<longleftrightarrow> p < length (xs @ [i]) \<and> (xs @ [i]) ! p = j \<and> j \<noteq> REMOVED"
  proof (cases "p < length xs")
    case True
    then have "xs ! p \<noteq> i" using assms(2) nth_mem by fastforce
    then show ?thesis using assms(1) True by (auto simp: positions_ok_def nth_append)
  next
    case False
    then have "m j \<noteq> Some p" using assms(1) by (simp add: positions_ok_def)
    then show ?thesis using False assms(3) by (auto simp: nth_append less_Suc_eq)
  qed
qed

lemma positions_snoc:
  assumes "positions_ok (ys @ [x]) m"
  shows "x \<noteq> REMOVED \<Longrightarrow> positions_ok ys (m(x := None))" "x = REMOVED \<Longrightarrow> positions_ok ys m"
proof -
  have h: "m i = Some p \<longleftrightarrow> (p < length ys \<and> ys ! p = i \<or> p = length ys \<and> x = i) \<and> i \<noteq> REMOVED" for i p
    using assms by (auto simp: positions_ok_def nth_append less_Suc_eq)
  show "positions_ok ys (m(x := None))" if "x \<noteq> REMOVED"
  proof -
    have "ys ! p \<noteq> x" if p: "p < length ys" for p
      using h [of x p] h [of x "length ys"] p \<open>x \<noteq> REMOVED\<close> by auto
    then show ?thesis by (auto simp: positions_ok_def h)
  qed
  show "positions_ok ys m" if "x = REMOVED" using that by (auto simp: positions_ok_def h)
qed

lemma positions_butlast:
  assumes "positions_ok xs m" "xs \<noteq> []"
  shows "last xs \<noteq> REMOVED \<Longrightarrow> positions_ok (butlast xs) (m(last xs := None))"
    "last xs = REMOVED \<Longrightarrow> positions_ok (butlast xs) m"
proof -
  have "positions_ok (butlast xs @ [last xs]) m" using assms by simp
  from positions_snoc [OF this] show "last xs \<noteq> REMOVED \<Longrightarrow> positions_ok (butlast xs) (m(last xs := None))"
    "last xs = REMOVED \<Longrightarrow> positions_ok (butlast xs) m" by simp_all
qed

lemma set_fl_abs: "set (fl_abs l) = set (pv_elems (fl_slots l)) - {REMOVED}"
  by (auto simp: fl_abs_def)

lemma filter_snoc: "xs \<noteq> [] \<Longrightarrow> filter P xs = filter P (butlast xs) @ (if P (last xs) then [last xs] else [])"
  by (cases xs rule: rev_cases) simp_all

lemma count_snoc: "xs \<noteq> [] \<Longrightarrow> count_list xs x = count_list (butlast xs) x + (if last xs = x then 1 else 0)"
  by (cases xs rule: rev_cases) simp_all

lemma fl_inv_snapshot [simp]: "fl_inv l \<Longrightarrow> fl_inv (l\<lparr>fl_snapshot := None\<rparr>)" "fl_abs (l\<lparr>fl_snapshot := None\<rparr>) = fl_abs l"
  by (auto simp: fl_inv_def fl_abs_def split: option.splits)

lemma fl_push_ok:
  assumes inv: "fl_inv l" and i: "i \<notin> set (fl_abs l)" "i \<noteq> REMOVED" and p: "fl_push t p l i = Some (q, l')"
  shows "fl_inv l'" "fl_abs l' = fl_abs l @ [i]" "pv_cap (fl_slots l) \<le> pv_cap (fl_slots l')"
proof -
  define l1 where "l1 = l\<lparr>fl_snapshot := None\<rparr>"
  define l2 where "l2 = (if pv_len (fl_slots l1) = pv_cap (fl_slots l1) \<and> fl_holes l1 > 0 then fl_compact l1 else l1)"
  have i1: "fl_inv l1" "fl_abs l1 = fl_abs l" using inv by (auto simp: l1_def)
  have i2: "fl_inv l2" "fl_abs l2 = fl_abs l" "fl_snapshot l2 = None" "pv_cap (fl_slots l2) = pv_cap (fl_slots l)"
    using i1 fl_compact_ok [OF i1(1)] by (auto simp: l2_def l1_def fl_compact_def Let_def)
  obtain s where s: "pv_push t p (fl_slots l2) i = Some (q, s)" and
    l': "l' = l2\<lparr>fl_positions := map_option (\<lambda>m. m(i \<mapsto> pv_len (fl_slots l2))) (fl_positions l2), fl_slots := s\<rparr>"
    using p by (auto simp: fl_push_def l1_def [symmetric] l2_def [symmetric] Let_def split: bind_splits)
  have el: "pv_elems s = pv_elems (fl_slots l2) @ [i]" "pv_cap (fl_slots l2) \<le> pv_cap s" using pv_push_elems [OF s] by auto
  show ab: "fl_abs l' = fl_abs l @ [i]" using el i i2 by (simp add: l' fl_abs_def)
  show "pv_cap (fl_slots l) \<le> pv_cap (fl_slots l')" using el i2 by (simp add: l')
  have ni: "i \<notin> set (pv_elems (fl_slots l2))" using i i2(2) set_fl_abs [of l2] by auto
  have d: "distinct (fl_abs l)" using inv by (simp add: fl_inv_def)
  show "fl_inv l'"
    using i2(1,3) i d ab el ni positions_push [of "pv_elems (fl_slots l2)" _ i]
    by (auto simp: fl_inv_def l' split: option.splits)
qed

lemma fl_pop_loop_ok:
  assumes "fl_inv l" "fl_snapshot l = None" "fl_pop_loop l = (r, l')"
  shows "fl_inv l' \<and> pv_cap (fl_slots l') = pv_cap (fl_slots l)
    \<and> (if fl_abs l = [] then r = None \<and> fl_abs l' = []
       else r = Some (last (fl_abs l)) \<and> fl_abs l' = butlast (fl_abs l))"
  using assms
proof (induction l arbitrary: r l' rule: fl_pop_loop.induct)
  case (1 l)
  let ?xs = "pv_elems (fl_slots l)"
  show ?case
  proof (cases "?xs = []")
    case True
    then have "fl_holes l = 0" "fl_abs l = []" using 1(2) by (auto simp: fl_inv_def fl_abs_def)
    moreover have "r = None" "l' = l\<lparr>fl_positions := None\<rparr>"
      using 1(4) True by (auto simp: fl_pop_loop.simps [of l] pv_pop_eq)
    ultimately show ?thesis using 1(2,3) True by (auto simp: fl_inv_def fl_abs_def)
  next
    case False
    let ?s = "(fl_slots l)\<lparr>pv_elems := butlast ?xs\<rparr>"
    have pop: "pv_pop (fl_slots l) = (Some (last ?xs), ?s)" using False by (simp add: pv_pop_eq)
    show ?thesis
    proof (cases "last ?xs = REMOVED")
      case rem: True
      let ?m = "l\<lparr>fl_slots := ?s, fl_holes := fl_holes l - 1\<rparr>"
      have ab: "fl_abs ?m = fl_abs l" using rem False by (simp add: fl_abs_def filter_snoc [of ?xs])
      have cnt: "count_list ?xs REMOVED = Suc (count_list (butlast ?xs) REMOVED)"
        using rem False by (simp add: count_snoc)
      have "fl_inv ?m" using 1(2,3) ab cnt positions_butlast(2) [OF _ False rem]
        by (auto simp: fl_inv_def split: option.splits)
      moreover have "fl_pop_loop ?m = (r, l')" using 1(4) rem by (simp add: fl_pop_loop.simps [of l] pop)
      ultimately show ?thesis using 1(1) [OF pop [symmetric] refl rem] 1(3) ab by simp
    next
      case keep: False
      have r: "r = Some (last ?xs)" "l' = l\<lparr>fl_slots := ?s, fl_positions := map_option (\<lambda>m. m(last ?xs := None)) (fl_positions l)\<rparr>"
        using 1(4) keep by (auto simp: fl_pop_loop.simps [of l] pop)
      have ab: "fl_abs l = filter (\<lambda>i. i \<noteq> REMOVED) (butlast ?xs) @ [last ?xs]"
        using keep False by (simp add: fl_abs_def filter_snoc [of ?xs])
      then have ab': "fl_abs l' = butlast (fl_abs l)" by (simp add: r fl_abs_def)
      have cnt: "count_list ?xs REMOVED = count_list (butlast ?xs) REMOVED" using keep False by (simp add: count_snoc)
      have "distinct (fl_abs l')" using 1(2) ab' by (simp add: fl_inv_def distinct_butlast)
      moreover have "case fl_positions l' of None \<Rightarrow> fl_holes l' = 0 | Some m \<Rightarrow> positions_ok (butlast ?xs) m"
        using 1(2) positions_butlast(1) [OF _ False keep] by (cases "fl_positions l") (auto simp: r fl_inv_def)
      moreover have "fl_holes l' = fl_holes l" "fl_snapshot l' = None" "pv_elems (fl_slots l') = butlast ?xs"
        using 1(3) by (simp_all add: r)
      moreover have "fl_holes l = count_list (butlast ?xs) REMOVED" using 1(2) cnt by (simp add: fl_inv_def)
      ultimately have "fl_inv l'" unfolding fl_inv_def by (cases "fl_positions l'") simp_all
      then show ?thesis using r ab ab' by simp
    qed
  qed
qed

lemma fl_pop_ok:
  assumes "fl_inv l" "fl_pop l = (r, l')"
  shows "fl_inv l'" "pv_cap (fl_slots l') = pv_cap (fl_slots l)"
    "fl_abs l = [] \<Longrightarrow> r = None \<and> fl_abs l' = []"
    "fl_abs l \<noteq> [] \<Longrightarrow> r = Some (last (fl_abs l)) \<and> fl_abs l' = butlast (fl_abs l)"
proof -
  have "fl_inv (l\<lparr>fl_snapshot := None\<rparr>)" using assms(1) by simp
  with fl_pop_loop_ok [of "l\<lparr>fl_snapshot := None\<rparr>" r l'] assms(2)
  show "fl_inv l'" "pv_cap (fl_slots l') = pv_cap (fl_slots l)"
    "fl_abs l = [] \<Longrightarrow> r = None \<and> fl_abs l' = []"
    "fl_abs l \<noteq> [] \<Longrightarrow> r = Some (last (fl_abs l)) \<and> fl_abs l' = butlast (fl_abs l)"
    by (auto simp: fl_pop_def)
qed

lemma get_positions_ok:
  assumes "fl_inv l" "get_positions l = (m, l')"
  shows "fl_inv l'" "fl_abs l' = fl_abs l" "fl_slots l' = fl_slots l" "fl_positions l' = Some m"
    "positions_ok (pv_elems (fl_slots l)) m" "fl_holes l' = fl_holes l" "fl_snapshot l' = fl_snapshot l"
proof -
  have m: "positions_ok (pv_elems (fl_slots l)) m"
  proof (cases "fl_positions l")
    case None
    then have "fl_holes l = 0" "m = index_slots (pv_elems (fl_slots l))"
      using assms by (auto simp: fl_inv_def get_positions_def Let_def)
    then show ?thesis using fl_no_holes [OF assms(1)] index_slots_ok by simp
  next
    case (Some a)
    then show ?thesis using assms by (auto simp: fl_inv_def get_positions_def)
  qed
  have e: "l' = l\<lparr>fl_positions := Some m\<rparr>"
    using assms(2) by (auto simp: get_positions_def Let_def split: option.splits)
  show "fl_slots l' = fl_slots l" "fl_positions l' = Some m" "fl_holes l' = fl_holes l" "fl_snapshot l' = fl_snapshot l"
    "fl_abs l' = fl_abs l" by (simp_all add: e fl_abs_def)
  show "positions_ok (pv_elems (fl_slots l)) m" by (rule m)
  show "fl_inv l'" using assms(1) m by (auto simp: e fl_inv_def fl_abs_def)
qed

lemma last_is_abs:
  assumes "fl_inv l" "last_is (pv_elems (fl_slots l)) i" "i \<noteq> REMOVED"
  shows "fl_abs l \<noteq> []" "last (fl_abs l) = i" "i \<in> set (fl_abs l)"
  using assms by (auto simp: last_is_def fl_abs_def filter_snoc [of "pv_elems (fl_slots l)"])

lemma positions_dom: "positions_ok xs m \<Longrightarrow> m i \<noteq> None \<longleftrightarrow> i \<in> set xs \<and> i \<noteq> REMOVED"
  by (auto simp: positions_ok_def in_set_conv_nth)

lemma fl_contains_ok:
  assumes "fl_inv l" "i \<noteq> REMOVED" "fl_contains l i = (b, l')"
  shows "fl_inv l'" "fl_abs l' = fl_abs l" "b \<longleftrightarrow> i \<in> set (fl_abs l)" "fl_slots l' = fl_slots l"
proof -
  consider "last_is (pv_elems (fl_slots l)) i" "b" "l' = l"
    | m where "\<not> last_is (pv_elems (fl_slots l)) i" "get_positions l = (m, l')" "b \<longleftrightarrow> m i \<noteq> None"
    using assms(3) by (auto simp: fl_contains_def split: if_splits prod.splits)
  then have "fl_inv l' \<and> fl_abs l' = fl_abs l \<and> (b \<longleftrightarrow> i \<in> set (fl_abs l)) \<and> fl_slots l' = fl_slots l"
  proof cases
    case 1
    then show ?thesis using assms(1) last_is_abs [OF assms(1) 1(1) assms(2)] by simp
  next
    case (2 m)
    note G = get_positions_ok [OF assms(1) 2(2)]
    have "b \<longleftrightarrow> i \<in> set (fl_abs l)" using 2(3) positions_dom [OF G(5), of i] assms(2) by (simp add: set_fl_abs)
    then show ?thesis using G by simp
  qed
  then show "fl_inv l'" "fl_abs l' = fl_abs l" "b \<longleftrightarrow> i \<in> set (fl_abs l)" "fl_slots l' = fl_slots l" by auto
qed

lemma filter_absent: "i \<notin> set ys \<Longrightarrow> filter (\<lambda>j. j \<noteq> i) ys = ys"
  by (induction ys) auto

lemma filter_tombstone:
  assumes "pos < length xs" "xs ! pos = i" "distinct (filter (\<lambda>j. j \<noteq> r) xs)" "i \<noteq> r"
  shows "filter (\<lambda>j. j \<noteq> r) (xs[pos := r]) = filter (\<lambda>j. j \<noteq> i) (filter (\<lambda>j. j \<noteq> r) xs)"
proof -
  have sp: "xs = take pos xs @ i # drop (Suc pos) xs" using assms id_take_nth_drop by metis
  have u: "xs[pos := r] = take pos xs @ r # drop (Suc pos) xs" using assms(1) by (simp add: upd_conv_take_nth_drop)
  have d: "distinct (filter (\<lambda>j. j \<noteq> r) (take pos xs) @ i # filter (\<lambda>j. j \<noteq> r) (drop (Suc pos) xs))"
    using assms(3,4) by (subst (asm) sp) simp
  have "filter (\<lambda>j. j \<noteq> i) (filter (\<lambda>j. j \<noteq> r) xs)
      = filter (\<lambda>j. j \<noteq> i) (filter (\<lambda>j. j \<noteq> r) (take pos xs) @ i # filter (\<lambda>j. j \<noteq> r) (drop (Suc pos) xs))"
    using assms(4) by (subst sp) simp
  also have "\<dots> = filter (\<lambda>j. j \<noteq> r) (take pos xs) @ filter (\<lambda>j. j \<noteq> r) (drop (Suc pos) xs)"
  proof -
    have "i \<notin> set (filter (\<lambda>j. j \<noteq> r) (take pos xs))" "i \<notin> set (filter (\<lambda>j. j \<noteq> r) (drop (Suc pos) xs))"
      using d assms(4) by auto
    from filter_absent [OF this(1)] filter_absent [OF this(2)] show ?thesis
      by (simp only: filter_append filter.simps) simp
  qed
  also have "\<dots> = filter (\<lambda>j. j \<noteq> r) (xs[pos := r])" using u by simp
  finally show ?thesis by simp
qed

lemma count_list_update:
  "pos < length xs \<Longrightarrow> xs ! pos \<noteq> r \<Longrightarrow> count_list (xs[pos := r]) r = Suc (count_list xs r)"
  by (induction xs arbitrary: pos) (auto split: nat.splits)

lemma positions_tombstone:
  assumes "positions_ok xs m" "m i = Some pos"
  shows "positions_ok (xs[pos := REMOVED]) (m(i := None))"
proof -
  have h: "m j = Some p \<longleftrightarrow> p < length xs \<and> xs ! p = j \<and> j \<noteq> REMOVED" for j p using assms(1) by (simp add: positions_ok_def)
  have "xs ! p \<noteq> i" if "p < length xs" "p \<noteq> pos" for p
    using h [of i p] h [of i pos] assms(2) that by auto
  then show ?thesis using h [of i pos] assms(2) by (auto simp: positions_ok_def h nth_list_update)
qed

lemma butlast_filter_last: "distinct ys \<Longrightarrow> ys \<noteq> [] \<Longrightarrow> butlast ys = filter (\<lambda>j. j \<noteq> last ys) ys"
  by (cases ys rule: rev_cases) (auto simp: filter_absent)

lemma fl_remove_ok:
  assumes inv: "fl_inv l" and i: "i \<noteq> REMOVED"
  shows "\<exists>b l'. fl_remove l i = Some (b, l') \<and> fl_inv l' \<and> (b \<longleftrightarrow> i \<in> set (fl_abs l))
     \<and> fl_abs l' = filter (\<lambda>j. j \<noteq> i) (fl_abs l) \<and> pv_cap (fl_slots l') = pv_cap (fl_slots l)"
proof (cases "last_is (pv_elems (fl_slots l)) i")
  case True
  obtain r l' where p: "fl_pop l = (r, l')" by force
  have d: "distinct (fl_abs l)" using inv by (simp add: fl_inv_def)
  note la = last_is_abs [OF inv True i]
  show ?thesis using True p fl_pop_ok [OF inv p] la butlast_filter_last [OF d la(1)]
    by (auto simp: fl_remove_def)
next
  case False
  obtain m l1 where g: "get_positions l = (m, l1)" by force
  note G = get_positions_ok [OF inv g]
  have nin: "filter (\<lambda>j. j \<noteq> i) (fl_abs l) = fl_abs l" if "i \<notin> set (fl_abs l)"
    using that by (rule filter_absent)
  show ?thesis
  proof (cases "m i")
    case None
    then have "i \<notin> set (fl_abs l)" using positions_dom [OF G(5), of i] by (auto simp: set_fl_abs)
    then show ?thesis using False g None G nin by (auto simp: fl_remove_def)
  next
    case (Some pos)
    have pos: "pos < pv_len (fl_slots l)" "pv_elems (fl_slots l) ! pos = i"
      using G(5) Some by (auto simp: positions_ok_def)
    have mem: "i \<in> set (fl_abs l)" using pos i nth_mem by (fastforce simp: set_fl_abs)
    define l2 where "l2 = l1\<lparr>fl_positions := Some (m(i := None)), fl_snapshot := None,
       fl_slots := (fl_slots l1)\<lparr>pv_elems := (pv_elems (fl_slots l1))[pos := REMOVED]\<rparr>, fl_holes := fl_holes l1 + 1\<rparr>"
    have ab: "fl_abs l2 = filter (\<lambda>j. j \<noteq> i) (fl_abs l)"
      using filter_tombstone [OF pos _ i] inv by (simp add: l2_def fl_abs_def G fl_inv_def)
    have "fl_inv l2"
      using inv ab pos i G(3,6) positions_tombstone [OF G(5) Some] count_list_update [OF pos(1), of REMOVED]
      by (auto simp: fl_inv_def l2_def)
    moreover have "fl_remove l i = Some (True, if fl_holes l2 > pv_len (fl_slots l2) div 2 then fl_compact l2 else l2)"
      using False g Some pos G(3) unfolding fl_remove_def l2_def by (simp add: Let_def)
    moreover have "pv_cap (fl_slots l2) = pv_cap (fl_slots l)" using G(3) by (simp add: l2_def)
    ultimately show ?thesis using ab mem fl_compact_ok [of l2] by auto
  qed
qed

lemma fl_as_slice_ok:
  assumes "fl_inv l"
  shows "fst (fl_as_slice l) = fl_abs l" "fl_inv (snd (fl_as_slice l))" "fl_abs (snd (fl_as_slice l)) = fl_abs l"
    "fl_slots (snd (fl_as_slice l)) = fl_slots l"
proof -
  consider "fl_holes l = 0" | s where "fl_holes l \<noteq> 0" "fl_snapshot l = Some s"
    | "fl_holes l \<noteq> 0" "fl_snapshot l = None" by (cases "fl_snapshot l") auto
  then have "fst (fl_as_slice l) = fl_abs l \<and> fl_inv (snd (fl_as_slice l)) \<and> fl_abs (snd (fl_as_slice l)) = fl_abs l
     \<and> fl_slots (snd (fl_as_slice l)) = fl_slots l"
  proof cases
    case 1
    then show ?thesis using assms fl_no_holes [OF assms 1] by (simp add: fl_as_slice_def)
  next
    case 2
    then show ?thesis using assms by (simp add: fl_as_slice_def fl_inv_def)
  next
    case 3
    then show ?thesis using assms by (auto simp: fl_as_slice_def fl_inv_def fl_abs_def Let_def split: option.splits)
  qed
  then show "fst (fl_as_slice l) = fl_abs l" "fl_inv (snd (fl_as_slice l))" "fl_abs (snd (fl_as_slice l)) = fl_abs l"
    "fl_slots (snd (fl_as_slice l)) = fl_slots l" by auto
qed

lemma fl_extend_ok:
  assumes "fl_inv l" "distinct xs" "set xs \<inter> set (fl_abs l) = {}" "REMOVED \<notin> set xs" "fl_extend t p l xs = Some (q, l')"
  shows "fl_inv l' \<and> fl_abs l' = fl_abs l @ xs \<and> pv_cap (fl_slots l) \<le> pv_cap (fl_slots l')"
  using assms
proof (induction xs arbitrary: p l)
  case (Cons i xs)
  then obtain p1 l1 where l1: "fl_push t p l i = Some (p1, l1)" "fl_extend t p1 l1 xs = Some (q, l')"
    by (auto split: bind_splits)
  have "fl_inv l1" "fl_abs l1 = fl_abs l @ [i]" "pv_cap (fl_slots l) \<le> pv_cap (fl_slots l1)"
    using fl_push_ok [OF Cons.prems(1) _ _ l1(1)] Cons.prems by auto
  then show ?case using Cons.IH [of l1 p1] Cons.prems l1(2) by fastforce
qed simp

text \<open>Reclaiming tombstones first, a push needs the pool only when every slot holds a live entry.\<close>

lemma fl_push_room:
  assumes inv: "fl_inv l" and room: "length (fl_abs l) < pv_cap (fl_slots l)" and cap: "pv_cap (fl_slots l) \<le> USIZE_MAX"
    and le: "pv_len (fl_slots l) \<le> pv_cap (fl_slots l)"
  shows "\<exists>l'. fl_push t p l i = Some (p, l') \<and> pv_cap (fl_slots l') = pv_cap (fl_slots l)
     \<and> pv_len (fl_slots l') \<le> pv_cap (fl_slots l') \<and> pv_data (fl_slots l') = pv_data (fl_slots l)
     \<and> pv_type (fl_slots l') = pv_type (fl_slots l)"
proof -
  define l1 where "l1 = l\<lparr>fl_snapshot := None\<rparr>"
  have i1: "fl_inv l1" "fl_abs l1 = fl_abs l" "fl_slots l1 = fl_slots l" using inv by (auto simp: l1_def)
  define l2 where "l2 = (if pv_len (fl_slots l1) = pv_cap (fl_slots l1) \<and> fl_holes l1 > 0 then fl_compact l1 else l1)"
  have c2: "pv_cap (fl_slots l2) = pv_cap (fl_slots l)" "pv_data (fl_slots l2) = pv_data (fl_slots l)"
    "pv_type (fl_slots l2) = pv_type (fl_slots l)"
    using i1 by (auto simp: l2_def fl_compact_def Let_def)
  have room2: "pv_len (fl_slots l2) < pv_cap (fl_slots l2)"
  proof (cases "pv_len (fl_slots l1) = pv_cap (fl_slots l1) \<and> fl_holes l1 > 0")
    case True
    then show ?thesis using fl_compact_ok [OF i1(1)] i1 room by (simp add: l2_def)
  next
    case False
    have "pv_len (fl_slots l) \<noteq> pv_cap (fl_slots l)"
    proof
      assume e: "pv_len (fl_slots l) = pv_cap (fl_slots l)"
      then have "fl_holes l1 = 0" using False i1 by auto
      then show False using fl_no_holes(1) [OF i1(1)] i1 room e by simp
    qed
    then show ?thesis using False le i1 by (auto simp: l2_def)
  qed
  have u: "pv_cap (fl_slots l2) \<le> USIZE_MAX" using c2(1) cap by simp
  have "fl_push t p l i = Some (p, l2\<lparr>fl_positions := map_option (\<lambda>m. m(i \<mapsto> pv_len (fl_slots l2))) (fl_positions l2),
      fl_slots := (fl_slots l2)\<lparr>pv_elems := pv_elems (fl_slots l2) @ [i]\<rparr>\<rparr>)"
    unfolding fl_push_def l1_def [symmetric] Let_def l2_def [symmetric]
    using pv_push_room [OF room2 u, of t p i] by simp
  then show ?thesis using c2 room2 by simp
qed

subsection \<open>Refinement of the ordered list\<close>

datatype fl_op = FPush u32 | FPop | FRemove u32 | FContains u32 | FSlice | FLen

datatype fl_answer = FUnit | FOpt "u32 option" | FBool bool | FList "u32 list" | FNat nat

fun fl_step :: "fl_op \<Rightarrow> slab_pool \<times> free_list \<Rightarrow> (fl_answer \<times> slab_pool \<times> free_list) option" where
  "fl_step (FPush i) (p, l) = map_option (Pair FUnit) (fl_push 0 p l i)"
| "fl_step FPop (p, l) = (let (r, l') = fl_pop l in Some (FOpt r, p, l'))"
| "fl_step (FRemove i) (p, l) = map_option (\<lambda>(b, l'). (FBool b, p, l')) (fl_remove l i)"
| "fl_step (FContains i) (p, l) = (let (b, l') = fl_contains l i in Some (FBool b, p, l'))"
| "fl_step FSlice (p, l) = (let (xs, l') = fl_as_slice l in Some (FList xs, p, l'))"
| "fl_step FLen (p, l) = Some (FNat (fl_len l), p, l)"

fun fl_spec :: "fl_op \<Rightarrow> u32 list \<Rightarrow> fl_answer \<times> u32 list" where
  "fl_spec (FPush i) xs = (FUnit, xs @ [i])"
| "fl_spec FPop xs = (if xs = [] then (FOpt None, []) else (FOpt (Some (last xs)), butlast xs))"
| "fl_spec (FRemove i) xs = (FBool (i \<in> set xs), filter (\<lambda>j. j \<noteq> i) xs)"
| "fl_spec (FContains i) xs = (FBool (i \<in> set xs), xs)"
| "fl_spec FSlice xs = (FList xs, xs)"
| "fl_spec FLen xs = (FNat (length xs), xs)"

text \<open>The allocator pushes only indices that are not free, and never the sentinel.\<close>

fun fl_pre :: "fl_op \<Rightarrow> u32 list \<Rightarrow> bool" where
  "fl_pre (FPush i) xs \<longleftrightarrow> i \<notin> set xs \<and> i \<noteq> REMOVED"
| "fl_pre (FRemove i) xs \<longleftrightarrow> i \<noteq> REMOVED"
| "fl_pre (FContains i) xs \<longleftrightarrow> i \<noteq> REMOVED"
| "fl_pre _ xs \<longleftrightarrow> True"

interpretation fl: simulation fl_step fl_spec fl_pre "\<lambda>(p, l). fl_inv l" "\<lambda>(p, l). fl_abs l"
proof
  fix c a r and c' :: "slab_pool \<times> free_list"
  assume inv: "case c of (p, l) \<Rightarrow> fl_inv l" and pre: "fl_pre a (case c of (p, l) \<Rightarrow> fl_abs l)"
    and st: "fl_step a c = Some (r, c')"
  obtain p l p' l' where c: "c = (p, l)" "c' = (p', l')" by (cases c; cases c') auto
  have l: "fl_inv l" using inv c by simp
  have "fl_inv l' \<and> fl_spec a (fl_abs l) = (r, fl_abs l')"
  proof (cases a)
    case (FPush i)
    then show ?thesis using st c pre fl_push_ok [OF l, of i 0 p p' l'] by auto
  next
    case FPop
    then obtain x where "fl_pop l = (x, l')" "r = FOpt x" using st c by (auto split: prod.splits)
    then show ?thesis using fl_pop_ok [OF l] FPop by (cases "fl_abs l = []") auto
  next
    case (FRemove i)
    then show ?thesis using st c pre fl_remove_ok [OF l, of i] by auto
  next
    case (FContains i)
    then obtain b where "fl_contains l i = (b, l')" "r = FBool b" using st c by (auto split: prod.splits)
    then show ?thesis using fl_contains_ok [OF l, of i b l'] FContains pre c by simp
  next
    case FSlice
    then show ?thesis using st c fl_as_slice_ok [OF l] by (auto split: prod.splits)
  next
    case FLen
    then show ?thesis using st c l fl_len_abs by auto
  qed
  then show "(case c' of (p, l) \<Rightarrow> fl_inv l) \<and>
      fl_spec a (case c of (p, l) \<Rightarrow> fl_abs l) = (r, case c' of (p, l) \<Rightarrow> fl_abs l)" using c by simp
qed

text \<open>(C22) The tombstoned, lazily indexed free list is the plain ordered list: over any sequence
  of pushes, pops, arbitrary removals, membership tests, snapshots and length queries
  the answers are those of the ordered list, whatever compactions and index rebuilds
  happened on the way.\<close>

theorem free_list_refines:
  assumes "fl_inv l0" and "spec_allows fl_pre fl_spec ops (fl_abs l0)" and "run_answers fl_step ops (P, l0) = Some (rs, Q, l)"
  shows "spec_answers fl_spec ops (fl_abs l0) = (rs, fl_abs l)"
  using fl.run_sim [of "(P, l0)" ops rs "(Q, l)"] assms by simp

text \<open>An empty list with room for eight entries.\<close>

definition demo_fl :: free_list where
  "demo_fl = fl_new\<lparr>fl_slots := \<lparr>pv_elems = [], pv_cap = 8, pv_data = At 0, pv_type = U32_LAYOUT\<rparr>\<rparr>"

definition demo_fl_ops :: "fl_op list" where
  "demo_fl_ops = [FPush 3, FPush 5, FPush 9, FPush 4, FRemove 5, FSlice, FRemove 3, FContains 9, FPop, FPop, FPop, FLen]"

theorem free_list_refines_witness:
  "\<exists>rs Q l. run_answers fl_step demo_fl_ops (slab_pool_new 2097152 1, demo_fl) = Some (rs, Q, l)
     \<and> spec_answers fl_spec demo_fl_ops (fl_abs demo_fl) = (rs, fl_abs l)"
proof -
  have i: "fl_inv demo_fl" by (simp add: demo_fl_def fl_new_def fl_inv_def fl_abs_def)
  have s: "spec_allows fl_pre fl_spec demo_fl_ops (fl_abs demo_fl)" by code_simp
  have "run_answers fl_step demo_fl_ops (slab_pool_new 2097152 1, demo_fl) \<noteq> None" by code_simp
  then obtain rs Q l where r: "run_answers fl_step demo_fl_ops (slab_pool_new 2097152 1, demo_fl) = Some (rs, Q, l)" by auto
  with free_list_refines [OF i s r] show ?thesis by blast
qed

end
