(* ===== verification/Entity_Alloc.thy ===== *)
theory Entity_Alloc
  imports Free_List
begin

text \<open>
  Entity handles and the entity allocator (\<^verbatim>\<open>crates/minkowski/src/entity.rs\<close>). A handle packs
  a 32-bit index and a 32-bit generation into 64 bits. The allocator keeps the current
  generation of every index ever created and the ordered free list, both in the slab pool
  (threaded explicitly, with the calling thread \<open>t\<close>), an atomic counter for lock-free
  reservations, and two statistics counters. An outer \<open>None\<close> is an abort or a panic: the
  pool is exhausted on an infallible path, the index space or a generation overflows.
\<close>

subsection \<open>Handles\<close>

datatype entity = Entity (to_bits: u64)

definition from_bits :: "u64 \<Rightarrow> entity" where "from_bits b = Entity b"

definition DANGLING :: entity where "DANGLING = Entity (- 1)"

definition entity_new :: "u32 \<Rightarrow> u32 \<Rightarrow> entity" where
  "entity_new index generation = Entity (or (push_bit 32 (ucast generation)) (ucast index))"

definition entity_index :: "entity \<Rightarrow> u32" where
  "entity_index e = ucast (to_bits e)"

definition entity_generation :: "entity \<Rightarrow> u32" where
  "entity_generation e = ucast (drop_bit 32 (to_bits e))"

text \<open>An evaluation rule: the halves do not overlap, so the bitwise or is a sum.\<close>

lemma entity_new_sum [code]: "entity_new i g = Entity (word_of_nat (unat g * 4294967296 + unat i))"
proof -
  have "or (push_bit 32 (ucast g)) (ucast i) = (push_bit 32 (ucast g) + ucast i :: u64)"
    by (rule disjunctive_add [symmetric]) (auto simp: bit_simps dest: bit_imp_le_length)
  also have "\<dots> = word_of_nat (unat g * 4294967296 + unat i)"
    by (simp add: push_bit_eq_mult)
  finally show ?thesis by (simp only: entity_new_def)
qed

lemma entity_new_parts [simp]:
  "entity_index (entity_new i g) = i" "entity_generation (entity_new i g) = g"
  by (rule bit_eqI, simp add: entity_index_def entity_new_def bit_simps,
      rule bit_eqI, auto simp: entity_generation_def entity_new_def bit_simps dest: bit_imp_le_length)

lemma entity_new_surj [simp]: "entity_new (entity_index e) (entity_generation e) = e"
proof (cases e)
  case (Entity b)
  have "or (push_bit 32 (ucast (ucast (drop_bit 32 b) :: u32))) (ucast (ucast b :: u32)) = b"
    by (rule bit_eqI) (auto simp: bit_simps dest: bit_imp_le_length)
  then show ?thesis using Entity by (simp add: entity_new_def entity_index_def entity_generation_def)
qed

lemma entity_eq_iff: "a = b \<longleftrightarrow> entity_index a = entity_index b \<and> entity_generation a = entity_generation b"
  by (metis entity_new_surj)

subsection \<open>The allocator\<close>

record entity_allocator =
  ea_generations :: "u32 pool_vec"
  ea_free :: free_list
  ea_next :: u32
  ea_spawns :: u64
  ea_despawns :: u64

abbreviation ea_gens :: "entity_allocator \<Rightarrow> u32 list" where
  "ea_gens a \<equiv> pv_elems (ea_generations a)"

definition ea_new :: entity_allocator where
  "ea_new = \<lparr>ea_generations = pv_new U32_LAYOUT, ea_free = fl_new, ea_next = 0, ea_spawns = 0, ea_despawns = 0\<rparr>"

definition ea_reserve :: "entity_allocator \<Rightarrow> (entity \<times> entity_allocator) option" where
  "ea_reserve a =
     (if ea_next a < - 1 then Some (entity_new (ea_next a) 0, a\<lparr>ea_next := ea_next a + 1\<rparr>) else None)"

definition ea_sync_reserved :: "entity_allocator \<Rightarrow> entity_allocator" where
  "ea_sync_reserved a =
     (let len = word_of_nat (length (ea_gens a)) in if ea_next a < len then a\<lparr>ea_next := len\<rparr> else a)"

definition ea_ensure_free_capacity :: "nat \<Rightarrow> slab_pool \<Rightarrow> entity_allocator \<Rightarrow> (slab_pool \<times> entity_allocator) option" where
  "ea_ensure_free_capacity t p a =
     do { (p', l) \<leftarrow> fl_reserve_total t p (ea_free a) (length (ea_gens a)); Some (p', a\<lparr>ea_free := l\<rparr>) }"

definition ea_materialize_reserved :: "nat \<Rightarrow> slab_pool \<Rightarrow> entity_allocator \<Rightarrow> (slab_pool \<times> entity_allocator) option" where
  "ea_materialize_reserved t p a =
     (let reserved = unat (ea_next a); before = length (ea_gens a) in
      do { (p', a') \<leftarrow>
             (if before < reserved
              then do { (p1, gs) \<leftarrow> pv_resize t p (ea_generations a) reserved 0;
                        ea_ensure_free_capacity t p1 (a\<lparr>ea_generations := gs\<rparr>) }
              else Some (p, a));
           Some (p', a'\<lparr>ea_spawns := ea_spawns a' + word_of_nat (length (ea_gens a') - before)\<rparr>) })"

definition ea_reserved_bound :: "entity_allocator \<Rightarrow> nat" where
  "ea_reserved_bound a = unat (ea_next a)"

definition ea_try_reserve_slots :: "nat \<Rightarrow> slab_pool \<Rightarrow> entity_allocator \<Rightarrow> nat
    \<Rightarrow> ((pool_exhausted + unit) \<times> slab_pool \<times> entity_allocator) option" where
  "ea_try_reserve_slots t p a tot =
     do { (r, p1, gs) \<leftarrow> pv_try_reserve t p (ea_generations a) (tot - length (ea_gens a));
          (case r of
             Inl e \<Rightarrow> Some (Inl e, p1, a\<lparr>ea_generations := gs\<rparr>)
           | Inr _ \<Rightarrow> do { (r2, p2, l) \<leftarrow> fl_try_reserve_total t p1 (ea_free a) tot;
                           Some (r2, p2, a\<lparr>ea_generations := gs, ea_free := l\<rparr>) }) }"

definition ea_try_prepare_alloc :: "nat \<Rightarrow> slab_pool \<Rightarrow> entity_allocator
    \<Rightarrow> ((pool_exhausted + nat) \<times> slab_pool \<times> entity_allocator) option" where
  "ea_try_prepare_alloc t p a =
     (let target = max (length (ea_gens a)) (unat (ea_next a)) + (if fl_len (ea_free a) = 0 then 1 else 0) in
      do { (r, p1, gs) \<leftarrow> pv_try_reserve t p (ea_generations a) (target - length (ea_gens a));
           (case r of
              Inl e \<Rightarrow> Some (Inl e, p1, a\<lparr>ea_generations := gs\<rparr>)
            | Inr _ \<Rightarrow> do { (r2, p2, l) \<leftarrow> fl_try_reserve_total t p1 (ea_free a) target;
                            Some (map_sum id (\<lambda>_. target) r2, p2, a\<lparr>ea_generations := gs, ea_free := l\<rparr>) }) })"

definition ea_alloc :: "nat \<Rightarrow> slab_pool \<Rightarrow> entity_allocator \<Rightarrow> (entity \<times> slab_pool \<times> entity_allocator) option" where
  "ea_alloc t p a =
     do { (p1, a0) \<leftarrow> ea_materialize_reserved t p a;
          let a1 = a0\<lparr>ea_spawns := ea_spawns a0 + 1\<rparr>;
          case fl_pop (ea_free a1) of
            (Some index, l) \<Rightarrow>
              (if unat index < length (ea_gens a1)
               then Some (entity_new index (ea_gens a1 ! unat index), p1, a1\<lparr>ea_free := l\<rparr>)
               else None)
          | (None, l) \<Rightarrow>
              (let index = word_of_nat (length (ea_gens a1)) in
               do { (p2, gs) \<leftarrow> pv_push t p1 (ea_generations a1) 0;
                    (p3, a2) \<leftarrow> ea_ensure_free_capacity t p2 (a1\<lparr>ea_free := l, ea_generations := gs\<rparr>);
                    Some (entity_new index 0, p3, a2\<lparr>ea_next := index + 1\<rparr>) }) }"

definition ea_is_alive :: "entity_allocator \<Rightarrow> entity \<Rightarrow> bool" where
  "ea_is_alive a e \<longleftrightarrow>
     unat (entity_index e) < length (ea_gens a) \<and> ea_gens a ! unat (entity_index e) = entity_generation e"

definition ea_dealloc :: "nat \<Rightarrow> slab_pool \<Rightarrow> entity_allocator \<Rightarrow> entity \<Rightarrow> (bool \<times> slab_pool \<times> entity_allocator) option" where
  "ea_dealloc t p a e =
     (let idx = unat (entity_index e) in
      if idx < length (ea_gens a) \<and> ea_gens a ! idx = entity_generation e
      then if ea_gens a ! idx = - 1 then None
        else do { (p', l) \<leftarrow> fl_push t p (ea_free a) (entity_index e);
                  Some (True, p', a\<lparr>ea_generations := (ea_generations a)\<lparr>pv_elems := (ea_gens a)[idx := ea_gens a ! idx + 1]\<rparr>,
                          ea_free := l, ea_despawns := ea_despawns a + 1\<rparr>) }
      else Some (False, p, a))"

definition ea_would_adopt :: "entity_allocator \<Rightarrow> entity \<Rightarrow> bool \<times> entity_allocator" where
  "ea_would_adopt a e =
     (if entity_index e = - 1 then (False, a)
      else let index = unat (entity_index e) in
        if \<not> index < length (ea_gens a) \<and> \<not> index < ea_reserved_bound a then (True, a)
        else let gen = (if index < length (ea_gens a) then ea_gens a ! index else 0) in
          if gen > entity_generation e then (False, a)
          else if index < length (ea_gens a)
            then (let (b, l) = fl_contains (ea_free a) (entity_index e) in
                  (b \<or> gen = entity_generation e, a\<lparr>ea_free := l\<rparr>))
            else (gen = entity_generation e, a))"

definition ea_adopt :: "nat \<Rightarrow> slab_pool \<Rightarrow> entity_allocator \<Rightarrow> entity \<Rightarrow> (bool \<times> slab_pool \<times> entity_allocator) option" where
  "ea_adopt t p a0 e =
     (if entity_index e = - 1 then Some (False, p, a0)
      else do {
        (p1, a) \<leftarrow> ea_materialize_reserved t p a0;
        let index = unat (entity_index e);
        if index < length (ea_gens a)
        then (let gen = ea_gens a ! index in
          if gen > entity_generation e then Some (False, p1, a)
          else do { (removed, l) \<leftarrow> fl_remove (ea_free a) (entity_index e);
                    let a1 = a\<lparr>ea_free := l\<rparr>;
                    if removed
                    then Some (True, p1, a1\<lparr>ea_generations := (ea_generations a1)\<lparr>pv_elems := (ea_gens a1)[index := entity_generation e]\<rparr>,
                                   ea_spawns := ea_spawns a1 + 1\<rparr>)
                    else Some (gen = entity_generation e, p1, a1) })
        else (let previous_len = length (ea_gens a) in
          do { (p2, gs) \<leftarrow> pv_resize t p1 (ea_generations a) (index + 1) 0;
               (p3, a1) \<leftarrow> ea_ensure_free_capacity t p2 (a\<lparr>ea_generations := gs\<rparr>);
               (p4, l) \<leftarrow> fl_extend t p3 (ea_free a1) (map word_of_nat [previous_len..<index]);
               let a2 = ea_sync_reserved (a1\<lparr>ea_free := l,
                     ea_generations := (ea_generations a1)\<lparr>pv_elems := (ea_gens a1)[index := entity_generation e]\<rparr>\<rparr>);
               Some (True, p4, a2\<lparr>ea_spawns := ea_spawns a2 + 1\<rparr>) }) })"

subsection \<open>The invariant\<close>

text \<open>What holds between operations, independently of the pool: free indices are indices with a
  generation, reservations never lag behind the generations, and (B3) the free list has
  room for every index.\<close>

definition ea_ok :: "entity_allocator \<Rightarrow> bool" where
  "ea_ok a \<longleftrightarrow> fl_inv (ea_free a) \<and> (\<forall>i \<in> set (fl_abs (ea_free a)). unat i < length (ea_gens a))
     \<and> length (ea_gens a) \<le> unat (ea_next a)
     \<and> length (ea_gens a) \<le> pv_cap (fl_slots (ea_free a))"

lemma ea_new_ok: "ea_ok ea_new"
  using fl_new_inv by (simp add: ea_ok_def ea_new_def pv_new_def)

lemma ensure_free_ok:
  assumes "fl_inv (ea_free a)" "ea_ensure_free_capacity t p a = Some (q, b)"
  shows "fl_inv (ea_free b) \<and> fl_abs (ea_free b) = fl_abs (ea_free a) \<and> ea_generations b = ea_generations a
     \<and> ea_next b = ea_next a \<and> ea_spawns b = ea_spawns a \<and> ea_despawns b = ea_despawns a
     \<and> length (ea_gens a) \<le> pv_cap (fl_slots (ea_free b))"
proof -
  obtain s where s: "pv_reserve t p (fl_slots (ea_free a)) (length (ea_gens a) - pv_len (fl_slots (ea_free a))) = Some (q, s)"
    and b: "b = a\<lparr>ea_free := (ea_free a)\<lparr>fl_slots := s\<rparr>\<rparr>"
    using assms(2) by (auto simp: ea_ensure_free_capacity_def fl_reserve_total_def split: bind_splits)
  from pv_reserve_elems [OF s] have e: "pv_elems s = pv_elems (fl_slots (ea_free a))" "length (ea_gens a) \<le> pv_cap s" by auto
  then have "fl_abs (ea_free b) = fl_abs (ea_free a)" by (simp add: b fl_abs_def)
  moreover have "fl_inv (ea_free b)" using assms(1) e calculation by (auto simp: b fl_inv_def split: option.splits)
  ultimately show ?thesis using e by (simp add: b)
qed

lemma materialize_ok:
  assumes ok: "ea_ok a" and m: "ea_materialize_reserved t p a = Some (q, b)"
  shows "ea_ok b" "length (ea_gens b) = unat (ea_next a)" "ea_next b = ea_next a"
    "ea_gens b = ea_gens a @ replicate (unat (ea_next a) - length (ea_gens a)) 0"
    "fl_abs (ea_free b) = fl_abs (ea_free a)"
proof -
  let ?n = "unat (ea_next a)"
  have "ea_ok b \<and> length (ea_gens b) = ?n \<and> ea_next b = ea_next a
    \<and> ea_gens b = ea_gens a @ replicate (?n - length (ea_gens a)) 0 \<and> fl_abs (ea_free b) = fl_abs (ea_free a)"
  proof (cases "length (ea_gens a) < ?n")
    case False
    then have "b = a" using m by (simp add: ea_materialize_reserved_def Let_def)
    then show ?thesis using ok False by (auto simp: ea_ok_def)
  next
    case True
    then obtain p1 gs c where g: "pv_resize t p (ea_generations a) ?n 0 = Some (p1, gs)"
      "ea_ensure_free_capacity t p1 (a\<lparr>ea_generations := gs\<rparr>) = Some (q, c)"
      and b: "b = c\<lparr>ea_spawns := ea_spawns c + word_of_nat (length (ea_gens c) - length (ea_gens a))\<rparr>"
      using m by (auto simp: ea_materialize_reserved_def Let_def split: bind_splits)
    have e: "pv_elems gs = ea_gens a @ replicate (?n - length (ea_gens a)) 0"
      using pv_resize_elems [OF g(1)] True by (simp add: resize_list_def)
    have "fl_inv (ea_free (a\<lparr>ea_generations := gs\<rparr>))" using ok by (simp add: ea_ok_def)
    from ensure_free_ok [OF this g(2)] show ?thesis using ok e b True by (auto simp: ea_ok_def)
  qed
  then show "ea_ok b" "length (ea_gens b) = ?n" "ea_next b = ea_next a"
    "ea_gens b = ea_gens a @ replicate (?n - length (ea_gens a)) 0" "fl_abs (ea_free b) = fl_abs (ea_free a)" by auto
qed

subsection \<open>The slot table: what the allocator computes\<close>

text \<open>Specification state: the generations, the free indices in order, and one past the highest
  reserved index.\<close>

type_synonym slot_table = "u32 list \<times> u32 list \<times> nat"

datatype ea_op = EAlloc | EDealloc entity | EReserve | EAdopt entity | EWouldAdopt entity | EMaterialize | ESync

datatype ea_answer = AEntity entity | ABool bool | AUnit

definition filled :: "u32 list \<Rightarrow> nat \<Rightarrow> u32 list" where
  "filled G n = G @ replicate (n - length G) 0"

fun adopt_spec :: "entity \<Rightarrow> slot_table \<Rightarrow> bool \<times> slot_table" where
  "adopt_spec e (G, F, n) =
     (if entity_index e = - 1 then (False, G, F, n)
      else let i = unat (entity_index e); g = entity_generation e; G' = filled G n in
        if i < length G'
        then if G' ! i > g then (False, G', F, n)
          else if entity_index e \<in> set F then (True, G'[i := g], filter (\<lambda>j. j \<noteq> entity_index e) F, n)
          else (G' ! i = g, G', F, n)
        else (True, (filled G' (i + 1))[i := g], F @ map word_of_nat [length G'..<i], max n (i + 1)))"

fun ea_spec :: "ea_op \<Rightarrow> slot_table \<Rightarrow> ea_answer \<times> slot_table" where
  "ea_spec EAlloc (G, F, n) =
     (let G' = filled G n in
      if F = [] then (AEntity (entity_new (word_of_nat n) 0), G' @ [0], [], n + 1)
      else (AEntity (entity_new (last F) (G' ! unat (last F))), G', butlast F, n))"
| "ea_spec (EDealloc e) (G, F, n) =
     (let i = unat (entity_index e) in
      if i < length G \<and> G ! i = entity_generation e
      then (ABool True, G[i := G ! i + 1], F @ [entity_index e], n) else (ABool False, G, F, n))"
| "ea_spec EReserve (G, F, n) = (AEntity (entity_new (word_of_nat n) 0), G, F, n + 1)"
| "ea_spec (EAdopt e) s = (let (b, s') = adopt_spec e s in (ABool b, s'))"
| "ea_spec (EWouldAdopt e) s = (ABool (fst (adopt_spec e s)), s)"
| "ea_spec EMaterialize (G, F, n) = (AUnit, filled G n, F, n)"
| "ea_spec ESync s = (AUnit, s)"

text \<open>Callers release handles they hold: the slot is alive and not itself on the free list. The
  last index is left to the sentinel.\<close>

fun ea_pre :: "ea_op \<Rightarrow> slot_table \<Rightarrow> bool" where
  "ea_pre EAlloc (G, F, n) \<longleftrightarrow> F \<noteq> [] \<or> n < 4294967295"
| "ea_pre (EDealloc e) (G, F, n) \<longleftrightarrow> entity_index e \<notin> set F"
| "ea_pre _ _ \<longleftrightarrow> True"

fun ea_step :: "ea_op \<Rightarrow> slab_pool \<times> entity_allocator \<Rightarrow> (ea_answer \<times> slab_pool \<times> entity_allocator) option" where
  "ea_step EAlloc (p, a) = map_option (apfst AEntity) (ea_alloc 0 p a)"
| "ea_step (EDealloc e) (p, a) = map_option (apfst ABool) (ea_dealloc 0 p a e)"
| "ea_step EReserve (p, a) = map_option (\<lambda>(e, a'). (AEntity e, p, a')) (ea_reserve a)"
| "ea_step (EAdopt e) (p, a) = map_option (apfst ABool) (ea_adopt 0 p a e)"
| "ea_step (EWouldAdopt e) (p, a) = (let (b, a') = ea_would_adopt a e in Some (ABool b, p, a'))"
| "ea_step EMaterialize (p, a) = map_option (Pair AUnit) (ea_materialize_reserved 0 p a)"
| "ea_step ESync (p, a) = Some (AUnit, p, ea_sync_reserved a)"

definition ea_abs :: "entity_allocator \<Rightarrow> slot_table" where
  "ea_abs a = (ea_gens a, fl_abs (ea_free a), unat (ea_next a))"

lemma filled_length [simp]: "length (filled G n) = max (length G) n"
  by (simp add: filled_def)

lemma materialize_abs:
  assumes "ea_ok a" "ea_materialize_reserved t p a = Some (q, b)"
  shows "ea_ok b" "ea_gens b = filled (ea_gens a) (unat (ea_next a))" "length (ea_gens b) = unat (ea_next b)"
    "ea_next b = ea_next a" "fl_abs (ea_free b) = fl_abs (ea_free a)"
  using materialize_ok [OF assms] by (simp_all add: filled_def)

lemma u32_max [simp]: "unat (- 1 :: u32) = 4294967295"
  by (simp add: unsigned_minus_1_eq_mask mask_eq_exp_minus_1)

lemma u32_bound: "unat (w :: u32) < 4294967296"
proof -
  have "unat w < 2 ^ LENGTH(32)" by (rule unsigned_less)
  then show ?thesis by simp
qed

lemma u32_lt_max: "(w :: u32) \<noteq> - 1 \<Longrightarrow> unat w < 4294967295"
proof -
  assume "w \<noteq> - 1"
  then have "unat w \<noteq> unat (- 1 :: u32)" using word_unat_eq_iff [of w "- 1"] by blast
  then show ?thesis using u32_bound [of w] by simp
qed

lemma u32_inc: "unat (w :: u32) < 4294967295 \<Longrightarrow> unat (w + 1) = unat w + 1"
  by (simp add: unat_word_ariths)

lemma REMOVED_max: "REMOVED = - 1"
  by (simp add: REMOVED_def)

lemma ea_alloc_abs:
  assumes ok: "ea_ok a" and pre: "ea_pre EAlloc (ea_abs a)" and al: "ea_alloc t p a = Some (e, q, b)"
  shows "ea_ok b \<and> ea_spec EAlloc (ea_abs a) = (AEntity e, ea_abs b)"
proof -
  obtain p1 a0 where m: "ea_materialize_reserved t p a = Some (p1, a0)" using al by (auto simp: ea_alloc_def split: bind_splits)
  note M = materialize_abs [OF ok m]
  have fi: "fl_inv (ea_free a0)" using M(1) by (simp add: ea_ok_def)
  obtain r l where pop: "fl_pop (ea_free a0) = (r, l)" by force
  note pop' = fl_pop_ok [OF fi pop]
  show ?thesis
  proof (cases "fl_abs (ea_free a) = []")
    case False
    then have r: "r = Some (last (fl_abs (ea_free a)))" "fl_abs l = butlast (fl_abs (ea_free a))" using pop' M by auto
    then have b: "e = entity_new (last (fl_abs (ea_free a))) (ea_gens a0 ! unat (last (fl_abs (ea_free a))))"
      "b = a0\<lparr>ea_spawns := ea_spawns a0 + 1, ea_free := l\<rparr>"
      using al m pop by (auto simp: ea_alloc_def Let_def split: if_splits)
    have "ea_ok b" using M pop' r by (auto simp: b ea_ok_def dest: in_set_butlastD)
    then show ?thesis using False b M r by (simp add: ea_abs_def Let_def)
  next
    case True
    then have r: "r = None" "fl_abs l = []" using pop' M by auto
    let ?i = "word_of_nat (length (ea_gens a0)) :: u32"
    obtain p2 gs a2 where g: "pv_push t p1 (ea_generations a0) 0 = Some (p2, gs)"
      "ea_ensure_free_capacity t p2 (a0\<lparr>ea_spawns := ea_spawns a0 + 1, ea_free := l, ea_generations := gs\<rparr>) = Some (q, a2)"
      "e = entity_new ?i 0" "b = a2\<lparr>ea_next := ?i + 1\<rparr>"
      using al m pop r by (auto simp: ea_alloc_def Let_def split: bind_splits)
    have gs: "pv_elems gs = ea_gens a0 @ [0]" using pv_push_elems [OF g(1)] by simp
    have n: "unat (ea_next a) < 4294967295" using pre True by (simp add: ea_abs_def)
    have i: "?i = ea_next a" using M by simp
    have ni: "unat (?i + 1) = unat (ea_next a) + 1" unfolding i by (rule u32_inc [OF n])
    have "fl_inv (ea_free (a0\<lparr>ea_spawns := ea_spawns a0 + 1, ea_free := l, ea_generations := gs\<rparr>))" using pop' by simp
    from ensure_free_ok [OF this g(2)] have E: "fl_inv (ea_free a2)" "fl_abs (ea_free a2) = []" "ea_gens a2 = ea_gens a0 @ [0]"
      "length (ea_gens a0) + 1 \<le> pv_cap (fl_slots (ea_free a2))" using r gs by auto
    have "ea_ok b" using E M ni by (simp add: ea_ok_def g(4))
    then show ?thesis using True E M ni g(3,4) i by (simp add: ea_abs_def Let_def)
  qed
qed

lemma ea_dealloc_abs:
  assumes ok: "ea_ok a" and pre: "ea_pre (EDealloc e) (ea_abs a)" and d: "ea_dealloc t p a e = Some (r, q, b)"
  shows "ea_ok b \<and> ea_spec (EDealloc e) (ea_abs a) = (ABool r, ea_abs b)"
proof (cases "ea_is_alive a e")
  case False
  then show ?thesis using d ok by (auto simp: ea_dealloc_def ea_is_alive_def ea_abs_def Let_def split: if_splits)
next
  case True
  let ?i = "unat (entity_index e)"
  have al: "?i < length (ea_gens a)" "ea_gens a ! ?i = entity_generation e" using True by (auto simp: ea_is_alive_def)
  then obtain l where l: "fl_push t p (ea_free a) (entity_index e) = Some (q, l)" "r"
    "b = a\<lparr>ea_generations := (ea_generations a)\<lparr>pv_elems := (ea_gens a)[?i := ea_gens a ! ?i + 1]\<rparr>,
            ea_free := l, ea_despawns := ea_despawns a + 1\<rparr>"
    using d by (auto simp: ea_dealloc_def Let_def split: bind_splits if_splits)
  have "entity_index e \<noteq> REMOVED"
  proof
    assume "entity_index e = REMOVED"
    then have "?i = 4294967295" by (simp add: REMOVED_max)
    moreover have "length (ea_gens a) \<le> 4294967295" using ok u32_bound [of "ea_next a"] by (simp add: ea_ok_def)
    ultimately show False using al by simp
  qed
  then have P: "fl_inv l" "fl_abs l = fl_abs (ea_free a) @ [entity_index e]" "pv_cap (fl_slots (ea_free a)) \<le> pv_cap (fl_slots l)"
    using fl_push_ok [OF _ _ _ l(1)] ok pre by (auto simp: ea_ok_def ea_abs_def)
  have "ea_ok b" using ok P al by (auto simp: ea_ok_def l(3))
  then show ?thesis using P al l by (simp add: ea_abs_def Let_def)
qed

lemma ea_reserve_abs:
  assumes ok: "ea_ok a" and r: "ea_reserve a = Some (e, b)"
  shows "ea_ok b \<and> ea_spec EReserve (ea_abs a) = (AEntity e, ea_abs b)"
proof -
  have b: "ea_next a < - 1" "e = entity_new (ea_next a) 0" "b = a\<lparr>ea_next := ea_next a + 1\<rparr>"
    using r by (auto simp: ea_reserve_def split: if_splits)
  then have "unat (ea_next a + 1) = unat (ea_next a) + 1" by (intro u32_inc u32_lt_max) auto
  then show ?thesis using ok b by (auto simp: ea_ok_def ea_abs_def)
qed

lemma ea_sync_abs: "ea_ok a \<Longrightarrow> ea_sync_reserved a = a"
proof -
  assume ok: "ea_ok a"
  then have "length (ea_gens a) \<le> unat (ea_next a)" by (simp add: ea_ok_def)
  moreover have "length (ea_gens a) < 2 ^ 32" using calculation u32_bound [of "ea_next a"] by simp
  ultimately have "\<not> ea_next a < word_of_nat (length (ea_gens a))"
    by (simp add: word_less_nat_alt unat_of_nat take_bit_nat_eq_self)
  then show ?thesis by (simp add: ea_sync_reserved_def)
qed

lemma u32_of_nat: "n \<le> 4294967295 \<Longrightarrow> unat (word_of_nat n :: u32) = n"
  by (simp add: unat_of_nat take_bit_nat_eq_self)

lemma ea_spawns_irrelevant [simp]: "ea_ok (a\<lparr>ea_spawns := n\<rparr>) = ea_ok a" "ea_abs (a\<lparr>ea_spawns := n\<rparr>) = ea_abs a"
  by (simp_all add: ea_ok_def ea_abs_def)

lemma fresh_range:
  assumes "n \<le> m" "m \<le> 4294967295"
  shows "distinct (map word_of_nat [n..<m] :: u32 list)" "REMOVED \<notin> set (map word_of_nat [n..<m])"
    "\<And>i. i \<in> set (map word_of_nat [n..<m] :: u32 list) \<Longrightarrow> n \<le> unat i \<and> unat i < m"
proof -
  have u: "unat (word_of_nat k :: u32) = k" if "k < m" for k
    using that assms by (simp add: unat_of_nat take_bit_nat_eq_self)
  show r: "n \<le> unat i \<and> unat i < m" if "i \<in> set (map word_of_nat [n..<m] :: u32 list)" for i
    using that u by auto
  have "inj_on (word_of_nat :: nat \<Rightarrow> u32) {n..<m}" by (rule inj_on_inverseI [of _ unat]) (simp add: u)
  then show "distinct (map word_of_nat [n..<m] :: u32 list)" by (simp add: distinct_map)
  show "REMOVED \<notin> set (map word_of_nat [n..<m])" using r [of REMOVED] assms by (auto simp: REMOVED_max)
qed

lemma ea_adopt_fresh:
  assumes ok: "ea_ok a" and full: "length (ea_gens a) = unat (ea_next a)"
    and i: "entity_index e \<noteq> - 1" "length (ea_gens a) \<le> unat (entity_index e)"
    and g: "pv_resize t p1 (ea_generations a) (unat (entity_index e) + 1) 0 = Some (p2, gs)"
      "ea_ensure_free_capacity t p2 (a\<lparr>ea_generations := gs\<rparr>) = Some (p3, a1)"
      "fl_extend t p3 (ea_free a1) (map word_of_nat [length (ea_gens a)..<unat (entity_index e)]) = Some (p4, l)"
    and b: "b = ea_sync_reserved (a1\<lparr>ea_free := l, ea_generations := (ea_generations a1)\<lparr>pv_elems := (ea_gens a1)[unat (entity_index e) := entity_generation e]\<rparr>\<rparr>)"
  shows "ea_ok b \<and> ea_abs b = ((filled (ea_gens a) (unat (entity_index e) + 1))[unat (entity_index e) := entity_generation e],
     fl_abs (ea_free a) @ map word_of_nat [length (ea_gens a)..<unat (entity_index e)], max (unat (ea_next a)) (unat (entity_index e) + 1))"
proof -
  let ?i = "unat (entity_index e)"
  have im: "?i < 4294967295" using u32_lt_max i(1) by blast
  have gs: "pv_elems gs = filled (ea_gens a) (?i + 1)"
    using pv_resize_elems [OF g(1)] i(2) by (auto simp: resize_list_def filled_def)
  have "fl_inv (ea_free (a\<lparr>ea_generations := gs\<rparr>))" using ok by (simp add: ea_ok_def)
  from ensure_free_ok [OF this g(2)] have E: "fl_inv (ea_free a1)" "fl_abs (ea_free a1) = fl_abs (ea_free a)"
    "ea_gens a1 = filled (ea_gens a) (?i + 1)" "ea_next a1 = ea_next a" "?i + 1 \<le> pv_cap (fl_slots (ea_free a1))"
    using gs by auto
  let ?R = "map word_of_nat [length (ea_gens a)..<?i] :: u32 list"
  note R = fresh_range [OF i(2), of] im
  have R1: "distinct ?R" "REMOVED \<notin> set ?R" "\<And>j. j \<in> set ?R \<Longrightarrow> length (ea_gens a) \<le> unat j \<and> unat j < ?i"
    using fresh_range [OF i(2)] im by auto
  have "set ?R \<inter> set (fl_abs (ea_free a1)) = {}" using R1(3) ok E(2) by (fastforce simp: ea_ok_def)
  from fl_extend_ok [OF E(1) R1(1) this R1(2) g(3)] E
  have L: "fl_inv l" "fl_abs l = fl_abs (ea_free a) @ ?R" "?i + 1 \<le> pv_cap (fl_slots l)" by auto
  let ?G = "(filled (ea_gens a) (?i + 1))[?i := entity_generation e]"
  have len: "length ?G = ?i + 1" using i(2) by simp
  have w: "unat (word_of_nat (?i + 1) :: u32) = ?i + 1" by (rule u32_of_nat) (use im in simp)
  have lt: "ea_next a < word_of_nat (?i + 1)" unfolding word_less_nat_alt w using full i(2) by simp
  have bb: "b = a1\<lparr>ea_free := l, ea_generations := (ea_generations a1)\<lparr>pv_elems := ?G\<rparr>, ea_next := word_of_nat (?i + 1)\<rparr>"
    using lt len E(3,4) unfolding b ea_sync_reserved_def by simp
  have "unat j < ?i + 1" if "j \<in> set (fl_abs l)" for j
    using that L(2) R1(3) ok i(2) by (fastforce simp: ea_ok_def)
  then have "ea_ok b" using L len w by (simp add: ea_ok_def bb)
  moreover have "max (unat (ea_next a)) (?i + 1) = ?i + 1" using full i(2) by simp
  ultimately show ?thesis using L w by (simp add: ea_abs_def bb)
qed

lemma ea_adopt_abs:
  assumes ok: "ea_ok a" and ad: "ea_adopt t p a e = Some (r, q, b)"
  shows "ea_ok b \<and> ea_spec (EAdopt e) (ea_abs a) = (ABool r, ea_abs b)"
proof (cases "entity_index e = - 1")
  case True
  then show ?thesis using ok ad by (auto simp: ea_adopt_def ea_abs_def)
next
  case False
  let ?i = "unat (entity_index e)" and ?g = "entity_generation e"
  obtain p1 c where m: "ea_materialize_reserved t p a = Some (p1, c)" using ad False by (auto simp: ea_adopt_def split: bind_splits)
  note M = materialize_abs [OF ok m]
  have full: "length (ea_gens c) = unat (ea_next c)" by (rule M(3))
  have fi: "fl_inv (ea_free c)" using M(1) by (simp add: ea_ok_def)
  have ri: "entity_index e \<noteq> REMOVED" using False by (simp add: REMOVED_max)
  show ?thesis
  proof (cases "?i < length (ea_gens c)")
    case True
    obtain d l where d: "fl_remove (ea_free c) (entity_index e) = Some (d, l)" "fl_inv l" "d \<longleftrightarrow> entity_index e \<in> set (fl_abs (ea_free c))"
      "fl_abs l = filter (\<lambda>j. j \<noteq> entity_index e) (fl_abs (ea_free c))" "pv_cap (fl_slots l) = pv_cap (fl_slots (ea_free c))"
      using fl_remove_ok [OF fi ri] by blast
    have same: "fl_abs l = fl_abs (ea_free c)" if "\<not> d" using that d by (simp add: filter_absent)
    show ?thesis
      using ad False m True d same M fi
      by (auto simp: ea_adopt_def ea_abs_def ea_ok_def Let_def split: if_splits)
  next
    case out: False
    define a2 where "a2 a1 l = ea_sync_reserved (a1\<lparr>ea_free := l,
       ea_generations := (ea_generations a1)\<lparr>pv_elems := (ea_gens a1)[?i := ?g]\<rparr>\<rparr>)" for a1 l
    obtain p2 gs p3 a1 p4 l where g: "pv_resize t p1 (ea_generations c) (?i + 1) 0 = Some (p2, gs)"
      "ea_ensure_free_capacity t p2 (c\<lparr>ea_generations := gs\<rparr>) = Some (p3, a1)"
      "fl_extend t p3 (ea_free a1) (map word_of_nat [length (ea_gens c)..<?i]) = Some (p4, l)"
      and b: "r" "b = (a2 a1 l)\<lparr>ea_spawns := ea_spawns (a2 a1 l) + 1\<rparr>"
      using ad False m out by (auto simp: ea_adopt_def a2_def Let_def split: bind_splits if_splits)
    have li: "length (ea_gens c) \<le> ?i" using out by simp
    have A: "ea_ok (a2 a1 l)" "ea_abs (a2 a1 l) = ((filled (ea_gens c) (?i + 1))[?i := ?g],
       fl_abs (ea_free c) @ map word_of_nat [length (ea_gens c)..<?i], max (unat (ea_next c)) (?i + 1))"
      using ea_adopt_fresh [OF M(1) full False li g, of "a2 a1 l"] unfolding a2_def by blast+
    have "ea_spec (EAdopt e) (ea_abs a) = (ABool True, ea_abs (a2 a1 l))"
      unfolding A(2) using out False M by (simp add: ea_abs_def Let_def)
    then show ?thesis using A(1) b by simp
  qed
qed

lemma ea_would_adopt_abs:
  assumes ok: "ea_ok a" and w: "ea_would_adopt a e = (r, b)"
  shows "ea_ok b \<and> ea_spec (EWouldAdopt e) (ea_abs a) = (ABool r, ea_abs b)"
proof (cases "entity_index e = - 1 \<or> \<not> unat (entity_index e) < length (ea_gens a)")
  case True
  let ?i = "unat (entity_index e)"
  have out: "entity_index e \<notin> set (fl_abs (ea_free a))" if "\<not> ?i < length (ea_gens a)" using ok that by (auto simp: ea_ok_def)
  have nth: "filled (ea_gens a) (unat (ea_next a)) ! ?i = 0" if "\<not> ?i < length (ea_gens a)" "?i < unat (ea_next a)"
    using that by (simp add: filled_def nth_append)
  show ?thesis using True ok w out nth
    by (cases "entity_index e = - 1"; cases "?i < unat (ea_next a)")
      (auto simp: ea_would_adopt_def ea_abs_def ea_reserved_bound_def Let_def ea_ok_def)
next
  case False
  let ?i = "unat (entity_index e)"
  have ri: "entity_index e \<noteq> REMOVED" using False by (simp add: REMOVED_max)
  have fi: "fl_inv (ea_free a)" using ok by (simp add: ea_ok_def)
  obtain d l where d: "fl_contains (ea_free a) (entity_index e) = (d, l)" by force
  note C = fl_contains_ok [OF fi ri d]
  have nth: "filled (ea_gens a) (unat (ea_next a)) ! ?i = ea_gens a ! ?i" "?i < length (filled (ea_gens a) (unat (ea_next a)))"
    using False by (simp_all add: filled_def nth_append)
  show ?thesis using False ok w d C nth
    by (auto simp: ea_would_adopt_def ea_abs_def ea_ok_def Let_def split: if_splits)
qed

end
