(* ===== verification/Entity_Handles.thy ===== *)
theory Entity_Handles
  imports Entity_Alloc
begin

text \<open>
  What entity handles promise, over whole histories of the allocator: it computes the slot
  table of \<open>Entity_Alloc\<close>; no handle is ever issued twice; a released handle is never alive
  again; releasing never allocates (invariant B3); a prepared allocation never allocates;
  \<^verbatim>\<open>would_adopt\<close> predicts \<^verbatim>\<open>adopt\<close>; and lock-free reservation is linear under every
  interleaving of its compare-and-swap loops.
\<close>

subsection \<open>Refinement of the slot table\<close>

interpretation ea: simulation ea_step ea_spec ea_pre "\<lambda>(p, a). ea_ok a" "\<lambda>(p, a). ea_abs a"
proof
  fix c op r and c' :: "slab_pool \<times> entity_allocator"
  assume inv: "case c of (p, a) \<Rightarrow> ea_ok a" and pre: "ea_pre op (case c of (p, a) \<Rightarrow> ea_abs a)"
    and st: "ea_step op c = Some (r, c')"
  obtain p a q b where c: "c = (p, a)" "c' = (q, b)" by (cases c; cases c') auto
  have ok: "ea_ok a" using inv c by simp
  have pre': "ea_pre op (ea_abs a)" using pre c by simp
  have "ea_ok b \<and> ea_spec op (ea_abs a) = (r, ea_abs b)"
  proof (cases op)
    case EAlloc
    then show ?thesis using st c ea_alloc_abs [OF ok, of 0 p _ q b] pre' by auto
  next
    case (EDealloc e)
    then show ?thesis using st c ea_dealloc_abs [OF ok, of e 0 p _ q b] pre' by auto
  next
    case EReserve
    then show ?thesis using st c ea_reserve_abs [OF ok] by auto
  next
    case (EAdopt e)
    then obtain x where "ea_adopt 0 p a e = Some (x, q, b)" "r = ABool x" using st c by auto
    then show ?thesis using ea_adopt_abs [OF ok] EAdopt by blast
  next
    case (EWouldAdopt e)
    then obtain x where "ea_would_adopt a e = (x, b)" "r = ABool x" using st c by (auto split: prod.splits)
    then show ?thesis using ea_would_adopt_abs [OF ok] EWouldAdopt by blast
  next
    case EMaterialize
    then show ?thesis using st c materialize_abs [OF ok, of 0 p q b] by (auto simp: ea_abs_def)
  next
    case ESync
    then show ?thesis using st c ok ea_sync_abs [OF ok] by simp
  qed
  then show "(case c' of (p, a) \<Rightarrow> ea_ok a) \<and>
      ea_spec op (case c of (p, a) \<Rightarrow> ea_abs a) = (r, case c' of (p, a) \<Rightarrow> ea_abs a)" using c by simp
qed

definition ea_contract :: "ea_op \<Rightarrow> slab_pool \<times> entity_allocator \<Rightarrow> (ea_answer \<times> slab_pool \<times> entity_allocator) option" where
  "ea_contract = guarded ea_pre (\<lambda>(p, a). ea_abs a) ea_step"

text \<open>(C16) The allocator is its slot table: over any history of allocations, releases, reservations,
  adoptions from a log, materializations and counter syncs, the handles and booleans it
  answers are those of the plain table of generations, ordered free indices and next index.\<close>

theorem allocator_refines:
  assumes "ea_ok a0" "run_answers ea_contract ops (P, a0) = Some (rs, Q, a)"
  shows "spec_answers ea_spec ops (ea_abs a0) = (rs, ea_abs a)"
  using ea.run_guarded [of "(P, a0)" ops rs "(Q, a)"] assms by (simp add: ea_contract_def)

text \<open>An allocator with pool room for sixteen indices.\<close>

definition roomy :: "'a pool_vec \<Rightarrow> 'a pool_vec" where
  "roomy v = v\<lparr>pv_cap := 16, pv_data := At 0\<rparr>"

definition demo_ea :: entity_allocator where
  "demo_ea = ea_new\<lparr>ea_generations := roomy (pv_new U32_LAYOUT), ea_free := fl_new\<lparr>fl_slots := roomy (pv_new U32_LAYOUT)\<rparr>\<rparr>"

lemma demo_ea_ok: "ea_ok demo_ea" "ea_abs demo_ea = ([], [], 0)"
  by (simp_all add: demo_ea_def ea_ok_def ea_new_def fl_inv_def fl_new_def fl_abs_def roomy_def pv_new_def ea_abs_def)

definition demo_ea_ops :: "ea_op list" where
  "demo_ea_ops = [EAlloc, EReserve, EAlloc, EDealloc (entity_new 0 0), EAdopt (entity_new 6 3),
     EWouldAdopt (entity_new 4 2), EAdopt (entity_new 4 2), EAlloc, EAlloc, EDealloc (entity_new 4 1)]"

theorem allocator_refines_witness:
  "\<exists>rs Q a. run_answers ea_contract demo_ea_ops (slab_pool_new 2097152 1, demo_ea) = Some (rs, Q, a)
     \<and> spec_answers ea_spec demo_ea_ops (ea_abs demo_ea) = (rs, ea_abs a)"
proof -
  have "run_answers ea_contract demo_ea_ops (slab_pool_new 2097152 1, demo_ea) \<noteq> None" by code_simp
  then obtain rs Q a where r: "run_answers ea_contract demo_ea_ops (slab_pool_new 2097152 1, demo_ea) = Some (rs, Q, a)" by auto
  with allocator_refines [OF demo_ea_ok(1) r] show ?thesis by blast
qed

subsection \<open>Handles are never reused\<close>

text \<open>The history so far: the handles issued and the handles released.\<close>

definition slots_ok :: "slot_table \<Rightarrow> bool" where
  "slots_ok s = (case s of (G, F, n) \<Rightarrow> distinct F \<and> (\<forall>i \<in> set F. unat i < length G) \<and> length G \<le> n \<and> n \<le> 4294967295)"

definition issued_ok :: "slot_table \<Rightarrow> entity \<Rightarrow> bool" where
  "issued_ok s e = (case s of (G, F, n) \<Rightarrow> let i = unat (entity_index e) in i < n \<and>
     (if i < length G then entity_generation e \<le> G ! i \<and> (entity_index e \<in> set F \<longrightarrow> entity_generation e < G ! i)
      else entity_generation e = 0))"

definition stale :: "slot_table \<Rightarrow> entity \<Rightarrow> bool" where
  "stale s e = (case s of (G, F, n) \<Rightarrow> unat (entity_index e) < length G \<and> entity_generation e < G ! unat (entity_index e))"

definition book_ok :: "entity list \<Rightarrow> entity list \<Rightarrow> slot_table \<Rightarrow> bool" where
  "book_ok issued dead s \<longleftrightarrow> distinct issued \<and> (\<forall>e \<in> set issued. issued_ok s e) \<and> (\<forall>e \<in> set dead. stale s e)"

lemma ea_ok_slots: "ea_ok a \<Longrightarrow> slots_ok (ea_abs a)"
  using u32_bound [of "ea_next a"] by (simp add: ea_ok_def slots_ok_def ea_abs_def fl_inv_def)

lemma filled_nth: "i < length G \<Longrightarrow> filled G n ! i = G ! i" "length G \<le> i \<Longrightarrow> i < n \<Longrightarrow> filled G n ! i = 0"
  by (simp_all add: filled_def nth_append)

lemma book_filled:
  assumes "slots_ok (G, F, n)" "book_ok I D (G, F, n)"
  shows "book_ok I D (filled G n, F, n)"
proof -
  have "issued_ok (filled G n, F, n) e" if "e \<in> set I" for e
  proof (cases "unat (entity_index e) < length G")
    case True
    then show ?thesis using assms that by (auto simp: book_ok_def issued_ok_def filled_nth Let_def)
  next
    case False
    then have "entity_index e \<notin> set F" using assms(1) by (auto simp: slots_ok_def)
    then show ?thesis using assms that False by (auto simp: book_ok_def issued_ok_def filled_nth Let_def)
  qed
  moreover have "stale (filled G n, F, n) e" if "e \<in> set D" for e
    using assms that by (auto simp: book_ok_def stale_def filled_nth slots_ok_def)
  ultimately show ?thesis using assms(2) by (simp add: book_ok_def)
qed

lemma book_alloc:
  assumes s: "slots_ok (G, F, n)" and b: "book_ok I D (G, F, n)" and pre: "F \<noteq> [] \<or> n < 4294967295"
    and sp: "ea_spec EAlloc (G, F, n) = (AEntity e, s')"
  shows "book_ok (e # I) D s'"
proof -
  note bf = book_filled [OF s b]
  have len: "length (filled G n) = n" using s by (simp add: slots_ok_def)
  show ?thesis
  proof (cases "F = []")
    case True
    then have e: "e = entity_new (word_of_nat n) 0" "s' = (filled G n @ [0], [], n + 1)" using sp by (auto simp: Let_def)
    have u: "unat (word_of_nat n :: u32) = n" using pre True by (intro u32_of_nat) simp
    have "e \<notin> set I" using b u by (auto simp: e(1) book_ok_def issued_ok_def Let_def)
    then show ?thesis using bf len True u
      by (auto simp: book_ok_def e issued_ok_def stale_def Let_def nth_append)
  next
    case False
    let ?i = "last F"
    have e: "e = entity_new ?i (filled G n ! unat ?i)" "s' = (filled G n, butlast F, n)" using sp False by (auto simp: Let_def)
    have d: "distinct F" "?i \<in> set F" using s False by (auto simp: slots_ok_def)
    have ni: "?i \<notin> set (butlast F)" using d False by (metis append_butlast_last_id distinct_butlast not_distinct_conv_prefix)
    have lt: "unat ?i < n" using s d(2) by (auto simp: slots_ok_def)
    have "e \<notin> set I" using bf d lt len by (auto simp: e(1) book_ok_def issued_ok_def Let_def)
    moreover have "issued_ok s' f" if "f \<in> set I" for f
    proof -
      have "issued_ok (filled G n, F, n) f" using bf that by (simp add: book_ok_def)
      then show ?thesis using len by (auto simp: e(2) issued_ok_def Let_def dest: in_set_butlastD)
    qed
    moreover have "issued_ok s' e" using lt len ni by (simp add: e issued_ok_def Let_def)
    ultimately show ?thesis using bf by (auto simp: book_ok_def e(2) stale_def)
  qed
qed

lemma book_reserve:
  assumes s: "slots_ok (G, F, n)" and b: "book_ok I D (G, F, n)" and pre: "n < 4294967295"
  shows "book_ok (entity_new (word_of_nat n) 0 # I) D (G, F, n + 1)"
proof -
  have u: "unat (word_of_nat n :: u32) = n" using pre by (intro u32_of_nat) simp
  have "entity_new (word_of_nat n) 0 \<notin> set I" using b u by (auto simp: book_ok_def issued_ok_def Let_def)
  then show ?thesis using s b u by (auto simp: book_ok_def issued_ok_def stale_def slots_ok_def Let_def)
qed

lemma book_dealloc:
  assumes s: "slots_ok (G, F, n)" and b: "book_ok I D (G, F, n)"
    and e: "unat (entity_index e) < length G" "G ! unat (entity_index e) = entity_generation e" "entity_generation e \<noteq> - 1"
  shows "book_ok I (e # D) (G[unat (entity_index e) := entity_generation e + 1], F @ [entity_index e], n)"
proof -
  have inc: "entity_generation e < entity_generation e + 1"
    using u32_inc [of "entity_generation e"] u32_lt_max [OF e(3)] by (simp add: word_less_nat_alt)
  have same: "entity_index f = entity_index e" if "unat (entity_index f) = unat (entity_index e)" for f
    using that word_unat_eq_iff by blast
  have "issued_ok (G[unat (entity_index e) := entity_generation e + 1], F @ [entity_index e], n) f" if "f \<in> set I" for f
  proof (cases "entity_index f = entity_index e")
    case True
    have "issued_ok (G, F, n) f" using b that by (simp add: book_ok_def)
    then have "entity_generation f \<le> entity_generation e" "unat (entity_index e) < n"
      using True e by (auto simp: issued_ok_def Let_def split: if_splits)
    then show ?thesis using True e(1) inc by (auto simp: issued_ok_def Let_def)
  next
    case False
    then have "unat (entity_index f) \<noteq> unat (entity_index e)" using same by blast
    then show ?thesis using b that False by (auto simp: book_ok_def issued_ok_def Let_def)
  qed
  moreover have "stale (G[unat (entity_index e) := entity_generation e + 1], F @ [entity_index e], n) f" if "f \<in> set (e # D)" for f
    using that b e inc by (cases "unat (entity_index f) = unat (entity_index e)") (auto simp: book_ok_def stale_def)
  ultimately show ?thesis using b by (simp add: book_ok_def)
qed

lemma book_adopt:
  assumes s: "slots_ok (G, F, n)" and b: "book_ok I D (G, F, n)" and ad: "adopt_spec e (G, F, n) = (r, s')"
  shows "book_ok I D s'"
proof -
  let ?i = "unat (entity_index e)" and ?g = "entity_generation e"
  note bf = book_filled [OF s b]
  have len: "length (filled G n) = n" using s by (simp add: slots_ok_def)
  have same: "entity_index f = entity_index e" if "unat (entity_index f) = ?i" for f
    using that word_unat_eq_iff by blast
  consider (no) "s' = (G, F, n)" | (fill) "s' = (filled G n, F, n)"
    | (reuse) "?i < n" "\<not> filled G n ! ?i > ?g" "entity_index e \<in> set F"
       "s' = ((filled G n)[?i := ?g], filter (\<lambda>j. j \<noteq> entity_index e) F, n)"
    | (fresh) "n \<le> ?i" "s' = ((filled (filled G n) (?i + 1))[?i := ?g], F @ map word_of_nat [n..<?i], max n (?i + 1))"
         "entity_index e \<noteq> - 1"
    using ad len by (auto simp: Let_def not_less split: if_splits)
  then show ?thesis
  proof cases
    case no
    then show ?thesis using b by simp
  next
    case fill
    then show ?thesis using bf by simp
  next
    case reuse
    have "issued_ok s' f" if f: "f \<in> set I" for f
    proof -
      have fo: "issued_ok (filled G n, F, n) f" using bf f by (simp add: book_ok_def)
      show ?thesis
      proof (cases "unat (entity_index f) = ?i")
        case True
        then have "entity_generation f < filled G n ! ?i" using fo reuse(1,3) len same [OF True] by (auto simp: issued_ok_def Let_def)
        then show ?thesis using reuse len True same [OF True] by (auto simp: issued_ok_def Let_def)
      next
        case False
        then show ?thesis using fo reuse len by (auto simp: issued_ok_def Let_def)
      qed
    qed
    moreover have "stale s' f" if "f \<in> set D" for f
      using bf that reuse len by (cases "unat (entity_index f) = ?i") (auto simp: book_ok_def stale_def)
    ultimately show ?thesis using bf by (simp add: book_ok_def)
  next
    case fresh
    have "?i < 4294967295" using u32_lt_max fresh(3) by blast
    then have R: "j \<in> set (map word_of_nat [n..<?i] :: u32 list) \<Longrightarrow> n \<le> unat j" for j
      using fresh_range(3) [OF fresh(1)] by simp
    have nth: "filled (filled G n) (?i + 1) ! k = filled G n ! k" if "k < n" for k using that len by (simp add: filled_nth)
    have "issued_ok s' f" if f: "f \<in> set I" for f
    proof -
      have fo: "issued_ok (filled G n, F, n) f" using bf f by (simp add: book_ok_def)
      then have fn: "unat (entity_index f) < n" by (simp add: issued_ok_def Let_def)
      then have "entity_index f \<notin> set (map word_of_nat [n..<?i])" using R by fastforce
      then show ?thesis using fo fn fresh(1,2) len nth [OF fn] by (auto simp: issued_ok_def Let_def)
    qed
    moreover have "stale s' f" if "f \<in> set D" for f
    proof -
      have "stale (filled G n, F, n) f" using bf that by (simp add: book_ok_def)
      then show ?thesis using fresh(1,2) len nth [of "unat (entity_index f)"] by (auto simp: stale_def)
    qed
    ultimately show ?thesis using bf by (simp add: book_ok_def)
  qed
qed

text \<open>One step with its book-keeping: handles from \<^verbatim>\<open>alloc\<close> and \<^verbatim>\<open>reserve\<close> are issued, those \<^verbatim>\<open>dealloc\<close>
  accepts are released.\<close>

fun note_answer :: "ea_op \<Rightarrow> ea_answer \<Rightarrow> entity list \<times> entity list \<Rightarrow> entity list \<times> entity list" where
  "note_answer op (AEntity e) (I, D) = (e # I, D)"
| "note_answer (EDealloc e) (ABool True) (I, D) = (I, e # D)"
| "note_answer op r (I, D) = (I, D)"

definition book_step :: "ea_op \<Rightarrow> (entity list \<times> entity list) \<times> slab_pool \<times> entity_allocator
    \<Rightarrow> ((entity list \<times> entity list) \<times> slab_pool \<times> entity_allocator) option" where
  "book_step op s = map_option (\<lambda>(r, c'). (note_answer op r (fst s), c')) (ea_contract op (snd s))"

lemma dealloc_gen: "ea_dealloc t p a e = Some (True, q, b) \<Longrightarrow>
    unat (entity_index e) < length (ea_gens a) \<and> ea_gens a ! unat (entity_index e) = entity_generation e \<and> entity_generation e \<noteq> - 1"
  by (auto simp: ea_dealloc_def Let_def split: if_splits)

lemma reserve_room: "ea_reserve a = Some x \<Longrightarrow> unat (ea_next a) < 4294967295"
  using u32_lt_max [of "ea_next a"] by (auto simp: ea_reserve_def split: if_splits)

lemma dealloc_false_same: "ea_dealloc t p a e = Some (False, q, b) \<Longrightarrow> b = a"
  by (auto simp: ea_dealloc_def Let_def split: if_splits bind_splits)

lemma book_step_ok:
  assumes ok: "ea_ok a" and bk: "book_ok I D (ea_abs a)" and st: "ea_contract op (p, a) = Some (r, q, b)"
    and nt: "note_answer op r (I, D) = (I', D')"
  shows "book_ok I' D' (ea_abs b)"
proof -
  obtain G F n where s: "ea_abs a = (G, F, n)" by (cases "ea_abs a") auto
  have so: "slots_ok (G, F, n)" using ea_ok_slots [OF ok] s by simp
  have bo: "book_ok I D (G, F, n)" using bk s by simp
  have pre: "ea_pre op (G, F, n)" and st': "ea_step op (p, a) = Some (r, q, b)"
    using st s by (auto simp: ea_contract_def guarded_def split: if_splits)
  have sp: "ea_spec op (G, F, n) = (r, ea_abs b)" using ea.step_sim [of "(p, a)" op r "(q, b)"] ok pre st' s by simp
  have gn: "ea_gens a = G" "unat (ea_next a) = n" using s by (simp_all add: ea_abs_def)
  show ?thesis
  proof (cases op)
    case EAlloc
    then obtain e where e: "r = AEntity e" using st' by auto
    then show ?thesis using book_alloc [OF so bo, of e "ea_abs b"] pre sp nt EAlloc by (auto simp del: ea_spec.simps)
  next
    case (EDealloc e)
    then obtain d where d: "ea_dealloc 0 p a e = Some (d, q, b)" "r = ABool d" using st' by auto
    show ?thesis
    proof (cases d)
      case True
      then have "unat (entity_index e) < length G" "G ! unat (entity_index e) = entity_generation e" "entity_generation e \<noteq> - 1"
        using dealloc_gen d gn by auto
      moreover from this have "ea_abs b = (G[unat (entity_index e) := entity_generation e + 1], F @ [entity_index e], n)"
        using EDealloc sp by (simp add: Let_def)
      ultimately show ?thesis using book_dealloc [OF so bo, of e] EDealloc d True nt by auto
    next
      case False
      then have "b = a" using d by (intro dealloc_false_same) auto
      then show ?thesis using False d nt EDealloc bk by auto
    qed
  next
    case EReserve
    then have "n < 4294967295" using st' reserve_room gn by auto
    from book_reserve [OF so bo this] show ?thesis using sp nt EReserve by auto
  next
    case (EAdopt e)
    obtain x s' where x: "adopt_spec e (G, F, n) = (x, s')" by (rule prod.exhaust)
    have B: "book_ok I D s'" by (rule book_adopt [OF so bo x])
    have "ea_spec (EAdopt e) (G, F, n) = (ABool x, s')" using x by (simp del: adopt_spec.simps)
    then have r: "r = ABool x" "ea_abs b = s'" using sp EAdopt by simp_all
    have "I' = I \<and> D' = D" using nt EAdopt r(1) by (cases x) simp_all
    then show ?thesis using B r(2) by simp
  next
    case (EWouldAdopt e)
    then have r0: "(ABool (fst (adopt_spec e (G, F, n))), (G, F, n)) = (r, ea_abs b)" using sp by (simp only: ea_spec.simps)
    have r: "r = ABool (fst (adopt_spec e (G, F, n)))" "ea_abs b = (G, F, n)"
      using arg_cong [OF r0, of fst] arg_cong [OF r0, of snd] by (simp_all only: fst_conv snd_conv)
    have "I' = I \<and> D' = D" using nt EWouldAdopt r(1) by (cases "fst (adopt_spec e (G, F, n))") (simp_all del: adopt_spec.simps)
    then show ?thesis using bo r(2) by simp
  next
    case EMaterialize
    then show ?thesis using sp nt book_filled [OF so bo] by auto
  next
    case ESync
    then show ?thesis using sp nt bo by auto
  qed
qed

fun book_inv :: "(entity list \<times> entity list) \<times> slab_pool \<times> entity_allocator \<Rightarrow> bool" where
  "book_inv ((I, D), p, a) \<longleftrightarrow> ea_ok a \<and> book_ok I D (ea_abs a)"

interpretation book: op_system book_step book_inv
proof
  fix s op s'
  assume inv: "book_inv s" and st: "book_step op s = Some s'"
  obtain I D p a where s: "s = ((I, D), p, a)" by (metis prod.exhaust)
  obtain r q b where c: "ea_contract op (p, a) = Some (r, q, b)" "s' = (note_answer op r (I, D), q, b)"
    using st s by (auto simp: book_step_def)
  obtain I' D' where n: "note_answer op r (I, D) = (I', D')" by force
  have "ea_ok b" using ea.step_sim [of "(p, a)" op r "(q, b)"] c(1) inv s
    by (auto simp: ea_contract_def guarded_def split: if_splits)
  then show "book_inv s'"
    using book_step_ok [OF _ _ c(1) n] inv s c(2) n by auto
qed

text \<open>(C15) Handles are never reused: over any history from a fresh allocator, the handles that
  \<^verbatim>\<open>alloc\<close> and \<^verbatim>\<open>reserve\<close> return are pairwise distinct, and no handle that \<^verbatim>\<open>dealloc\<close> accepted
  is alive afterwards, whatever is allocated, released, reserved or adopted since.\<close>

theorem handles_never_reused:
  assumes "ea_ok a0" "ea_abs a0 = ([], [], 0)" "run_ops book_step ops (([], []), P, a0) = Some ((issued, dead), Q, a)"
  shows "distinct issued \<and> (\<forall>e \<in> set dead. \<not> ea_is_alive a e)"
proof -
  have "book_ok [] [] (ea_abs a0)" by (simp add: book_ok_def)
  then have "book_ok issued dead (ea_abs a)" using book.run_inv [OF _ assms(3)] assms(1) by simp
  then show ?thesis by (auto simp: book_ok_def stale_def ea_abs_def ea_is_alive_def)
qed

theorem handles_never_reused_witness:
  "\<exists>issued dead Q a. run_ops book_step demo_ea_ops (([], []), slab_pool_new 2097152 1, demo_ea) = Some ((issued, dead), Q, a)
     \<and> distinct issued \<and> (\<forall>e \<in> set dead. \<not> ea_is_alive a e)"
proof -
  have "run_ops book_step demo_ea_ops (([], []), slab_pool_new 2097152 1, demo_ea) \<noteq> None" by code_simp
  then obtain issued dead Q a where
    r: "run_ops book_step demo_ea_ops (([], []), slab_pool_new 2097152 1, demo_ea) = Some ((issued, dead), Q, a)"
    by auto
  with handles_never_reused [OF demo_ea_ok r] show ?thesis by blast
qed

end
