(* ===== verification/Entity_Reserve.thy ===== *)
theory Entity_Reserve
  imports Entity_Handles
begin

text \<open>
  Three further contracts of the entity allocator: releasing never allocates and a
  prepared allocation never allocates (invariant B3), \<^verbatim>\<open>would_adopt\<close> predicts \<^verbatim>\<open>adopt\<close>, and
  the compare-and-swap loop of \<^verbatim>\<open>reserve\<close> hands out each index once under every
  interleaving.
\<close>

subsection \<open>Allocation-free paths\<close>

text \<open>The pool side of the invariant: both vectors own distinct buffers.\<close>

definition ea_pool :: "slab_pool \<Rightarrow> entity_allocator \<Rightarrow> bool" where
  "ea_pool P a \<longleftrightarrow> pool_inv P \<and> vec_inv P (ea_generations a) \<and> vec_inv P (fl_slots (ea_free a))
     \<and> pv_block (ea_generations a) \<inter> pv_block (fl_slots (ea_free a)) = {}"

lemma unat_inj: "inj_on (unat :: u32 \<Rightarrow> nat) A"
  by (rule inj_onI) (simp only: word_unat_eq_iff)

text \<open>(C23) Despawn never allocates (invariant B3): releasing a live handle whose generation can
  still grow succeeds without touching the pool, in every consistent allocator, however
  full its free list and however exhausted the pool.\<close>

theorem dealloc_never_allocates:
  assumes "ea_ok a" "ea_pool P a" "ea_is_alive a e" "entity_index e \<notin> set (fl_abs (ea_free a))" "entity_generation e \<noteq> - 1"
  shows "\<exists>b. ea_dealloc t P a e = Some (True, P, b)"
proof -
  let ?l = "ea_free a" and ?i = "unat (entity_index e)"
  have al: "?i < length (ea_gens a)" "ea_gens a ! ?i = entity_generation e" using assms(3) by (auto simp: ea_is_alive_def)
  have v: "vec_inv P (fl_slots ?l)" using assms(2) by (simp add: ea_pool_def)
  have d: "distinct (fl_abs ?l)" using assms(1) by (simp add: ea_ok_def fl_inv_def)
  have "insert ?i (unat ` set (fl_abs ?l)) \<subseteq> {..<length (ea_gens a)}" using assms(1) al by (auto simp: ea_ok_def)
  then have "card (insert ?i (unat ` set (fl_abs ?l))) \<le> length (ea_gens a)"
    using card_mono [of "{..<length (ea_gens a)}"] by simp
  moreover have "?i \<notin> unat ` set (fl_abs ?l)" using assms(4) by (auto simp: image_iff simp flip: word_unat_eq_iff)
  moreover have "card (unat ` set (fl_abs ?l)) = length (fl_abs ?l)"
    using d card_image [OF unat_inj, of "set (fl_abs ?l)"] by (simp add: distinct_card)
  ultimately have "length (fl_abs ?l) < length (ea_gens a)" by simp
  then have room: "length (fl_abs ?l) < pv_cap (fl_slots ?l)" using assms(1) by (simp add: ea_ok_def)
  obtain l' where "fl_push t P ?l (entity_index e) = Some (P, l')"
  proof -
    have "fl_inv ?l" "pv_len (fl_slots ?l) \<le> pv_cap (fl_slots ?l)" using v assms(1) by (auto simp: ea_ok_def vec_inv_def)
    from fl_push_room [OF this(1) room cap_le_usize [OF v] this(2), of t P "entity_index e"] that show thesis by blast
  qed
  then show ?thesis using al assms(5) by (simp add: ea_dealloc_def)
qed

text \<open>Reserving slots: on success both vectors have room for the target, otherwise nothing observable changed.\<close>

definition ea_fits :: "entity_allocator \<Rightarrow> nat \<Rightarrow> bool" where
  "ea_fits a tot \<longleftrightarrow> reserve_fits (ea_generations a) (tot - length (ea_gens a))
     \<and> reserve_fits (fl_slots (ea_free a)) (tot - pv_len (fl_slots (ea_free a)))"

lemma fl_slots_inv:
  "fl_inv l \<Longrightarrow> pv_elems s = pv_elems (fl_slots l) \<Longrightarrow> fl_inv (l\<lparr>fl_slots := s\<rparr>) \<and> fl_abs (l\<lparr>fl_slots := s\<rparr>) = fl_abs l"
  by (auto simp: fl_inv_def fl_abs_def split: option.splits)

lemma try_reserve_slots_ok:
  assumes ok: "ea_ok a" and P: "ea_pool P a" and t: "t < length (sp_caches P)" and fit: "ea_fits a tot"
  shows "\<exists>r Q b. ea_try_reserve_slots t P a tot = Some (r, Q, b) \<and> ea_ok b \<and> ea_pool Q b \<and> ea_abs b = ea_abs a
     \<and> length (sp_caches Q) = length (sp_caches P)
     \<and> (r = Inr () \<longrightarrow> tot \<le> pv_cap (ea_generations b) \<and> tot \<le> pv_cap (fl_slots (ea_free b)))"
proof -
  note P' = P [unfolded ea_pool_def]
  have fi: "fl_inv (ea_free a)" using ok by (simp add: ea_ok_def)
  obtain r Q gs where g: "pv_try_reserve t P (ea_generations a) (tot - length (ea_gens a)) = Some (r, Q, gs)"
    "vec_step P (ea_generations a) Q gs" "pv_elems gs = ea_gens a"
    "case r of Inl e \<Rightarrow> gs = ea_generations a | Inr _ \<Rightarrow> length (ea_gens a) + (tot - length (ea_gens a)) \<le> pv_cap gs"
    using pv_try_reserve_ok [of P t "ea_generations a" "tot - length (ea_gens a)"] P' t fit by (auto simp: ea_fits_def)
  have fr: "vec_inv Q (fl_slots (ea_free a))" "pv_block gs \<inter> pv_block (fl_slots (ea_free a)) = {}"
    using vec_frame [OF g(2), of "fl_slots (ea_free a)"] P' by auto
  have Q: "pool_inv Q" "vec_inv Q gs" "length (sp_caches Q) = length (sp_caches P)" using g(2) by (auto simp: vec_step_def)
  show ?thesis
  proof (cases r)
    case (Inl e)
    then show ?thesis using g Q fr ok by (auto simp: ea_try_reserve_slots_def ea_pool_def ea_ok_def ea_abs_def)
  next
    case (Inr u)
    obtain r2 Q2 s where s: "pv_try_reserve t Q (fl_slots (ea_free a)) (tot - pv_len (fl_slots (ea_free a))) = Some (r2, Q2, s)"
      "vec_step Q (fl_slots (ea_free a)) Q2 s" "pv_elems s = pv_elems (fl_slots (ea_free a))"
      "case r2 of Inl e \<Rightarrow> s = fl_slots (ea_free a) | Inr _ \<Rightarrow> pv_len (fl_slots (ea_free a)) + (tot - pv_len (fl_slots (ea_free a))) \<le> pv_cap s"
      "pv_cap (fl_slots (ea_free a)) \<le> pv_cap s"
      using pv_try_reserve_ok [OF Q(1) _ fr(1), of t "tot - pv_len (fl_slots (ea_free a))"] t fit Q(3) by (auto simp: ea_fits_def)
    have fr2: "vec_inv Q2 gs" "pv_block s \<inter> pv_block gs = {}" using vec_frame [OF s(2) Q(2)] fr(2) by auto
    define b where "b = a\<lparr>ea_generations := gs, ea_free := (ea_free a)\<lparr>fl_slots := s\<rparr>\<rparr>"
    have eq: "ea_try_reserve_slots t P a tot = Some (r2, Q2, b)"
      using g(1) Inr s(1) by (simp add: ea_try_reserve_slots_def fl_try_reserve_total_def b_def)
    have "ea_ok b" "ea_abs b = ea_abs a"
      using ok fl_slots_inv [OF fi s(3)] g(3) s(5) by (auto simp: ea_ok_def ea_abs_def b_def)
    moreover have "ea_pool Q2 b" using fr2 s(2) by (auto simp: ea_pool_def vec_step_def b_def)
    moreover have "tot \<le> pv_cap (ea_generations b) \<and> tot \<le> pv_cap (fl_slots (ea_free b))" if "r2 = Inr ()"
      using that g(4) s(4) Inr by (simp add: b_def) linarith
    moreover have "length (sp_caches Q2) = length (sp_caches P)" using s(2) Q(3) by (simp add: vec_step_def)
    ultimately show ?thesis using eq by blast
  qed
qed

text \<open>The slots the next allocation needs.\<close>

definition alloc_target :: "entity_allocator \<Rightarrow> nat" where
  "alloc_target a = max (length (ea_gens a)) (unat (ea_next a)) + (if fl_abs (ea_free a) = [] then 1 else 0)"

lemma prepare_as_reserve:
  assumes "ea_ok a"
  shows "ea_try_prepare_alloc t p a
     = map_option (apfst (map_sum id (\<lambda>_. alloc_target a))) (ea_try_reserve_slots t p a (alloc_target a))"
proof -
  have "fl_len (ea_free a) = 0 \<longleftrightarrow> fl_abs (ea_free a) = []" using assms fl_len_abs by (simp add: ea_ok_def)
  then have tg: "max (length (ea_gens a)) (unat (ea_next a)) + (if fl_len (ea_free a) = 0 then 1 else 0) = alloc_target a"
    by (simp add: alloc_target_def)
  show ?thesis unfolding ea_try_prepare_alloc_def ea_try_reserve_slots_def tg Let_def
    by (auto simp: apfst_def split: bind_splits sum.splits prod.splits)
qed

lemma ensure_free_room:
  assumes "length (ea_gens a) \<le> pv_cap (fl_slots (ea_free a))" "pv_len (fl_slots (ea_free a)) \<le> pv_cap (fl_slots (ea_free a))"
    and "pv_cap (fl_slots (ea_free a)) \<le> USIZE_MAX"
  shows "ea_ensure_free_capacity t p a = Some (p, a)"
proof -
  let ?s = "fl_slots (ea_free a)"
  have "pv_len ?s + (length (ea_gens a) - pv_len ?s) \<le> pv_cap ?s" using assms(1,2) by linarith
  from pv_reserve_room [OF this assms(3)] show ?thesis
    by (simp add: ea_ensure_free_capacity_def fl_reserve_total_def pv_reserve_def)
qed

lemma vec_inv_elems: "vec_inv P v \<Longrightarrow> length xs \<le> pv_cap v \<Longrightarrow> vec_inv P (v\<lparr>pv_elems := xs\<rparr>)" "pv_block (v\<lparr>pv_elems := xs\<rparr>) = pv_block v"
  by (simp_all add: vec_inv_def pv_block_def)

lemma materialize_room:
  assumes ok: "ea_ok a" and P: "ea_pool P a" and cap: "unat (ea_next a) \<le> pv_cap (ea_generations a)" "unat (ea_next a) \<le> pv_cap (fl_slots (ea_free a))"
  shows "\<exists>s. ea_materialize_reserved t P a
     = Some (P, a\<lparr>ea_generations := (ea_generations a)\<lparr>pv_elems := filled (ea_gens a) (unat (ea_next a))\<rparr>, ea_spawns := s\<rparr>)"
proof (cases "length (ea_gens a) < unat (ea_next a)")
  case False
  then show ?thesis by (intro exI [of _ "ea_spawns a"]) (simp add: ea_materialize_reserved_def filled_def)
next
  case True
  let ?a = "a\<lparr>ea_generations := (ea_generations a)\<lparr>pv_elems := filled (ea_gens a) (unat (ea_next a))\<rparr>\<rparr>"
  have u: "pv_cap (ea_generations a) \<le> USIZE_MAX" "pv_cap (fl_slots (ea_free a)) \<le> USIZE_MAX"
    using P cap_le_usize by (auto simp: ea_pool_def)
  have r: "pv_resize t P (ea_generations a) (unat (ea_next a)) 0 = Some (P, ea_generations ?a)"
    using pv_resize_room [OF _ cap(1) u(1), of t P 0] True by (simp add: filled_def)
  have e: "ea_ensure_free_capacity t P ?a = Some (P, ?a)"
    using P cap(2) u(2) True by (intro ensure_free_room) (auto simp: ea_pool_def vec_inv_def)
  show ?thesis using True r e by (auto simp: ea_materialize_reserved_def Let_def)
qed

lemma fl_pop_loop_slots:
  "fl_pop_loop l = (r, l') \<Longrightarrow> \<exists>xs. fl_slots l' = (fl_slots l)\<lparr>pv_elems := xs\<rparr> \<and> length xs \<le> pv_len (fl_slots l)"
proof (induction l arbitrary: r l' rule: fl_pop_loop.induct)
  case (1 l)
  show ?case
  proof (cases "pv_elems (fl_slots l) = []")
    case True
    then show ?thesis using 1(2) by (auto simp: fl_pop_loop.simps [of l] pv_pop_eq intro!: exI [of _ "[]"])
  next
    case False
    let ?s = "(fl_slots l)\<lparr>pv_elems := butlast (pv_elems (fl_slots l))\<rparr>"
    have pop: "pv_pop (fl_slots l) = (Some (last (pv_elems (fl_slots l))), ?s)" using False by (simp add: pv_pop_eq)
    show ?thesis
    proof (cases "last (pv_elems (fl_slots l)) = REMOVED")
      case True
      then have "fl_pop_loop (l\<lparr>fl_slots := ?s, fl_holes := fl_holes l - 1\<rparr>) = (r, l')" using 1(2) by (simp add: fl_pop_loop.simps [of l] pop)
      from 1(1) [OF pop [symmetric] refl True this] show ?thesis by fastforce
    next
      case False
      then show ?thesis using 1(2) by (auto simp: fl_pop_loop.simps [of l] pop)
    qed
  qed
qed

lemma fl_pop_slots: "fl_pop l = (r, l') \<Longrightarrow> \<exists>xs. fl_slots l' = (fl_slots l)\<lparr>pv_elems := xs\<rparr> \<and> length xs \<le> pv_len (fl_slots l)"
  using fl_pop_loop_slots [of "l\<lparr>fl_snapshot := None\<rparr>" r l'] by (simp add: fl_pop_def)

lemma prepared_alloc_ok:
  assumes "ea_ok a" "ea_pool P a" "t < length (sp_caches P)" "ea_fits a (alloc_target a)"
    and "ea_try_prepare_alloc t P a = Some (Inr target, Q, b)" "fl_abs (ea_free a) \<noteq> [] \<or> ea_next a \<noteq> - 1"
  shows "\<exists>e c. ea_alloc t Q b = Some (e, Q, c) \<and> ea_pool Q c \<and> unat (entity_index e) < target"
proof -
  obtain x where x: "ea_try_reserve_slots t P a (alloc_target a) = Some (x, Q, b)"
    "map_sum id (\<lambda>_. alloc_target a) x = Inr target"
    using assms(5) prepare_as_reserve [OF assms(1), of t P] by auto
  then have r: "ea_try_reserve_slots t P a (alloc_target a) = Some (Inr (), Q, b)" and e: "target = alloc_target a"
    by (cases x; simp)+
  have B: "ea_ok b" "ea_pool Q b" "ea_abs b = ea_abs a" "target \<le> pv_cap (ea_generations b)" "target \<le> pv_cap (fl_slots (ea_free b))"
    using try_reserve_slots_ok [OF assms(1-4)] r e by auto
  have same: "ea_gens b = ea_gens a" "fl_abs (ea_free b) = fl_abs (ea_free a)" "ea_next b = ea_next a"
    using B(3) word_unat_eq_iff [of "ea_next b" "ea_next a"] by (auto simp: ea_abs_def)
  have nt: "unat (ea_next b) \<le> target" using e same by (simp add: alloc_target_def)
  obtain s where m: "ea_materialize_reserved t Q b
     = Some (Q, b\<lparr>ea_generations := (ea_generations b)\<lparr>pv_elems := filled (ea_gens b) (unat (ea_next b))\<rparr>, ea_spawns := s\<rparr>)"
    using materialize_room [OF B(1,2), of t] nt B(4,5) by auto
  let ?G = "filled (ea_gens b) (unat (ea_next b))"
  let ?b = "b\<lparr>ea_generations := (ea_generations b)\<lparr>pv_elems := ?G\<rparr>, ea_spawns := s\<rparr>"
  have lG: "length ?G = unat (ea_next b)" using B(1) by (simp add: ea_ok_def)
  obtain x l where pop: "fl_pop (ea_free b) = (x, l)" by (rule prod.exhaust)
  have fi: "fl_inv (ea_free b)" using B(1) by (simp add: ea_ok_def)
  note P = fl_pop_ok [OF fi pop]
  obtain xs where xs: "fl_slots l = (fl_slots (ea_free b))\<lparr>pv_elems := xs\<rparr>" "length xs \<le> pv_len (fl_slots (ea_free b))"
    using fl_pop_slots [OF pop] by blast
  have v: "vec_inv Q (ea_generations b)" "vec_inv Q (fl_slots (ea_free b))"
    "pv_block (ea_generations b) \<inter> pv_block (fl_slots (ea_free b)) = {}" "pool_inv Q" using B(2) by (auto simp: ea_pool_def)
  have vl: "vec_inv Q (fl_slots l)" "pv_block (fl_slots l) = pv_block (fl_slots (ea_free b))"
    using vec_inv_elems(1) [OF v(2), of xs] xs v(2) by (auto simp: vec_inv_def pv_block_def)
  show ?thesis
  proof (cases "fl_abs (ea_free b) = []")
    case False
    let ?i = "last (fl_abs (ea_free b))"
    have i: "unat ?i < length (ea_gens b)" using B(1) False by (auto simp: ea_ok_def)
    then have "unat ?i < length ?G" "unat ?i < target" using nt lG B(1) by (auto simp: ea_ok_def)
    moreover have "vec_inv Q ((ea_generations b)\<lparr>pv_elems := ?G\<rparr>)" using vec_inv_elems(1) [OF v(1)] lG nt B(4) by simp
    ultimately show ?thesis using m pop P(4) [OF False] vl v
      by (simp add: ea_alloc_def ea_pool_def vec_inv_elems(2) Let_def)
  next
    case True
    have tg: "unat (ea_next b) + 1 = target" using True same e B(1) by (simp add: alloc_target_def ea_ok_def)
    have ln: "ea_next b \<noteq> - 1" using assms(6) same True by simp
    have u: "pv_cap (ea_generations b) \<le> USIZE_MAX" "pv_cap (fl_slots l) \<le> USIZE_MAX"
      using cap_le_usize [OF v(1)] cap_le_usize [OF vl(1)] by auto
    have push: "pv_push t Q ((ea_generations b)\<lparr>pv_elems := ?G\<rparr>) 0 = Some (Q, (ea_generations b)\<lparr>pv_elems := ?G @ [0]\<rparr>)"
      using pv_push_room [of "(ea_generations b)\<lparr>pv_elems := ?G\<rparr>" t Q 0] tg lG B(4) u(1) by simp
    let ?c = "b\<lparr>ea_spawns := s + 1, ea_free := l, ea_generations := (ea_generations b)\<lparr>pv_elems := ?G @ [0]\<rparr>\<rparr>"
    have en: "ea_ensure_free_capacity t Q ?c = Some (Q, ?c)"
      using tg lG B(5) u(2) vl(1) xs by (intro ensure_free_room) (auto simp: vec_inv_def)
    have al: "ea_alloc t Q b = Some (entity_new (word_of_nat (unat (ea_next b))) 0, Q, ?c\<lparr>ea_next := word_of_nat (unat (ea_next b)) + 1\<rparr>)"
      using m pop P(3) [OF True] push en lG by (simp add: ea_alloc_def Let_def)
    have "vec_inv Q ((ea_generations b)\<lparr>pv_elems := ?G @ [0]\<rparr>)" using vec_inv_elems(1) [OF v(1)] lG tg B(4) by simp
    then show ?thesis using al vl v tg by (auto simp: ea_pool_def vec_inv_elems(2))
  qed
qed

text \<open>(C24) A prepared allocation cannot fail: after \<^verbatim>\<open>try_prepare_alloc\<close> answered \<open>Ok(target)\<close>, the next
  \<^verbatim>\<open>alloc\<close> succeeds, leaves the pool untouched and returns an index below \<open>target\<close>.\<close>

theorem prepared_alloc_infallible:
  assumes "ea_ok a" "ea_pool P a" "t < length (sp_caches P)" "ea_fits a (alloc_target a)"
    and "ea_try_prepare_alloc t P a = Some (Inr target, Q, b)" "fl_abs (ea_free a) \<noteq> [] \<or> ea_next a \<noteq> - 1"
  shows "\<exists>e c. ea_alloc t Q b = Some (e, Q, c) \<and> ea_pool Q c \<and> unat (entity_index e) < target"
  using prepared_alloc_ok [OF assms] .

lemma reserve_fits_room: "pv_len v + n \<le> pv_cap v \<Longrightarrow> pv_cap v \<le> USIZE_MAX \<Longrightarrow> reserve_fits v n"
  by (simp add: reserve_fits_def)

text \<open>A real pool, an allocator with reserved room in it, and its first handle.\<close>

lemma demo_reserved:
  "\<exists>P a b. ea_ok a \<and> ea_pool P a \<and> ea_abs a = ([], [], 0) \<and> 0 < length (sp_caches P) \<and> ea_fits a (alloc_target a)
     \<and> ea_try_prepare_alloc 0 P a = Some (Inr (alloc_target a), P, b)"
proof -
  have b: "2097152 div LARGE_UNIT < UNIT_INTERIOR" by code_simp
  let ?P = "slab_pool_new 2097152 1"
  have P: "ea_pool ?P ea_new"
    using slab_pool_new_inv(1) [OF b] by (simp add: ea_pool_def ea_new_def fl_new_def U32_LAYOUT_def)
  have f: "ea_fits ea_new 2000" by code_simp
  have n: "0 < length (sp_caches ?P)" by (simp add: slab_pool_new_def)
  have a0: "ea_abs ea_new = ([], [], 0)" by (simp add: ea_abs_def ea_new_def pv_new_def fl_abs_def fl_new_def)
  obtain r Q a where r: "ea_try_reserve_slots 0 ?P ea_new 2000 = Some (r, Q, a)" "ea_ok a" "ea_pool Q a"
    "ea_abs a = ea_abs ea_new" "length (sp_caches Q) = length (sp_caches ?P)"
    "r = Inr () \<longrightarrow> 2000 \<le> pv_cap (ea_generations a) \<and> 2000 \<le> pv_cap (fl_slots (ea_free a))"
    using try_reserve_slots_ok [OF ea_new_ok P n f] by blast
  have "map_option fst (ea_try_reserve_slots 0 ?P ea_new 2000) = Some (Inr ())" by code_simp
  then have "r = Inr ()" using r(1) by simp
  then have caps: "2000 \<le> pv_cap (ea_generations a)" "2000 \<le> pv_cap (fl_slots (ea_free a))" using r(6) by auto
  have u: "pv_cap (ea_generations a) \<le> USIZE_MAX" "pv_cap (fl_slots (ea_free a)) \<le> USIZE_MAX"
    "pv_len (fl_slots (ea_free a)) \<le> pv_cap (fl_slots (ea_free a))"
    using r(3) cap_le_usize by (auto simp: ea_pool_def vec_inv_def)
  have abs: "ea_gens a = []" "fl_abs (ea_free a) = []" "ea_next a = 0"
    using r(4) a0 word_unat_eq_iff [of "ea_next a" 0] by (auto simp: ea_abs_def)
  then have t: "alloc_target a = 1" by (simp add: alloc_target_def)
  have "pv_len (fl_slots (ea_free a)) + (1 - pv_len (fl_slots (ea_free a))) \<le> pv_cap (fl_slots (ea_free a))"
    using caps u by linarith
  moreover have "length (ea_gens a) + (1 - length (ea_gens a)) \<le> pv_cap (ea_generations a)" using caps abs by simp
  ultimately have fit: "ea_fits a (alloc_target a)" using u t by (simp add: ea_fits_def reserve_fits_room)
  have g: "pv_try_reserve 0 Q (ea_generations a) 1 = Some (Inr (), Q, ea_generations a)"
    using caps u abs by (intro pv_reserve_room) auto
  have l: "pv_try_reserve 0 Q (fl_slots (ea_free a)) (1 - pv_len (fl_slots (ea_free a))) = Some (Inr (), Q, fl_slots (ea_free a))"
    using caps u by (intro pv_reserve_room) auto
  have "ea_try_reserve_slots 0 Q a (alloc_target a) = Some (Inr (), Q, a)"
    using g l abs t by (simp add: ea_try_reserve_slots_def fl_try_reserve_total_def)
  then have "ea_try_prepare_alloc 0 Q a = Some (Inr (alloc_target a), Q, a)"
    using prepare_as_reserve [OF r(2), of 0 Q] by simp
  moreover have "0 < length (sp_caches Q)" using r(5) n by simp
  ultimately show ?thesis using r(2,3,4) a0 fit by (intro exI conjI) auto
qed

theorem prepared_alloc_infallible_witness:
  "\<exists>P a b e c. ea_try_prepare_alloc 0 P a = Some (Inr 1, P, b) \<and> ea_abs a = ([], [], 0)
     \<and> ea_alloc 0 P b = Some (e, P, c) \<and> unat (entity_index e) < 1"
proof -
  obtain P a b where d: "ea_ok a" "ea_pool P a" "ea_abs a = ([], [], 0)" "0 < length (sp_caches P)" "ea_fits a (alloc_target a)"
    "ea_try_prepare_alloc 0 P a = Some (Inr (alloc_target a), P, b)" using demo_reserved by blast
  have abs: "ea_gens a = []" "fl_abs (ea_free a) = []" "unat (ea_next a) = 0" using d(3) by (auto simp: ea_abs_def)
  then have n: "ea_next a \<noteq> - 1" by auto
  have t: "alloc_target a = 1" using abs by (simp add: alloc_target_def)
  from prepared_alloc_infallible [OF d(1,2,4,5,6)] n t d(3,6) show ?thesis by fastforce
qed

theorem dealloc_never_allocates_witness:
  "\<exists>P a b. ea_is_alive a (entity_new 0 0) \<and> ea_dealloc 0 P a (entity_new 0 0) = Some (True, P, b)"
proof -
  obtain P a b where d: "ea_ok a" "ea_pool P a" "ea_abs a = ([], [], 0)" "0 < length (sp_caches P)" "ea_fits a (alloc_target a)"
    "ea_try_prepare_alloc 0 P a = Some (Inr (alloc_target a), P, b)" using demo_reserved by blast
  have abs: "ea_gens a = []" "fl_abs (ea_free a) = []" "unat (ea_next a) = 0" using d(3) by (auto simp: ea_abs_def)
  then have n: "ea_next a \<noteq> - 1" by auto
  have t: "alloc_target a = 1" using abs by (simp add: alloc_target_def)
  obtain x where "ea_try_reserve_slots 0 P a (alloc_target a) = Some (x, P, b)"
    using d(6) prepare_as_reserve [OF d(1), of 0 P] by auto
  then have b: "ea_ok b" "ea_abs b = ([], [], 0)" using try_reserve_slots_ok [OF d(1,2,4,5)] d(3) by auto
  obtain e c where c: "ea_alloc 0 P b = Some (e, P, c)" "ea_pool P c"
    using prepared_alloc_ok [OF d(1,2,4,5,6)] n by blast
  have sp: "ea_ok c \<and> ea_spec EAlloc (ea_abs b) = (AEntity e, ea_abs c)"
    using ea_alloc_abs [OF b(1) _ c(1)] b(2) by simp
  then have e: "e = entity_new 0 0" "ea_gens c = [0]" "fl_abs (ea_free c) = []"
    using b(2) by (auto simp: filled_def ea_abs_def)
  have al: "ea_is_alive c e" using e by (simp add: ea_is_alive_def)
  have g: "entity_generation e \<noteq> - 1" using e(1) by simp
  from dealloc_never_allocates [OF _ c(2) al _ g, of 0] sp e al show ?thesis by auto
qed

subsection \<open>Adoption is predictable\<close>

text \<open>(C25) \<^verbatim>\<open>would_adopt\<close> predicts \<^verbatim>\<open>adopt\<close>: whenever adoption from a log returns at all, its answer
  is the one \<^verbatim>\<open>would_adopt\<close> gives in the same state, and asking first changes nothing
  observable.\<close>

theorem would_adopt_exact:
  assumes "ea_ok a" "ea_would_adopt a e = (w, a')" "ea_adopt t P a e = Some (r, Q, b)"
  shows "w = r \<and> ea_abs a' = ea_abs a"
proof -
  obtain x s where x: "adopt_spec e (ea_abs a) = (x, s)" by (rule prod.exhaust)
  have "ea_spec (EAdopt e) (ea_abs a) = (ABool x, s)" by (cases "ea_abs a") (use x in \<open>simp del: adopt_spec.simps\<close>)
  then have "r = x" using ea_adopt_abs [OF assms(1,3)] by simp
  moreover have "ea_spec (EWouldAdopt e) (ea_abs a) = (ABool x, ea_abs a)" by (cases "ea_abs a") (use x in \<open>simp del: adopt_spec.simps\<close>)
  then have "w = x" "ea_abs a' = ea_abs a" using ea_would_adopt_abs [OF assms(1,2)] by auto
  ultimately show ?thesis by simp
qed

theorem would_adopt_exact_witness:
  "\<exists>w a' r Q b. ea_would_adopt demo_ea (entity_new 6 3) = (w, a')
     \<and> ea_adopt 0 (slab_pool_new 2097152 1) demo_ea (entity_new 6 3) = Some (r, Q, b) \<and> w = r \<and> ea_abs a' = ea_abs demo_ea"
proof -
  have "ea_adopt 0 (slab_pool_new 2097152 1) demo_ea (entity_new 6 3) \<noteq> None" by code_simp
  then obtain r Q b where r: "ea_adopt 0 (slab_pool_new 2097152 1) demo_ea (entity_new 6 3) = Some (r, Q, b)" by auto
  obtain w a' where w: "ea_would_adopt demo_ea (entity_new 6 3) = (w, a')" by (rule prod.exhaust)
  from would_adopt_exact [OF demo_ea_ok(1) w r] w r show ?thesis by blast
qed

subsection \<open>The reservation loop under interleaving\<close>

text \<open>Each thread of \<^verbatim>\<open>reserve\<close>: before its load, in the loop with the value it last read, returned,
  or stopped by the exhaustion assertion. A weak compare-and-swap may fail at any time.\<close>

datatype reserver = Starting | Trying u32 | Reserved u32 | Exhausted

inductive reserve_step :: "u32 \<times> reserver list \<Rightarrow> u32 \<times> reserver list \<Rightarrow> bool" where
  load: "i < length ts \<Longrightarrow> ts ! i = Starting \<Longrightarrow> reserve_step (n, ts) (n, ts[i := Trying n])"
| panic: "i < length ts \<Longrightarrow> ts ! i = Trying c \<Longrightarrow> \<not> c < - 1 \<Longrightarrow> reserve_step (n, ts) (n, ts[i := Exhausted])"
| cas_ok: "i < length ts \<Longrightarrow> ts ! i = Trying c \<Longrightarrow> c < - 1 \<Longrightarrow> n = c \<Longrightarrow>
    reserve_step (n, ts) (c + 1, ts[i := Reserved c])"
| cas_fail: "i < length ts \<Longrightarrow> ts ! i = Trying c \<Longrightarrow> c < - 1 \<Longrightarrow> reserve_step (n, ts) (n, ts[i := Trying n])"

inductive_cases reserve_stepE: "reserve_step (n, ts) s'"

definition reserve_inv :: "u32 \<Rightarrow> u32 \<times> reserver list \<Rightarrow> bool" where
  "reserve_inv n0 s = (case s of (n, ts) \<Rightarrow> n0 \<le> n \<and>
     (\<forall>i < length ts. \<forall>c. ts ! i = Reserved c \<longrightarrow> n0 \<le> c \<and> c < n) \<and>
     (\<forall>i < length ts. \<forall>j < length ts. \<forall>c. ts ! i = Reserved c \<longrightarrow> ts ! j = Reserved c \<longrightarrow> i = j) \<and>
     (\<forall>c. n0 \<le> c \<longrightarrow> c < n \<longrightarrow> (\<exists>i < length ts. ts ! i = Reserved c)))"

lemma word_less_inc: "(c :: u32) < - 1 \<Longrightarrow> c < c + 1 \<and> (\<forall>d. d < c + 1 \<longrightarrow> d = c \<or> d < c)"
proof -
  assume "c < - 1"
  then have "c \<noteq> - 1" by auto
  then have u: "unat (c + 1) = unat c + 1" using u32_inc u32_lt_max by blast
  have "d = c \<or> d < c" if "d < c + 1" for d
    using that u word_unat_eq_iff [of d c] unfolding word_less_nat_alt by linarith
  then show ?thesis using u by (simp add: word_less_nat_alt)
qed

text \<open>Steps that reserve nothing.\<close>

lemma reserve_inv_same:
  assumes "reserve_inv n0 (n, ts)" "\<forall>c. ts ! i \<noteq> Reserved c" "\<forall>c. x \<noteq> Reserved c"
  shows "reserve_inv n0 (n, ts[i := x])"
proof -
  have same: "ts[i := x] ! j = Reserved c \<longleftrightarrow> ts ! j = Reserved c" if "j < length ts" for j c
    using assms(2,3) that by (cases "j = i") auto
  show ?thesis using assms(1) unfolding reserve_inv_def by (simp add: same) (metis same)
qed

lemma reserve_step_inv:
  assumes "reserve_step s s'" "reserve_inv n0 s"
  shows "reserve_inv n0 s'"
  using assms
proof (induction rule: reserve_step.induct)
  case (cas_ok i ts c n)
  note w = word_less_inc [OF cas_ok(3)]
  have n: "n = c" using cas_ok by simp
  have I: "n0 \<le> c" "\<And>j d. j < length ts \<Longrightarrow> ts ! j = Reserved d \<Longrightarrow> n0 \<le> d \<and> d < c"
    "\<And>j k d. j < length ts \<Longrightarrow> k < length ts \<Longrightarrow> ts ! j = Reserved d \<Longrightarrow> ts ! k = Reserved d \<Longrightarrow> j = k"
    "\<And>d. n0 \<le> d \<Longrightarrow> d < c \<Longrightarrow> \<exists>j < length ts. ts ! j = Reserved d"
    using cas_ok(5) n unfolding reserve_inv_def by auto
  let ?ts = "ts[i := Reserved c]"
  have r: "ts[i := Reserved c] ! j = Reserved d \<longleftrightarrow> (if j = i then d = c else ts ! j = Reserved d)" if "j < length ts" for j d
    using that by auto
  have "n0 \<le> d \<and> d < c + 1" if "j < length ts" "?ts ! j = Reserved d" for j d
    using that r [OF that(1), of d] I(1,2) w by (cases "j = i") (auto intro: less_trans)
  moreover have "j = k" if "j < length ts" "k < length ts" "?ts ! j = Reserved d" "?ts ! k = Reserved d" for j k d
  proof (cases "d = c")
    case True
    have "l = i" if "l < length ts" "?ts ! l = Reserved d" for l
    proof (rule ccontr)
      assume "l \<noteq> i"
      then have "ts ! l = Reserved c" using that True by simp
      then show False using I(2) [OF that(1)] by blast
    qed
    then show ?thesis using that by blast
  next
    case False
    then have "ts ! j = Reserved d" "ts ! k = Reserved d" using that r by (auto split: if_splits)
    then show ?thesis using I(3) that(1,2) by blast
  qed
  moreover have "\<exists>j < length ts. ?ts ! j = Reserved d" if d: "n0 \<le> d" "d < c + 1" for d
  proof (cases "d = c")
    case True
    then show ?thesis using cas_ok(1) by auto
  next
    case False
    then obtain j where "j < length ts" "ts ! j = Reserved d" using I(4) d w by blast
    then show ?thesis using cas_ok(2) by (cases "j = i") auto
  qed
  moreover have "n0 \<le> c + 1" using I(1) w by (meson less_imp_le order_trans)
  ultimately show ?case unfolding reserve_inv_def by simp
qed (auto intro: reserve_inv_same)

text \<open>(C26) Reservation is linear: under every interleaving of any number of threads in the
  compare-and-swap loop, spurious failures included, two threads never return the same
  index, and the indices returned are exactly those between the initial and the current
  counter: none is lost, none is handed out beyond it.\<close>

theorem reserve_interleaved_unique:
  assumes "reserve_step\<^sup>*\<^sup>* (n0, replicate k Starting) (n, ts)"
  shows "(\<forall>i < length ts. \<forall>j < length ts. \<forall>c. ts ! i = Reserved c \<and> ts ! j = Reserved c \<longrightarrow> i = j)
     \<and> {c. Reserved c \<in> set ts} = {n0..<n}"
proof -
  have "reserve_inv n0 (n0, replicate k Starting)" by (auto simp: reserve_inv_def)
  with assms have "reserve_inv n0 (n, ts)"
    by (induction rule: rtranclp_induct) (auto intro: reserve_step_inv)
  then have I: "\<And>j d. j < length ts \<Longrightarrow> ts ! j = Reserved d \<Longrightarrow> n0 \<le> d \<and> d < n"
    "\<And>j k d. j < length ts \<Longrightarrow> k < length ts \<Longrightarrow> ts ! j = Reserved d \<Longrightarrow> ts ! k = Reserved d \<Longrightarrow> j = k"
    "\<And>d. n0 \<le> d \<Longrightarrow> d < n \<Longrightarrow> \<exists>j < length ts. ts ! j = Reserved d"
    unfolding reserve_inv_def by auto
  have "Reserved c \<in> set ts \<longleftrightarrow> c \<in> {n0..<n}" for c
    using I(1,3) by (auto simp: in_set_conv_nth)
  then show ?thesis using I(2) by blast
qed

theorem reserve_interleaved_unique_witness:
  "\<exists>n ts. reserve_step\<^sup>*\<^sup>* (5, replicate 2 Starting) (n, ts) \<and> ts = [Reserved 6, Reserved 5] \<and> {c. Reserved c \<in> set ts} = {5..<n}"
proof -
  have "reserve_step (5, [Starting, Starting]) (5, [Trying 5, Starting])" using load [of 0 "[Starting, Starting]" 5] by simp
  moreover have "reserve_step (5, [Trying 5, Starting]) (5, [Trying 5, Trying 5])" using load [of 1 "[Trying 5, Starting]" 5] by simp
  moreover have "reserve_step (5, [Trying 5, Trying 5]) (6, [Trying 5, Reserved 5])" using cas_ok [of 1 "[Trying 5, Trying 5]" 5 5] by simp
  moreover have "reserve_step (6, [Trying 5, Reserved 5]) (6, [Trying 6, Reserved 5])" using cas_fail [of 0 "[Trying 5, Reserved 5]" 5 6] by simp
  moreover have "reserve_step (6, [Trying 6, Reserved 5]) (7, [Reserved 6, Reserved 5])" using cas_ok [of 0 "[Trying 6, Reserved 5]" 6 6] by simp
  ultimately have "reserve_step\<^sup>*\<^sup>* (5, [Starting, Starting]) (7, [Reserved 6, Reserved 5])"
    by (meson converse_rtranclp_into_rtranclp rtranclp.rtrancl_refl)
  then have r: "reserve_step\<^sup>*\<^sup>* (5, replicate 2 Starting) (7, [Reserved 6, Reserved 5])" by (simp add: numeral_2_eq_2)
  show ?thesis using reserve_interleaved_unique [OF r] r by blast
qed

subsection \<open>The end of the index space\<close>

text \<open>(C27) The guard of \<^verbatim>\<open>reserve\<close> is missing from \<^verbatim>\<open>alloc\<close>: when every index below the last has a
  generation and none is free, an allocation that finds room in the pool issues the index
  \<^verbatim>\<open>u32::MAX\<close>, which the free list uses as its tombstone, and the stored reservation counter
  wraps to zero, below the indices in use.\<close>

theorem alloc_past_sentinel:
  assumes "ea_ok a" "length (ea_gens a) = 4294967295" "fl_abs (ea_free a) = []" "ea_alloc t P a = Some (e, Q, b)"
  shows "entity_index e = REMOVED \<and> ea_next b = 0"
proof -
  have n: "unat (ea_next a) = 4294967295" using assms(1,2) u32_bound [of "ea_next a"] by (simp add: ea_ok_def)
  then have m: "ea_materialize_reserved t P a = Some (P, a\<lparr>ea_spawns := ea_spawns a\<rparr>)"
    using assms(2) by (simp add: ea_materialize_reserved_def)
  obtain x l where pop: "fl_pop (ea_free a) = (x, l)" by (rule prod.exhaust)
  have "x = None" using fl_pop_ok [OF _ pop] assms(1,3) by (simp add: ea_ok_def)
  then have "e = entity_new 4294967295 0" "ea_next b = 4294967296"
    using assms(4) m pop assms(2) by (auto simp: ea_alloc_def Let_def split: bind_splits)
  then show ?thesis by (simp add: REMOVED_def)
qed

theorem alloc_past_sentinel_witness:
  "\<exists>P a e b. ea_ok a \<and> length (ea_gens a) = 4294967295 \<and> ea_alloc 0 P a = Some (e, P, b)
     \<and> entity_index e = REMOVED \<and> ea_next b = 0"
proof -
  define P where "P = slab_pool_new 2097152 1"
  let ?v = "\<lparr>pv_elems = replicate 4294967295 0, pv_cap = 4294967296, pv_data = At 0, pv_type = U32_LAYOUT\<rparr> :: u32 pool_vec"
  let ?s = "\<lparr>pv_elems = [], pv_cap = 4294967296, pv_data = At 0, pv_type = U32_LAYOUT\<rparr> :: u32 pool_vec"
  define a where "a = \<lparr>ea_generations = ?v, ea_free = fl_new\<lparr>fl_slots := ?s\<rparr>, ea_next = - 1, ea_spawns = 0, ea_despawns = 0\<rparr>"
  have ok: "ea_ok a" "length (ea_gens a) = 4294967295" "fl_abs (ea_free a) = []"
    by (simp_all add: a_def ea_ok_def fl_inv_def fl_new_def fl_abs_def)
  have pop: "fl_pop (ea_free a) = (None, ea_free a)"
    by (simp add: a_def fl_pop_def fl_new_def fl_pop_loop.simps pv_pop_eq)
  have m: "ea_materialize_reserved 0 P a = Some (P, a)"
    using ok(2) by (simp add: ea_materialize_reserved_def a_def)
  have push: "pv_push 0 P (ea_generations a) 0 = Some (P, (ea_generations a)\<lparr>pv_elems := ea_gens a @ [0]\<rparr>)"
    by (rule pv_push_room) (simp_all add: a_def USIZE_MAX_def)
  have en: "ea_ensure_free_capacity 0 P (a\<lparr>ea_spawns := s, ea_free := ea_free a, ea_generations := (ea_generations a)\<lparr>pv_elems := ea_gens a @ [0]\<rparr>\<rparr>)
     = Some (P, a\<lparr>ea_spawns := s, ea_free := ea_free a, ea_generations := (ea_generations a)\<lparr>pv_elems := ea_gens a @ [0]\<rparr>\<rparr>)" for s
    by (rule ensure_free_room) (simp_all add: a_def fl_new_def USIZE_MAX_def)
  have "ea_alloc 0 P a \<noteq> None" using m pop push en [of "ea_spawns a + 1"] by (simp add: ea_alloc_def Let_def)
  then obtain e Q b where al: "ea_alloc 0 P a = Some (e, Q, b)" by auto
  moreover have "Q = P" using al m pop push en [of "ea_spawns a + 1"] by (simp add: ea_alloc_def Let_def)
  ultimately show ?thesis using alloc_past_sentinel [OF ok al] ok by blast
qed

end
