(* ===== verification/Access_Tick.thy ===== *)
theory Access_Tick
  imports Mk_Prelude
begin

text \<open>
  Change ticks (\<^verbatim>\<open>crates/minkowski/src/tick.rs\<close>) and component access sets
  (\<^verbatim>\<open>crates/minkowski/src/access.rs\<close>). A \<^verbatim>\<open>FixedBitSet\<close> (a third-party type) appears as the
  set of its ones; nothing here depends on its capacity. The query type of \<^verbatim>\<open>Access::of\<close>
  enters as the two bit sets it computes.
\<close>

subsection \<open>Ticks\<close>

datatype tick = Tick (tick_raw: u64)

datatype change_tick = ChangeTick tick

definition tick_new :: "u64 \<Rightarrow> tick" where "tick_new = Tick"

definition to_raw :: "change_tick \<Rightarrow> u64" where
  "to_raw c = (case c of ChangeTick t \<Rightarrow> tick_raw t)"

definition from_raw :: "u64 \<Rightarrow> change_tick" where
  "from_raw raw = ChangeTick (tick_new raw)"

definition is_newer_than :: "tick \<Rightarrow> tick \<Rightarrow> bool" where
  "is_newer_than a b \<longleftrightarrow> tick_raw a > tick_raw b"

definition advance :: "tick \<Rightarrow> tick" where
  "advance t = Tick (tick_raw t + 1)"

lemma word_inc:
  fixes w :: "'a::len word"
  assumes "w \<noteq> - 1"
  shows "unat (w + 1) = unat w + 1"
proof -
  have "unat (- 1 :: 'a word) = 2 ^ LENGTH('a) - 1" by (simp add: unsigned_minus_1_eq_mask mask_eq_exp_minus_1)
  then have "unat w \<noteq> 2 ^ LENGTH('a) - 1" using assms word_unat_eq_iff [of w "- 1"] by simp
  moreover have "unat w < 2 ^ LENGTH('a)" by (rule unsigned_less)
  ultimately have "unat w + 1 < 2 ^ LENGTH('a)" by linarith
  then show ?thesis by (simp add: unat_word_ariths)
qed

lemma advance_newer: "tick_raw t \<noteq> - 1 \<Longrightarrow> is_newer_than (advance t) t"
  using word_inc [of "tick_raw t"] by (simp add: is_newer_than_def advance_def word_less_nat_alt)

lemma raw_round_trip: "to_raw (from_raw r) = r" "from_raw (to_raw c) = c"
  by (simp_all add: to_raw_def from_raw_def tick_new_def split: change_tick.split)

subsection \<open>Access sets\<close>

record access =
  acc_reads :: "nat set"
  acc_writes :: "nat set"
  acc_despawns :: bool

definition access_of :: "nat set \<Rightarrow> nat set \<Rightarrow> access" where
  "access_of accessed_ids mutable_ids =
     \<lparr>acc_reads = accessed_ids - mutable_ids, acc_writes = mutable_ids, acc_despawns = False\<rparr>"

definition access_empty :: access where
  "access_empty = \<lparr>acc_reads = {}, acc_writes = {}, acc_despawns = False\<rparr>"

definition add_read :: "access \<Rightarrow> nat \<Rightarrow> access" where
  "add_read a c = a\<lparr>acc_reads := insert c (acc_reads a)\<rparr>"

definition add_write :: "access \<Rightarrow> nat \<Rightarrow> access" where
  "add_write a c = a\<lparr>acc_writes := insert c (acc_writes a)\<rparr>"

definition set_despawns :: "access \<Rightarrow> access" where
  "set_despawns a = a\<lparr>acc_despawns := True\<rparr>"

definition has_any_access :: "access \<Rightarrow> bool" where
  "has_any_access a \<longleftrightarrow> acc_reads a \<noteq> {} \<or> acc_writes a \<noteq> {}"

definition merge_access :: "access \<Rightarrow> access \<Rightarrow> access" where
  "merge_access a b =
     \<lparr>acc_reads = acc_reads a \<union> acc_reads b, acc_writes = acc_writes a \<union> acc_writes b,
      acc_despawns = (acc_despawns a \<or> acc_despawns b)\<rparr>"

definition conflicts_with :: "access \<Rightarrow> access \<Rightarrow> bool" where
  "conflicts_with a b =
     (if acc_writes a \<inter> acc_reads b \<noteq> {} then True
      else if acc_writes a \<inter> acc_writes b \<noteq> {} then True
      else if acc_writes b \<inter> acc_reads a \<noteq> {} then True
      else if acc_despawns a \<and> has_any_access b then True
      else if acc_despawns b \<and> has_any_access a then True
      else False)"

lemma conflicts_iff:
  "conflicts_with a b \<longleftrightarrow> acc_writes a \<inter> (acc_reads b \<union> acc_writes b) \<noteq> {}
     \<or> acc_writes b \<inter> acc_reads a \<noteq> {}
     \<or> acc_despawns a \<and> has_any_access b \<or> acc_despawns b \<and> has_any_access a"
  by (auto simp: conflicts_with_def)

lemma conflicts_sym: "conflicts_with a b = conflicts_with b a"
  by (auto simp: conflicts_iff)

end
