(* ===== verification/Dirty_Pages.thy ===== *)
theory Dirty_Pages
  imports Mk_Prelude
begin

text \<open>
  The per-column dirty page tracker (\<^verbatim>\<open>crates/minkowski/src/storage/dirty_pages.rs\<close>): a packed
  bit set of 64-bit words with an iterator that peels the lowest set bit of a word at a
  time. Its specification is the set of dirty page numbers.
\<close>

record dirty_tracker =
  dt_bits :: "u64 list"

definition DIRTY_PAGE_SIZE :: nat where "DIRTY_PAGE_SIZE = 256"

definition PAGES_PER_WORD :: nat where "PAGES_PER_WORD = 64"

definition dt_new :: dirty_tracker where "dt_new = \<lparr>dt_bits = []\<rparr>"

definition mark_page :: "dirty_tracker \<Rightarrow> nat \<Rightarrow> dirty_tracker" where
  "mark_page t page =
     (let wd = page div PAGES_PER_WORD; b = page mod PAGES_PER_WORD;
          bits = (if wd \<ge> length (dt_bits t) then resize_list (wd + 1) 0 (dt_bits t) else dt_bits t)
      in t\<lparr>dt_bits := bits[wd := or (bits ! wd) (push_bit b 1)]\<rparr>)"

definition mark_row :: "dirty_tracker \<Rightarrow> nat \<Rightarrow> dirty_tracker" where
  "mark_row t row = mark_page t (row div DIRTY_PAGE_SIZE)"

definition mark_row_range :: "dirty_tracker \<Rightarrow> nat \<Rightarrow> nat \<Rightarrow> dirty_tracker" where
  "mark_row_range t start_row end_row =
     (if start_row \<ge> end_row then t
      else let first_page = start_row div DIRTY_PAGE_SIZE; last_page = (end_row - 1) div DIRTY_PAGE_SIZE
        in foldl mark_page t [first_page..<last_page + 1])"

definition is_dirty :: "dirty_tracker \<Rightarrow> nat \<Rightarrow> bool" where
  "is_dirty t page =
     (let wd = page div PAGES_PER_WORD; b = page mod PAGES_PER_WORD
      in wd < length (dt_bits t) \<and> and (dt_bits t ! wd) (push_bit b 1) \<noteq> 0)"

definition any_dirty :: "dirty_tracker \<Rightarrow> bool" where
  "any_dirty t \<longleftrightarrow> list_ex (\<lambda>w. w \<noteq> 0) (dt_bits t)"

definition count_ones :: "u64 \<Rightarrow> nat" where
  "count_ones w = length (filter (bit w) [0..<64])"

definition dirty_count :: "dirty_tracker \<Rightarrow> nat" where
  "dirty_count t = sum_list (map count_ones (dt_bits t))"

record dirty_iter =
  di_bits :: "u64 list"
  di_word_idx :: nat
  di_current :: u64

definition dirty_pages :: "dirty_tracker \<Rightarrow> dirty_iter" where
  "dirty_pages t =
     \<lparr>di_bits = dt_bits t, di_word_idx = 0, di_current = (case dt_bits t of [] \<Rightarrow> 0 | w # _ \<Rightarrow> w)\<rparr>"

definition trailing_zeros :: "u64 \<Rightarrow> nat" where
  "trailing_zeros w = (case find (bit w) [0..<64] of Some i \<Rightarrow> i | None \<Rightarrow> 64)"

function di_next :: "dirty_iter \<Rightarrow> nat option \<times> dirty_iter" where
  "di_next it =
     (if di_current it \<noteq> 0
      then (Some (di_word_idx it * PAGES_PER_WORD + trailing_zeros (di_current it)),
            it\<lparr>di_current := and (di_current it) (di_current it - 1)\<rparr>)
      else let it1 = it\<lparr>di_word_idx := di_word_idx it + 1\<rparr>
        in if di_word_idx it1 \<ge> length (di_bits it1) then (None, it1)
           else di_next (it1\<lparr>di_current := di_bits it1 ! di_word_idx it1\<rparr>))"
  by pat_completeness auto
termination by (relation "measure (\<lambda>it. length (di_bits it) - di_word_idx it)") auto

declare di_next.simps [simp del]

definition di_size_hint :: "dirty_iter \<Rightarrow> nat" where
  "di_size_hint it = count_ones (di_current it) + sum_list (map count_ones (drop (di_word_idx it + 1) (di_bits it)))"

definition dt_clear :: "dirty_tracker \<Rightarrow> dirty_tracker" where
  "dt_clear t = t\<lparr>dt_bits := map (\<lambda>_. 0) (dt_bits t)\<rparr>"

definition page_row_range :: "nat \<Rightarrow> nat \<times> nat" where
  "page_row_range page = (let start = page * DIRTY_PAGE_SIZE in (start, start + DIRTY_PAGE_SIZE))"

definition pages_for_rows :: "nat \<Rightarrow> nat" where
  "pages_for_rows row_count = row_count div DIRTY_PAGE_SIZE + (if row_count mod DIRTY_PAGE_SIZE = 0 then 0 else 1)"

subsection \<open>Words\<close>

lemma and_bit_test: "and w (push_bit b 1) \<noteq> 0 \<longleftrightarrow> bit w b" if "b < 64" for w :: u64
proof -
  have "bit (push_bit b (1 :: u64)) n \<longleftrightarrow> n = b" for n using that by (auto simp: bit_simps dest: bit_imp_le_length)
  then have "bit (and w (push_bit b 1)) n \<longleftrightarrow> bit w b \<and> n = b" for n by (auto simp del: push_bit_of_1 simp: bit_and_iff)
  with that show ?thesis by (auto simp del: push_bit_of_1 simp: bit_eq_iff [of _ 0])
qed

lemma or_bit_set: "bit (or w (push_bit b 1)) n \<longleftrightarrow> bit w n \<or> n = b" if "b < 64" for w :: u64
proof -
  have "bit (push_bit b (1 :: u64)) n \<longleftrightarrow> n = b" using that by (auto simp: bit_simps dest: bit_imp_le_length)
  then show ?thesis by (simp add: bit_or_iff)
qed

lemma u64_zero_iff: "w = 0 \<longleftrightarrow> (\<forall>i < 64. \<not> bit w i)" for w :: u64
  by (auto simp: bit_eq_iff [of w 0] dest: bit_imp_le_length)

lemma trailing_zeros_bit:
  assumes "w \<noteq> 0"
  shows "bit w (trailing_zeros w)" "trailing_zeros w < 64" "\<And>i. i < trailing_zeros w \<Longrightarrow> \<not> bit w i"
proof -
  obtain i where "i < 64" "bit w i" using assms u64_zero_iff by blast
  then have "find (bit w) [0..<64] \<noteq> None" by (auto simp: find_None_iff)
  then obtain k where k: "find (bit w) [0..<64] = Some k" by blast
  then have "k < 64" "bit w k" "\<forall>j < k. \<not> bit w j" by (auto simp: find_Some_iff)
  then show "bit w (trailing_zeros w)" "trailing_zeros w < 64" "\<And>i. i < trailing_zeros w \<Longrightarrow> \<not> bit w i"
    using k by (auto simp: trailing_zeros_def)
qed

text \<open>\<^verbatim>\<open>w & (w - 1)\<close> clears the lowest set bit.\<close>

lemma nat_clear_low:
  fixes n :: nat
  assumes k: "bit n k" "\<And>i. i < k \<Longrightarrow> \<not> bit n i"
  shows "bit n i \<and> bit (n - 1) i \<longleftrightarrow> bit n i \<and> i \<noteq> k"
proof (cases "i < k")
  case True
  then show ?thesis using k by simp
next
  case False
  have "2 ^ k dvd n"
  proof -
    have "take_bit k n = 0" by (rule bit_eqI) (auto simp: bit_simps k(2))
    then show ?thesis by (simp add: take_bit_eq_mod mod_eq_0_iff_dvd)
  qed
  then obtain q where q: "n = 2 ^ k * q" by blast
  have oq: "odd q" using k(1) q by (simp add: bit_iff_odd)
  then obtain m where m: "q = 2 * m + 1" by (rule oddE)
  have pos: "(0::nat) < 2 ^ k" by simp
  have nk: "n - 1 = (2 ^ k - 1) + (2 * m) * 2 ^ k" using q m pos by (simp add: algebra_simps)
  have "(2 ^ k - 1) div 2 ^ k = (0::nat)" using pos by (intro div_less) simp
  then have lo: "(n - 1) div 2 ^ k = 2 * m" unfolding nk by (subst div_mult_self1) (use pos in auto)
  have hi: "n div 2 ^ k = 2 * m + 1" using q m by simp
  obtain j where j: "i = k + j" using False le_Suc_ex not_less by blast
  have bn: "bit n i \<longleftrightarrow> odd ((2 * m + 1) div 2 ^ j)" "bit (n - 1) i \<longleftrightarrow> odd (2 * m div 2 ^ j)"
    unfolding bit_iff_odd j power_add div_mult2_eq lo hi by (rule refl)+
  show ?thesis
  proof (cases j)
    case 0
    then show ?thesis using bn j by simp
  next
    case (Suc l)
    have "(2 * m + 1) div 2 ^ j = 2 * m div 2 ^ j" unfolding Suc power_Suc div_mult2_eq by simp
    then show ?thesis using bn j Suc by simp
  qed
qed

lemma clear_lowest:
  assumes "w \<noteq> (0 :: u64)"
  shows "bit (and w (w - 1)) i \<longleftrightarrow> bit w i \<and> i \<noteq> trailing_zeros w"
proof -
  have b: "bit v i = bit (unat v) i" for v :: u64 and i by (auto simp: bit_unsigned_iff dest: bit_imp_le_length)
  have "unat w \<noteq> 0" using assms by (simp add: unsigned_eq_0_iff)
  have u: "unat (w - 1) = unat w - 1" using unat_minus_one [OF assms] by simp
  have "bit (and w (w - 1)) i \<longleftrightarrow> bit (unat w) i \<and> bit (unat w - 1) i" by (simp add: bit_and_iff b [of w i] b [of "w - 1" i] u)
  also have "\<dots> \<longleftrightarrow> bit (unat w) i \<and> i \<noteq> trailing_zeros w"
    by (rule nat_clear_low) (use trailing_zeros_bit [OF assms] b in auto)
  finally show ?thesis using b by simp
qed

lemma ones_clear:
  assumes "w \<noteq> (0 :: u64)"
  shows "filter (bit w) [0..<64] = trailing_zeros w # filter (bit (and w (w - 1))) [0..<64]"
proof -
  let ?k = "trailing_zeros w"
  note k = trailing_zeros_bit [OF assms]
  have sp: "[0..<64] = [0..<?k] @ ?k # [?k + 1..<64]"
    using upt_add_eq_append [of 0 ?k "64 - ?k"] k(2) by (simp add: upt_conv_Cons [of ?k 64])
  have "filter (bit w) [0..<64] = ?k # filter (bit w) [?k + 1..<64]"
    using k by (subst sp) (simp add: filter_empty_conv)
  moreover have "filter (bit (and w (w - 1))) [0..<64] = filter (bit w) [?k + 1..<64]"
    using k by (subst sp) (auto simp: clear_lowest [OF assms] filter_empty_conv intro!: filter_cong)
  ultimately show ?thesis by simp
qed

subsection \<open>Marking\<close>

lemma is_dirty_mark_page: "is_dirty (mark_page t p) q \<longleftrightarrow> is_dirty t q \<or> q = p"
proof -
  define bs where "bs = (if p div 64 \<ge> length (dt_bits t) then resize_list (p div 64 + 1) 0 (dt_bits t) else dt_bits t)"
  have w: "p div 64 < length bs" by (auto simp: bs_def list_ops)
  have old: "q div 64 < length bs \<Longrightarrow> bit (bs ! (q div 64)) (q mod 64) \<longleftrightarrow> q div 64 < length (dt_bits t) \<and> bit (dt_bits t ! (q div 64)) (q mod 64)"
    by (auto simp: list_ops nth_resize_list bs_def split: if_splits)
  have len: "length (dt_bits t) \<le> length bs" by (auto simp: bs_def list_ops)
  have eq: "q = p \<longleftrightarrow> q div 64 = p div 64 \<and> q mod 64 = p mod 64" by (metis div_mult_mod_eq)
  have d: "is_dirty u r \<longleftrightarrow> r div 64 < length (dt_bits u) \<and> bit (dt_bits u ! (r div 64)) (r mod 64)" for u r
    using and_bit_test [of "r mod 64"] by (simp add: is_dirty_def PAGES_PER_WORD_def Let_def)
  have m: "dt_bits (mark_page t p) = bs[p div 64 := or (bs ! (p div 64)) (push_bit (p mod 64) 1)]"
    by (simp add: mark_page_def PAGES_PER_WORD_def Let_def bs_def del: push_bit_of_1)
  show ?thesis
  proof (cases "q div 64 = p div 64")
    case True
    then show ?thesis unfolding d m using w old eq or_bit_set [of "p mod 64"]
      by (simp del: push_bit_of_1)
  next
    case False
    then show ?thesis unfolding d m using old len eq by (auto simp del: push_bit_of_1)
  qed
qed

lemma is_dirty_foldl: "is_dirty (foldl mark_page t ps) q \<longleftrightarrow> is_dirty t q \<or> q \<in> set ps"
  by (induction ps arbitrary: t) (auto simp: is_dirty_mark_page)

lemma is_dirty_mark_row_range:
  "is_dirty (mark_row_range t a b) q \<longleftrightarrow> is_dirty t q \<or> (\<exists>r. a \<le> r \<and> r < b \<and> q = r div 256)"
proof (cases "a < b")
  case True
  have "(a div 256 \<le> q \<and> q \<le> (b - 1) div 256) \<longleftrightarrow> (\<exists>r. a \<le> r \<and> r < b \<and> q = r div 256)"
  proof
    assume q: "a div 256 \<le> q \<and> q \<le> (b - 1) div 256"
    then show "\<exists>r. a \<le> r \<and> r < b \<and> q = r div 256"
      using True by (intro exI [of _ "max a (q * 256)"]) (auto simp: max_def)
  next
    assume "\<exists>r. a \<le> r \<and> r < b \<and> q = r div 256"
    then show "a div 256 \<le> q \<and> q \<le> (b - 1) div 256" by (auto intro: div_le_mono)
  qed
  then have "q \<in> set [a div 256..<(b - 1) div 256 + 1] \<longleftrightarrow> (\<exists>r. a \<le> r \<and> r < b \<and> q = r div 256)"
    by (simp only: atLeastLessThan_upt [symmetric] atLeastLessThan_iff less_Suc_eq_le Suc_eq_plus1 [symmetric])
  moreover have "mark_row_range t a b = foldl mark_page t [a div 256..<(b - 1) div 256 + 1]"
    using True by (simp add: mark_row_range_def Let_def DIRTY_PAGE_SIZE_def)
  ultimately show ?thesis by (simp only: is_dirty_foldl)
qed (auto simp: mark_row_range_def)

lemma is_dirty_clear [simp]: "\<not> is_dirty (dt_clear t) q"
  by (simp add: is_dirty_def dt_clear_def Let_def)

subsection \<open>The iterator\<close>

text \<open>The iterator after \<open>n\<close> calls of \<open>next\<close>, and the pages it has still to yield.\<close>

fun di_calls :: "nat \<Rightarrow> dirty_iter \<Rightarrow> dirty_iter" where
  "di_calls 0 it = it"
| "di_calls (Suc n) it = snd (di_next (di_calls n it))"

definition word_pages :: "nat \<Rightarrow> u64 \<Rightarrow> nat list" where
  "word_pages i w = map (\<lambda>b. i * 64 + b) (filter (bit w) [0..<64])"

fun words_pages :: "nat \<Rightarrow> u64 list \<Rightarrow> nat list" where
  "words_pages i [] = []"
| "words_pages i (w # ws) = word_pages i w @ words_pages (i + 1) ws"

definition di_rest :: "dirty_iter \<Rightarrow> nat list" where
  "di_rest it = word_pages (di_word_idx it) (di_current it)
     @ words_pages (di_word_idx it + 1) (drop (di_word_idx it + 1) (di_bits it))"

lemma word_pages_zero [simp]: "word_pages i 0 = []"
  by (simp add: word_pages_def)

lemma di_next_rest:
  "(case di_rest it of [] \<Rightarrow> fst (di_next it) = None \<and> di_rest (snd (di_next it)) = []
    | p # ps \<Rightarrow> fst (di_next it) = Some p \<and> di_rest (snd (di_next it)) = ps)"
proof (induction it rule: di_next.induct)
  case (1 it)
  let ?i = "di_word_idx it" and ?w = "di_current it" and ?bs = "di_bits it"
  consider "?w \<noteq> 0" | "?w = 0" "length ?bs \<le> ?i + 1" | "?w = 0" "?i + 1 < length ?bs" by linarith
  then show ?case
  proof cases
    case a: 1
    then show ?thesis
      by (simp add: di_next.simps [of it] di_rest_def word_pages_def ones_clear [OF a] PAGES_PER_WORD_def)
  next
    case 2
    then show ?thesis by (simp add: di_next.simps [of it] di_rest_def)
  next
    case 3
    let ?it1 = "it\<lparr>di_word_idx := ?i + 1\<rparr>"
    let ?it = "?it1\<lparr>di_current := di_bits ?it1 ! di_word_idx ?it1\<rparr>"
    have "di_rest ?it = di_rest it" using 3 by (simp add: di_rest_def flip: Cons_nth_drop_Suc)
    moreover have "di_next it = di_next ?it" using 3 by (subst di_next.simps) (simp add: Let_def)
    moreover have "case di_rest ?it of [] \<Rightarrow> fst (di_next ?it) = None \<and> di_rest (snd (di_next ?it)) = []
        | p # ps \<Rightarrow> fst (di_next ?it) = Some p \<and> di_rest (snd (di_next ?it)) = ps"
      by (rule 1 [OF _ refl]) (use 3 in auto)
    ultimately show ?thesis by (simp only:)
  qed
qed

lemma di_next_less: "(Some p, it') = di_next it \<Longrightarrow> length (di_rest it') < length (di_rest it)"
proof -
  assume "(Some p, it') = di_next it"
  then have "di_next it = (Some p, it')" by (rule sym)
  then show ?thesis using di_next_rest [of it] by (cases "di_rest it") simp_all
qed

function di_collect :: "dirty_iter \<Rightarrow> nat list" where
  "di_collect it = (case di_next it of (None, _) \<Rightarrow> [] | (Some p, it') \<Rightarrow> p # di_collect it')"
  by pat_completeness auto
termination by (relation "measure (\<lambda>it. length (di_rest it))") (auto dest: di_next_less)

declare di_collect.simps [simp del]

lemma di_collect_rest: "di_collect it = di_rest it"
proof (induction "length (di_rest it)" arbitrary: it)
  case 0
  then show ?case using di_next_rest [of it] by (subst di_collect.simps) (auto split: prod.splits)
next
  case (Suc n)
  then show ?case using di_next_rest [of it] by (subst di_collect.simps) (auto split: prod.splits list.splits)
qed

lemma set_word_pages: "set (word_pages i w) = {p. p div 64 = i \<and> bit w (p mod 64)}"
proof -
  have "p \<in> (\<lambda>b. i * 64 + b) ` {b. b < 64 \<and> bit w b} \<longleftrightarrow> p div 64 = i \<and> bit w (p mod 64)" for p
  proof
    assume "p div 64 = i \<and> bit w (p mod 64)"
    then show "p \<in> (\<lambda>b. i * 64 + b) ` {b. b < 64 \<and> bit w b}"
      by (intro image_eqI [of _ _ "p mod 64"]) (auto simp: mult.commute)
  qed auto
  then show ?thesis by (auto simp: word_pages_def)
qed

lemma set_words_pages:
  "set (words_pages i ws) = {p. i \<le> p div 64 \<and> p div 64 < i + length ws \<and> bit (ws ! (p div 64 - i)) (p mod 64)}"
proof (induction ws arbitrary: i)
  case (Cons w ws)
  have "p \<in> set (words_pages i (w # ws)) \<longleftrightarrow> i \<le> p div 64 \<and> p div 64 < i + length (w # ws) \<and> bit ((w # ws) ! (p div 64 - i)) (p mod 64)" for p
  proof (cases "i < p div 64")
    case True
    then have "p div 64 - i = Suc (p div 64 - (i + 1))" by simp
    then have "(w # ws) ! (p div 64 - i) = ws ! (p div 64 - (i + 1))" by simp
    then show ?thesis using True unfolding words_pages.simps set_append Cons set_word_pages by auto
  next
    case False
    then show ?thesis unfolding words_pages.simps set_append Cons set_word_pages by auto
  qed
  then show ?case by blast
qed auto

lemma sorted_word_pages: "sorted_wrt (<) (word_pages i w)"
  by (auto simp: word_pages_def sorted_wrt_map intro: sorted_wrt_filter)

lemma sorted_words_pages: "sorted_wrt (<) (words_pages i ws)"
  by (induction ws arbitrary: i)
    (auto simp: sorted_wrt_append sorted_word_pages set_word_pages set_words_pages intro: ccontr dest: div_le_mono [of _ _ 64])

lemma length_words_pages: "length (words_pages i ws) = sum_list (map count_ones ws)"
  by (induction ws arbitrary: i) (auto simp: word_pages_def count_ones_def)

definition dirty_set :: "dirty_tracker \<Rightarrow> nat set" where
  "dirty_set t = {p. is_dirty t p}"

lemma set_dirty: "set (words_pages 0 (dt_bits t)) = dirty_set t"
proof -
  have "is_dirty t p \<longleftrightarrow> p div 64 < length (dt_bits t) \<and> bit (dt_bits t ! (p div 64)) (p mod 64)" for p
    using and_bit_test [of "p mod 64"] by (simp add: is_dirty_def PAGES_PER_WORD_def Let_def)
  then show ?thesis by (auto simp: dirty_set_def set_words_pages)
qed

lemma words_pages_dirty: "words_pages 0 (dt_bits t) = sorted_list_of_set (dirty_set t)"
  using sorted_words_pages [of 0 "dt_bits t"] unfolding set_dirty [symmetric]
  by (simp add: strict_sorted_iff sorted_list_of_set.idem_if_sorted_distinct)

lemma finite_dirty [simp]: "finite (dirty_set t)"
  unfolding set_dirty [symmetric] by simp

lemma rest_dirty_pages: "di_rest (dirty_pages t) = sorted_list_of_set (dirty_set t)"
  unfolding words_pages_dirty [symmetric] by (cases "dt_bits t") (auto simp: di_rest_def dirty_pages_def)

lemma dirty_count_card: "dirty_count t = card (dirty_set t)"
  unfolding dirty_count_def length_words_pages [of 0, symmetric] words_pages_dirty by simp

lemma any_dirty_iff: "any_dirty t \<longleftrightarrow> dirty_set t \<noteq> {}"
proof -
  have "w = 0 \<longleftrightarrow> word_pages i w = []" for w i by (auto simp: word_pages_def u64_zero_iff filter_empty_conv)
  then have "(\<forall>w \<in> set ws. w = 0) \<longleftrightarrow> words_pages i ws = []" for ws i
    by (induction ws arbitrary: i) auto
  then show ?thesis
    unfolding any_dirty_def list_ex_iff set_dirty [symmetric] by (metis set_empty)
qed

lemma size_hint_rest: "di_size_hint it = length (di_rest it)"
  by (simp add: di_size_hint_def di_rest_def length_words_pages) (simp add: word_pages_def count_ones_def)

subsection \<open>Refinement\<close>

datatype dirty_op = MarkPage nat | MarkRow nat | MarkRange nat nat | ClearAll
  | AskDirty nat | AskAny | AskCount | AskPages

datatype dirty_answer = Done | Flag bool | Count nat | Pages "nat list"

fun dirty_step :: "dirty_op \<Rightarrow> dirty_tracker \<Rightarrow> (dirty_answer \<times> dirty_tracker) option" where
  "dirty_step (MarkPage p) t = Some (Done, mark_page t p)"
| "dirty_step (MarkRow r) t = Some (Done, mark_row t r)"
| "dirty_step (MarkRange a b) t = Some (Done, mark_row_range t a b)"
| "dirty_step ClearAll t = Some (Done, dt_clear t)"
| "dirty_step (AskDirty p) t = Some (Flag (is_dirty t p), t)"
| "dirty_step AskAny t = Some (Flag (any_dirty t), t)"
| "dirty_step AskCount t = Some (Count (dirty_count t), t)"
| "dirty_step AskPages t = Some (Pages (di_collect (dirty_pages t)), t)"

fun dirty_spec :: "dirty_op \<Rightarrow> nat set \<Rightarrow> dirty_answer \<times> nat set" where
  "dirty_spec (MarkPage p) D = (Done, insert p D)"
| "dirty_spec (MarkRow r) D = (Done, insert (r div 256) D)"
| "dirty_spec (MarkRange a b) D = (Done, D \<union> (\<lambda>r. r div 256) ` {a..<b})"
| "dirty_spec ClearAll D = (Done, {})"
| "dirty_spec (AskDirty p) D = (Flag (p \<in> D), D)"
| "dirty_spec AskAny D = (Flag (D \<noteq> {}), D)"
| "dirty_spec AskCount D = (Count (card D), D)"
| "dirty_spec AskPages D = (Pages (sorted_list_of_set D), D)"

interpretation dirty_pages: total_simulation dirty_step dirty_spec "\<lambda>_ _. True" "\<lambda>_. True" dirty_set
proof
  fix a t r t'
  assume st: "dirty_step a t = Some (r, t')"
  show "True \<and> dirty_spec a (dirty_set t) = (r, dirty_set t')"
    using st by (cases a)
      (auto simp: dirty_set_def is_dirty_mark_page mark_row_def DIRTY_PAGE_SIZE_def is_dirty_mark_row_range
        any_dirty_iff dirty_count_card di_collect_rest rest_dirty_pages)
next
  fix a t
  show "dirty_step a t \<noteq> None" by (cases a) auto
qed

lemma dt_new_empty [simp]: "dirty_set dt_new = {}"
  by (simp add: dirty_set_def dt_new_def is_dirty_def Let_def)

lemma spec_allows_True [simp]: "spec_allows (\<lambda>_ _. True) spec as s"
  by (induction as arbitrary: s) auto

text \<open>
  (C40) The dirty page tracker is the set of its dirty pages. For every history of markings,
  clears and questions on a new tracker, every answer - \<open>is_dirty\<close>, \<open>any_dirty\<close>,
  \<open>dirty_count\<close>, the pages the iterator yields - is the answer of the plain finite set; a
  row range marks exactly the pages of its rows, and the iterator ends and yields every
  dirty page once, in ascending order.
\<close>

theorem dirty_tracker_refines:
  "map_option fst (run_answers dirty_step ops dt_new) = Some (fst (spec_answers dirty_spec ops {}))"
  using dirty_pages.run_refines [where c = dt_new and as = ops] by auto

text \<open>
  \<open>size_hint\<close> is exact at every point of the iteration, as \<open>ExactSizeIterator\<close> demands:
  after any number \<open>n\<close> of calls of \<open>next\<close>, also past the end, it is the number of dirty
  pages not yet yielded, and the \<open>n\<close>-th call answers the \<open>n\<close>-th dirty page.
\<close>

theorem dirty_iter_exact_size:
  "let it = di_calls n (dirty_pages t) in
   di_size_hint it = dirty_count t - n \<and>
   fst (di_next it) = (if n < dirty_count t then Some (sorted_list_of_set {p. is_dirty t p} ! n) else None)"
proof -
  have r: "di_rest (di_calls n it) = drop n (di_rest it)" for it
  proof (induction n)
    case (Suc n)
    let ?it = "di_calls n it"
    have "di_rest (snd (di_next ?it)) = tl (di_rest ?it)" using di_next_rest [of ?it] by (auto split: list.splits)
    then have "di_rest (snd (di_next ?it)) = drop (Suc n) (di_rest it)" unfolding Suc by (simp add: drop_Suc tl_drop)
    then show ?case by simp
  qed simp
  let ?it = "di_calls n (dirty_pages t)"
  have "di_rest ?it = drop n (sorted_list_of_set (dirty_set t))" unfolding r rest_dirty_pages ..
  moreover have "fst (di_next ?it) = (case di_rest ?it of [] \<Rightarrow> None | p # _ \<Rightarrow> Some p)"
    using di_next_rest [of ?it] by (auto split: list.splits)
  moreover have "(case drop n xs of [] \<Rightarrow> None | p # _ \<Rightarrow> Some p) = (if n < length xs then Some (xs ! n) else None)" for xs :: "nat list"
    by (auto simp: Cons_nth_drop_Suc [symmetric])
  ultimately show ?thesis by (simp add: size_hint_rest dirty_count_card dirty_set_def)
qed

end
