(* ===== verification/Blob_Vec.thy ===== *)
theory Blob_Vec
  imports Pool_Vec Access_Tick Dirty_Pages
begin

text \<open>
  \<^verbatim>\<open>BlobVec\<close> (\<^verbatim>\<open>crates/minkowski/src/storage/blob_vec.rs\<close>), the type-erased column of an
  archetype. A value is its bytes; the column's memory is a row-indexed store of values, of
  which the first \<open>bv_len\<close> rows are live, plus one resident scratch slot for columns whose
  component has a destructor. The component's destructor is user code that may panic: it is
  the parameter \<open>boom\<close>, which says of a value whether dropping it unwinds. An operation
  that drops values returns the values whose destructor it started, in order, and whether it
  unwound. As for \<^verbatim>\<open>PoolVec\<close>, \<open>None\<close> is a panic or abort and \<open>Inl\<close> is \<^verbatim>\<open>PoolExhausted\<close>.
  \<^verbatim>\<open>debug_assert!\<close> is not part of the model.
\<close>

type_synonym item = "8 word list"

record blob_vec =
  bv_item :: layout
  bv_drop_fn :: bool
  bv_data :: ptr
  bv_len :: nat
  bv_cap :: nat
  bv_tick :: tick
  bv_dirty :: dirty_tracker
  bv_scratch :: "ptr option"
  bv_rows :: "nat \<Rightarrow> item"
  bv_slot :: item

text \<open>\<^verbatim>\<open>ExtractedSlot\<close>: a pointer to the column's scratch slot and the destructor.\<close>

record extracted_slot =
  es_ptr :: "ptr option"
  es_drop_fn :: bool

definition MIN_COLUMN_ALIGN :: nat where "MIN_COLUMN_ALIGN = 64"

definition alloc_align :: "layout \<Rightarrow> nat" where
  "alloc_align item = max (l_align item) MIN_COLUMN_ALIGN"

text \<open>\<^verbatim>\<open>Layout::from_size_align(size * n, alloc_align)\<close> after the checked product.\<close>

definition bv_layout :: "layout \<Rightarrow> nat \<Rightarrow> layout option" where
  "bv_layout item n = array_layout \<lparr>l_size = l_size item, l_align = alloc_align item\<rparr> n"

definition needs_scratch :: "blob_vec \<Rightarrow> bool" where
  "needs_scratch v \<longleftrightarrow> bv_drop_fn v \<and> l_size (bv_item v) > 0"

definition scratch_layout :: "blob_vec \<Rightarrow> layout option" where
  "scratch_layout v = array_layout (bv_item v) 1"

definition try_ensure_scratch :: "nat \<Rightarrow> slab_pool \<Rightarrow> blob_vec
    \<Rightarrow> ((pool_exhausted + unit) \<times> slab_pool \<times> blob_vec) option" where
  "try_ensure_scratch t p v =
     (if bv_scratch v = None \<and> needs_scratch v
      then do {
        l \<leftarrow> scratch_layout v;
        (r, p') \<leftarrow> allocate p t l;
        Some (case r of Inl e \<Rightarrow> (Inl e, p', v) | Inr a \<Rightarrow> (Inr (), p', v\<lparr>bv_scratch := Some a\<rparr>))
      }
      else Some (Inr (), p, v))"

definition mark_changed :: "blob_vec \<Rightarrow> tick \<Rightarrow> blob_vec" where
  "mark_changed v tick = v\<lparr>bv_tick := tick\<rparr>"

definition mark_row_dirty :: "blob_vec \<Rightarrow> nat \<Rightarrow> blob_vec" where
  "mark_row_dirty v row = v\<lparr>bv_dirty := mark_row (bv_dirty v) row\<rparr>"

definition mark_all_pages_dirty :: "blob_vec \<Rightarrow> blob_vec" where
  "mark_all_pages_dirty v =
     (if bv_len v > 0
      then let pages = pages_for_rows (bv_len v)
        in v\<lparr>bv_dirty := foldl mark_page (bv_dirty v) [0..<pages]\<rparr>
      else v)"

definition bv_init :: "layout \<Rightarrow> bool \<Rightarrow> ptr \<Rightarrow> nat \<Rightarrow> blob_vec" where
  "bv_init item drop_fn data cap =
     \<lparr>bv_item = item, bv_drop_fn = drop_fn, bv_data = data, bv_len = 0, bv_cap = cap,
      bv_tick = tick_new 0, bv_dirty = dt_new, bv_scratch = None, bv_rows = (\<lambda>_. []), bv_slot = []\<rparr>"

definition bv_new :: "nat \<Rightarrow> slab_pool \<Rightarrow> layout \<Rightarrow> bool \<Rightarrow> nat \<Rightarrow> (slab_pool \<times> blob_vec) option" where
  "bv_new t p item drop_fn capacity =
     do {
       (p1, data, cap) \<leftarrow>
         (if l_size item = 0 then Some (p, Dangling 1, USIZE_MAX)
          else if capacity = 0 then Some (p, Dangling 1, 0)
          else do {
            l \<leftarrow> bv_layout item capacity;
            (r, p1) \<leftarrow> allocate p t l;
            (case r of Inl e \<Rightarrow> None | Inr a \<Rightarrow> Some (p1, a, capacity))
          });
       let v = bv_init item drop_fn data cap;
       if cap > 0
       then do { (r, p2, v2) \<leftarrow> try_ensure_scratch t p1 v;
                 (case r of Inl e \<Rightarrow> None | Inr _ \<Rightarrow> Some (p2, v2)) }
       else Some (p1, v)
     }"

text \<open>\<^verbatim>\<open>ptr_at\<close>, read and written through: a zero-sized item has no bytes.\<close>

definition bv_read :: "blob_vec \<Rightarrow> nat \<Rightarrow> item" where
  "bv_read v row = (if l_size (bv_item v) = 0 then [] else bv_rows v row)"

definition bv_write :: "blob_vec \<Rightarrow> nat \<Rightarrow> item \<Rightarrow> blob_vec" where
  "bv_write v row x = (if l_size (bv_item v) > 0 then v\<lparr>bv_rows := (bv_rows v)(row := x)\<rparr> else v)"

text \<open>Growth: the scratch slot first, then the data buffer.\<close>

definition grow_allocation :: "nat \<Rightarrow> slab_pool \<Rightarrow> blob_vec \<Rightarrow> layout
    \<Rightarrow> ((pool_exhausted + ptr) \<times> slab_pool \<times> blob_vec) option" where
  "grow_allocation t p v new_layout =
     do {
       (r, p1, v1) \<leftarrow> try_ensure_scratch t p v;
       (case r of
          Inl e \<Rightarrow> Some (Inl e, p1, v1)
        | Inr _ \<Rightarrow> do {
            (r2, p2) \<leftarrow>
              (if bv_cap v1 = 0 then allocate p1 t new_layout
               else do { old_layout \<leftarrow> bv_layout (bv_item v1) (bv_cap v1);
                         grow p1 t (bv_data v1) old_layout new_layout });
            Some (r2, p2, v1)
          })
     }"

definition try_grow :: "nat \<Rightarrow> slab_pool \<Rightarrow> blob_vec
    \<Rightarrow> ((pool_exhausted + unit) \<times> slab_pool \<times> blob_vec) option" where
  "try_grow t p v =
     (if l_size (bv_item v) = 0 then Some (Inr (), p, v)
      else let new_capacity = (if bv_cap v = 0 then 4 else bv_cap v * 2) in
        do {
          new_layout \<leftarrow> bv_layout (bv_item v) new_capacity;
          (r, p', v') \<leftarrow> grow_allocation t p v new_layout;
          Some (case r of
              Inl e \<Rightarrow> (Inl e, p', v')
            | Inr a \<Rightarrow> (Inr (), p', v'\<lparr>bv_data := a, bv_cap := new_capacity\<rparr>))
        })"

definition bv_grow :: "nat \<Rightarrow> slab_pool \<Rightarrow> blob_vec \<Rightarrow> (slab_pool \<times> blob_vec) option" where
  "bv_grow t p v =
     (if l_size (bv_item v) = 0 then Some (p, v)
      else let new_capacity = (if bv_cap v = 0 then 4 else bv_cap v * 2) in
        do {
          new_layout \<leftarrow> bv_layout (bv_item v) new_capacity;
          (r, p', v') \<leftarrow> grow_allocation t p v new_layout;
          (case r of
              Inl e \<Rightarrow> None
            | Inr a \<Rightarrow> Some (p', v'\<lparr>bv_data := a, bv_cap := new_capacity\<rparr>))
        })"

text \<open>The doubling loop of \<^verbatim>\<open>try_reserve\<close>; it would not end on a zero capacity.\<close>

partial_function (option) double_until :: "nat \<Rightarrow> nat \<Rightarrow> nat option" where
  "double_until cap required =
     (if cap < required
      then (if cap * 2 > USIZE_MAX then None else double_until (cap * 2) required)
      else Some cap)"

declare double_until.simps [code]

definition bv_try_reserve :: "nat \<Rightarrow> slab_pool \<Rightarrow> blob_vec \<Rightarrow> nat
    \<Rightarrow> ((pool_exhausted + unit) \<times> slab_pool \<times> blob_vec) option" where
  "bv_try_reserve t p v additional =
     (let required = bv_len v + additional in
      if required > USIZE_MAX then None
      else if required \<le> bv_cap v then Some (Inr (), p, v)
      else if l_size (bv_item v) = 0 then Some (Inr (), p, v)
      else do {
        new_capacity \<leftarrow> double_until (if bv_cap v = 0 then 4 else bv_cap v) required;
        new_layout \<leftarrow> bv_layout (bv_item v) new_capacity;
        (r, p', v') \<leftarrow> grow_allocation t p v new_layout;
        Some (case r of
            Inl e \<Rightarrow> (Inl e, p', v')
          | Inr a \<Rightarrow> (Inr (), p', v'\<lparr>bv_data := a, bv_cap := new_capacity\<rparr>))
      })"

definition bv_reserve :: "nat \<Rightarrow> slab_pool \<Rightarrow> blob_vec \<Rightarrow> nat \<Rightarrow> (slab_pool \<times> blob_vec) option" where
  "bv_reserve t p v additional =
     do { (r, p', v') \<leftarrow> bv_try_reserve t p v additional;
          (case r of Inl e \<Rightarrow> None | Inr _ \<Rightarrow> Some (p', v')) }"

definition bv_push :: "nat \<Rightarrow> slab_pool \<Rightarrow> blob_vec \<Rightarrow> item \<Rightarrow> (slab_pool \<times> blob_vec) option" where
  "bv_push t p v x =
     do {
       (p', v') \<leftarrow> (if bv_len v = bv_cap v then bv_grow t p v else Some (p, v));
       let row = bv_len v';
       let w = bv_write v' row x;
       Some (p', w\<lparr>bv_len := row + 1, bv_dirty := mark_row (bv_dirty w) row\<rparr>)
     }"

text \<open>\<^verbatim>\<open>append_bytes_unchecked\<close>: \<open>bytes\<close> are \<open>count\<close> items one after the other.\<close>

definition chunk :: "nat \<Rightarrow> 'a list \<Rightarrow> nat \<Rightarrow> 'a list" where
  "chunk sz bytes i = take sz (drop (i * sz) bytes)"

definition append_bytes_unchecked :: "nat \<Rightarrow> slab_pool \<Rightarrow> blob_vec \<Rightarrow> 8 word list \<Rightarrow> nat
    \<Rightarrow> (slab_pool \<times> blob_vec) option" where
  "append_bytes_unchecked t p v bytes count =
     (let sz = l_size (bv_item v) in
      if sz = 0 then Some (p, v\<lparr>bv_len := bv_len v + count\<rparr>)
      else if length bytes \<noteq> count * sz then None
      else do {
        (p', v') \<leftarrow> bv_reserve t p v count;
        let n = bv_len v';
        Some (p', v'\<lparr>bv_rows := (\<lambda>r. if n \<le> r \<and> r < n + count then chunk sz bytes (r - n) else bv_rows v' r),
                     bv_len := n + count\<rparr>)
      })"

definition get_ptr_mut :: "blob_vec \<Rightarrow> nat \<Rightarrow> tick \<Rightarrow> blob_vec" where
  "get_ptr_mut v row tick = v\<lparr>bv_tick := tick, bv_dirty := mark_row (bv_dirty v) row\<rparr>"

text \<open>Running a destructor.\<close>

definition drop_one :: "(item \<Rightarrow> bool) \<Rightarrow> item \<Rightarrow> item list \<times> bool" where
  "drop_one boom x = ([x], boom x)"

text \<open>The scratch slot of a column that must have one; \<open>None\<close> is the failed \<^verbatim>\<open>expect\<close>.\<close>

definition begin_extract_swap :: "blob_vec \<Rightarrow> nat \<Rightarrow> (extracted_slot \<times> blob_vec) option" where
  "begin_extract_swap v row =
     (if \<not> needs_scratch v then Some (\<lparr>es_ptr = None, es_drop_fn = False\<rparr>, v)
      else do {
        scratch \<leftarrow> bv_scratch v;
        Some (\<lparr>es_ptr = Some scratch, es_drop_fn = bv_drop_fn v\<rparr>, v\<lparr>bv_slot := bv_rows v row\<rparr>)
      })"

text \<open>\<^verbatim>\<open>ExtractedSlot::drop_value\<close>; the value is read through the pointer into the scratch slot.\<close>

definition drop_value :: "(item \<Rightarrow> bool) \<Rightarrow> blob_vec \<Rightarrow> extracted_slot \<Rightarrow> (item list \<times> bool) \<times> extracted_slot" where
  "drop_value boom v es =
     (if es_drop_fn es
      then (case es_ptr es of
          None \<Rightarrow> (([], False), es)
        | Some _ \<Rightarrow> (drop_one boom (bv_slot v), es\<lparr>es_ptr := None\<rparr>))
      else (([], False), es))"

definition commit_extracted_swap :: "blob_vec \<Rightarrow> nat \<Rightarrow> blob_vec" where
  "commit_extracted_swap v row =
     (let last_row = bv_len v - 1;
          w = (if row \<noteq> last_row \<and> l_size (bv_item v) > 0
               then (let u = v\<lparr>bv_rows := (bv_rows v)(row := bv_rows v last_row)\<rparr>
                     in u\<lparr>bv_dirty := mark_row (bv_dirty u) row\<rparr>)
               else v)
      in w\<lparr>bv_len := bv_len w - 1\<rparr>)"

text \<open>
  The guard of \<^verbatim>\<open>swap_remove\<close> performs the structural removal on every exit, also when the
  destructor unwinds.
\<close>

definition remove_guard :: "blob_vec \<Rightarrow> nat \<Rightarrow> blob_vec" where
  "remove_guard v row =
     (let last_row = bv_len v - 1;
          w = (if row \<noteq> last_row \<and> l_size (bv_item v) > 0
               then (let u = v\<lparr>bv_rows := (bv_rows v)(row := bv_rows v last_row)\<rparr>
                     in u\<lparr>bv_dirty := mark_row (bv_dirty u) row\<rparr>)
               else v)
      in w\<lparr>bv_len := bv_len w - 1\<rparr>)"

definition bv_swap_remove :: "(item \<Rightarrow> bool) \<Rightarrow> blob_vec \<Rightarrow> nat \<Rightarrow> (item list \<times> bool) \<times> blob_vec" where
  "bv_swap_remove boom v row =
     (let dropped = (if bv_drop_fn v then drop_one boom (bv_read v row) else ([], False))
      in (dropped, remove_guard v row))"

definition swap_remove_no_drop :: "blob_vec \<Rightarrow> nat \<Rightarrow> blob_vec" where
  "swap_remove_no_drop v row =
     (let last_row = bv_len v - 1;
          w = (if row \<noteq> last_row \<and> l_size (bv_item v) > 0
               then (let u = v\<lparr>bv_rows := (bv_rows v)(row := bv_rows v last_row)\<rparr>
                     in u\<lparr>bv_dirty := mark_row (bv_dirty u) row\<rparr>)
               else v)
      in w\<lparr>bv_len := bv_len w - 1\<rparr>)"

definition replace_protected :: "(item \<Rightarrow> bool) \<Rightarrow> blob_vec \<Rightarrow> nat \<Rightarrow> item
    \<Rightarrow> ((item list \<times> bool) \<times> blob_vec) option" where
  "replace_protected boom v row src =
     (if \<not> needs_scratch v then Some (([], False), bv_write v row src)
      else do {
        _ \<leftarrow> bv_scratch v;
        let v1 = v\<lparr>bv_slot := bv_rows v row\<rparr>;
        let v2 = v1\<lparr>bv_rows := (bv_rows v1)(row := src)\<rparr>;
        Some (drop_one boom (bv_slot v2), v2)
      })"

definition copy_unchecked :: "blob_vec \<Rightarrow> nat \<Rightarrow> nat \<Rightarrow> blob_vec" where
  "copy_unchecked v src_row dst_row =
     (if l_size (bv_item v) > 0
      then (let u = v\<lparr>bv_rows := (bv_rows v)(dst_row := bv_rows v src_row)\<rparr>
            in u\<lparr>bv_dirty := mark_row (bv_dirty u) dst_row\<rparr>)
      else v)"

definition bv_set_len :: "blob_vec \<Rightarrow> nat \<Rightarrow> blob_vec" where
  "bv_set_len v new_len = v\<lparr>bv_len := new_len\<rparr>"

text \<open>
  \<^verbatim>\<open>Drop for BlobVec\<close>: the live values in order, then the buffer and the scratch slot. A
  destructor that unwinds leaves the rest of the values and both allocations behind.
\<close>

fun drop_rows :: "(item \<Rightarrow> bool) \<Rightarrow> item list \<Rightarrow> item list \<times> bool" where
  "drop_rows boom [] = ([], False)"
| "drop_rows boom (x # xs) =
     (if boom x then ([x], True) else let (ds, u) = drop_rows boom xs in (x # ds, u))"

definition bv_drop :: "(item \<Rightarrow> bool) \<Rightarrow> nat \<Rightarrow> slab_pool \<Rightarrow> blob_vec \<Rightarrow> ((item list \<times> bool) \<times> slab_pool) option" where
  "bv_drop boom t p v =
     (let d = (if bv_drop_fn v then drop_rows boom (map (bv_read v) [0..<bv_len v]) else ([], False)) in
      if snd d then Some (d, p)
      else do {
        p1 \<leftarrow> (if l_size (bv_item v) > 0 \<and> bv_cap v > 0
               then do { l \<leftarrow> bv_layout (bv_item v) (bv_cap v); deallocate p t (bv_data v) l }
               else Some p);
        p2 \<leftarrow> (case bv_scratch v of
                 None \<Rightarrow> Some p1
               | Some a \<Rightarrow> do { l \<leftarrow> scratch_layout v; deallocate p1 t a l });
        Some (d, p2)
      })"

subsection \<open>The live values\<close>

definition live_rows :: "blob_vec \<Rightarrow> item list" where
  "live_rows v = map (bv_read v) [0..<bv_len v]"

lemma live_rows_basic [simp]:
  "length (live_rows v) = bv_len v" "i < bv_len v \<Longrightarrow> live_rows v ! i = bv_read v i"
  by (simp_all add: live_rows_def)

lemma live_rows_cong:
  "bv_len w = bv_len v \<Longrightarrow> bv_item w = bv_item v \<Longrightarrow> (\<And>i. i < bv_len v \<Longrightarrow> bv_rows w i = bv_rows v i) \<Longrightarrow> live_rows w = live_rows v"
  by (simp add: live_rows_def bv_read_def)

lemma live_rows_other [simp]:
  "live_rows (v\<lparr>bv_tick := c\<rparr>) = live_rows v" "live_rows (v\<lparr>bv_dirty := d\<rparr>) = live_rows v"
  "live_rows (v\<lparr>bv_slot := x\<rparr>) = live_rows v" "live_rows (v\<lparr>bv_scratch := s\<rparr>) = live_rows v"
  "live_rows (v\<lparr>bv_data := a\<rparr>) = live_rows v" "live_rows (v\<lparr>bv_cap := n\<rparr>) = live_rows v"
  by (simp_all add: live_rows_def bv_read_def cong: map_cong)

text \<open>The three structural removals of the source are one operation.\<close>

lemma removal_eq: "swap_remove_no_drop = commit_extracted_swap" "remove_guard = commit_extracted_swap"
  by (auto simp: fun_eq_iff swap_remove_no_drop_def remove_guard_def commit_extracted_swap_def)

lemma live_commit:
  "row < bv_len v \<Longrightarrow> live_rows (commit_extracted_swap v row) = swap_remove row (live_rows v)"
  by (intro nth_equalityI)
    (auto simp: commit_extracted_swap_def Let_def live_rows_def bv_read_def nth_swap_remove last_map last_conv_nth)

lemma live_write:
  "row < bv_len v \<Longrightarrow> (l_size (bv_item v) = 0 \<Longrightarrow> x = []) \<Longrightarrow> live_rows (bv_write v row x) = (live_rows v)[row := x]"
  by (intro nth_equalityI) (auto simp: bv_write_def live_rows_def bv_read_def nth_list_update)

text \<open>The batch despawn of the world overwrites the row from the last one and then shrinks.\<close>

lemma live_copy_set_len:
  assumes "row < bv_len v"
  shows "live_rows (bv_set_len (if row < bv_len v - 1 then copy_unchecked v (bv_len v - 1) row else v) (bv_len v - 1))
    = swap_remove row (live_rows v)"
  using assms
  by (intro nth_equalityI)
    (auto simp: copy_unchecked_def bv_set_len_def Let_def live_rows_def bv_read_def nth_swap_remove last_map last_conv_nth)

text \<open>Growth leaves the values alone.\<close>

definition same_values :: "blob_vec \<Rightarrow> blob_vec \<Rightarrow> bool" where
  "same_values v w \<longleftrightarrow> bv_item w = bv_item v \<and> bv_drop_fn w = bv_drop_fn v \<and> bv_len w = bv_len v
     \<and> bv_rows w = bv_rows v \<and> bv_dirty w = bv_dirty v \<and> bv_tick w = bv_tick v"

lemma same_values_live: "same_values v w \<Longrightarrow> live_rows w = live_rows v"
  by (simp add: same_values_def live_rows_def bv_read_def cong: map_cong)

definition has_scratch :: "blob_vec \<Rightarrow> bool" where
  "has_scratch v \<longleftrightarrow> bv_scratch v \<noteq> None"

lemma has_scratch_upd [simp]:
  "has_scratch (v\<lparr>bv_data := a\<rparr>) = has_scratch v" "has_scratch (v\<lparr>bv_cap := n\<rparr>) = has_scratch v"
  "has_scratch (v\<lparr>bv_rows := f\<rparr>) = has_scratch v" "has_scratch (v\<lparr>bv_len := n\<rparr>) = has_scratch v"
  "has_scratch (v\<lparr>bv_dirty := d\<rparr>) = has_scratch v" "has_scratch (v\<lparr>bv_slot := x\<rparr>) = has_scratch v"
  "has_scratch (v\<lparr>bv_tick := c\<rparr>) = has_scratch v" "has_scratch (v\<lparr>bv_scratch := Some s\<rparr>)"
  by (simp_all add: has_scratch_def)

text \<open>Growth that succeeds, or fails, leaves values, buffer and capacity in place and ends with a scratch slot or not.\<close>

definition grown :: "blob_vec \<Rightarrow> bool \<Rightarrow> blob_vec \<Rightarrow> bool" where
  "grown v ok w \<longleftrightarrow> same_values v w \<and> bv_cap w = bv_cap v \<and> bv_data w = bv_data v
     \<and> (ok \<and> needs_scratch v \<longrightarrow> has_scratch w) \<and> (has_scratch v \<longrightarrow> has_scratch w)"

lemma ensure_scratch_grown:
  "try_ensure_scratch t p v = Some (r, q, w) \<Longrightarrow> grown v (r = Inr ()) w"
  by (auto simp: try_ensure_scratch_def grown_def same_values_def has_scratch_def split: bind_splits if_splits sum.splits)

lemma grown_mono: "grown v ok w \<Longrightarrow> (ok' \<Longrightarrow> ok) \<Longrightarrow> grown v ok' w"
  by (auto simp: grown_def)

lemma grow_allocation_grown:
  assumes "grow_allocation t p v l = Some (r, q, w)"
  shows "grown v (\<exists>a. r = Inr a) w"
proof -
  obtain r1 p1 v1 where e: "try_ensure_scratch t p v = Some (r1, p1, v1)" "w = v1" "\<exists>a. r = Inr a \<Longrightarrow> r1 = Inr ()"
    using assms by (auto simp: grow_allocation_def split: bind_splits sum.splits)
  show ?thesis using ensure_scratch_grown [OF e(1)] e(2,3) by (auto intro: grown_mono)
qed

text \<open>What the column's own fields guarantee: rows fit the buffer, and a buffer of droppable values comes with a scratch slot.\<close>

definition col_ok :: "layout \<Rightarrow> bool \<Rightarrow> blob_vec \<Rightarrow> bool" where
  "col_ok item df v \<longleftrightarrow> bv_item v = item \<and> bv_drop_fn v = df
     \<and> (l_size item > 0 \<longrightarrow> bv_len v \<le> bv_cap v \<and> (df \<and> bv_cap v > 0 \<longrightarrow> has_scratch v))"

lemma grown_col_ok: "grown v ok w \<Longrightarrow> col_ok item df v \<Longrightarrow> col_ok item df w"
  by (auto simp: grown_def col_ok_def same_values_def)

lemma grown_new_cap:
  "grown v True w \<Longrightarrow> col_ok item df v \<Longrightarrow> bv_len v \<le> n \<Longrightarrow> col_ok item df (w\<lparr>bv_data := a, bv_cap := n\<rparr>)"
  by (auto simp: grown_def col_ok_def same_values_def needs_scratch_def)

lemma grown_values: "grown v ok w \<Longrightarrow> same_values v w"
  by (simp add: grown_def)

lemma same_values_buffer [simp]: "same_values v (w\<lparr>bv_data := a, bv_cap := n\<rparr>) = same_values v w"
  by (simp add: same_values_def)

lemma bv_grow_values:
  assumes "bv_grow t p v = Some (q, w)" "col_ok item df v" "l_size item > 0"
  shows "same_values v w \<and> col_ok item df w \<and> bv_cap v < bv_cap w"
proof -
  define n where "n = (if bv_cap v = 0 then 4 else bv_cap v * 2)"
  have n: "bv_cap v < n" by (simp add: n_def)
  have "l_size (bv_item v) \<noteq> 0" using assms(2,3) by (simp add: col_ok_def)
  then obtain l r q' u where "grow_allocation t p v l = Some (r, q', u)"
    "(case r of Inl e \<Rightarrow> None | Inr a \<Rightarrow> Some (q', u\<lparr>bv_data := a, bv_cap := n\<rparr>)) = Some (q, w)"
    using assms(1) by (auto simp: bv_grow_def Let_def n_def [symmetric] split: bind_splits)
  then obtain a where g: "grow_allocation t p v l = Some (Inr a, q, u)" "w = u\<lparr>bv_data := a, bv_cap := n\<rparr>"
    by (auto split: sum.splits)
  have gr: "grown v True u" using grow_allocation_grown [OF g(1)] by simp
  have "bv_len v \<le> n" using n assms(2,3) by (auto simp: col_ok_def)
  with grown_new_cap [OF gr assms(2)] grown_values [OF gr] g(2) n show ?thesis by auto
qed

lemma double_until_ge:
  assumes "double_until c n = Some m"
  shows "n \<le> m \<and> c \<le> m"
proof (rule double_until.raw_induct [OF _ assms])
  fix f c n m
  assume "\<And>c n m. f c n = Some m \<Longrightarrow> n \<le> m \<and> c \<le> m"
    and "(if c < n then if USIZE_MAX < c * 2 then None else f (c * 2) n else Some c) = Some m"
  then show "n \<le> m \<and> c \<le> m" by (fastforce split: if_splits)
qed

lemma bv_try_reserve_values:
  assumes "bv_try_reserve t p v n = Some (r, q, w)" "col_ok item df v"
  shows "same_values v w \<and> col_ok item df w \<and> (r = Inr () \<and> l_size item > 0 \<longrightarrow> bv_len v + n \<le> bv_cap w)
    \<and> (r \<noteq> Inr () \<longrightarrow> bv_cap w = bv_cap v \<and> bv_data w = bv_data v)"
proof (cases "bv_len v + n \<le> bv_cap v \<or> l_size item = 0")
  case True
  then show ?thesis using assms by (auto simp: bv_try_reserve_def col_ok_def same_values_def Let_def split: if_splits)
next
  case False
  obtain l r1 u m where g: "grow_allocation t p v l = Some (r1, q, u)"
    "double_until (if bv_cap v = 0 then 4 else bv_cap v) (bv_len v + n) = Some m"
    "case r1 of Inl e \<Rightarrow> r = Inl e \<and> w = u | Inr a \<Rightarrow> r = Inr () \<and> w = u\<lparr>bv_data := a, bv_cap := m\<rparr>"
    using assms False
    by (auto simp: bv_try_reserve_def col_ok_def Let_def split: bind_splits if_splits) (auto split: sum.splits)
  have m: "bv_len v + n \<le> m" using double_until_ge [OF g(2)] by simp
  note gr = grow_allocation_grown [OF g(1)]
  show ?thesis
  proof (cases r1)
    case (Inl e)
    then show ?thesis using g(3) grown_col_ok [OF gr assms(2)] grown_values [OF gr] gr by (auto simp: grown_def)
  next
    case (Inr a)
    then have "grown v True u" using gr by simp
    from grown_new_cap [OF this assms(2), of m] grown_values [OF this] m g(3) Inr show ?thesis by simp
  qed
qed

lemma bv_reserve_values:
  assumes "bv_reserve t p v n = Some (q, w)" "col_ok item df v"
  shows "same_values v w \<and> col_ok item df w \<and> (l_size item > 0 \<longrightarrow> bv_len v + n \<le> bv_cap w)"
proof -
  obtain r where r: "bv_try_reserve t p v n = Some (r, q, w)" "r = Inr ()"
    using assms(1) by (auto simp: bv_reserve_def split: bind_splits sum.splits)
  from bv_try_reserve_values [OF r(1) assms(2)] r(2) show ?thesis by simp
qed

lemma bv_push_live:
  assumes "bv_push t p v x = Some (q, w)" "col_ok item df v" "l_size item = 0 \<Longrightarrow> x = []"
  shows "live_rows w = live_rows v @ [x] \<and> col_ok item df w \<and> bv_dirty w = mark_row (bv_dirty v) (bv_len v)"
proof -
  obtain u where u: "(if bv_len v = bv_cap v then bv_grow t p v else Some (p, v)) = Some (q, u)"
    "w = (bv_write u (bv_len u) x)\<lparr>bv_len := bv_len u + 1, bv_dirty := mark_row (bv_dirty (bv_write u (bv_len u) x)) (bv_len u)\<rparr>"
    using assms(1) by (auto simp: bv_push_def Let_def split: bind_splits)
  have uv: "same_values v u \<and> col_ok item df u \<and> (l_size item > 0 \<longrightarrow> bv_len u < bv_cap u)"
  proof (cases "bv_len v = bv_cap v \<and> l_size item > 0")
    case True
    then show ?thesis using bv_grow_values [of t p v q u item df] u(1) assms(2) by (auto simp: same_values_def)
  next
    case False
    then show ?thesis using u(1) assms(2) by (auto simp: same_values_def col_ok_def bv_grow_def split: if_splits)
  qed
  have "live_rows w = live_rows u @ [x]"
    using uv assms(3) by (auto simp: u(2) live_rows_def bv_read_def bv_write_def col_ok_def)
  then show ?thesis using uv same_values_live [of v u]
    by (auto simp: u(2) col_ok_def same_values_def bv_write_def)
qed

lemma bv_push_values:
  "bv_push t p v x = Some (q, w) \<Longrightarrow> col_ok item df v \<Longrightarrow> length x = l_size item \<Longrightarrow>
   live_rows w = live_rows v @ [x] \<and> col_ok item df w \<and> bv_dirty w = mark_row (bv_dirty v) (bv_len v)"
  by (erule (1) bv_push_live) simp

lemma append_values:
  assumes "append_bytes_unchecked t p v bytes count = Some (q, w)" "col_ok item df v"
  shows "live_rows w = live_rows v @ map (chunk (l_size item) bytes) [0..<count] \<and> col_ok item df w \<and> bv_dirty w = bv_dirty v"
proof (cases "l_size item = 0")
  case True
  then have w: "w = v\<lparr>bv_len := bv_len v + count\<rparr>" "bv_item v = item"
    using assms by (auto simp: append_bytes_unchecked_def col_ok_def)
  then have "live_rows w = live_rows v @ map (chunk (l_size item) bytes) [0..<count]"
    using True by (intro nth_equalityI) (simp_all add: live_rows_def bv_read_def chunk_def nth_append)
  then show ?thesis using w True assms(2) by (simp add: col_ok_def)
next
  case False
  then obtain u where u: "bv_reserve t p v count = Some (q, u)"
    "w = u\<lparr>bv_rows := (\<lambda>r. if bv_len u \<le> r \<and> r < bv_len u + count then chunk (l_size item) bytes (r - bv_len u) else bv_rows u r),
           bv_len := bv_len u + count\<rparr>"
    using assms by (auto simp: append_bytes_unchecked_def Let_def col_ok_def split: bind_splits if_splits)
  note uv = bv_reserve_values [OF u(1) assms(2)]
  have "live_rows w = live_rows u @ map (chunk (l_size item) bytes) [0..<count]"
    using uv False by (intro nth_equalityI) (auto simp: u(2) live_rows_def bv_read_def col_ok_def nth_append)
  then show ?thesis using uv same_values_live [of v u] False by (auto simp: u(2) col_ok_def same_values_def)
qed

end
