(* ===== verification/Blob_Vec_Spec.thy ===== *)
theory Blob_Vec_Spec
  imports Blob_Vec "HOL-Library.Multiset"
begin

text \<open>
  The column as a list of owned values. Every operation of a column (push, bulk append,
  reservation, removal with and without drop, overwrite, the two despawn protocols of the
  world) refines an operation on the list of its live values and answers which values were
  dropped and which moved out; ownership is conserved over whole histories whatever the
  destructors do. The second half places the column's buffer and scratch slot in the pool.
\<close>

subsection \<open>Operations\<close>

datatype col_op =
    CPush item | CAppend "8 word list" nat | CReserve nat
  | CDrop nat | CMove nat | CReplace nat item | CDespawn nat | CDespawnBatch nat
  | CTouch nat tick | CTouchAll

text \<open>An answer: the values dropped, the values moved out, and whether a destructor unwound.\<close>

type_synonym col_answer = "item list \<times> item list \<times> bool"

text \<open>\<open>World::despawn\<close> and \<open>World::despawn_batch\<close> on one column.\<close>

definition despawn_row :: "(item \<Rightarrow> bool) \<Rightarrow> blob_vec \<Rightarrow> nat \<Rightarrow> ((item list \<times> bool) \<times> blob_vec) option" where
  "despawn_row boom v row =
     do { (es, v1) \<leftarrow> begin_extract_swap v row;
          let v2 = commit_extracted_swap v1 row;
          Some (fst (drop_value boom v2 es), v2) }"

definition despawn_row_batch :: "(item \<Rightarrow> bool) \<Rightarrow> blob_vec \<Rightarrow> nat \<Rightarrow> ((item list \<times> bool) \<times> blob_vec) option" where
  "despawn_row_batch boom v row =
     (let last_row = bv_len v - 1 in
      do { (es, v1) \<leftarrow> begin_extract_swap v row;
           let v2 = (if row < last_row then copy_unchecked v1 last_row row else v1);
           let v3 = bv_set_len v2 last_row;
           Some (fst (drop_value boom v3 es), v3) })"

fun col_step :: "(item \<Rightarrow> bool) \<Rightarrow> nat \<Rightarrow> col_op \<Rightarrow> slab_pool \<times> blob_vec \<Rightarrow> (col_answer \<times> slab_pool \<times> blob_vec) option" where
  "col_step boom t (CPush x) (p, v) = map_option (Pair ([], [], False)) (bv_push t p v x)"
| "col_step boom t (CAppend bytes n) (p, v) = map_option (Pair ([], [], False)) (append_bytes_unchecked t p v bytes n)"
| "col_step boom t (CReserve n) (p, v) = map_option (\<lambda>(r, pv). (([], [], False), pv)) (bv_try_reserve t p v n)"
| "col_step boom t (CDrop i) (p, v) = (let ((ds, u), w) = bv_swap_remove boom v i in Some ((ds, [], u), p, w))"
| "col_step boom t (CMove i) (p, v) = Some (([], [bv_read v i], False), p, swap_remove_no_drop v i)"
| "col_step boom t (CReplace i x) (p, v) = map_option (\<lambda>((ds, u), w). ((ds, [], u), p, w)) (replace_protected boom v i x)"
| "col_step boom t (CDespawn i) (p, v) = map_option (\<lambda>((ds, u), w). ((ds, [], u), p, w)) (despawn_row boom v i)"
| "col_step boom t (CDespawnBatch i) (p, v) = map_option (\<lambda>((ds, u), w). ((ds, [], u), p, w)) (despawn_row_batch boom v i)"
| "col_step boom t (CTouch i c) (p, v) = Some (([], [], False), p, get_ptr_mut v i c)"
| "col_step boom t CTouchAll (p, v) = Some (([], [], False), p, mark_all_pages_dirty v)"

text \<open>The specification on the list of live values; \<open>item\<close> and \<open>df\<close> are the column's type.\<close>

definition destroyed :: "(item \<Rightarrow> bool) \<Rightarrow> bool \<Rightarrow> item \<Rightarrow> col_answer" where
  "destroyed boom df x = (if df then ([x], [], boom x) else ([], [], False))"

fun col_spec :: "(item \<Rightarrow> bool) \<Rightarrow> layout \<Rightarrow> bool \<Rightarrow> col_op \<Rightarrow> item list \<Rightarrow> col_answer \<times> item list" where
  "col_spec boom item df (CPush x) xs = (([], [], False), xs @ [x])"
| "col_spec boom item df (CAppend bytes n) xs = (([], [], False), xs @ map (chunk (l_size item) bytes) [0..<n])"
| "col_spec boom item df (CReserve n) xs = (([], [], False), xs)"
| "col_spec boom item df (CDrop i) xs = (destroyed boom df (xs ! i), swap_remove i xs)"
| "col_spec boom item df (CMove i) xs = (([], [xs ! i], False), swap_remove i xs)"
| "col_spec boom item df (CReplace i x) xs = (destroyed boom (df \<and> l_size item > 0) (xs ! i), xs[i := x])"
| "col_spec boom item df (CDespawn i) xs = (destroyed boom (df \<and> l_size item > 0) (xs ! i), swap_remove i xs)"
| "col_spec boom item df (CDespawnBatch i) xs = (destroyed boom (df \<and> l_size item > 0) (xs ! i), swap_remove i xs)"
| "col_spec boom item df (CTouch i c) xs = (([], [], False), xs)"
| "col_spec boom item df CTouchAll xs = (([], [], False), xs)"

text \<open>The \<^verbatim>\<open>unsafe\<close> contracts: rows in bounds, values of the column's layout.\<close>

fun col_pre :: "layout \<Rightarrow> col_op \<Rightarrow> item list \<Rightarrow> bool" where
  "col_pre item (CPush x) xs = (length x = l_size item)"
| "col_pre item (CAppend bytes n) xs = (length bytes = n * l_size item)"
| "col_pre item (CReserve n) xs = True"
| "col_pre item (CDrop i) xs = (i < length xs)"
| "col_pre item (CMove i) xs = (i < length xs)"
| "col_pre item (CReplace i x) xs = (i < length xs \<and> length x = l_size item)"
| "col_pre item (CDespawn i) xs = (i < length xs)"
| "col_pre item (CDespawnBatch i) xs = (i < length xs)"
| "col_pre item (CTouch i c) xs = (i < length xs)"
| "col_pre item CTouchAll xs = True"

lemma live_fold_dirty [simp]: "live_rows (mark_all_pages_dirty v) = live_rows v"
  by (simp add: mark_all_pages_dirty_def Let_def)

lemma col_ok_touched [simp]: "col_ok item df (mark_all_pages_dirty v) = col_ok item df v"
  by (simp add: mark_all_pages_dirty_def col_ok_def Let_def)

lemma commit_col_ok: "col_ok item df v \<Longrightarrow> row < bv_len v \<Longrightarrow> col_ok item df (commit_extracted_swap v row)"
  by (auto simp: col_ok_def commit_extracted_swap_def Let_def)

lemma begin_extract:
  assumes "col_ok item df v" "row < bv_len v"
  shows "\<exists>es w. begin_extract_swap v row = Some (es, w) \<and> col_ok item df w \<and> live_rows w = live_rows v \<and> bv_len w = bv_len v
    \<and> (\<forall>u. bv_slot u = bv_slot w \<longrightarrow>
         fst (drop_value boom u es) = (if df \<and> l_size item > 0 then ([live_rows v ! row], boom (live_rows v ! row)) else ([], False)))"
proof (cases "needs_scratch v")
  case True
  then obtain a where "bv_scratch v = Some a" using assms by (auto simp: col_ok_def needs_scratch_def has_scratch_def)
  then show ?thesis using True assms
    by (auto simp: begin_extract_swap_def col_ok_def needs_scratch_def drop_value_def drop_one_def bv_read_def)
next
  case False
  then show ?thesis using assms
    by (auto simp: begin_extract_swap_def col_ok_def needs_scratch_def drop_value_def)
qed

lemma slot_upd [simp]:
  "bv_slot (commit_extracted_swap v row) = bv_slot v" "bv_slot (copy_unchecked v i j) = bv_slot v"
  "bv_slot (bv_set_len v n) = bv_slot v"
  by (simp_all add: commit_extracted_swap_def copy_unchecked_def bv_set_len_def Let_def)

lemma despawn_row_ok:
  assumes "col_ok item df v" "row < bv_len v"
  shows "\<exists>w. despawn_row boom v row = Some (if df \<and> l_size item > 0 then ([live_rows v ! row], boom (live_rows v ! row)) else ([], False), w)
    \<and> col_ok item df w \<and> live_rows w = swap_remove row (live_rows v)"
proof -
  obtain es u where u: "begin_extract_swap v row = Some (es, u)" "col_ok item df u" "live_rows u = live_rows v" "bv_len u = bv_len v"
    "\<And>w. bv_slot w = bv_slot u \<Longrightarrow> fst (drop_value boom w es) = (if df \<and> l_size item > 0 then ([live_rows v ! row], boom (live_rows v ! row)) else ([], False))"
    using begin_extract [OF assms] by blast
  then show ?thesis using commit_col_ok [OF u(2)] live_commit [of row u] assms(2)
    by (auto simp: despawn_row_def Let_def)
qed

lemma despawn_row_batch_ok:
  assumes "col_ok item df v" "row < bv_len v"
  shows "\<exists>w. despawn_row_batch boom v row = Some (if df \<and> l_size item > 0 then ([live_rows v ! row], boom (live_rows v ! row)) else ([], False), w)
    \<and> col_ok item df w \<and> live_rows w = swap_remove row (live_rows v)"
proof -
  obtain es u where u: "begin_extract_swap v row = Some (es, u)" "col_ok item df u" "live_rows u = live_rows v" "bv_len u = bv_len v"
    "\<And>w. bv_slot w = bv_slot u \<Longrightarrow> fst (drop_value boom w es) = (if df \<and> l_size item > 0 then ([live_rows v ! row], boom (live_rows v ! row)) else ([], False))"
    using begin_extract [OF assms] by blast
  let ?w = "bv_set_len (if row < bv_len u - 1 then copy_unchecked u (bv_len u - 1) row else u) (bv_len u - 1)"
  have "col_ok item df ?w" using u(2) by (auto simp: col_ok_def copy_unchecked_def bv_set_len_def)
  moreover have "live_rows ?w = swap_remove row (live_rows v)" using live_copy_set_len [of row u] u(3,4) assms(2) by simp
  moreover have "bv_slot ?w = bv_slot u" by simp
  ultimately show ?thesis using u(1,4) u(5) [of ?w] by (auto simp: despawn_row_batch_def Let_def)
qed

lemma replace_protected_live:
  assumes "col_ok item df v" "row < bv_len v" "l_size item = 0 \<Longrightarrow> x = []"
  shows "\<exists>w. replace_protected boom v row x = Some (if df \<and> l_size item > 0 then ([live_rows v ! row], boom (live_rows v ! row)) else ([], False), w)
    \<and> col_ok item df w \<and> live_rows w = (live_rows v)[row := x]"
proof (cases "needs_scratch v")
  case True
  then obtain a where a: "bv_scratch v = Some a" using assms by (auto simp: col_ok_def needs_scratch_def has_scratch_def)
  have "live_rows (v\<lparr>bv_slot := bv_rows v row, bv_rows := (bv_rows v)(row := x)\<rparr>) = (live_rows v)[row := x]"
    using True assms(2) by (intro nth_equalityI) (auto simp: live_rows_def bv_read_def needs_scratch_def nth_list_update)
  then show ?thesis using True a assms
    by (auto simp: replace_protected_def col_ok_def needs_scratch_def drop_one_def bv_read_def Let_def)
next
  case False
  then have "replace_protected boom v row x = Some (([], False), bv_write v row x)" by (simp add: replace_protected_def)
  moreover have "col_ok item df (bv_write v row x)" using assms(1) by (auto simp: bv_write_def col_ok_def)
  moreover have "live_rows (bv_write v row x) = (live_rows v)[row := x]"
    using assms by (intro live_write) (auto simp: col_ok_def)
  ultimately show ?thesis using False assms(1) by (auto simp: needs_scratch_def col_ok_def)
qed

lemma replace_protected_ok:
  "col_ok item df v \<Longrightarrow> row < bv_len v \<Longrightarrow> length x = l_size item \<Longrightarrow>
   \<exists>w. replace_protected boom v row x = Some (if df \<and> l_size item > 0 then ([live_rows v ! row], boom (live_rows v ! row)) else ([], False), w)
    \<and> col_ok item df w \<and> live_rows w = (live_rows v)[row := x]"
  by (erule (1) replace_protected_live) simp

lemma col_step_sim:
  assumes ok: "col_ok item df v" and pre: "col_pre item a (live_rows v)" and st: "col_step boom t a (p, v) = Some (r, q, w)"
  shows "col_ok item df w \<and> col_spec boom item df a (live_rows v) = (r, live_rows w)"
proof (cases a)
  case (CPush x)
  then show ?thesis using bv_push_values [OF _ ok, of t p x q w] pre st by auto
next
  case (CAppend bytes n)
  then show ?thesis using append_values [OF _ ok, of t p bytes n q w] pre st by auto
next
  case (CReserve n)
  then show ?thesis using bv_try_reserve_values [OF _ ok, of t p n _ q w] pre st same_values_live [of v w] by auto
next
  case (CDrop i)
  then show ?thesis using pre st ok commit_col_ok [OF ok, of i] live_commit [of i v]
    by (auto simp: bv_swap_remove_def removal_eq destroyed_def drop_one_def col_ok_def Let_def split: if_splits)
next
  case (CMove i)
  then show ?thesis using pre st commit_col_ok [OF ok, of i] live_commit [of i v] by (auto simp: removal_eq)
next
  case (CReplace i x)
  then show ?thesis using replace_protected_ok [OF ok, of i x boom] pre st by (auto simp: destroyed_def)
next
  case (CDespawn i)
  then show ?thesis using despawn_row_ok [OF ok, of i boom] pre st by (auto simp: destroyed_def)
next
  case (CDespawnBatch i)
  then show ?thesis using despawn_row_batch_ok [OF ok, of i boom] pre st by (auto simp: destroyed_def)
next
  case (CTouch i c)
  then show ?thesis using st ok by (auto simp: get_ptr_mut_def col_ok_def live_rows_def bv_read_def)
next
  case CTouchAll
  then show ?thesis using st ok by auto
qed

interpretation column: simulation "col_step boom t" "col_spec boom item df" "col_pre item"
    "\<lambda>(p, v). col_ok item df v" "\<lambda>(p, v). live_rows v"
  for boom t item df
  by unfold_locales (use col_step_sim in \<open>auto split: prod.splits\<close>)

subsection \<open>Ownership\<close>

definition taken_in :: "layout \<Rightarrow> col_op \<Rightarrow> item multiset" where
  "taken_in item a = (case a of CPush x \<Rightarrow> {#x#} | CAppend bytes n \<Rightarrow> mset (map (chunk (l_size item) bytes) [0..<n])
     | CReplace i x \<Rightarrow> {#x#} | _ \<Rightarrow> {#})"

definition given_up :: "col_answer \<Rightarrow> item multiset" where
  "given_up r = mset (fst r) + mset (fst (snd r))"

lemma mset_swap_remove: "i < length xs \<Longrightarrow> mset (swap_remove i xs) + {#xs ! i#} = mset xs"
proof -
  assume i: "i < length xs"
  let ?ys = "xs[i := last xs]"
  have ne: "?ys \<noteq> []" using i by auto
  have "mset ?ys = mset (butlast ?ys) + {#last ?ys#}" by (metis append_butlast_last_id mset_append mset_single_iff ne mset.simps)
  moreover have "last ?ys = last xs" by (cases xs rule: rev_cases) (auto simp: list_update_append split: nat.splits)
  moreover have "mset ?ys = mset xs - {#xs ! i#} + {#last xs#}" using i by (simp add: mset_update)
  ultimately have "mset (swap_remove i xs) = mset xs - {#xs ! i#}" by (simp add: swap_remove_def)
  then show ?thesis using i by simp
qed

lemma spec_step_owned:
  assumes "col_pre item a xs" "l_size item > 0"
  shows "mset (snd (col_spec boom item True a xs)) + given_up (fst (col_spec boom item True a xs)) = mset xs + taken_in item a"
  using assms mset_swap_remove
  by (cases a) (auto simp: given_up_def taken_in_def destroyed_def mset_update)

lemma spec_run_owned:
  "spec_allows (col_pre item) (col_spec boom item True) as xs \<Longrightarrow> l_size item > 0 \<Longrightarrow>
   spec_answers (col_spec boom item True) as xs = (rs, ys) \<Longrightarrow>
   mset ys + (\<Sum>r\<leftarrow>rs. given_up r) = mset xs + (\<Sum>a\<leftarrow>as. taken_in item a)"
proof (induction as arbitrary: xs rs)
  case (Cons a as)
  obtain r zs where s: "col_spec boom item True a xs = (r, zs)" by (rule prod.exhaust)
  obtain rs' us where t: "spec_answers (col_spec boom item True) as zs = (rs', us)" by (rule prod.exhaust)
  have "mset ys + (\<Sum>r\<leftarrow>rs'. given_up r) = mset zs + (\<Sum>a\<leftarrow>as. taken_in item a)"
    using Cons.IH [of zs rs'] Cons.prems s t by (auto simp: Let_def)
  moreover have "mset zs + given_up r = mset xs + taken_in item a"
    using spec_step_owned [of item a xs boom] Cons.prems s by auto
  ultimately show ?case using Cons.prems(3) s t by (auto simp: Let_def ac_simps)
qed simp

abbreviation column_run :: "(item \<Rightarrow> bool) \<Rightarrow> nat \<Rightarrow> layout \<Rightarrow> col_op list \<Rightarrow> slab_pool \<times> blob_vec
    \<Rightarrow> (col_answer list \<times> slab_pool \<times> blob_vec) option" where
  "column_run boom t item \<equiv> run_answers (guarded (col_pre item) (\<lambda>(p, v). live_rows v) (col_step boom t))"

lemma bv_new_ok:
  assumes "bv_new t p item df n = Some (q, v)"
  shows "col_ok item df v \<and> live_rows v = [] \<and> bv_dirty v = dt_new"
proof -
  define G where "G p1 data cap = (let v = bv_init item df data cap in
       if cap > 0
       then do { (r, p2, v2) \<leftarrow> try_ensure_scratch t p1 v;
                 (case r of Inl e \<Rightarrow> None | Inr _ \<Rightarrow> Some (p2, v2)) }
       else Some (p1, v))" for p1 data cap
  obtain p1 data cap where g: "G p1 data cap = Some (q, v)"
    using assms unfolding bv_new_def G_def [symmetric] bind_eq_Some_conv by (auto split: prod.splits)
  have "cap > 0 \<longrightarrow> (\<exists>r. try_ensure_scratch t p1 (bv_init item df data cap) = Some (r, q, v) \<and> r = Inr ())"
    "cap = 0 \<longrightarrow> v = bv_init item df data cap"
    using g by (auto simp: G_def Let_def split: bind_splits sum.splits if_splits)
  note d = this
  have "grown (bv_init item df data cap) (cap > 0) v"
  proof (cases "cap > 0")
    case True
    with d obtain r where "try_ensure_scratch t p1 (bv_init item df data cap) = Some (r, q, v)" "r = Inr ()" by auto
    with ensure_scratch_grown [OF this(1)] True show ?thesis by simp
  qed (use d in \<open>auto simp: grown_def same_values_def\<close>)
  then show ?thesis by (auto simp: grown_def same_values_def col_ok_def live_rows_def needs_scratch_def bv_init_def)
qed

lemma column_run_values:
  assumes "column_run boom t item ops (p, v) = Some (rs, q, w)" "col_ok item df v"
  shows "col_ok item df w \<and> spec_answers (col_spec boom item df) ops (live_rows v) = (rs, live_rows w)
    \<and> spec_allows (col_pre item) (col_spec boom item df) ops (live_rows v)"
  using column.run_guarded [of item df "(p, v)" boom t ops rs "(q, w)"]
    column.guarded_allows [of item df "(p, v)" boom t ops rs "(q, w)"] assms by simp

lemma drop_rows_prefix: "\<exists>zs. xs = fst (drop_rows boom xs) @ zs \<and> (\<not> snd (drop_rows boom xs) \<longrightarrow> zs = [])"
  by (induction xs) (auto simp: Let_def split: prod.splits)

lemma drop_rows_calm: "(\<And>x. \<not> boom x) \<Longrightarrow> drop_rows boom xs = (xs, False)"
  by (induction xs) auto


text \<open>A column of one-byte droppable values with room for eight rows.\<close>

definition byte_column :: "bool \<Rightarrow> blob_vec" where
  "byte_column df = (bv_init \<lparr>l_size = 1, l_align = 1\<rparr> df (At 0) 8)\<lparr>bv_scratch := Some (At 4096)\<rparr>"

lemma byte_column_ok: "col_ok \<lparr>l_size = 1, l_align = 1\<rparr> df (byte_column df)"
  by (simp add: col_ok_def byte_column_def bv_init_def has_scratch_def)

definition byte_ops :: "col_op list" where
  "byte_ops = [CPush [1], CPush [2], CPush [7], CReplace 0 [9], CDespawn 2, CDrop 0, CMove 0]"


text \<open>Operations that never allocate.\<close>

fun in_place :: "col_op \<Rightarrow> bool" where
  "in_place (CPush x) = False"
| "in_place (CAppend bytes n) = False"
| "in_place (CReserve n) = False"
| "in_place _ = True"

lemma in_place_step:
  assumes "col_ok item df v" "in_place a" "col_pre item a (live_rows v)"
  shows "\<exists>r w. col_step boom t a (p, v) = Some (r, p, w)"
proof (cases a)
  case (CReplace i x)
  then show ?thesis using replace_protected_ok [OF assms(1), of i x boom] assms(3) by auto
next
  case (CDespawn i)
  then show ?thesis using despawn_row_ok [OF assms(1), of i boom] assms(3) by auto
next
  case (CDespawnBatch i)
  then show ?thesis using despawn_row_batch_ok [OF assms(1), of i boom] assms(3) by auto
qed (use assms(2) in \<open>auto split: prod.splits\<close>)

text \<open>
  (C29) Overwrites and despawns are infallible. In every state a column can reach they neither
  abort - the resident scratch slot is always there when they need it - nor touch the pool.
\<close>

theorem column_overwrite_infallible:
  assumes "col_ok item df v" "column_run boom t item ops (q, v) = Some (rs, q', w)"
    and "in_place a" "col_pre item a (live_rows w)"
  shows "\<exists>r u. col_step boom t a (q', w) = Some (r, q', u)"
  using in_place_step [OF _ assms(3,4), of df boom t q'] column_run_values [OF assms(2,1)] by blast

theorem column_overwrite_infallible_witness:
  "\<exists>q' w rs r u. column_run (\<lambda>x. True) 0 \<lparr>l_size = 1, l_align = 1\<rparr> [CPush [4]] (slab_pool_new 2097152 1, byte_column True) = Some (rs, q', w)
     \<and> col_step (\<lambda>x. True) 0 (CReplace 0 [5]) (q', w) = Some (r, q', u)"
proof -
  let ?l = "\<lparr>l_size = 1, l_align = 1\<rparr>"
  have "map_option (\<lambda>(rs, q', w). live_rows w) (column_run (\<lambda>x. True) 0 ?l [CPush [4]] (slab_pool_new 2097152 1, byte_column True)) = Some [[4]]"
    by code_simp
  then obtain rs q' w where r: "column_run (\<lambda>x. True) 0 ?l [CPush [4]] (slab_pool_new 2097152 1, byte_column True) = Some (rs, q', w)"
    "live_rows w = [[4]]" by auto
  from column_overwrite_infallible [OF byte_column_ok r(1), of "CReplace 0 [5]"] r show ?thesis by auto
qed

text \<open>
  (C32) A zero-sized component with a destructor. Neither an overwrite nor a despawn runs the
  destructor of the value it replaces or removes: over every history of pushes, overwrites
  and despawns of such a column nothing is ever dropped, although each of these values is
  gone. Only \<^verbatim>\<open>swap_remove\<close> and the drop of the column run the destructor.
\<close>

theorem zero_sized_never_dropped:
  assumes "col_ok item True v" "l_size item = 0"
    and "column_run boom t item ops (q, v) = Some (rs, q', w)"
    and "list_all (\<lambda>a. case a of CPush _ \<Rightarrow> True | CReplace _ _ \<Rightarrow> True | CDespawn _ \<Rightarrow> True | CDespawnBatch _ \<Rightarrow> True | _ \<Rightarrow> False) ops"
  shows "list_all (\<lambda>(dropped, moved, unwound). dropped = [] \<and> moved = [] \<and> \<not> unwound) rs
    \<and> length (live_rows w) + length (filter (\<lambda>a. case a of CDespawn _ \<Rightarrow> True | CDespawnBatch _ \<Rightarrow> True | _ \<Rightarrow> False) ops)
      = length (live_rows v) + length (filter (\<lambda>a. case a of CPush _ \<Rightarrow> True | _ \<Rightarrow> False) ops)"
proof -
  have run: "spec_allows (col_pre item) (col_spec boom item True) ops xs \<Longrightarrow>
    spec_answers (col_spec boom item True) ops xs = (rs, ys) \<Longrightarrow>
    list_all (\<lambda>a. case a of CPush _ \<Rightarrow> True | CReplace _ _ \<Rightarrow> True | CDespawn _ \<Rightarrow> True | CDespawnBatch _ \<Rightarrow> True | _ \<Rightarrow> False) ops \<Longrightarrow>
    list_all (\<lambda>(dropped, moved, unwound). dropped = [] \<and> moved = [] \<and> \<not> unwound) rs
    \<and> length ys + length (filter (\<lambda>a. case a of CDespawn _ \<Rightarrow> True | CDespawnBatch _ \<Rightarrow> True | _ \<Rightarrow> False) ops)
      = length xs + length (filter (\<lambda>a. case a of CPush _ \<Rightarrow> True | _ \<Rightarrow> False) ops)" for xs ys rs
  proof (induction ops arbitrary: xs rs)
    case (Cons a as)
    obtain r zs where s: "col_spec boom item True a xs = (r, zs)" by (rule prod.exhaust)
    obtain rs' us where t: "spec_answers (col_spec boom item True) as zs = (rs', us)" by (rule prod.exhaust)
    show ?case using Cons.IH [of zs rs'] Cons.prems s t assms(2)
      by (cases a) (auto simp: destroyed_def Let_def)
  qed simp
  show ?thesis using run column_run_values [OF assms(3,1)] assms(4) by blast
qed

theorem zero_sized_never_dropped_witness:
  "\<exists>q' w rs. column_run (\<lambda>x. False) 0 \<lparr>l_size = 0, l_align = 1\<rparr> [CPush [], CPush [], CReplace 0 [], CDespawn 0]
       (slab_pool_new 2097152 1, bv_init \<lparr>l_size = 0, l_align = 1\<rparr> True (Dangling 1) USIZE_MAX) = Some (rs, q', w)
     \<and> list_all (\<lambda>(dropped, moved, unwound). dropped = [] \<and> moved = [] \<and> \<not> unwound) rs
     \<and> length (live_rows w) = 1"
proof -
  let ?l = "\<lparr>l_size = 0, l_align = 1\<rparr>"
  let ?v = "bv_init ?l True (Dangling 1) USIZE_MAX"
  let ?ops = "[CPush [], CPush [], CReplace 0 [], CDespawn 0] :: col_op list"
  have "column_run (\<lambda>x. False) 0 ?l ?ops (slab_pool_new 2097152 1, ?v) \<noteq> None"
    by code_simp
  then obtain rs q' w where r: "column_run (\<lambda>x. False) 0 ?l ?ops (slab_pool_new 2097152 1, ?v) = Some (rs, q', w)" by auto
  have "col_ok ?l True ?v" by (simp add: col_ok_def bv_init_def)
  from zero_sized_never_dropped [OF this _ r] have
    "list_all (\<lambda>(dropped, moved, unwound). dropped = [] \<and> moved = [] \<and> \<not> unwound) rs" "length (live_rows w) = 1"
    by (simp_all add: live_rows_def bv_init_def)
  with r show ?thesis by blast
qed

subsection \<open>Change tracking\<close>

lemma dirty_pages_mono:
  "is_dirty d p \<Longrightarrow> is_dirty (mark_row d i) p" "is_dirty (mark_row d i) (i div 256)"
  "is_dirty d p \<Longrightarrow> is_dirty (foldl mark_page d ps) p"
  by (simp_all add: mark_row_def is_dirty_mark_page DIRTY_PAGE_SIZE_def is_dirty_foldl)

lemma commit_tracked:
  assumes "i < bv_len v"
  shows "(\<forall>row < bv_len (commit_extracted_swap v i). live_rows (commit_extracted_swap v i) ! row \<noteq> live_rows v ! row
      \<longrightarrow> is_dirty (bv_dirty (commit_extracted_swap v i)) (row div 256))
    \<and> (\<forall>pg. is_dirty (bv_dirty v) pg \<longrightarrow> is_dirty (bv_dirty (commit_extracted_swap v i)) pg)"
  using assms by (auto simp: commit_extracted_swap_def Let_def bv_read_def dirty_pages_mono)

lemma batch_tracked:
  assumes "i < bv_len v" "w = bv_set_len (if i < bv_len v - 1 then copy_unchecked v (bv_len v - 1) i else v) (bv_len v - 1)"
  shows "(\<forall>row < bv_len w. live_rows w ! row \<noteq> live_rows v ! row \<longrightarrow> is_dirty (bv_dirty w) (row div 256))
    \<and> (\<forall>pg. is_dirty (bv_dirty v) pg \<longrightarrow> is_dirty (bv_dirty w) pg)"
  using assms by (auto simp: copy_unchecked_def bv_set_len_def Let_def bv_read_def dirty_pages_mono)

definition tracked :: "blob_vec \<Rightarrow> blob_vec \<Rightarrow> bool" where
  "tracked v w \<longleftrightarrow>
     list_all (\<lambda>row. (if row < length (live_rows v) then live_rows w ! row = live_rows v ! row else False)
        \<or> is_dirty (bv_dirty w) (row div 256)) [0..<length (live_rows w)]
     \<and> (\<forall>pg. is_dirty (bv_dirty v) pg \<longrightarrow> is_dirty (bv_dirty w) pg)"

lemma trackedI:
  "(\<And>row. row < bv_len w \<Longrightarrow> row < bv_len v \<Longrightarrow> live_rows w ! row \<noteq> live_rows v ! row \<Longrightarrow> is_dirty (bv_dirty w) (row div 256)) \<Longrightarrow>
   (\<And>row. row < bv_len w \<Longrightarrow> bv_len v \<le> row \<Longrightarrow> is_dirty (bv_dirty w) (row div 256)) \<Longrightarrow>
   (\<And>pg. is_dirty (bv_dirty v) pg \<Longrightarrow> is_dirty (bv_dirty w) pg) \<Longrightarrow> tracked v w"
  by (auto simp: tracked_def list_all_iff) blast

lemma commit_len [simp]: "bv_len (commit_extracted_swap v i) = bv_len v - 1"
  by (simp add: commit_extracted_swap_def Let_def)

lemma tracked_commit: "i < bv_len v \<Longrightarrow> tracked v (commit_extracted_swap v i)"
  using commit_tracked [of i v] by (intro trackedI) auto

lemma tracked_cong: "tracked v w \<Longrightarrow> live_rows u = live_rows v \<Longrightarrow> bv_dirty u = bv_dirty v \<Longrightarrow> tracked u w"
  by (simp only: tracked_def) blast

lemma tracked_same: "live_rows w = live_rows v \<Longrightarrow> (\<And>pg. is_dirty (bv_dirty v) pg \<Longrightarrow> is_dirty (bv_dirty w) pg) \<Longrightarrow> tracked v w"
  by (auto simp: tracked_def list_all_iff)

lemma extract_keeps:
  "begin_extract_swap v i = Some (es, w) \<Longrightarrow> live_rows w = live_rows v \<and> bv_dirty w = bv_dirty v \<and> bv_len w = bv_len v"
  by (auto simp: begin_extract_swap_def split: if_splits bind_splits)



subsection \<open>The column in the pool\<close>

definition bv_buf :: "blob_vec \<Rightarrow> unit pool_vec" where
  "bv_buf v = \<lparr>pv_elems = replicate (bv_len v) (), pv_cap = bv_cap v, pv_data = bv_data v,
     pv_type = \<lparr>l_size = l_size (bv_item v), l_align = alloc_align (bv_item v)\<rparr>\<rparr>"

definition data_block :: "blob_vec \<Rightarrow> nat set" where
  "data_block v = (if l_size (bv_item v) = 0 then {} else pv_block (bv_buf v))"

definition scratch_block :: "blob_vec \<Rightarrow> nat set" where
  "scratch_block v = (case bv_scratch v of Some (At b) \<Rightarrow> {b} | _ \<Rightarrow> {})"

definition col_inv :: "slab_pool \<Rightarrow> blob_vec \<Rightarrow> bool" where
  "col_inv P v \<longleftrightarrow> (l_size (bv_item v) > 0 \<longrightarrow> vec_inv P (bv_buf v)) \<and> scratch_layout v \<noteq> None
     \<and> (l_size (bv_item v) = 0 \<longrightarrow> bv_cap v = USIZE_MAX)
     \<and> (case bv_scratch v of None \<Rightarrow> True | Some a \<Rightarrow> l_size (bv_item v) > 0 \<and> (\<exists>b. a = At b \<and> b \<in> owned P
          \<and> l_size (bv_item v) \<le> block_len (sp_inner P) b \<and> b \<notin> data_block v))"

definition col_blocks :: "blob_vec \<Rightarrow> nat set" where
  "col_blocks v = data_block v \<union> scratch_block v"

text \<open>What an operation on one column does to the pool: only the column's own blocks are exchanged.\<close>

definition col_frame :: "slab_pool \<Rightarrow> blob_vec \<Rightarrow> slab_pool \<Rightarrow> blob_vec \<Rightarrow> bool" where
  "col_frame P v Q w \<longleftrightarrow> pool_inv Q \<and> length (sp_caches Q) = length (sp_caches P) \<and> col_inv Q w
     \<and> owned Q - col_blocks w = owned P - col_blocks v \<and> same_blocks (sp_inner P) (sp_inner Q) (owned P - col_blocks v)"

lemma col_frame_refl: "pool_inv P \<Longrightarrow> col_inv P v \<Longrightarrow> col_frame P v P v"
  by (simp add: col_frame_def)

lemma col_frame_trans: "col_frame P v Q w \<Longrightarrow> col_frame Q w R u \<Longrightarrow> col_frame P v R u"
  unfolding col_frame_def using same_blocks_trans [of "sp_inner P" "sp_inner Q" _ "sp_inner R"] by auto

lemma col_blocks_owned: "col_inv P v \<Longrightarrow> col_blocks v \<subseteq> owned P"
  using vec_block [of P "bv_buf v"]
  by (auto simp: col_inv_def col_blocks_def data_block_def scratch_block_def split: option.splits ptr.splits)

lemma ensure_scratch_ok:
  assumes P: "pool_inv P" and t: "t < length (sp_caches P)" and v: "col_inv P v"
  shows "\<exists>r Q w. try_ensure_scratch t P v = Some (r, Q, w) \<and> col_frame P v Q w \<and> (\<forall>e. r = Inl e \<longrightarrow> w = v)
     \<and> bv_buf w = bv_buf v \<and> bv_item w = bv_item v"
proof (cases "bv_scratch v = None \<and> needs_scratch v")
  case False
  then show ?thesis using col_frame_refl [OF P v] by (auto simp: try_ensure_scratch_def)
next
  case True
  obtain l where l: "scratch_layout v = Some l" using v by (auto simp: col_inv_def)
  have nz: "l_size l = l_size (bv_item v)" "l_size l \<noteq> 0"
    using l True array_layout_le [of "bv_item v" 1 l] by (auto simp: scratch_layout_def needs_scratch_def)
  obtain r Q where g: "allocate P t l = Some (r, Q)" "alloc_answer P l r Q" using allocate_ok [OF P t nz(2)] by blast
  have blk: "col_blocks v = data_block v" "data_block v \<subseteq> owned P"
    using True col_blocks_owned [OF v] by (auto simp: col_blocks_def scratch_block_def)
  have sb: "same_blocks (sp_inner P) (sp_inner Q) (owned P)" "pool_inv Q" "length (sp_caches Q) = length (sp_caches P)"
    using g(2) by (auto simp: alloc_answer_def)
  have sub: "owned P \<subseteq> owned Q" using g(2) by (auto simp: alloc_answer_def split: sum.splits)
  have vv: "vec_inv P (bv_buf v)" using v True by (simp add: col_inv_def needs_scratch_def)
  have vQ: "vec_inv Q (bv_buf v)" using vv sb(1) sub by (auto simp: vec_inv_def same_blocks_def)
  show ?thesis
  proof (cases r)
    case (Inl e)
    have "col_inv Q v" using v True vQ by (auto simp: col_inv_def needs_scratch_def)
    then have "col_frame P v Q v" using g(2) Inl sb same_blocks_sub [OF sb(1), of "owned P - col_blocks v"]
      by (auto simp: col_frame_def alloc_answer_def)
    then show ?thesis using True l g(1) Inl by (simp add: try_ensure_scratch_def)
  next
    case (Inr a)
    with g(2) obtain b where b: "a = At b" "b \<notin> owned P" "owned Q = insert b (owned P)" "fits Q l b"
      by (auto simp: alloc_answer_def)
    let ?w = "v\<lparr>bv_scratch := Some a\<rparr>"
    have same: "bv_buf ?w = bv_buf v" "data_block ?w = data_block v" by (simp_all add: bv_buf_def data_block_def)
    have "col_inv Q ?w" using vQ v True b nz blk(2) same l
      by (auto simp: col_inv_def needs_scratch_def fits_def scratch_layout_def)
    moreover have "col_blocks ?w = insert b (data_block v)" using b(1) same by (simp add: col_blocks_def scratch_block_def)
    moreover have "owned Q - insert b (data_block v) = owned P - data_block v" using b(2,3) by auto
    ultimately have "col_frame P v Q ?w"
      using sb same_blocks_sub [OF sb(1), of "owned P - col_blocks v"] blk by (auto simp: col_frame_def)
    then show ?thesis using True l g(1) Inr same by (auto simp: try_ensure_scratch_def)
  qed
qed

lemma bv_layout_buf: "bv_layout (bv_item v) n = array_layout (pv_type (bv_buf v)) n"
  by (simp add: bv_layout_def bv_buf_def)

lemma bv_buf_upd: "bv_buf (w\<lparr>bv_data := a, bv_cap := n\<rparr>) = (bv_buf w)\<lparr>pv_data := a, pv_cap := n\<rparr>"
  by (simp add: bv_buf_def)

text \<open>An exchange of the data buffer alone is a step of the column.\<close>

lemma buf_frame:
  assumes w: "col_inv P v" "l_size (bv_item v) > 0" and u: "bv_item u = bv_item v" "bv_scratch u = bv_scratch v"
    and st: "vec_step P (bv_buf v) Q (bv_buf u)"
  shows "col_frame P v Q u"
proof -
  have blk: "data_block v = pv_block (bv_buf v)" "data_block u = pv_block (bv_buf u)" "scratch_block u = scratch_block v"
    using w(2) u by (simp_all add: data_block_def scratch_block_def)
  have sc: "scratch_block v \<subseteq> owned P - data_block v"
    using w(1) by (auto simp: col_inv_def scratch_block_def split: option.splits)
  have ow: "owned Q - data_block u = owned P - data_block v" "same_blocks (sp_inner P) (sp_inner Q) (owned P - data_block v)"
    using st blk by (auto simp: vec_step_def)
  have "col_inv Q u" using w u st sc ow blk
    by (fastforce simp: col_inv_def vec_step_def scratch_layout_def scratch_block_def same_blocks_def split: option.splits)
  moreover have "owned Q - col_blocks u = owned P - col_blocks v" using ow blk unfolding col_blocks_def by blast
  ultimately show ?thesis
    using st same_blocks_sub [OF ow(2), of "owned P - col_blocks v"] by (auto simp: col_frame_def vec_step_def col_blocks_def)
qed

lemma grow_allocation_ok:
  assumes P: "pool_inv P" and t: "t < length (sp_caches P)" and v: "col_inv P v" "l_size (bv_item v) > 0"
    and l: "bv_layout (bv_item v) n = Some l" "0 < n" "bv_len v \<le> n"
  shows "\<exists>r Q w. grow_allocation t P v l = Some (r, Q, w) \<and>
     (case r of Inl e \<Rightarrow> col_frame P v Q w | Inr a \<Rightarrow> col_frame P v Q (w\<lparr>bv_data := a, bv_cap := n\<rparr>))"
proof -
  obtain r1 P1 v1 where e: "try_ensure_scratch t P v = Some (r1, P1, v1)" "col_frame P v P1 v1"
      "bv_buf v1 = bv_buf v" "bv_item v1 = bv_item v"
    using ensure_scratch_ok [OF P t v(1)] by blast
  show ?thesis
  proof (cases r1)
    case (Inl x)
    then show ?thesis using e by (simp add: grow_allocation_def)
  next
    case (Inr x)
    have P1: "pool_inv P1" "t < length (sp_caches P1)" "col_inv P1 v1" using e(2) t by (auto simp: col_frame_def)
    have b: "vec_inv P1 (bv_buf v1)" using P1(3) v(2) e(4) by (simp add: col_inv_def)
    have al: "array_layout (pv_type (bv_buf v1)) n = Some l" using l(1) e(3) by (simp add: bv_layout_buf)
    have len: "pv_len (bv_buf v1) \<le> n" using l(3) e(3) by (simp add: bv_buf_def)
    have "\<exists>r Q. (if bv_cap v1 = 0 then allocate P1 t l
        else do { old_layout \<leftarrow> bv_layout (bv_item v1) (bv_cap v1); grow P1 t (bv_data v1) old_layout l }) = Some (r, Q)
      \<and> (case r of Inl e \<Rightarrow> vec_step P1 (bv_buf v1) Q (bv_buf v1)
         | Inr a \<Rightarrow> vec_step P1 (bv_buf v1) Q ((bv_buf v1)\<lparr>pv_data := a, pv_cap := n\<rparr>))"
    proof (cases "bv_cap v1 = 0")
      case True
      then have "pv_cap (bv_buf v1) = 0" by (simp add: bv_buf_def)
      from first_buffer [OF P1(1,2) b this al l(2)] True show ?thesis by auto
    next
      case False
      then have c: "0 < pv_cap (bv_buf v1)" "pv_cap (bv_buf v1) = bv_cap v1" "pv_data (bv_buf v1) = bv_data v1"
        by (simp_all add: bv_buf_def)
      obtain old r Q where g: "array_layout (pv_type (bv_buf v1)) (bv_cap v1) = Some old" "grow P1 t (bv_data v1) old l = Some (r, Q)"
        "case r of Inl e \<Rightarrow> vec_step P1 (bv_buf v1) Q (bv_buf v1)
         | Inr a \<Rightarrow> pv_len (bv_buf v1) \<le> n \<longrightarrow> vec_step P1 (bv_buf v1) Q ((bv_buf v1)\<lparr>pv_data := a, pv_cap := n\<rparr>)"
        using new_buffer [OF P1(1,2) b c(1) al l(2)] c by auto
      then show ?thesis using False len by (auto simp: bv_layout_buf split: sum.splits)
    qed
    then obtain r Q where g: "(if bv_cap v1 = 0 then allocate P1 t l
        else do { old_layout \<leftarrow> bv_layout (bv_item v1) (bv_cap v1); grow P1 t (bv_data v1) old_layout l }) = Some (r, Q)"
      "case r of Inl e \<Rightarrow> vec_step P1 (bv_buf v1) Q (bv_buf v1)
         | Inr a \<Rightarrow> vec_step P1 (bv_buf v1) Q ((bv_buf v1)\<lparr>pv_data := a, pv_cap := n\<rparr>)" by blast
    have "grow_allocation t P v l = Some (r, Q, v1)" using e(1) Inr g(1) by (simp add: grow_allocation_def)
    moreover have "case r of Inl e \<Rightarrow> col_frame P1 v1 Q v1 | Inr a \<Rightarrow> col_frame P1 v1 Q (v1\<lparr>bv_data := a, bv_cap := n\<rparr>)"
      using g(2) v(2) e(4) by (auto intro!: buf_frame [OF P1(3)] simp: bv_buf_upd split: sum.splits)
    ultimately show ?thesis using col_frame_trans [OF e(2)] by (cases r) auto
  qed
qed

text \<open>Room for the request in the address space.\<close>

definition col_fits :: "blob_vec \<Rightarrow> nat \<Rightarrow> bool" where
  "col_fits v n \<longleftrightarrow> bv_len v + n \<le> USIZE_MAX \<and>
     (if bv_len v + n \<le> bv_cap v \<or> l_size (bv_item v) = 0 then True
      else case double_until (if bv_cap v = 0 then 4 else bv_cap v) (bv_len v + n) of
        None \<Rightarrow> False | Some m \<Rightarrow> bv_layout (bv_item v) m \<noteq> None)"

lemma bv_try_reserve_ok:
  assumes P: "pool_inv P" and t: "t < length (sp_caches P)" and v: "col_inv P v" and f: "col_fits v n"
  shows "\<exists>r Q w. bv_try_reserve t P v n = Some (r, Q, w) \<and> col_frame P v Q w"
proof (cases "bv_len v + n \<le> bv_cap v \<or> l_size (bv_item v) = 0")
  case True
  then show ?thesis using f col_frame_refl [OF P v] by (auto simp: bv_try_reserve_def col_fits_def Let_def)
next
  case False
  obtain m l where m: "double_until (if bv_cap v = 0 then 4 else bv_cap v) (bv_len v + n) = Some m" "bv_layout (bv_item v) m = Some l"
    using f False by (auto simp: col_fits_def split: option.splits)
  have ge: "bv_len v + n \<le> m" "0 < m" using double_until_ge [OF m(1)] by (auto split: if_splits)
  obtain r Q w where g: "grow_allocation t P v l = Some (r, Q, w)"
      "case r of Inl e \<Rightarrow> col_frame P v Q w | Inr a \<Rightarrow> col_frame P v Q (w\<lparr>bv_data := a, bv_cap := m\<rparr>)"
    using grow_allocation_ok [OF P t v _ m(2) ge(2)] False ge(1) by auto
  then show ?thesis using False f m by (cases r) (auto simp: bv_try_reserve_def col_fits_def Let_def)
qed

text \<open>
  The contract of \<^verbatim>\<open>try_reserve\<close> on a column of the pool. On a consistent pool it never
  panics short of address space overflow. Either way the live values, the dirty pages and
  the tick stay; \<^verbatim>\<open>Err\<close> also leaves buffer and capacity alone, \<^verbatim>\<open>Ok\<close> provides the room; and
  every other vector in the pool keeps its own, disjoint buffer.
\<close>

theorem column_reserve_contract:
  fixes u :: "'b pool_vec"
  assumes "pool_inv P" "t < length (sp_caches P)" "col_inv P v" "col_ok item df v" "col_fits v n"
    and "vec_inv P u" "col_blocks v \<inter> pv_block u = {}"
  shows "\<exists>r Q w. bv_try_reserve t P v n = Some (r, Q, w) \<and> pool_inv Q \<and> col_inv Q w \<and> col_ok item df w
     \<and> live_rows w = live_rows v \<and> bv_dirty w = bv_dirty v \<and> bv_tick w = bv_tick v
     \<and> (case r of Inl e \<Rightarrow> bv_cap w = bv_cap v \<and> bv_data w = bv_data v
        | Inr _ \<Rightarrow> l_size item = 0 \<or> bv_len v + n \<le> bv_cap w)
     \<and> vec_inv Q u \<and> col_blocks w \<inter> pv_block u = {}"
proof -
  obtain r Q w where r: "bv_try_reserve t P v n = Some (r, Q, w)" and fr: "col_frame P v Q w"
    using bv_try_reserve_ok [OF assms(1-3,5)] by blast
  note vals = bv_try_reserve_values [OF r assms(4)]
  have ub: "pv_block u \<subseteq> owned P - col_blocks v" using vec_block [OF assms(6)] assms(7) by blast
  then have uq: "pv_block u \<subseteq> owned Q - col_blocks w" using fr by (simp add: col_frame_def)
  have "vec_inv Q u"
    using assms(6) ub uq fr by (auto simp: vec_inv_def pv_block_def col_frame_def same_blocks_def)
  moreover have "col_blocks w \<inter> pv_block u = {}" using uq by blast
  ultimately show ?thesis using r fr vals same_values_live [of v w]
    by (cases r) (auto simp: col_frame_def same_values_def)
qed

theorem column_reserve_contract_witness:
  "\<exists>r Q w. bv_try_reserve 0 (slab_pool_new 2097152 1) (bv_init \<lparr>l_size = 24, l_align = 8\<rparr> True (Dangling 8) 0) 3 = Some (r, Q, w)
     \<and> pool_inv Q \<and> live_rows w = []
     \<and> (case r of Inl e \<Rightarrow> bv_cap w = 0 | Inr _ \<Rightarrow> 3 \<le> bv_cap w)"
proof -
  let ?l = "\<lparr>l_size = 24, l_align = 8\<rparr>"
  let ?v = "bv_init ?l True (Dangling 8) 0"
  let ?u = "pv_new \<lparr>l_size = 8, l_align = 8\<rparr> :: u64 pool_vec"
  have b: "2097152 div LARGE_UNIT < UNIT_INTERIOR" by code_simp
  have ci: "col_inv (slab_pool_new 2097152 1) ?v"
    by (simp add: col_inv_def bv_init_def vec_inv_def bv_buf_def array_layout_def scratch_layout_def ISIZE_MAX_def alloc_align_def MIN_COLUMN_ALIGN_def)
  have co: "col_ok ?l True ?v" by (simp add: col_ok_def bv_init_def)
  have f: "col_fits ?v 3" by code_simp
  have live: "live_rows ?v = []" "bv_len ?v = 0" "bv_cap ?v = 0" by (simp_all add: live_rows_def bv_init_def)
  have t: "0 < length (sp_caches (slab_pool_new 2097152 1))" by (simp add: slab_pool_new_def)
  have u: "vec_inv (slab_pool_new 2097152 1) ?u" "col_blocks ?v \<inter> pv_block ?u = {}" by simp_all
  obtain r Q w where r: "bv_try_reserve 0 (slab_pool_new 2097152 1) ?v 3 = Some (r, Q, w)" "pool_inv Q" "live_rows w = live_rows ?v"
    "case r of Inl e \<Rightarrow> bv_cap w = bv_cap ?v \<and> bv_data w = bv_data ?v | Inr _ \<Rightarrow> l_size ?l = 0 \<or> bv_len ?v + 3 \<le> bv_cap w"
    using column_reserve_contract [OF slab_pool_new_inv(1) [OF b] t ci co f u] by blast
  from r(4) have "case r of Inl e \<Rightarrow> bv_cap w = 0 | Inr _ \<Rightarrow> 3 \<le> bv_cap w" by (simp add: live split: sum.splits)
  with r(1-3) show ?thesis unfolding live by blast
qed

lemma drop_rows_last:
  "snd (drop_rows boom xs) \<Longrightarrow> \<exists>ys x zs. xs = ys @ x # zs \<and> fst (drop_rows boom xs) = ys @ [x] \<and> boom x"
proof (induction xs)
  case (Cons a xs)
  show ?case
  proof (cases "boom a")
    case True
    then show ?thesis by (intro exI [where x = "[]"] exI [where x = a] exI [where x = xs] conjI) simp_all
  next
    case False
    then have "snd (drop_rows boom xs)" using Cons.prems by (auto simp: Let_def split: prod.splits)
    then obtain ys x zs where "xs = ys @ x # zs \<and> fst (drop_rows boom xs) = ys @ [x] \<and> boom x" using Cons.IH by blast
    then have "a # xs = (a # ys) @ x # zs \<and> fst (drop_rows boom (a # xs)) = (a # ys) @ [x] \<and> boom x"
      using False by (auto simp: Let_def split: prod.splits)
    then show ?thesis by blast
  qed
qed simp

definition drop_data :: "nat \<Rightarrow> slab_pool \<Rightarrow> blob_vec \<Rightarrow> slab_pool option" where
  "drop_data t p v = (if l_size (bv_item v) > 0 \<and> bv_cap v > 0
     then do { l \<leftarrow> bv_layout (bv_item v) (bv_cap v); deallocate p t (bv_data v) l } else Some p)"

definition drop_scratch :: "nat \<Rightarrow> slab_pool \<Rightarrow> blob_vec \<Rightarrow> slab_pool option" where
  "drop_scratch t p v = (case bv_scratch v of None \<Rightarrow> Some p | Some a \<Rightarrow> do { l \<leftarrow> scratch_layout v; deallocate p t a l })"

lemma drop_data_ok:
  assumes "pool_inv P" "t < length (sp_caches P)" "col_inv P v"
  shows "\<exists>Q. drop_data t P v = Some Q \<and> pool_inv Q \<and> length (sp_caches Q) = length (sp_caches P)
    \<and> owned Q = owned P - data_block v \<and> same_blocks (sp_inner P) (sp_inner Q) (owned P - data_block v)"
proof (cases "l_size (bv_item v) > 0 \<and> bv_cap v > 0")
  case True
  then have vi: "vec_inv P (bv_buf v)" "pv_cap (bv_buf v) = bv_cap v" "pv_data (bv_buf v) = bv_data v"
    "l_size (pv_type (bv_buf v)) = l_size (bv_item v)" using assms(3) by (simp_all add: col_inv_def bv_buf_def)
  then obtain b l where b: "bv_data v = At b" "b \<in> owned P" "bv_layout (bv_item v) (bv_cap v) = Some l"
    using True by (auto simp: vec_inv_def bv_layout_buf)
  have "l_size l \<noteq> 0" using array_layout_le [of "pv_type (bv_buf v)" "bv_cap v" l] b(3) vi True by (simp add: bv_layout_buf)
  from deallocate_ok [OF assms(1,2) b(2) this] b True vi show ?thesis
    by (auto simp: free_answer_def data_block_def pv_block_def drop_data_def)
next
  case False
  then show ?thesis using assms(1) by (auto simp: data_block_def pv_block_def bv_buf_def drop_data_def)
qed

lemma drop_scratch_ok:
  assumes "pool_inv Q" "t < length (sp_caches Q)" "col_inv P v" "owned Q = owned P - data_block v"
  shows "\<exists>R. drop_scratch t Q v = Some R \<and> pool_inv R \<and> owned R = owned Q - scratch_block v
    \<and> same_blocks (sp_inner Q) (sp_inner R) (owned Q - scratch_block v)"
proof (cases "bv_scratch v")
  case None
  then show ?thesis using assms(1) by (simp add: scratch_block_def drop_scratch_def)
next
  case (Some a)
  then obtain b l where b: "a = At b" "b \<in> owned Q" "scratch_layout v = Some l" "l_size (bv_item v) > 0"
    using assms(3,4) by (auto simp: col_inv_def)
  have "l_size l \<noteq> 0" using array_layout_le [of "bv_item v" 1 l] b(3,4) by (simp add: scratch_layout_def)
  from deallocate_ok [OF assms(1,2) b(2) this] b Some show ?thesis
    by (auto simp: free_answer_def scratch_block_def drop_scratch_def)
qed



end
