(* ===== verification/Sparse_Set.thy ===== *)
theory Sparse_Set
  imports Entity_Alloc Blob_Vec_Spec
begin

text \<open>
  Sparse component storage (\<^verbatim>\<open>crates/minkowski/src/storage/sparse.rs\<close>): the paged sparse set
  from entity handles to values, and the per-component table of such sets. A page is a pool
  block of 1024 dense indices; the dense part is a vector of entities beside a column of
  values. Refined to a map from entities to values. Destructors are the parameter \<open>boom\<close>
  as for columns; an operation that may drop values returns which and whether it unwound.
\<close>

definition SPARSE_PAGE_SIZE :: nat where "SPARSE_PAGE_SIZE = 1024"

definition EMPTY :: u32 where "EMPTY = - 1"

record sparse_set =
  ss_pages :: "(ptr \<times> u32 list) option list"
  ss_entities :: "entity pool_vec"
  ss_values :: blob_vec

definition PAGE_LAYOUT :: layout where "PAGE_LAYOUT = \<lparr>l_size = 4096, l_align = 4\<rparr>"

definition ENTITY_LAYOUT :: layout where "ENTITY_LAYOUT = \<lparr>l_size = 8, l_align = 8\<rparr>"

definition sparse_page_of :: "entity \<Rightarrow> nat" where
  "sparse_page_of e = unat (entity_index e) div SPARSE_PAGE_SIZE"

definition ss_new :: "nat \<Rightarrow> slab_pool \<Rightarrow> layout \<Rightarrow> bool \<Rightarrow> (slab_pool \<times> sparse_set) option" where
  "ss_new t p item drop_fn =
     do { (p', vals) \<leftarrow> bv_new t p item drop_fn 0;
          Some (p', \<lparr>ss_pages = [], ss_entities = pv_new ENTITY_LAYOUT, ss_values = vals\<rparr>) }"

definition ss_len :: "sparse_set \<Rightarrow> nat" where
  "ss_len s = pv_len (ss_entities s)"

definition has_page :: "sparse_set \<Rightarrow> nat \<Rightarrow> bool" where
  "has_page s page_idx \<longleftrightarrow> page_idx < length (ss_pages s) \<and> ss_pages s ! page_idx \<noteq> None"

definition try_ensure_page :: "nat \<Rightarrow> slab_pool \<Rightarrow> sparse_set \<Rightarrow> nat
    \<Rightarrow> ((pool_exhausted + unit) \<times> slab_pool \<times> sparse_set) option" where
  "try_ensure_page t p s page_idx =
     (if page_idx < length (ss_pages s) \<and> ss_pages s ! page_idx \<noteq> None then Some (Inr (), p, s)
      else do {
        (r, p') \<leftarrow> allocate p t PAGE_LAYOUT;
        Some (case r of
            Inl e \<Rightarrow> (Inl e, p', s)
          | Inr a \<Rightarrow>
              let pages = (if page_idx \<ge> length (ss_pages s) then resize_list (page_idx + 1) None (ss_pages s) else ss_pages s)
              in (Inr (), p', s\<lparr>ss_pages := pages[page_idx := Some (a, replicate SPARSE_PAGE_SIZE EMPTY)]\<rparr>))
      })"

text \<open>\<^verbatim>\<open>page\<close> and, for an assignment through it, \<^verbatim>\<open>page_mut\<close>.\<close>

definition page :: "sparse_set \<Rightarrow> nat \<Rightarrow> u32 list option" where
  "page s page_idx = (if page_idx < length (ss_pages s) then map_option snd (ss_pages s ! page_idx) else None)"

definition page_set :: "sparse_set \<Rightarrow> nat \<Rightarrow> nat \<Rightarrow> u32 \<Rightarrow> sparse_set option" where
  "page_set s page_idx slot d =
     (if page_idx < length (ss_pages s)
      then (case ss_pages s ! page_idx of
          None \<Rightarrow> None
        | Some (a, xs) \<Rightarrow> if slot < length xs then Some (s\<lparr>ss_pages := (ss_pages s)[page_idx := Some (a, xs[slot := d])]\<rparr>) else None)
      else None)"

definition dense_index :: "sparse_set \<Rightarrow> entity \<Rightarrow> nat option" where
  "dense_index s e =
     (let idx = unat (entity_index e); page_idx = idx div SPARSE_PAGE_SIZE; slot = idx mod SPARSE_PAGE_SIZE in
      do {
        pg \<leftarrow> page s page_idx;
        let dense = pg ! slot;
        if dense = EMPTY then None
        else let d = unat dense in
          if d < pv_len (ss_entities s) \<and> pv_elems (ss_entities s) ! d = e then Some d else None
      })"

definition ss_contains :: "sparse_set \<Rightarrow> entity \<Rightarrow> bool" where
  "ss_contains s e \<longleftrightarrow> dense_index s e \<noteq> None"

text \<open>\<^verbatim>\<open>get\<close>: the pointer is read through by every caller, so the model returns the value.\<close>

definition ss_get :: "sparse_set \<Rightarrow> entity \<Rightarrow> item option" where
  "ss_get s e = do { d \<leftarrow> dense_index s e; Some (bv_read (ss_values s) d) }"

text \<open>A write through the pointer \<^verbatim>\<open>get_mut\<close> returns.\<close>

definition ss_get_mut :: "sparse_set \<Rightarrow> entity \<Rightarrow> item \<Rightarrow> sparse_set option" where
  "ss_get_mut s e x = do { d \<leftarrow> dense_index s e; Some (s\<lparr>ss_values := bv_write (ss_values s) d x\<rparr>) }"

definition ss_insert :: "(item \<Rightarrow> bool) \<Rightarrow> nat \<Rightarrow> slab_pool \<Rightarrow> sparse_set \<Rightarrow> entity \<Rightarrow> item
    \<Rightarrow> ((item list \<times> bool) \<times> slab_pool \<times> sparse_set) option" where
  "ss_insert boom t p s e x =
     (case dense_index s e of
        Some d \<Rightarrow> do { (out, vals) \<leftarrow> replace_protected boom (ss_values s) d x; Some (out, p, s\<lparr>ss_values := vals\<rparr>) }
      | None \<Rightarrow>
          let dense = word_of_nat (pv_len (ss_entities s)); idx = unat (entity_index e);
              page_idx = idx div SPARSE_PAGE_SIZE; slot = idx mod SPARSE_PAGE_SIZE
          in do {
            (r, p1, s1) \<leftarrow> try_ensure_page t p s page_idx;
            (case r of Inl er \<Rightarrow> None | Inr _ \<Rightarrow> do {
              s2 \<leftarrow> page_set s1 page_idx slot dense;
              (p2, ents) \<leftarrow> pv_push t p1 (ss_entities s2) e;
              (p3, vals) \<leftarrow> bv_push t p2 (ss_values s2) x;
              Some (([], False), p3, s2\<lparr>ss_entities := ents, ss_values := vals\<rparr>)
            })
          })"

definition ss_try_insert :: "(item \<Rightarrow> bool) \<Rightarrow> nat \<Rightarrow> slab_pool \<Rightarrow> sparse_set \<Rightarrow> entity \<Rightarrow> item
    \<Rightarrow> ((pool_exhausted + (item list \<times> bool)) \<times> slab_pool \<times> sparse_set) option" where
  "ss_try_insert boom t p s e x =
     (case dense_index s e of
        Some d \<Rightarrow> do { (out, vals) \<leftarrow> replace_protected boom (ss_values s) d x; Some (Inr out, p, s\<lparr>ss_values := vals\<rparr>) }
      | None \<Rightarrow> do {
          (r1, p1, s1) \<leftarrow> try_ensure_page t p s (unat (entity_index e) div SPARSE_PAGE_SIZE);
          (case r1 of Inl er \<Rightarrow> Some (Inl er, p1, s1) | Inr _ \<Rightarrow> do {
            (r2, p2, ents) \<leftarrow> pv_try_reserve t p1 (ss_entities s1) 1;
            let s2 = s1\<lparr>ss_entities := ents\<rparr>;
            (case r2 of Inl er \<Rightarrow> Some (Inl er, p2, s2) | Inr _ \<Rightarrow> do {
              (r3, p3, vals) \<leftarrow> bv_try_reserve t p2 (ss_values s2) 1;
              let s3 = s2\<lparr>ss_values := vals\<rparr>;
              (case r3 of Inl er \<Rightarrow> Some (Inl er, p3, s3) | Inr _ \<Rightarrow> do {
                (out, p4, s4) \<leftarrow> ss_insert boom t p3 s3 e x;
                Some (Inr out, p4, s4)
              })
            })
          })
        })"

fun ensure_pages :: "nat \<Rightarrow> slab_pool \<Rightarrow> sparse_set \<Rightarrow> nat list \<Rightarrow> ((pool_exhausted + unit) \<times> slab_pool \<times> sparse_set) option" where
  "ensure_pages t p s [] = Some (Inr (), p, s)"
| "ensure_pages t p s (pg # pgs) =
     do { (r, p', s') \<leftarrow> try_ensure_page t p s pg;
          (case r of Inl e \<Rightarrow> Some (Inl e, p', s') | Inr _ \<Rightarrow> ensure_pages t p' s' pgs) }"

definition ss_try_reserve :: "nat \<Rightarrow> slab_pool \<Rightarrow> sparse_set \<Rightarrow> nat \<Rightarrow> nat list
    \<Rightarrow> ((pool_exhausted + unit) \<times> slab_pool \<times> sparse_set) option" where
  "ss_try_reserve t p s additional pages =
     do {
       (r1, p1, s1) \<leftarrow> ensure_pages t p s pages;
       (case r1 of Inl e \<Rightarrow> Some (Inl e, p1, s1) | Inr _ \<Rightarrow> do {
         (r2, p2, ents) \<leftarrow> pv_try_reserve t p1 (ss_entities s1) additional;
         let s2 = s1\<lparr>ss_entities := ents\<rparr>;
         (case r2 of Inl e \<Rightarrow> Some (Inl e, p2, s2) | Inr _ \<Rightarrow> do {
           (r3, p3, vals) \<leftarrow> bv_try_reserve t p2 (ss_values s2) additional;
           Some (r3, p3, s2\<lparr>ss_values := vals\<rparr>)
         })
       })
     }"

text \<open>\<^verbatim>\<open>remove\<close> is \<^verbatim>\<open>remove_internal\<close>.\<close>

definition remove_internal :: "(item \<Rightarrow> bool) \<Rightarrow> sparse_set \<Rightarrow> entity \<Rightarrow> ((bool \<times> item list \<times> bool) \<times> sparse_set) option" where
  "remove_internal boom s e =
     (case dense_index s e of
        None \<Rightarrow> Some ((False, [], False), s)
      | Some dense \<Rightarrow>
          let idx = unat (entity_index e); page_idx = idx div SPARSE_PAGE_SIZE; slot = idx mod SPARSE_PAGE_SIZE
          in do {
            s1 \<leftarrow> page_set s page_idx slot EMPTY;
            let last_dense = pv_len (ss_entities s1) - 1;
            s2 \<leftarrow> (if dense \<noteq> last_dense
                   then let sw_idx = unat (entity_index (pv_elems (ss_entities s1) ! last_dense))
                     in page_set s1 (sw_idx div SPARSE_PAGE_SIZE) (sw_idx mod SPARSE_PAGE_SIZE) (word_of_nat dense)
                   else Some s1);
            (_, ents) \<leftarrow> pv_swap_remove (ss_entities s2) dense;
            let (out, vals) = bv_swap_remove boom (ss_values s2) dense;
            Some ((True, out), s2\<lparr>ss_entities := ents, ss_values := vals\<rparr>)
          })"

definition ss_for_each :: "sparse_set \<Rightarrow> (entity \<times> item) list" where
  "ss_for_each s = map (\<lambda>i. (pv_elems (ss_entities s) ! i, bv_read (ss_values s) i)) [0..<pv_len (ss_entities s)]"

text \<open>
  Dropping a set: its own \<^verbatim>\<open>Drop\<close> returns the pages, then the fields are dropped in order
  (entities, values).
\<close>

fun drop_pages :: "nat \<Rightarrow> slab_pool \<Rightarrow> (ptr \<times> u32 list) option list \<Rightarrow> slab_pool option" where
  "drop_pages t p [] = Some p"
| "drop_pages t p (None # pgs) = drop_pages t p pgs"
| "drop_pages t p (Some (a, _) # pgs) = do { p' \<leftarrow> deallocate p t a PAGE_LAYOUT; drop_pages t p' pgs }"

definition ss_drop :: "(item \<Rightarrow> bool) \<Rightarrow> nat \<Rightarrow> slab_pool \<Rightarrow> sparse_set \<Rightarrow> ((item list \<times> bool) \<times> slab_pool) option" where
  "ss_drop boom t p s =
     do { p1 \<leftarrow> drop_pages t p (ss_pages s); p2 \<leftarrow> pv_drop t p1 (ss_entities s); bv_drop boom t p2 (ss_values s) }"

subsection \<open>Typed storage\<close>

text \<open>
  \<^verbatim>\<open>SparseStorage\<close>: one set per component. Iteration over the hash map has no specified
  order; the operations that iterate take the order as an argument.
\<close>

type_synonym sparse_storage = "nat \<Rightarrow> sparse_set option"

definition st_new :: sparse_storage where "st_new = Map.empty"

text \<open>\<^verbatim>\<open>insert\<close> and \<^verbatim>\<open>insert_raw\<close>; \<open>item\<close> and \<open>drop_fn\<close> are those of the value's type.\<close>

definition st_insert :: "(item \<Rightarrow> bool) \<Rightarrow> nat \<Rightarrow> slab_pool \<Rightarrow> sparse_storage \<Rightarrow> nat \<Rightarrow> entity \<Rightarrow> item \<Rightarrow> layout \<Rightarrow> bool
    \<Rightarrow> ((item list \<times> bool) \<times> slab_pool \<times> sparse_storage) option" where
  "st_insert boom t p st comp_id e x item drop_fn =
     do {
       (p1, s) \<leftarrow> (case st comp_id of Some s \<Rightarrow> Some (p, s) | None \<Rightarrow> ss_new t p item drop_fn);
       (out, p2, s') \<leftarrow> ss_insert boom t p1 s e x;
       Some (out, p2, st(comp_id \<mapsto> s'))
     }"

text \<open>On \<^verbatim>\<open>Err\<close> the value is dropped by the callee, and so is a set built for it.\<close>

definition st_try_insert :: "(item \<Rightarrow> bool) \<Rightarrow> nat \<Rightarrow> slab_pool \<Rightarrow> sparse_storage \<Rightarrow> nat \<Rightarrow> entity \<Rightarrow> item \<Rightarrow> layout \<Rightarrow> bool
    \<Rightarrow> ((pool_exhausted option \<times> item list \<times> bool) \<times> slab_pool \<times> sparse_storage) option" where
  "st_try_insert boom t p st comp_id e x item drop_fn =
     (case st comp_id of
        Some s \<Rightarrow> do {
          (r, p1, s') \<leftarrow> ss_try_insert boom t p s e x;
          Some (case r of
              Inr out \<Rightarrow> ((None, out), p1, st(comp_id \<mapsto> s'))
            | Inl er \<Rightarrow> ((Some er, if drop_fn then drop_one boom x else ([], False)), p1, st(comp_id \<mapsto> s')))
        }
      | None \<Rightarrow> do {
          (p0, s) \<leftarrow> ss_new t p item drop_fn;
          (r, p1, s') \<leftarrow> ss_try_insert boom t p0 s e x;
          (case r of
              Inr out \<Rightarrow> Some ((None, out), p1, st(comp_id \<mapsto> s'))
            | Inl er \<Rightarrow> do {
                (_, p2) \<leftarrow> ss_drop boom t p1 s';
                Some ((Some er, if drop_fn then drop_one boom x else ([], False)), p2, st)
              })
        })"

definition st_get :: "sparse_storage \<Rightarrow> nat \<Rightarrow> entity \<Rightarrow> item option" where
  "st_get st comp_id e = do { s \<leftarrow> st comp_id; ss_get s e }"

definition st_get_mut :: "sparse_storage \<Rightarrow> nat \<Rightarrow> entity \<Rightarrow> item \<Rightarrow> sparse_storage option" where
  "st_get_mut st comp_id e x = do { s \<leftarrow> st comp_id; s' \<leftarrow> ss_get_mut s e x; Some (st(comp_id \<mapsto> s')) }"

definition st_contains :: "sparse_storage \<Rightarrow> nat \<Rightarrow> entity \<Rightarrow> bool" where
  "st_contains st comp_id e \<longleftrightarrow> (case st comp_id of None \<Rightarrow> False | Some s \<Rightarrow> ss_contains s e)"

definition st_iter :: "sparse_storage \<Rightarrow> nat \<Rightarrow> (entity \<times> item) list option" where
  "st_iter st comp_id = map_option ss_for_each (st comp_id)"

definition st_has_page :: "sparse_storage \<Rightarrow> nat \<Rightarrow> nat \<Rightarrow> bool" where
  "st_has_page st comp_id page_idx \<longleftrightarrow> (case st comp_id of None \<Rightarrow> False | Some s \<Rightarrow> has_page s page_idx)"

definition st_try_reserve_raw :: "(item \<Rightarrow> bool) \<Rightarrow> nat \<Rightarrow> slab_pool \<Rightarrow> sparse_storage \<Rightarrow> nat \<Rightarrow> layout \<Rightarrow> bool \<Rightarrow> nat \<Rightarrow> nat list
    \<Rightarrow> ((pool_exhausted + unit) \<times> slab_pool \<times> sparse_storage) option" where
  "st_try_reserve_raw boom t p st comp_id item drop_fn additional pages =
     (case st comp_id of
        Some s \<Rightarrow> do { (r, p', s') \<leftarrow> ss_try_reserve t p s additional pages; Some (r, p', st(comp_id \<mapsto> s')) }
      | None \<Rightarrow> do {
          (p0, s) \<leftarrow> ss_new t p item drop_fn;
          (r, p1, s') \<leftarrow> ss_try_reserve t p0 s additional pages;
          (case r of
              Inl e \<Rightarrow> do { (_, p2) \<leftarrow> ss_drop boom t p1 s'; Some (Inl e, p2, st) }
            | Inr _ \<Rightarrow> Some (Inr (), p1, st(comp_id \<mapsto> s')))
        })"

definition st_remove_raw :: "(item \<Rightarrow> bool) \<Rightarrow> sparse_storage \<Rightarrow> nat \<Rightarrow> entity \<Rightarrow> ((bool \<times> item list \<times> bool) \<times> sparse_storage) option" where
  "st_remove_raw boom st comp_id e =
     (case st comp_id of
        None \<Rightarrow> Some ((False, [], False), st)
      | Some s \<Rightarrow> do { (out, s') \<leftarrow> remove_internal boom s e; Some (out, st(comp_id \<mapsto> s')) })"

text \<open>\<^verbatim>\<open>remove_all\<close> visits the sets in the order of \<open>keys\<close>; a destructor that unwinds ends the visit.\<close>

fun st_remove_all :: "(nat \<Rightarrow> item \<Rightarrow> bool) \<Rightarrow> nat list \<Rightarrow> sparse_storage \<Rightarrow> entity \<Rightarrow> (((nat \<times> item) list \<times> bool) \<times> sparse_storage) option" where
  "st_remove_all boom [] st e = Some (([], False), st)"
| "st_remove_all boom (k # ks) st e =
     do { ((_, ds, unwound), st1) \<leftarrow> st_remove_raw (boom k) st k e;
          if unwound then Some ((map (Pair k) ds, True), st1)
          else do { ((ds', u), st2) \<leftarrow> st_remove_all boom ks st1 e; Some ((map (Pair k) ds @ ds', u), st2) } }"

subsection \<open>The sparse half\<close>

definition slot_at :: "sparse_set \<Rightarrow> nat \<Rightarrow> u32 option" where
  "slot_at s i = map_option (\<lambda>pg. pg ! (i mod SPARSE_PAGE_SIZE)) (page s (i div SPARSE_PAGE_SIZE))"

definition pages_ok :: "sparse_set \<Rightarrow> bool" where
  "pages_ok s \<longleftrightarrow> (\<forall>k pg. page s k = Some pg \<longrightarrow> length pg = SPARSE_PAGE_SIZE)"

text \<open>The set without its pages.\<close>

definition same_dense :: "sparse_set \<Rightarrow> sparse_set \<Rightarrow> bool" where
  "same_dense s s' \<longleftrightarrow> ss_entities s' = ss_entities s \<and> ss_values s' = ss_values s"

lemma slot_eq: "i = j \<longleftrightarrow> i div 1024 = j div 1024 \<and> i mod 1024 = j mod (1024 :: nat)"
  by (metis div_mult_mod_eq)

lemma page_set_slot:
  assumes "pages_ok s" "slot_at s i \<noteq> None"
  shows "\<exists>s'. page_set s (i div SPARSE_PAGE_SIZE) (i mod SPARSE_PAGE_SIZE) d = Some s' \<and> pages_ok s' \<and> same_dense s s'
    \<and> (\<forall>j. slot_at s' j = (if j = i then Some d else slot_at s j))"
proof -
  let ?k = "i div SPARSE_PAGE_SIZE" and ?m = "i mod SPARSE_PAGE_SIZE"
  obtain pg where pg: "page s ?k = Some pg" using assms(2) by (auto simp: slot_at_def)
  then obtain a where a: "?k < length (ss_pages s)" "ss_pages s ! ?k = Some (a, pg)"
    by (auto simp: page_def split: if_splits)
  have m: "?m < length pg" using assms(1) pg by (simp add: pages_ok_def SPARSE_PAGE_SIZE_def)
  let ?s = "s\<lparr>ss_pages := (ss_pages s)[?k := Some (a, pg[?m := d])]\<rparr>"
  have ps: "page ?s j = (if j = ?k then Some (pg[?m := d]) else page s j)" for j
    using a(1) by (simp add: page_def nth_list_update)
  have "slot_at ?s j = (if j = i then Some d else slot_at s j)" for j
    unfolding slot_at_def ps using pg m slot_eq [of j i] by (auto simp: SPARSE_PAGE_SIZE_def)
  moreover have "pages_ok ?s" using assms(1) pg unfolding pages_ok_def ps by auto
  ultimately show ?thesis using a m by (auto simp: page_set_def same_dense_def)
qed

lemma try_ensure_page_slot:
  assumes "try_ensure_page t p s k = Some (r, q, s')" "pages_ok s"
  shows "pages_ok s' \<and> same_dense s s' \<and> (\<forall>j. slot_at s j \<noteq> None \<longrightarrow> slot_at s' j = slot_at s j)
    \<and> (\<forall>j. slot_at s j = None \<longrightarrow> slot_at s' j \<in> {None, Some EMPTY})
    \<and> (r = Inr () \<longrightarrow> (\<forall>j. j div SPARSE_PAGE_SIZE = k \<longrightarrow> slot_at s' j \<noteq> None)) \<and> (r \<noteq> Inr () \<longrightarrow> s' = s)"
proof (cases "k < length (ss_pages s) \<and> ss_pages s ! k \<noteq> None")
  case True
  then show ?thesis using assms by (auto simp: try_ensure_page_def same_dense_def slot_at_def page_def)
next
  case False
  then obtain r1 where al: "allocate p t PAGE_LAYOUT = Some (r1, q)" and
    s': "case r1 of Inl e \<Rightarrow> r = Inl e \<and> s' = s
      | Inr a \<Rightarrow> r = Inr () \<and> s' = s\<lparr>ss_pages := (if k \<ge> length (ss_pages s) then resize_list (k + 1) None (ss_pages s) else ss_pages s)[k := Some (a, replicate SPARSE_PAGE_SIZE EMPTY)]\<rparr>"
    using assms(1) by (auto simp: try_ensure_page_def Let_def split: bind_splits sum.splits)
  show ?thesis
  proof (cases r1)
    case (Inl e)
    then show ?thesis using s' assms(2) by (auto simp: same_dense_def)
  next
    case (Inr a)
    define pgs where "pgs = (if k \<ge> length (ss_pages s) then resize_list (k + 1) None (ss_pages s) else ss_pages s)"
    have k: "k < length pgs" by (simp add: pgs_def list_ops)
    have s'': "s' = s\<lparr>ss_pages := pgs[k := Some (a, replicate SPARSE_PAGE_SIZE EMPTY)]\<rparr>" "r = Inr ()" using s' Inr by (auto simp: pgs_def)
    have none: "page s k = None" using False by (simp add: page_def del: not_None_eq)
    have ps: "page s' j = (if j = k then Some (replicate SPARSE_PAGE_SIZE EMPTY) else page s j)" for j
      using k by (auto simp: s'' page_def nth_list_update) (auto simp: pgs_def list_ops nth_resize_list split: if_splits)
    have "slot_at s' j = (if j div SPARSE_PAGE_SIZE = k then Some EMPTY else slot_at s j)" for j
      unfolding slot_at_def ps by (simp add: SPARSE_PAGE_SIZE_def)
    moreover have "slot_at s j = None" if "j div SPARSE_PAGE_SIZE = k" for j using none that by (simp add: slot_at_def)
    moreover have "pages_ok s'" using assms(2) unfolding pages_ok_def ps by auto
    ultimately show ?thesis using s'' by (auto simp: same_dense_def)
  qed
qed

lemma dense_index_slot:
  "dense_index s e = (case slot_at s (unat (entity_index e)) of None \<Rightarrow> None
     | Some d \<Rightarrow> if d \<noteq> EMPTY \<and> unat d < pv_len (ss_entities s) \<and> pv_elems (ss_entities s) ! unat d = e then Some (unat d) else None)"
  by (auto simp: dense_index_def slot_at_def Let_def split: option.splits)

subsection \<open>The invariant\<close>

abbreviation ents :: "sparse_set \<Rightarrow> entity list" where
  "ents s \<equiv> pv_elems (ss_entities s)"

definition sparse_ok :: "layout \<Rightarrow> bool \<Rightarrow> sparse_set \<Rightarrow> bool" where
  "sparse_ok item df s \<longleftrightarrow> col_ok item df (ss_values s) \<and> bv_len (ss_values s) = length (ents s) \<and> pages_ok s
     \<and> distinct (map entity_index (ents s)) \<and> length (ents s) \<le> 4294967295
     \<and> (\<forall>d < length (ents s). slot_at s (unat (entity_index (ents s ! d))) = Some (word_of_nat d))"

lemma dense_word:
  "d < 4294967295 \<Longrightarrow> unat (word_of_nat d :: u32) = d" "d < 4294967295 \<Longrightarrow> (word_of_nat d :: u32) \<noteq> EMPTY"
proof -
  assume d: "d < 4294967295"
  then show u: "unat (word_of_nat d :: u32) = d" by (simp add: unat_of_nat)
  show "(word_of_nat d :: u32) \<noteq> EMPTY"
  proof
    assume "(word_of_nat d :: u32) = EMPTY"
    then have "d = unat EMPTY" using u by simp
    also have "\<dots> = 4294967295" by (simp add: EMPTY_def unsigned_minus_1_eq_mask mask_eq_exp_minus_1)
    finally show False using d by simp
  qed
qed

lemma dense_index_iff:
  assumes "sparse_ok item df s"
  shows "dense_index s e = Some d \<longleftrightarrow> d < length (ents s) \<and> ents s ! d = e"
proof
  assume "dense_index s e = Some d"
  then show "d < length (ents s) \<and> ents s ! d = e"
    by (auto simp: dense_index_slot split: option.splits if_splits)
next
  assume d: "d < length (ents s) \<and> ents s ! d = e"
  then have "slot_at s (unat (entity_index e)) = Some (word_of_nat d)" "d < 4294967295"
    using assms by (auto simp: sparse_ok_def)
  then show "dense_index s e = Some d" using d dense_word by (simp add: dense_index_slot)
qed

lemma for_each_zip: "bv_len (ss_values s) = length (ents s) \<Longrightarrow> ss_for_each s = zip (ents s) (live_rows (ss_values s))"
  by (intro nth_equalityI) (auto simp: ss_for_each_def)

subsection \<open>Refinement\<close>

datatype sparse_op = SInsert entity item | STryInsert entity item bool | SRemove entity | SGet entity | SGetMut entity item
  | SContains entity | SLen | SForEach | STryReserve nat "nat list" bool

datatype sparse_answer = SDropped "item list" bool | SErr | SRemoved bool "item list" bool | SItem "item option"
  | SFlag bool | SNum nat | SEntries "(entity \<times> item) list"

text \<open>
  The outcome of a fallible operation depends on the pool; the flag of \<open>STryInsert\<close> and
  \<open>STryReserve\<close> says which outcome the history is about.
\<close>

fun sparse_step :: "(item \<Rightarrow> bool) \<Rightarrow> nat \<Rightarrow> sparse_op \<Rightarrow> slab_pool \<times> sparse_set \<Rightarrow> (sparse_answer \<times> slab_pool \<times> sparse_set) option" where
  "sparse_step boom t (SInsert e x) (p, s) = map_option (\<lambda>((ds, u), ps). (SDropped ds u, ps)) (ss_insert boom t p s e x)"
| "sparse_step boom t (STryInsert e x ok) (p, s) =
     Option.bind (ss_try_insert boom t p s e x) (\<lambda>(r, ps). case r of
        Inl er \<Rightarrow> if ok then None else Some (SErr, ps)
      | Inr (ds, u) \<Rightarrow> if ok then Some (SDropped ds u, ps) else None)"
| "sparse_step boom t (SRemove e) (p, s) = map_option (\<lambda>((b, ds, u), s'). (SRemoved b ds u, p, s')) (remove_internal boom s e)"
| "sparse_step boom t (SGet e) (p, s) = Some (SItem (ss_get s e), p, s)"
| "sparse_step boom t (SGetMut e x) (p, s) = (case ss_get_mut s e x of None \<Rightarrow> Some (SFlag False, p, s) | Some s' \<Rightarrow> Some (SFlag True, p, s'))"
| "sparse_step boom t (SContains e) (p, s) = Some (SFlag (ss_contains s e), p, s)"
| "sparse_step boom t SLen (p, s) = Some (SNum (ss_len s), p, s)"
| "sparse_step boom t SForEach (p, s) = Some (SEntries (ss_for_each s), p, s)"
| "sparse_step boom t (STryReserve n pgs ok) (p, s) =
     Option.bind (ss_try_reserve t p s n pgs) (\<lambda>(r, ps). case r of
        Inl er \<Rightarrow> if ok then None else Some (SErr, ps)
      | Inr _ \<Rightarrow> if ok then Some (SDropped [] False, ps) else None)"

text \<open>The specification: an association list with one entry per entity.\<close>

definition entry_pos :: "(entity \<times> item) list \<Rightarrow> entity \<Rightarrow> nat option" where
  "entry_pos xs e = find (\<lambda>i. fst (xs ! i) = e) [0..<length xs]"

definition spec_put :: "(item \<Rightarrow> bool) \<Rightarrow> layout \<Rightarrow> bool \<Rightarrow> entity \<Rightarrow> item \<Rightarrow> (entity \<times> item) list \<Rightarrow> sparse_answer \<times> (entity \<times> item) list" where
  "spec_put boom item df e x xs =
     (case entry_pos xs e of
        Some i \<Rightarrow> ((if df \<and> l_size item > 0 then SDropped [snd (xs ! i)] (boom (snd (xs ! i))) else SDropped [] False), xs[i := (e, x)])
      | None \<Rightarrow> (SDropped [] False, xs @ [(e, x)]))"

fun sparse_spec :: "(item \<Rightarrow> bool) \<Rightarrow> layout \<Rightarrow> bool \<Rightarrow> sparse_op \<Rightarrow> (entity \<times> item) list \<Rightarrow> sparse_answer \<times> (entity \<times> item) list" where
  "sparse_spec boom item df (SInsert e x) xs = spec_put boom item df e x xs"
| "sparse_spec boom item df (STryInsert e x ok) xs = (if ok then spec_put boom item df e x xs else (SErr, xs))"
| "sparse_spec boom item df (SRemove e) xs =
     (case entry_pos xs e of
        None \<Rightarrow> (SRemoved False [] False, xs)
      | Some i \<Rightarrow> ((if df then SRemoved True [snd (xs ! i)] (boom (snd (xs ! i))) else SRemoved True [] False), swap_remove i xs))"
| "sparse_spec boom item df (SGet e) xs = (SItem (map_of xs e), xs)"
| "sparse_spec boom item df (SGetMut e x) xs =
     (case entry_pos xs e of None \<Rightarrow> (SFlag False, xs) | Some i \<Rightarrow> (SFlag True, xs[i := (e, x)]))"
| "sparse_spec boom item df (SContains e) xs = (SFlag (list_ex (\<lambda>p. fst p = e) xs), xs)"
| "sparse_spec boom item df SLen xs = (SNum (length xs), xs)"
| "sparse_spec boom item df SForEach xs = (SEntries xs, xs)"
| "sparse_spec boom item df (STryReserve n pgs ok) xs = ((if ok then SDropped [] False else SErr), xs)"

text \<open>
  The callers' contract: values of the component's layout, and - the world removes an entity's
  sparse values before it releases the handle - never two generations of one index at once;
  at most \<open>2 ^ 32 - 1\<close> entries.
\<close>

definition may_put :: "layout \<Rightarrow> entity \<Rightarrow> item \<Rightarrow> (entity \<times> item) list \<Rightarrow> bool" where
  "may_put item e x xs \<longleftrightarrow> length x = l_size item \<and> length xs < 4294967295
     \<and> list_all (\<lambda>p. entity_index (fst p) = entity_index e \<longrightarrow> fst p = e) xs"

fun sparse_pre :: "layout \<Rightarrow> sparse_op \<Rightarrow> (entity \<times> item) list \<Rightarrow> bool" where
  "sparse_pre item (SInsert e x) xs = may_put item e x xs"
| "sparse_pre item (STryInsert e x ok) xs = may_put item e x xs"
| "sparse_pre item (SGetMut e x) xs = (length x = l_size item)"
| "sparse_pre item _ xs = True"

lemma dense_index_entry:
  assumes "sparse_ok item df s"
  shows "dense_index s e = entry_pos (ss_for_each s) e"
proof -
  have l: "length (ss_for_each s) = length (ents s)" "i < length (ents s) \<Longrightarrow> fst (ss_for_each s ! i) = ents s ! i" for i
    by (simp_all add: ss_for_each_def)
  have inj: "i < length (ents s) \<Longrightarrow> j < length (ents s) \<Longrightarrow> ents s ! i = ents s ! j \<Longrightarrow> i = j" for i j
    using assms by (auto simp: sparse_ok_def distinct_conv_nth) (metis length_map nth_map)
  show ?thesis
  proof (cases "entry_pos (ss_for_each s) e")
    case None
    then have "\<forall>i < length (ents s). ents s ! i \<noteq> e" using l by (auto simp: entry_pos_def find_None_iff)
    then show ?thesis using None dense_index_iff [OF assms] by (metis not_None_eq)
  next
    case (Some i)
    then have "i < length (ents s) \<and> ents s ! i = e" using l by (auto simp: entry_pos_def find_Some_iff)
    then show ?thesis using Some dense_index_iff [OF assms] by metis
  qed
qed

lemma entry_pos_map_of: "map_of xs e = map_option (\<lambda>i. snd (xs ! i)) (entry_pos xs e)"
proof (induction xs)
  case (Cons p xs)
  have "entry_pos (p # xs) e = (if fst p = e then Some 0 else map_option Suc (entry_pos xs e))"
  proof -
    have "find (\<lambda>i. fst ((p # xs) ! i) = e) (map Suc js) = map_option Suc (find (\<lambda>i. fst (xs ! i) = e) js)" for js
      by (induction js) auto
    then show ?thesis by (simp add: entry_pos_def upt_conv_Cons map_Suc_upt [symmetric] del: upt_Suc)
  qed
  then show ?case using Cons by (cases p) (auto simp: option.map_comp o_def)
qed (simp add: entry_pos_def)

lemma entry_pos_bound: "entry_pos xs e = Some i \<Longrightarrow> i < length xs \<and> fst (xs ! i) = e"
  by (auto simp: entry_pos_def find_Some_iff)

lemma entry_pos_ex: "(entry_pos xs e \<noteq> None) = list_ex (\<lambda>p. fst p = e) xs"
  by (auto simp: entry_pos_def find_None_iff list_ex_length)

lemma sparse_okD:
  assumes "sparse_ok item df s"
  shows "col_ok item df (ss_values s)" "bv_len (ss_values s) = length (ents s)" "pages_ok s"
    "distinct (map entity_index (ents s))" "length (ents s) \<le> 4294967295"
    "d < length (ents s) \<Longrightarrow> slot_at s (unat (entity_index (ents s ! d))) = Some (word_of_nat d)"
  using assms by (auto simp: sparse_ok_def)

lemma page_view:
  "ss_pages s = ss_pages s' \<Longrightarrow> slot_at s = slot_at s' \<and> pages_ok s = pages_ok s'"
  by (auto simp: fun_eq_iff slot_at_def pages_ok_def page_def)

text \<open>Replacing the value of an entry.\<close>

lemma values_updated:
  assumes ok: "sparse_ok item df s" and d: "d < length (ents s)" "ents s ! d = e"
    and v: "col_ok item df v" "live_rows v = (live_rows (ss_values s))[d := x]"
  shows "sparse_ok item df (s\<lparr>ss_values := v\<rparr>) \<and> ss_for_each (s\<lparr>ss_values := v\<rparr>) = (ss_for_each s)[d := (e, x)]"
proof -
  note k = sparse_okD [OF ok]
  have len: "bv_len v = length (ents s)" using v(2) k(2) by (metis length_list_update live_rows_basic(1))
  have pv: "slot_at (s\<lparr>ss_values := v\<rparr>) = slot_at s" "pages_ok (s\<lparr>ss_values := v\<rparr>) = pages_ok s"
    using page_view [of "s\<lparr>ss_values := v\<rparr>" s] by simp_all
  have "sparse_ok item df (s\<lparr>ss_values := v\<rparr>)" using k v(1) len pv by (simp add: sparse_ok_def)
  moreover have "ss_for_each (s\<lparr>ss_values := v\<rparr>) = zip (ents s) ((live_rows (ss_values s))[d := x])"
    using for_each_zip [of "s\<lparr>ss_values := v\<rparr>"] len v(2) by simp
  moreover have "\<dots> = (ss_for_each s)[d := (e, x)]"
    unfolding for_each_zip [OF k(2)] update_zip fst_conv snd_conv d(2) [symmetric] list_update_id ..
  ultimately show ?thesis by simp
qed

text \<open>What the reservations of a fallible insert do: pages and capacity, no entry.\<close>

definition reserved :: "sparse_set \<Rightarrow> sparse_set \<Rightarrow> bool" where
  "reserved s s' \<longleftrightarrow> (pages_ok s \<longrightarrow> pages_ok s') \<and> ents s' = ents s \<and> same_values (ss_values s) (ss_values s')
     \<and> (\<forall>item df. col_ok item df (ss_values s) \<longrightarrow> col_ok item df (ss_values s'))
     \<and> (pages_ok s \<longrightarrow> (\<forall>j. slot_at s j \<noteq> None \<longrightarrow> slot_at s' j = slot_at s j))"

lemma reserved_refl [simp]: "reserved s s"
  by (simp add: reserved_def same_values_def)

lemma reserved_trans: "reserved s s1 \<Longrightarrow> reserved s1 s2 \<Longrightarrow> reserved s s2"
  unfolding reserved_def same_values_def by metis

lemma reserved_page: "try_ensure_page t p s k = Some (r, q, s') \<Longrightarrow> pages_ok s \<Longrightarrow> reserved s s'"
  by (frule (1) try_ensure_page_slot) (auto simp: reserved_def same_dense_def same_values_def)

lemma reserved_ents: "pv_try_reserve t p (ss_entities s) n = Some (r, q, es) \<Longrightarrow> reserved s (s\<lparr>ss_entities := es\<rparr>)"
proof -
  assume "pv_try_reserve t p (ss_entities s) n = Some (r, q, es)"
  then have "pv_elems es = ents s" by (drule_tac pv_try_reserve_elems) blast
  moreover have "slot_at (s\<lparr>ss_entities := es\<rparr>) = slot_at s \<and> pages_ok (s\<lparr>ss_entities := es\<rparr>) = pages_ok s"
    by (rule page_view) simp
  ultimately show ?thesis by (simp add: reserved_def same_values_def)
qed

lemma reserved_values:
  assumes "bv_try_reserve t p (ss_values s) n = Some (r, q, v)" "col_ok item df (ss_values s)"
  shows "reserved s (s\<lparr>ss_values := v\<rparr>)"
proof -
  have "same_values (ss_values s) v" using bv_try_reserve_values [OF assms] by blast
  moreover have "\<And>item df. col_ok item df (ss_values s) \<Longrightarrow> col_ok item df v" using bv_try_reserve_values [OF assms(1)] by blast
  ultimately show ?thesis by (simp add: reserved_def page_view [of "s\<lparr>ss_values := v\<rparr>" s])
qed

lemma reserved_ok:
  assumes "sparse_ok item df s" "reserved s s'"
  shows "sparse_ok item df s' \<and> ss_for_each s' = ss_for_each s"
proof -
  note k = sparse_okD [OF assms(1)]
  have lr: "live_rows (ss_values s') = live_rows (ss_values s)" "bv_len (ss_values s') = bv_len (ss_values s)"
    using assms(2) same_values_live [of "ss_values s" "ss_values s'"] by (auto simp: reserved_def same_values_def)
  have "sparse_ok item df s'" unfolding sparse_ok_def using k lr(2) assms(2) by (auto simp: reserved_def)
  moreover have "ss_for_each s' = ss_for_each s"
    using for_each_zip [OF k(2)] for_each_zip [of s'] lr k(2) assms(2) by (simp add: reserved_def)
  ultimately show ?thesis by simp
qed

lemma put_existing:
  assumes ok: "sparse_ok item df s" and x: "length x = l_size item" and d: "dense_index s e = Some d"
    and r: "replace_protected boom (ss_values s) d x = Some ((ds, u), v)"
  shows "sparse_ok item df (s\<lparr>ss_values := v\<rparr>) \<and> spec_put boom item df e x (ss_for_each s) = (SDropped ds u, ss_for_each (s\<lparr>ss_values := v\<rparr>))"
proof -
  have de: "d < length (ents s)" "ents s ! d = e" using dense_index_iff [OF ok] d by auto
  note k = sparse_okD [OF ok]
  have b: "d < bv_len (ss_values s)" using de k(2) by simp
  have v: "col_ok item df v" "live_rows v = (live_rows (ss_values s))[d := x]"
    "(ds, u) = (if df \<and> l_size item > 0 then ([live_rows (ss_values s) ! d], boom (live_rows (ss_values s) ! d)) else ([], False))"
    using replace_protected_ok [OF k(1) b x, of boom] r by auto
  have "snd (ss_for_each s ! d) = live_rows (ss_values s) ! d" using de b by (simp add: ss_for_each_def)
  moreover have "entry_pos (ss_for_each s) e = Some d" using dense_index_entry [OF ok] d by metis
  ultimately show ?thesis using values_updated [OF ok de v(1,2)] v(3) by (auto simp: spec_put_def)
qed

lemma put_new:
  assumes ok: "sparse_ok item df s" and pre: "may_put item e x (ss_for_each s)" and d: "dense_index s e = None"
    and pg: "page_set s (unat (entity_index e) div SPARSE_PAGE_SIZE) (unat (entity_index e) mod SPARSE_PAGE_SIZE) (word_of_nat (pv_len (ss_entities s))) = Some s2"
    and es: "pv_elems es = ents s @ [e]" and v: "live_rows v = live_rows (ss_values s) @ [x]" "col_ok item df v"
    and slot: "slot_at s (unat (entity_index e)) \<noteq> None"
  shows "sparse_ok item df (s2\<lparr>ss_entities := es, ss_values := v\<rparr>)
    \<and> ss_for_each (s2\<lparr>ss_entities := es, ss_values := v\<rparr>) = ss_for_each s @ [(e, x)]"
proof -
  note k = sparse_okD [OF ok]
  let ?s = "s2\<lparr>ss_entities := es, ss_values := v\<rparr>"
  have s2: "pages_ok s2" "\<And>j. slot_at s2 j = (if j = unat (entity_index e) then Some (word_of_nat (length (ents s))) else slot_at s j)"
    using page_set_slot [OF k(3) slot, of "word_of_nat (length (ents s))"] pg by auto
  have pv: "slot_at ?s = slot_at s2" "pages_ok ?s = pages_ok s2" using page_view [of ?s s2] by simp_all
  have fe: "ss_for_each s = zip (ents s) (live_rows (ss_values s))" by (rule for_each_zip [OF k(2)])
  have len: "bv_len v = length (ents s) + 1" using v(1) k(2) by (metis length_append_singleton live_rows_basic(1) Suc_eq_plus1)
  have "e \<notin> set (ents s)" using d dense_index_iff [OF ok] by (metis in_set_conv_nth option.distinct(1))
  moreover have "list_all (\<lambda>a. entity_index a = entity_index e \<longrightarrow> a = e) (ents s)"
    using pre k(2) unfolding may_put_def fe by (auto simp: list_all_length)
  ultimately have new: "entity_index e \<notin> entity_index ` set (ents s)" by (auto simp: list_all_iff)
  have "slot_at ?s (unat (entity_index (pv_elems es ! i))) = Some (word_of_nat i)" if "i < length (ents s) + 1" for i
  proof (cases "i = length (ents s)")
    case False
    then have "ents s ! i \<in> set (ents s)" using that by simp
    then have "entity_index (ents s ! i) \<noteq> entity_index e" using new by (auto simp: image_iff)
    then have "unat (entity_index (ents s ! i)) \<noteq> unat (entity_index e)" by (simp add: word_unat_eq_iff)
    then show ?thesis using False that k(6) [of i] es s2(2) pv(1) by (simp add: nth_append)
  qed (use es s2(2) pv(1) in simp)
  moreover have "length (ents s) < 4294967295" using pre fe k(2) by (simp add: may_put_def)
  ultimately have "sparse_ok item df ?s" using k es v(2) len s2(1) pv(2) new by (auto simp: sparse_ok_def)
  moreover have "ss_for_each ?s = zip (pv_elems es) (live_rows v)" using for_each_zip [of ?s] len es by simp
  then have "ss_for_each ?s = ss_for_each s @ [(e, x)]" using es v(1) fe k(2) by simp
  ultimately show ?thesis by blast
qed

lemma ss_insert_sim:
  assumes ok: "sparse_ok item df s" and pre: "may_put item e x (ss_for_each s)" and r: "ss_insert boom t p s e x = Some ((ds, u), q, s')"
  shows "sparse_ok item df s' \<and> spec_put boom item df e x (ss_for_each s) = (SDropped ds u, ss_for_each s')"
proof (cases "dense_index s e")
  case (Some d)
  then obtain v where "replace_protected boom (ss_values s) d x = Some ((ds, u), v)" "s' = s\<lparr>ss_values := v\<rparr>"
    using r by (auto simp: ss_insert_def split: bind_splits)
  note st = this
  have "length x = l_size item" using pre by (simp add: may_put_def)
  from put_existing [OF ok this Some st(1)] st(2-) show ?thesis by auto
next
  case None
  obtain r1 p1 s1 s2 p2 es v where st: "try_ensure_page t p s (unat (entity_index e) div SPARSE_PAGE_SIZE) = Some (r1, p1, s1)" "r1 = Inr ()"
    "page_set s1 (unat (entity_index e) div SPARSE_PAGE_SIZE) (unat (entity_index e) mod SPARSE_PAGE_SIZE) (word_of_nat (pv_len (ss_entities s))) = Some s2"
    "pv_push t p1 (ss_entities s2) e = Some (p2, es)" "bv_push t p2 (ss_values s2) x = Some (q, v)"
    "s' = s2\<lparr>ss_entities := es, ss_values := v\<rparr>" "ds = []" "\<not> u"
    using r None by (auto simp: ss_insert_def Let_def split: bind_splits sum.splits)
  note pg = try_ensure_page_slot [OF st(1) sparse_okD(3) [OF ok]]
  note k1 = reserved_ok [OF ok reserved_page [OF st(1) sparse_okD(3) [OF ok]]]
  have ok1: "sparse_ok item df s1" and fe: "ss_for_each s1 = ss_for_each s" using k1 by auto
  have slot: "slot_at s1 (unat (entity_index e)) \<noteq> None" using pg st(2) by blast
  have same: "ss_entities s1 = ss_entities s" "ss_values s1 = ss_values s" using pg by (auto simp: same_dense_def)
  have s2: "ss_entities s2 = ss_entities s" "ss_values s2 = ss_values s"
    using page_set_slot [OF sparse_okD(3) [OF ok1] slot, of "word_of_nat (pv_len (ss_entities s))"] st(3) same by (auto simp: same_dense_def)
  have d1: "dense_index s1 e = None" using None dense_index_entry [OF ok1] dense_index_entry [OF ok] fe by simp
  have x: "length x = l_size item" using pre by (simp add: may_put_def)
  have v: "live_rows v = live_rows (ss_values s1) @ [x]" "col_ok item df v"
    using bv_push_values [OF st(5) _ x, of df] sparse_okD(1) [OF ok] s2 same by auto
  have es: "pv_elems es = ents s1 @ [e]" using pv_push_elems [OF st(4)] s2 same by simp
  have "page_set s1 (unat (entity_index e) div SPARSE_PAGE_SIZE) (unat (entity_index e) mod SPARSE_PAGE_SIZE) (word_of_nat (pv_len (ss_entities s1))) = Some s2"
    using st(3) same by simp
  from put_new [OF ok1 _ d1 this es v slot] pre fe
  have "sparse_ok item df s' \<and> ss_for_each s' = ss_for_each s @ [(e, x)]" using st(6) by simp
  moreover have "entry_pos (ss_for_each s) e = None" using None dense_index_entry [OF ok] by simp
  ultimately show ?thesis using st(7,8) by (simp add: spec_put_def)
qed

lemma ss_try_insert_sim:
  assumes ok: "sparse_ok item df s" and pre: "may_put item e x (ss_for_each s)" and r: "ss_try_insert boom t p s e x = Some (r, q, s')"
  shows "sparse_ok item df s' \<and> (case r of Inl er \<Rightarrow> ss_for_each s' = ss_for_each s
    | Inr (ds, u) \<Rightarrow> spec_put boom item df e x (ss_for_each s) = (SDropped ds u, ss_for_each s'))"
proof (cases "dense_index s e")
  case (Some d)
  then obtain ds u v where "replace_protected boom (ss_values s) d x = Some ((ds, u), v)" "s' = s\<lparr>ss_values := v\<rparr>" "r = Inr (ds, u)"
    using r by (auto simp: ss_try_insert_def split: bind_splits)
  note st = this
  have "length x = l_size item" using pre by (simp add: may_put_def)
  from put_existing [OF ok this Some st(1)] st(2-) show ?thesis by auto
next
  case None
  obtain r1 p1 s1 where 1: "try_ensure_page t p s (unat (entity_index e) div SPARSE_PAGE_SIZE) = Some (r1, p1, s1)"
    and c1: "(case r1 of Inl er \<Rightarrow> Some (Inl er, p1, s1) | Inr _ \<Rightarrow> do {
            (r2, p2, ents) \<leftarrow> pv_try_reserve t p1 (ss_entities s1) 1;
            let s2 = s1\<lparr>ss_entities := ents\<rparr>;
            (case r2 of Inl er \<Rightarrow> Some (Inl er, p2, s2) | Inr _ \<Rightarrow> do {
              (r3, p3, vals) \<leftarrow> bv_try_reserve t p2 (ss_values s2) 1;
              let s3 = s2\<lparr>ss_values := vals\<rparr>;
              (case r3 of Inl er \<Rightarrow> Some (Inl er, p3, s3) | Inr _ \<Rightarrow> do {
                (out, p4, s4) \<leftarrow> ss_insert boom t p3 s3 e x;
                Some (Inr out, p4, s4) }) }) }) = Some (r, q, s')"
    using r None by (auto simp: ss_try_insert_def split: bind_splits)
  note k1 = reserved_ok [OF ok reserved_page [OF 1 sparse_okD(3) [OF ok]]]
  show ?thesis
  proof (cases r1)
    case (Inl er)
    then have "r = Inl er \<and> s' = s1" using c1 by simp
      then show ?thesis using k1 by simp
  next
    case Inr1: (Inr _)
    obtain r2 p2 es where 2: "pv_try_reserve t p1 (ss_entities s1) 1 = Some (r2, p2, es)"
      and c2: "(case r2 of Inl er \<Rightarrow> Some (Inl er, p2, s1\<lparr>ss_entities := es\<rparr>) | Inr _ \<Rightarrow> do {
              (r3, p3, vals) \<leftarrow> bv_try_reserve t p2 (ss_values (s1\<lparr>ss_entities := es\<rparr>)) 1;
              let s3 = s1\<lparr>ss_entities := es, ss_values := vals\<rparr>;
              (case r3 of Inl er \<Rightarrow> Some (Inl er, p3, s3) | Inr _ \<Rightarrow> do {
                (out, p4, s4) \<leftarrow> ss_insert boom t p3 s3 e x;
                Some (Inr out, p4, s4) }) }) = Some (r, q, s')"
      using c1 Inr1 by (auto simp: Let_def split: bind_splits)
    let ?s2 = "s1\<lparr>ss_entities := es\<rparr>"
    have k2: "sparse_ok item df ?s2 \<and> ss_for_each ?s2 = ss_for_each s"
      using reserved_ok [OF _ reserved_ents [OF 2]] k1 by metis
    show ?thesis
    proof (cases r2)
      case (Inl er)
      then have "r = Inl er \<and> s' = ?s2" using c2 by simp
      then show ?thesis using k2 by simp
    next
      case Inr2: (Inr _)
      obtain r3 p3 v where 3: "bv_try_reserve t p2 (ss_values ?s2) 1 = Some (r3, p3, v)"
        and c3: "(case r3 of Inl er \<Rightarrow> Some (Inl er, p3, ?s2\<lparr>ss_values := v\<rparr>) | Inr _ \<Rightarrow> do {
                (out, p4, s4) \<leftarrow> ss_insert boom t p3 (?s2\<lparr>ss_values := v\<rparr>) e x;
                Some (Inr out, p4, s4) }) = Some (r, q, s')"
        using c2 Inr2 by (auto simp: Let_def split: bind_splits)
      have k3: "sparse_ok item df (?s2\<lparr>ss_values := v\<rparr>) \<and> ss_for_each (?s2\<lparr>ss_values := v\<rparr>) = ss_for_each s"
        using reserved_ok [OF _ reserved_values [OF 3 sparse_okD(1)]] k2 by metis
      show ?thesis
      proof (cases r3)
        case (Inl er)
        then have "r = Inl er \<and> s' = ?s2\<lparr>ss_values := v\<rparr>" using c3 by simp
      then show ?thesis using k3 by simp
      next
        case (Inr _)
        then obtain ds u where i: "ss_insert boom t p3 (?s2\<lparr>ss_values := v\<rparr>) e x = Some ((ds, u), q, s')" "r = Inr (ds, u)"
          using c3 by (auto split: bind_splits)
        from ss_insert_sim [OF _ _ i(1), of item df] k3 pre i(2) show ?thesis by auto
      qed
    qed
  qed
qed

lemma reserved_pages_ok: "reserved s s' \<Longrightarrow> pages_ok s \<Longrightarrow> pages_ok s'"
  by (simp add: reserved_def)

lemma ensure_pages_reserved:
  "ensure_pages t p s pgs = Some (r, q, s') \<Longrightarrow> pages_ok s \<Longrightarrow> reserved s s'"
proof (induction pgs arbitrary: p s)
  case (Cons pg pgs)
  obtain r1 p1 s1 where st: "try_ensure_page t p s pg = Some (r1, p1, s1)"
    "(case r1 of Inl e \<Rightarrow> Some (Inl e, p1, s1) | Inr _ \<Rightarrow> ensure_pages t p1 s1 pgs) = Some (r, q, s')"
    using Cons.prems(1) by (auto split: bind_splits)
  have 1: "reserved s s1" by (rule reserved_page [OF st(1) Cons.prems(2)])
  show ?case
  proof (cases r1)
    case (Inl e)
    then show ?thesis using st(2) 1 by simp
  next
    case (Inr u)
    then have "reserved s1 s'" using st(2) Cons.IH [of p1 s1] reserved_pages_ok [OF 1 Cons.prems(2)] by simp
    then show ?thesis by (rule reserved_trans [OF 1])
  qed
qed simp

lemma ss_try_reserve_reserved:
  assumes "ss_try_reserve t p s n pgs = Some (r, q, s')" "pages_ok s" "col_ok item df (ss_values s)"
  shows "reserved s s'"
proof -
  obtain r1 p1 s1 where 1: "ensure_pages t p s pgs = Some (r1, p1, s1)"
    and c1: "(case r1 of Inl e \<Rightarrow> Some (Inl e, p1, s1) | Inr _ \<Rightarrow> do {
         (r2, p2, ents) \<leftarrow> pv_try_reserve t p1 (ss_entities s1) n;
         let s2 = s1\<lparr>ss_entities := ents\<rparr>;
         (case r2 of Inl e \<Rightarrow> Some (Inl e, p2, s2) | Inr _ \<Rightarrow> do {
           (r3, p3, vals) \<leftarrow> bv_try_reserve t p2 (ss_values s2) n;
           Some (r3, p3, s2\<lparr>ss_values := vals\<rparr>) }) }) = Some (r, q, s')"
    using assms(1) by (auto simp: ss_try_reserve_def split: bind_splits)
  have k1: "reserved s s1" by (rule ensure_pages_reserved [OF 1 assms(2)])
  show ?thesis
  proof (cases r1)
    case (Inl e)
    then show ?thesis using c1 k1 by simp
  next
    case Inr1: (Inr _)
    obtain r2 p2 es where 2: "pv_try_reserve t p1 (ss_entities s1) n = Some (r2, p2, es)"
      and c2: "(case r2 of Inl e \<Rightarrow> Some (Inl e, p2, s1\<lparr>ss_entities := es\<rparr>) | Inr _ \<Rightarrow> do {
           (r3, p3, vals) \<leftarrow> bv_try_reserve t p2 (ss_values (s1\<lparr>ss_entities := es\<rparr>)) n;
           Some (r3, p3, s1\<lparr>ss_entities := es, ss_values := vals\<rparr>) }) = Some (r, q, s')"
      using c1 Inr1 by (auto simp: Let_def split: bind_splits)
    let ?s2 = "s1\<lparr>ss_entities := es\<rparr>"
    have k2: "reserved s ?s2" by (rule reserved_trans [OF k1 reserved_ents [OF 2]])
    show ?thesis
    proof (cases r2)
      case (Inl e)
      then show ?thesis using c2 k2 by simp
    next
      case (Inr _)
      then obtain r3 p3 v where 3: "bv_try_reserve t p2 (ss_values ?s2) n = Some (r3, p3, v)" "s' = ?s2\<lparr>ss_values := v\<rparr>"
        using c2 by (auto split: bind_splits)
      have "col_ok item df (ss_values ?s2)" using k2 assms(3) by (simp add: reserved_def)
      from reserved_trans [OF k2 reserved_values [OF 3(1) this]] 3(2) show ?thesis by simp
    qed
  qed
qed

lemma swap_remove_zip:
  "length xs = length ys \<Longrightarrow> i < length xs \<Longrightarrow> swap_remove i (zip xs ys) = zip (swap_remove i xs) (swap_remove i ys)"
proof -
  assume a: "length xs = length ys" "i < length xs"
  then have "xs \<noteq> []" "ys \<noteq> []" by auto
  then have "last (zip xs ys) = (last xs, last ys)" using a(1) by (simp add: last_zip)
  then show ?thesis using a by (intro nth_equalityI) (simp_all add: nth_swap_remove)
qed

lemma remove_internal_ok:
  assumes ok: "sparse_ok item df s"
  shows "\<exists>b ds u s'. remove_internal boom s e = Some ((b, ds, u), s') \<and> sparse_ok item df s'
    \<and> sparse_spec boom item df (SRemove e) (ss_for_each s) = (SRemoved b ds u, ss_for_each s')"
proof (cases "dense_index s e")
  case None
  then show ?thesis using ok dense_index_entry [OF ok, of e]
    by (intro exI [of _ False] exI [of _ "[]"] exI [of _ s]) (simp add: remove_internal_def)
next
  case (Some d)
  note k = sparse_okD [OF ok]
  have d: "d < length (ents s)" "ents s ! d = e" using dense_index_iff [OF ok] Some by auto
  let ?i = "unat (entity_index e)" and ?last = "length (ents s) - 1"
  let ?l = "ents s ! ?last"
  let ?j = "unat (entity_index ?l)"
  have slot: "slot_at s ?i \<noteq> None" using k(6) [OF d(1)] d(2) by simp
  obtain s1 where s1: "page_set s (?i div SPARSE_PAGE_SIZE) (?i mod SPARSE_PAGE_SIZE) EMPTY = Some s1" "pages_ok s1" "same_dense s s1"
    "\<And>n. slot_at s1 n = (if n = ?i then Some EMPTY else slot_at s n)"
    using page_set_slot [OF k(3) slot, of EMPTY] by blast
  have e1: "ents s1 = ents s" using s1(3) by (simp add: same_dense_def)
  have inj: "a < length (ents s) \<Longrightarrow> b < length (ents s) \<Longrightarrow> entity_index (ents s ! a) = entity_index (ents s ! b) \<Longrightarrow> a = b" for a b
    using k(4) by (metis distinct_conv_nth length_map nth_map)
  have lslot: "slot_at s1 ?j \<noteq> None" using k(6) [of ?last] d(1) s1(4) by auto
  obtain s2 where s2: "(if d \<noteq> ?last then page_set s1 (?j div SPARSE_PAGE_SIZE) (?j mod SPARSE_PAGE_SIZE) (word_of_nat d) else Some s1) = Some s2"
    "pages_ok s2" "same_dense s1 s2" "\<And>n. slot_at s2 n = (if d \<noteq> ?last \<and> n = ?j then Some (word_of_nat d) else slot_at s1 n)"
    using page_set_slot [OF s1(2) lslot, of "word_of_nat d"] s1(2) by (cases "d = ?last") (auto simp: same_dense_def)
  have e2: "ss_entities s2 = ss_entities s" "ss_values s2 = ss_values s" using s1(3) s2(3) by (auto simp: same_dense_def)
  let ?v = "commit_extracted_swap (ss_values s) d"
  let ?s = "s2\<lparr>ss_entities := (ss_entities s)\<lparr>pv_elems := swap_remove d (ents s)\<rparr>, ss_values := ?v\<rparr>"
  let ?out = "if df then drop_one boom (bv_read (ss_values s) d) else ([], False)"
  have run: "remove_internal boom s e = Some ((True, ?out), ?s)"
    using Some d s1(1) s2(1) e1 e2 k(1)
    by (cases "d = ?last") (simp_all add: remove_internal_def bv_swap_remove_def removal_eq Let_def col_ok_def)
  have pv: "slot_at ?s = slot_at s2" "pages_ok ?s = pages_ok s2" using page_view [of ?s s2] by simp_all
  have dl: "d < bv_len (ss_values s)" using d k(2) by simp
  have "slot_at ?s (unat (entity_index (swap_remove d (ents s) ! n))) = Some (word_of_nat n)" if n: "n < length (ents s) - 1" for n
  proof (cases "n = d")
    case True
    have "last (ents s) = ?l" using d(1) by (intro last_conv_nth) auto
    then have "swap_remove d (ents s) ! n = ?l" using n True by (simp add: nth_swap_remove)
    then show ?thesis using n True pv(1) s2(4) by simp
  next
    case False
    have nl: "n < length (ents s)" "?last < length (ents s)" "n \<noteq> ?last" using n d(1) by auto
    have "entity_index (ents s ! n) \<noteq> entity_index e" "entity_index (ents s ! n) \<noteq> entity_index ?l"
      using inj [OF nl(1) d(1)] inj [OF nl(1,2)] False nl(3) d(2) by auto
    then have "unat (entity_index (ents s ! n)) \<noteq> ?i" "unat (entity_index (ents s ! n)) \<noteq> ?j"
      by (simp_all add: word_unat_eq_iff)
    then show ?thesis using False n pv(1) s2(4) s1(4) k(6) [OF nl(1)] by (simp add: nth_swap_remove)
  qed
  moreover have "distinct (map entity_index (swap_remove d (ents s)))"
  proof -
    have "ents s \<noteq> []" using d(1) by auto
    then have "map entity_index (swap_remove d (ents s)) = swap_remove d (map entity_index (ents s))"
      using d by (intro nth_equalityI) (auto simp: nth_swap_remove last_map [of "ents s"])
    then show ?thesis using distinct_set_swap_remove [OF k(4), of d] d by simp
  qed
  ultimately have "sparse_ok item df ?s"
    using k s2(2) pv(2) commit_col_ok [OF k(1) dl] by (simp add: sparse_ok_def)
  moreover have "ss_for_each ?s = swap_remove d (ss_for_each s)"
    using for_each_zip [of ?s] for_each_zip [OF k(2)] live_commit [OF dl] k(2) d(1)
    by (simp add: swap_remove_zip)
  moreover have "entry_pos (ss_for_each s) e = Some d" using dense_index_entry [OF ok] Some by metis
  moreover have "snd (ss_for_each s ! d) = bv_read (ss_values s) d" using d by (simp add: ss_for_each_def)
  ultimately show ?thesis using run by (auto simp: drop_one_def)
qed

lemma sparse_get:
  assumes "sparse_ok item df s"
  shows "ss_get s e = map_of (ss_for_each s) e"
proof (cases "dense_index s e")
  case None
  then show ?thesis using dense_index_entry [OF assms, of e] by (simp add: ss_get_def entry_pos_map_of)
next
  case (Some d)
  then have "d < length (ents s)" using dense_index_iff [OF assms] by blast
  then have "snd (ss_for_each s ! d) = bv_read (ss_values s) d" by (simp add: ss_for_each_def)
  then show ?thesis using Some dense_index_entry [OF assms, of e] by (simp add: ss_get_def entry_pos_map_of)
qed

lemma sparse_get_mut:
  assumes ok: "sparse_ok item df s" and x: "length x = l_size item"
  shows "case ss_get_mut s e x of None \<Rightarrow> entry_pos (ss_for_each s) e = None
    | Some s' \<Rightarrow> \<exists>d. entry_pos (ss_for_each s) e = Some d \<and> sparse_ok item df s' \<and> ss_for_each s' = (ss_for_each s)[d := (e, x)]"
proof (cases "dense_index s e")
  case None
  then show ?thesis using dense_index_entry [OF ok] by (simp add: ss_get_mut_def)
next
  case (Some d)
  note k = sparse_okD [OF ok]
  have d: "d < length (ents s)" "ents s ! d = e" using dense_index_iff [OF ok] Some by auto
  have "col_ok item df (bv_write (ss_values s) d x)" using k(1) by (auto simp: bv_write_def col_ok_def)
  moreover have "live_rows (bv_write (ss_values s) d x) = (live_rows (ss_values s))[d := x]"
    using d k(1,2) x by (intro live_write) (auto simp: col_ok_def)
  ultimately show ?thesis using values_updated [OF ok d] Some dense_index_entry [OF ok, of e] by (simp add: ss_get_mut_def)
qed

lemma sparse_step_sim:
  assumes ok: "sparse_ok item df s" and pre: "sparse_pre item a (ss_for_each s)" and st: "sparse_step boom t a (p, s) = Some (r, q, s')"
  shows "sparse_ok item df s' \<and> sparse_spec boom item df a (ss_for_each s) = (r, ss_for_each s')"
proof (cases a)
  case (SInsert e x)
  then show ?thesis using ss_insert_sim [OF ok, of e x boom t p _ _ q s'] pre st by auto
next
  case (STryInsert e x b)
  then show ?thesis using ss_try_insert_sim [OF ok, of e x boom t p _ q s'] pre st
    by (auto split: bind_splits sum.splits if_splits)
next
  case (SRemove e)
  then show ?thesis using remove_internal_ok [OF ok, of boom e] st by auto
next
  case (SGet e)
  then show ?thesis using sparse_get [OF ok] ok st by auto
next
  case (SGetMut e x)
  then show ?thesis using sparse_get_mut [OF ok, of x e] ok st pre by (auto split: option.splits)
next
  case (SContains e)
  then show ?thesis using dense_index_entry [OF ok, of e] entry_pos_ex [of "ss_for_each s" e] ok st by (auto simp: ss_contains_def)
next
  case SLen
  then show ?thesis using ok st by (auto simp: ss_len_def ss_for_each_def)
next
  case SForEach
  then show ?thesis using ok st by auto
next
  case (STryReserve n pgs b)
  then obtain r1 where "ss_try_reserve t p s n pgs = Some (r1, q, s')" "r = (if b then SDropped [] False else SErr)"
    using st by (auto split: bind_splits sum.splits if_splits)
  then show ?thesis using STryReserve reserved_ok [OF ok ss_try_reserve_reserved [OF _ sparse_okD(3,1) [OF ok]]] by simp
qed

interpretation sparse: simulation "sparse_step boom t" "sparse_spec boom item df" "sparse_pre item"
    "\<lambda>(p, s). sparse_ok item df s" "\<lambda>(p, s). ss_for_each s"
  for boom t item df
  by unfold_locales (use sparse_step_sim in \<open>auto split: prod.splits\<close>)

abbreviation sparse_run :: "(item \<Rightarrow> bool) \<Rightarrow> nat \<Rightarrow> layout \<Rightarrow> sparse_op list \<Rightarrow> slab_pool \<times> sparse_set
    \<Rightarrow> (sparse_answer list \<times> slab_pool \<times> sparse_set) option" where
  "sparse_run boom t item \<equiv> run_answers (guarded (sparse_pre item) (\<lambda>(p, s). ss_for_each s) (sparse_step boom t))"

lemma ss_new_ok: "ss_new t p item df = Some (q, s) \<Longrightarrow> sparse_ok item df s \<and> ss_for_each s = []"
  by (auto simp: ss_new_def sparse_ok_def pages_ok_def page_def pv_new_def ss_for_each_def live_rows_def dest!: bv_new_ok split: bind_splits)

text \<open>
  (C33) The paged sparse set is a map from entities to values. Over every history of inserts,
  fallible inserts and reservations (with whatever outcome), removals, accesses and
  enumerations, all answers - the values found, the values dropped, whether a destructor
  unwound, the entries enumerated and their order - are those of a plain association list
  with one entry per entity; a failed insert or reservation changes no entry.
\<close>

theorem sparse_set_refines:
  assumes "sparse_ok item df s" "sparse_run boom t item ops (q, s) = Some (rs, q', s')"
  shows "spec_answers (sparse_spec boom item df) ops (ss_for_each s) = (rs, ss_for_each s')
    \<and> distinct (map fst (ss_for_each s')) \<and> (\<forall>e. ss_get s' e = map_of (ss_for_each s') e)"
proof -
  have r: "sparse_ok item df s' \<and> spec_answers (sparse_spec boom item df) ops (ss_for_each s) = (rs, ss_for_each s')"
    using sparse.run_guarded [of item df "(q, s)" boom t ops rs "(q', s')"] assms by simp
  note k = sparse_okD [OF conjunct1 [OF r]]
  have "map fst (ss_for_each s') = ents s'" using k(2) by (simp add: for_each_zip)
  moreover have "distinct (ents s')" using k(4) by (simp add: distinct_map)
  ultimately show ?thesis using r sparse_get by auto
qed

text \<open>An empty set of one-byte droppable values with its first page and room for eight entries.\<close>

definition sparse_room :: sparse_set where
  "sparse_room = \<lparr>ss_pages = [Some (At 8192, replicate 1024 EMPTY)],
     ss_entities = (pv_new ENTITY_LAYOUT)\<lparr>pv_cap := 8, pv_data := At 16384\<rparr>, ss_values = byte_column True\<rparr>"

lemma sparse_room_ok: "sparse_ok \<lparr>l_size = 1, l_align = 1\<rparr> True sparse_room"
  using byte_column_ok [of True]
  by (auto simp: sparse_ok_def sparse_room_def pages_ok_def page_def SPARSE_PAGE_SIZE_def byte_column_def bv_init_def pv_new_def split: if_splits)

lemmas sparse_eval = guarded_def may_put_def ss_for_each_def ss_insert_def ss_get_def remove_internal_def dense_index_def
  page_def page_set_def try_ensure_page_def SPARSE_PAGE_SIZE_def EMPTY_def bv_push_def bv_write_def bv_read_def
  bv_swap_remove_def remove_guard_def drop_one_def byte_column_def bv_init_def pv_new_def sparse_room_def swap_remove_def
  USIZE_MAX_def

theorem sparse_set_refines_witness:
  "\<exists>rs q' s'. sparse_run (\<lambda>x. x = [7]) 0 \<lparr>l_size = 1, l_align = 1\<rparr>
        [SInsert (entity_new 3 0) [7], SGet (entity_new 3 0), SGet (entity_new 3 1), SRemove (entity_new 3 0), SGet (entity_new 3 0)]
        (slab_pool_new 2097152 1, sparse_room) = Some (rs, q', s')
     \<and> rs = [SDropped [] False, SItem (Some [7]), SItem None, SRemoved True [[7]] True, SItem None]
     \<and> spec_answers (sparse_spec (\<lambda>x. x = [7]) \<lparr>l_size = 1, l_align = 1\<rparr> True)
        [SInsert (entity_new 3 0) [7], SGet (entity_new 3 0), SGet (entity_new 3 1), SRemove (entity_new 3 0), SGet (entity_new 3 0)] []
        = (rs, [])"
proof -
  let ?l = "\<lparr>l_size = 1, l_align = 1\<rparr>"
  let ?ops = "[SInsert (entity_new 3 0) [7], SGet (entity_new 3 0), SGet (entity_new 3 1), SRemove (entity_new 3 0), SGet (entity_new 3 0)]"
  have ne: "entity_new 3 0 \<noteq> entity_new 3 1" by (simp add: entity_eq_iff)
  have "map_option (\<lambda>(rs, q', s'). (rs, ss_for_each s')) (sparse_run (\<lambda>x. x = [7]) 0 ?l ?ops (slab_pool_new 2097152 1, sparse_room))
    = Some ([SDropped [] False, SItem (Some [7]), SItem None, SRemoved True [[7]] True, SItem None], [])"
    using ne by (simp add: sparse_eval Let_def)
  then obtain rs q' s' where r: "sparse_run (\<lambda>x. x = [7]) 0 ?l ?ops (slab_pool_new 2097152 1, sparse_room) = Some (rs, q', s')"
    "rs = [SDropped [] False, SItem (Some [7]), SItem None, SRemoved True [[7]] True, SItem None]" "ss_for_each s' = []"
    by auto
  have e: "ss_for_each sparse_room = []" by (simp add: ss_for_each_def sparse_room_def pv_new_def)
  have "spec_answers (sparse_spec (\<lambda>x. x = [7]) ?l True) ?ops [] = (rs, [])"
    using sparse_set_refines [OF sparse_room_ok r(1)] unfolding e r(3) by (rule conjunct1)
  with r(1,2) show ?thesis by blast
qed

subsection \<open>The storage of all sparse components\<close>

lemma map_of_swap_remove:
  assumes "distinct (map fst xs)" "i < length xs"
  shows "map_of (swap_remove i xs) = (map_of xs)(fst (xs ! i) := None)"
proof -
  have fs: "map fst (swap_remove i xs) = swap_remove i (map fst xs)"
  proof -
    have "xs \<noteq> []" using assms(2) by auto
    then show ?thesis using assms(2) by (intro nth_equalityI) (auto simp: nth_swap_remove last_map)
  qed
  have ds: "distinct (map fst (swap_remove i xs))" "set (map fst (swap_remove i xs)) = set (map fst xs) - {fst (xs ! i)}"
    using distinct_set_swap_remove [OF assms(1), of i] assms(2) unfolding fs by auto
  have "distinct xs" using assms(1) by (simp add: distinct_map)
  then have set: "set (swap_remove i xs) = set xs - {xs ! i}" using distinct_set_swap_remove [of xs i] assms(2) by blast
  show ?thesis
  proof
    fix k
    show "map_of (swap_remove i xs) k = ((map_of xs)(fst (xs ! i) := None)) k"
    proof (cases "k = fst (xs ! i)")
      case True
      then have "k \<notin> set (map fst (swap_remove i xs))" using ds(2) by blast
      then have "map_of (swap_remove i xs) k = None" by (simp add: map_of_eq_None_iff)
      then show ?thesis using True by simp
    next
      case False
      have "(map_of (swap_remove i xs) k = Some v) = (map_of xs k = Some v)" for v
        unfolding map_of_eq_Some_iff [OF ds(1)] map_of_eq_Some_iff [OF assms(1)] set using False by (auto, metis fst_conv)
      then have "map_of (swap_remove i xs) k = map_of xs k" by (metis not_Some_eq)
      then show ?thesis using False by simp
    qed
  qed
qed

definition storage_ok :: "sparse_storage \<Rightarrow> bool" where
  "storage_ok st \<longleftrightarrow> (\<forall>c s. st c = Some s \<longrightarrow> sparse_ok (bv_item (ss_values s)) (bv_drop_fn (ss_values s)) s)"

lemma entries_distinct: "sparse_ok item df s \<Longrightarrow> distinct (map fst (ss_for_each s))"
  using sparse_okD [of item df s] by (simp add: for_each_zip distinct_map)

lemma remove_internal_map:
  assumes ok: "sparse_ok item df s"
  shows "\<exists>b ds u s'. remove_internal boom s e = Some ((b, ds, u), s') \<and> sparse_ok item df s'
    \<and> ss_get s' e = None \<and> (\<forall>e'. e' \<noteq> e \<longrightarrow> ss_get s' e' = ss_get s e') \<and> (u \<longrightarrow> (\<exists>x. ds = [x] \<and> boom x \<and> ss_get s e = Some x))"
proof -
  obtain b ds u s' where r: "remove_internal boom s e = Some ((b, ds, u), s')" "sparse_ok item df s'"
    "sparse_spec boom item df (SRemove e) (ss_for_each s) = (SRemoved b ds u, ss_for_each s')"
    using remove_internal_ok [OF ok] by blast
  have m: "ss_get s' k = map_of (ss_for_each s') k" "ss_get s k = map_of (ss_for_each s) k" for k
    using sparse_get ok r(2) by blast+
  have "ss_get s' e = None \<and> (\<forall>e'. e' \<noteq> e \<longrightarrow> ss_get s' e' = ss_get s e') \<and> (u \<longrightarrow> (\<exists>x. ds = [x] \<and> boom x \<and> ss_get s e = Some x))"
  proof (cases "entry_pos (ss_for_each s) e")
    case None
    then show ?thesis using r(3) unfolding m by (auto simp: entry_pos_map_of)
  next
    case (Some i)
    note ib = entry_pos_bound [OF Some]
    then have "map_of (ss_for_each s') = (map_of (ss_for_each s))(e := None)"
      using map_of_swap_remove [OF entries_distinct [OF ok], of i] r(3) Some by auto
    moreover have "map_of (ss_for_each s) e = Some (snd (ss_for_each s ! i))" using Some by (simp add: entry_pos_map_of)
    ultimately show ?thesis using r(3) Some unfolding m by (auto split: if_splits)
  qed
  with r show ?thesis by blast
qed

lemma st_remove_step:
  assumes "storage_ok st"
  shows "\<exists>b ds u st'. st_remove_raw boom st c e = Some ((b, ds, u), st') \<and> storage_ok st' \<and> dom st' = dom st
    \<and> st_get st' c e = None \<and> (\<forall>c' e'. c' \<noteq> c \<or> e' \<noteq> e \<longrightarrow> st_get st' c' e' = st_get st c' e')
    \<and> (u \<longrightarrow> (\<exists>x. ds = [x] \<and> boom x \<and> st_get st c e = Some x))"
proof (cases "st c")
  case None
  then show ?thesis using assms by (intro exI [of _ False] exI [of _ "[]"] exI [of _ st]) (simp add: st_remove_raw_def st_get_def)
next
  case (Some s)
  then have ok: "sparse_ok (bv_item (ss_values s)) (bv_drop_fn (ss_values s)) s" using assms by (simp add: storage_ok_def)
  obtain b ds u s' where r: "remove_internal boom s e = Some ((b, ds, u), s')"
    "sparse_ok (bv_item (ss_values s)) (bv_drop_fn (ss_values s)) s'" "ss_get s' e = None"
    "\<forall>e'. e' \<noteq> e \<longrightarrow> ss_get s' e' = ss_get s e'" "u \<longrightarrow> (\<exists>x. ds = [x] \<and> boom x \<and> ss_get s e = Some x)"
    using remove_internal_map [OF ok] by blast
  have ty: "bv_item (ss_values s') = bv_item (ss_values s)" "bv_drop_fn (ss_values s') = bv_drop_fn (ss_values s)"
    using r(2) by (simp_all add: sparse_ok_def col_ok_def)
  have "storage_ok (st(c \<mapsto> s'))" using assms r(2) ty by (simp add: storage_ok_def)
  moreover have "dom (st(c \<mapsto> s')) = dom st" using Some by auto
  ultimately show ?thesis using Some r by (auto simp: st_remove_raw_def st_get_def)
qed

text \<open>A visit cut short by a destructor: what it reports, and which sets it has not reached.\<close>

definition visit_stopped :: "(nat \<Rightarrow> item \<Rightarrow> bool) \<Rightarrow> nat list \<Rightarrow> sparse_storage \<Rightarrow> entity \<Rightarrow> (nat \<times> item) list \<Rightarrow> sparse_storage \<Rightarrow> bool" where
  "visit_stopped boom ks st e ds st' \<longleftrightarrow> ds \<noteq> [] \<and> boom (fst (last ds)) (snd (last ds))
     \<and> (\<exists>js c ks'. ks = js @ c # ks' \<and> (\<forall>c'. c' \<notin> set (js @ [c]) \<longrightarrow> st_get st' c' e = st_get st c' e))"

lemma visit_stopped_here:
  "boom k x \<Longrightarrow> (\<And>c' e'. c' \<noteq> k \<or> e' \<noteq> e \<Longrightarrow> st_get st1 c' e' = st_get st c' e') \<Longrightarrow> visit_stopped boom (k # ks) st e [(k, x)] st1"
  unfolding visit_stopped_def by (intro conjI exI [where x = "[]"] exI [where x = k] exI [where x = ks]) auto

lemma visit_stopped_later:
  assumes "visit_stopped boom ks st1 e ds' st2" "\<And>c' e'. c' \<noteq> k \<or> e' \<noteq> e \<Longrightarrow> st_get st1 c' e' = st_get st c' e'"
  shows "visit_stopped boom (k # ks) st e (ds @ ds') st2"
proof -
  obtain js c ks' where j: "ks = js @ c # ks'" "\<forall>c'. c' \<notin> set (js @ [c]) \<longrightarrow> st_get st2 c' e = st_get st1 c' e"
    using assms(1) by (auto simp: visit_stopped_def)
  then have "k # ks = (k # js) @ c # ks' \<and> (\<forall>c'. c' \<notin> set ((k # js) @ [c]) \<longrightarrow> st_get st2 c' e = st_get st c' e)"
    using assms(2) by auto
  moreover have "ds' \<noteq> [] \<and> boom (fst (last ds')) (snd (last ds'))" using assms(1) by (simp add: visit_stopped_def)
  ultimately show ?thesis unfolding visit_stopped_def by (metis append_is_Nil_conv last_append)
qed

lemma st_remove_all_run:
  "storage_ok st \<Longrightarrow> \<exists>ds u st'. st_remove_all boom ks st e = Some ((ds, u), st') \<and> storage_ok st' \<and> dom st' = dom st
    \<and> (\<forall>c e'. e' \<noteq> e \<or> c \<notin> set ks \<longrightarrow> st_get st' c e' = st_get st c e')
    \<and> (if u then visit_stopped boom ks st e ds st' else \<forall>c \<in> set ks. st_get st' c e = None)"
proof (induction ks arbitrary: st)
  case (Cons k ks)
  obtain b ds u st1 where s: "st_remove_raw (boom k) st k e = Some ((b, ds, u), st1)" "storage_ok st1" "dom st1 = dom st"
    "st_get st1 k e = None" "\<And>c' e'. c' \<noteq> k \<or> e' \<noteq> e \<Longrightarrow> st_get st1 c' e' = st_get st c' e'"
    "u \<longrightarrow> (\<exists>x. ds = [x] \<and> boom k x \<and> st_get st k e = Some x)"
    using st_remove_step [OF Cons.prems, of "boom k" k e] by blast
  show ?case
  proof (cases u)
    case True
    then obtain x where x: "ds = [x]" "boom k x" using s(6) by blast
    have "st_remove_all boom (k # ks) st e = Some (([(k, x)], True), st1)" using s(1) True x(1) by simp
    moreover have "visit_stopped boom (k # ks) st e [(k, x)] st1" using x(2) s(5) by (intro visit_stopped_here)
    moreover have "\<forall>c e'. e' \<noteq> e \<or> c \<notin> set (k # ks) \<longrightarrow> st_get st1 c e' = st_get st c e'" using s(5) by auto
    ultimately show ?thesis using s(2,3) by (intro exI [of _ "[(k, x)]"] exI [of _ True] exI [of _ st1]) simp
  next
    case False
    obtain ds' u' st2 where i: "st_remove_all boom ks st1 e = Some ((ds', u'), st2)" "storage_ok st2" "dom st2 = dom st1"
      "\<forall>c e'. e' \<noteq> e \<or> c \<notin> set ks \<longrightarrow> st_get st2 c e' = st_get st1 c e'"
      "if u' then visit_stopped boom ks st1 e ds' st2 else \<forall>c \<in> set ks. st_get st2 c e = None"
      using Cons.IH [OF s(2)] by blast
    have r: "st_remove_all boom (k # ks) st e = Some ((map (Pair k) ds @ ds', u'), st2)" using s(1) False i(1) by simp
    have k: "st_get st2 k e = None" if "\<not> u'" using i(4,5) s(4) that by (cases "k \<in> set ks") auto
    have "if u' then visit_stopped boom (k # ks) st e (map (Pair k) ds @ ds') st2 else \<forall>c \<in> set (k # ks). st_get st2 c e = None"
      using i(5) k visit_stopped_later [of boom ks st1 e ds' st2 k st "map (Pair k) ds"] s(5) by auto
    moreover have "\<forall>c e'. e' \<noteq> e \<or> c \<notin> set (k # ks) \<longrightarrow> st_get st2 c e' = st_get st c e'" using i(4) s(5) by auto
    ultimately show ?thesis using r i(2,3) s(3) by (intro exI [of _ "map (Pair k) ds @ ds'"] exI [of _ u'] exI [of _ st2]) simp
  qed
next
  case Nil
  then show ?case by (intro exI [of _ "[]"] exI [of _ False] exI [of _ st]) simp
qed



end
