(* ===== verification/Component.thy ===== *)
theory Component
  imports Pool_Vec Access_Tick
begin

text \<open>
  The component registry (\<^verbatim>\<open>crates/minkowski/src/component.rs\<close>): component types get
  sequential ids; names, layouts and destructors are kept per id; some ids are marked
  sparse; a counter is bumped on every registration. A Rust type is what the registry reads
  of it: its \<^verbatim>\<open>TypeId\<close>, its name, its layout and whether it needs drop. \<open>None\<close> is a panic.
\<close>

record rust_type =
  ty_id :: nat
  ty_name :: string
  ty_layout :: layout
  ty_needs_drop :: bool

record component_info =
  ci_name :: string
  ci_layout :: layout
  ci_drop_fn :: bool
  ci_type_id :: "nat option"

record registry =
  cr_by_type :: "nat \<rightharpoonup> nat"
  cr_infos :: "component_info list"
  cr_sparse :: "nat set"
  cr_version :: u64

definition cr_new :: registry where
  "cr_new = \<lparr>cr_by_type = Map.empty, cr_infos = [], cr_sparse = {}, cr_version = 0\<rparr>"

definition register :: "registry \<Rightarrow> rust_type \<Rightarrow> nat \<times> registry" where
  "register r ty =
     (case cr_by_type r (ty_id ty) of
        Some i \<Rightarrow> (i, r)
      | None \<Rightarrow>
          let i = length (cr_infos r) in
            (i, r\<lparr>cr_infos := cr_infos r @ [\<lparr>ci_name = ty_name ty, ci_layout = ty_layout ty,
                     ci_drop_fn = ty_needs_drop ty, ci_type_id = Some (ty_id ty)\<rparr>],
                  cr_by_type := (cr_by_type r)(ty_id ty \<mapsto> i), cr_version := cr_version r + 1\<rparr>))"

definition register_raw :: "registry \<Rightarrow> string \<Rightarrow> layout \<Rightarrow> nat \<times> registry" where
  "register_raw r name lay =
     (let i = length (cr_infos r) in
        (i, r\<lparr>cr_infos := cr_infos r @ [\<lparr>ci_name = name, ci_layout = lay, ci_drop_fn = False, ci_type_id = None\<rparr>],
              cr_version := cr_version r + 1\<rparr>))"

definition register_sparse :: "registry \<Rightarrow> rust_type \<Rightarrow> nat \<times> registry" where
  "register_sparse r ty = (let (i, r') = register r ty in (i, r'\<lparr>cr_sparse := insert i (cr_sparse r')\<rparr>))"

definition cr_id :: "registry \<Rightarrow> rust_type \<Rightarrow> nat option" where
  "cr_id r ty = cr_by_type r (ty_id ty)"

definition cr_len :: "registry \<Rightarrow> nat" where
  "cr_len r = length (cr_infos r)"

definition cr_info :: "registry \<Rightarrow> nat \<Rightarrow> component_info option" where
  "cr_info r i = (if i < length (cr_infos r) then Some (cr_infos r ! i) else None)"

definition is_sparse :: "registry \<Rightarrow> nat \<Rightarrow> bool" where
  "is_sparse r i \<longleftrightarrow> i \<in> cr_sparse r"

definition mark_sparse :: "registry \<Rightarrow> nat \<Rightarrow> registry option" where
  "mark_sparse r i = (if i < length (cr_infos r) then Some (r\<lparr>cr_sparse := insert i (cr_sparse r)\<rparr>) else None)"

subsection \<open>Histories of registrations\<close>

datatype reg_op = Reg rust_type | RegRaw string layout | RegSparse rust_type | MarkSparse nat

fun reg_exec :: "reg_op \<Rightarrow> registry \<Rightarrow> registry option" where
  "reg_exec (Reg ty) r = Some (snd (register r ty))"
| "reg_exec (RegRaw n l) r = Some (snd (register_raw r n l))"
| "reg_exec (RegSparse ty) r = Some (snd (register_sparse r ty))"
| "reg_exec (MarkSparse i) r = mark_sparse r i"

text \<open>
  What a registry keeps: the type table and the info table describe each other, the sparse
  ids are registered, and the version counts the registrations.
\<close>

definition tables_agree :: "component_info list \<Rightarrow> (nat \<rightharpoonup> nat) \<Rightarrow> bool" where
  "tables_agree infos bt \<longleftrightarrow> (\<forall>t i. bt t = Some i \<longleftrightarrow> i < length infos \<and> ci_type_id (infos ! i) = Some t)"

definition reg_inv :: "registry \<Rightarrow> bool" where
  "reg_inv r \<longleftrightarrow> tables_agree (cr_infos r) (cr_by_type r) \<and> cr_sparse r \<subseteq> {..<length (cr_infos r)}
     \<and> cr_version r = word_of_nat (length (cr_infos r))"

lemma tables_type:
  assumes "tables_agree infos bt" "bt t = None" "ci_type_id x = Some t"
  shows "tables_agree (infos @ [x]) (bt(t \<mapsto> length infos))"
proof -
  have "ci_type_id (infos ! i) \<noteq> Some t" if "i < length infos" for i
  proof
    assume "ci_type_id (infos ! i) = Some t"
    then have "bt t = Some i" using assms(1) that by (simp add: tables_agree_def)
    then show False using assms(2) by simp
  qed
  with assms(1,3) show ?thesis unfolding tables_agree_def by (auto simp: nth_append less_Suc_eq)
qed

lemma tables_raw: "tables_agree infos bt \<Longrightarrow> ci_type_id x = None \<Longrightarrow> tables_agree (infos @ [x]) bt"
  unfolding tables_agree_def by (auto simp: nth_append less_Suc_eq)

text \<open>Nothing registered is ever changed: ids are stable.\<close>

definition reg_extends :: "registry \<Rightarrow> registry \<Rightarrow> bool" where
  "reg_extends r r' \<longleftrightarrow> (\<exists>is. cr_infos r' = cr_infos r @ is) \<and> cr_by_type r \<subseteq>\<^sub>m cr_by_type r' \<and> cr_sparse r \<subseteq> cr_sparse r'"

lemma reg_new [simp]: "reg_inv cr_new"
  by (simp add: reg_inv_def cr_new_def tables_agree_def)

lemma reg_extends_refl [simp]: "reg_extends r r"
  by (simp add: reg_extends_def)

lemma reg_extends_trans: "reg_extends a b \<Longrightarrow> reg_extends b c \<Longrightarrow> reg_extends a c"
  unfolding reg_extends_def by (metis append.assoc map_le_trans order_trans)

lemma register_inv:
  assumes "reg_inv r"
  shows "reg_inv (snd (register r ty)) \<and> reg_extends r (snd (register r ty))
     \<and> cr_by_type (snd (register r ty)) (ty_id ty) = Some (fst (register r ty))"
proof (cases "cr_by_type r (ty_id ty)")
  case None
  let ?x = "\<lparr>ci_name = ty_name ty, ci_layout = ty_layout ty, ci_drop_fn = ty_needs_drop ty, ci_type_id = Some (ty_id ty)\<rparr>"
  have "tables_agree (cr_infos r @ [?x]) ((cr_by_type r)(ty_id ty \<mapsto> length (cr_infos r)))"
    using assms None by (intro tables_type) (simp_all add: reg_inv_def)
  moreover have "cr_by_type r \<subseteq>\<^sub>m (cr_by_type r)(ty_id ty \<mapsto> length (cr_infos r))" using None by (auto simp: map_le_def)
  moreover have "cr_sparse r \<subseteq> {..<Suc (length (cr_infos r))}" using assms by (auto simp: reg_inv_def)
  ultimately show ?thesis using assms None by (simp add: register_def reg_inv_def reg_extends_def Let_def)
qed (use assms in \<open>simp add: register_def\<close>)

lemma register_raw_inv: "reg_inv r \<Longrightarrow> reg_inv (snd (register_raw r n l)) \<and> reg_extends r (snd (register_raw r n l))"
  using tables_raw [of "cr_infos r" "cr_by_type r"] by (force simp: register_raw_def reg_inv_def reg_extends_def Let_def)

lemma sparse_inv:
  "reg_inv r \<Longrightarrow> i < length (cr_infos r) \<Longrightarrow> reg_inv (r\<lparr>cr_sparse := insert i (cr_sparse r)\<rparr>) \<and> reg_extends r (r\<lparr>cr_sparse := insert i (cr_sparse r)\<rparr>)"
  by (auto simp: reg_inv_def reg_extends_def)

lemma reg_id: "reg_inv r \<Longrightarrow> cr_by_type r t = Some i \<longleftrightarrow> i < length (cr_infos r) \<and> ci_type_id (cr_infos r ! i) = Some t"
  by (simp add: reg_inv_def tables_agree_def)

lemma reg_step:
  assumes r: "reg_inv r" and e: "reg_exec a r = Some r'"
  shows "reg_inv r' \<and> reg_extends r r'"
proof (cases a)
  case (Reg ty)
  then show ?thesis using register_inv [OF r, of ty] e by simp
next
  case (RegRaw n l)
  then show ?thesis using register_raw_inv [OF r, of n l] e by simp
next
  case (RegSparse ty)
  obtain i r1 where 1: "register r ty = (i, r1)" by (rule prod.exhaust)
  with register_inv [OF r, of ty] have k: "reg_inv r1" "reg_extends r r1" "cr_by_type r1 (ty_id ty) = Some i" by auto
  then have "i < length (cr_infos r1)" by (simp add: reg_id)
  moreover have "r' = r1\<lparr>cr_sparse := insert i (cr_sparse r1)\<rparr>" using e RegSparse 1 by (simp add: register_sparse_def)
  ultimately show ?thesis using sparse_inv [OF k(1)] reg_extends_trans [OF k(2)] by blast
next
  case (MarkSparse i)
  then show ?thesis using sparse_inv [OF r, of i] e by (simp add: mark_sparse_def split: if_splits)
qed

interpretation registry: op_system reg_exec reg_inv
  by unfold_locales (use reg_step in blast)

lemma reg_run_extends: "reg_inv r \<Longrightarrow> run_ops reg_exec as r = Some r' \<Longrightarrow> reg_extends r r'"
proof (induction as arbitrary: r)
  case (Cons a as)
  then obtain r1 where "reg_exec a r = Some r1" "run_ops reg_exec as r1 = Some r'" by (auto split: option.splits)
  with Cons reg_step [OF Cons.prems(1)] show ?case by (meson reg_extends_trans)
qed simp


definition ty_pos :: rust_type where "ty_pos = \<lparr>ty_id = 17, ty_name = ''Pos'', ty_layout = \<lparr>l_size = 4, l_align = 4\<rparr>, ty_needs_drop = False\<rparr>"
definition ty_bag :: rust_type where "ty_bag = \<lparr>ty_id = 23, ty_name = ''Bag'', ty_layout = \<lparr>l_size = 24, l_align = 8\<rparr>, ty_needs_drop = True\<rparr>"


end
