(* ===== verification/Archetype.thy ===== *)
theory Archetype
  imports Component Entity_Alloc Blob_Vec_Spec
begin

text \<open>
  Archetypes (\<^verbatim>\<open>crates/minkowski/src/storage/archetype.rs\<close>): the table of all entities with one
  set of components. One column per component in the order of the sorted ids, a dense index
  from component id to column, and the entity of each row. The collection finds or creates
  the archetype of a component set. \<open>None\<close> is a panic (an id that is not registered, a
  zero index, more than \<open>2 ^ 32 - 2\<close> archetypes).
\<close>

record archetype =
  ar_id :: nat
  ar_component_ids :: "nat set"
  ar_sorted_ids :: "nat list"
  ar_columns :: "blob_vec list"
  ar_component_index :: "nat option list"
  ar_entities :: "entity pool_vec"

definition ENTITY_TYPE :: layout where "ENTITY_TYPE = \<lparr>l_size = 8, l_align = 8\<rparr>"

definition max_or_zero :: "nat list \<Rightarrow> nat" where
  "max_or_zero xs = (case xs of [] \<Rightarrow> 0 | _ \<Rightarrow> foldl max 0 xs)"

text \<open>The loop of \<^verbatim>\<open>Archetype::new\<close> over the ids with their positions; column, index and bit are added together.\<close>

fun add_columns :: "nat \<Rightarrow> slab_pool \<Rightarrow> registry \<Rightarrow> nat \<Rightarrow> nat list \<Rightarrow> nat set \<Rightarrow> blob_vec list \<Rightarrow> nat option list
    \<Rightarrow> (slab_pool \<times> nat set \<times> blob_vec list \<times> nat option list) option" where
  "add_columns t p reg col_idx [] bits cols index = Some (p, bits, cols, index)"
| "add_columns t p reg col_idx (comp_id # rest) bits cols index =
     do {
       info \<leftarrow> cr_info reg comp_id;
       (p', col) \<leftarrow> bv_new t p (ci_layout info) (ci_drop_fn info) 0;
       (if comp_id < length index
        then add_columns t p' reg (col_idx + 1) rest (insert comp_id bits) (cols @ [col]) (index[comp_id := Some col_idx])
        else None)
     }"

definition archetype_new :: "nat \<Rightarrow> slab_pool \<Rightarrow> nat \<Rightarrow> nat list \<Rightarrow> registry \<Rightarrow> (slab_pool \<times> archetype) option" where
  "archetype_new t p aid sorted_component_ids reg =
     do {
       let max_id = max_or_zero sorted_component_ids;
       (p', bits, cols, index) \<leftarrow> add_columns t p reg 0 sorted_component_ids {} [] (replicate (max_id + 1) None);
       Some (p', \<lparr>ar_id = aid, ar_component_ids = bits, ar_sorted_ids = sorted_component_ids, ar_columns = cols,
                  ar_component_index = index, ar_entities = pv_new ENTITY_TYPE\<rparr>)
     }"

definition column_index :: "archetype \<Rightarrow> nat \<Rightarrow> nat option" where
  "column_index a comp_id =
     (if comp_id < length (ar_component_index a) then ar_component_index a ! comp_id else None)"

definition ar_len :: "archetype \<Rightarrow> nat" where "ar_len a = pv_len (ar_entities a)"

definition ar_is_empty :: "archetype \<Rightarrow> bool" where "ar_is_empty a \<longleftrightarrow> pv_elems (ar_entities a) = []"

text \<open>\<^verbatim>\<open>debug_assert_consistent\<close>, as the predicate it checks.\<close>

definition ar_consistent :: "archetype \<Rightarrow> bool" where
  "ar_consistent a \<longleftrightarrow> list_all (\<lambda>col. bv_len col = pv_len (ar_entities a)) (ar_columns a)"

definition ar_any_dirty :: "archetype \<Rightarrow> bool" where
  "ar_any_dirty a \<longleftrightarrow> list_ex (\<lambda>col. any_dirty (bv_dirty col)) (ar_columns a)"

definition clear_dirty_pages :: "archetype \<Rightarrow> archetype" where
  "clear_dirty_pages a = a\<lparr>ar_columns := map (\<lambda>col. col\<lparr>bv_dirty := dt_clear (bv_dirty col)\<rparr>) (ar_columns a)\<rparr>"

record archetypes =
  as_list :: "archetype list"
  as_by_components :: "nat list \<rightharpoonup> nat"

definition as_new :: archetypes where
  "as_new = \<lparr>as_list = [], as_by_components = Map.empty\<rparr>"

definition U32_MAX :: nat where "U32_MAX = 4294967295"

definition get_or_create :: "nat \<Rightarrow> slab_pool \<Rightarrow> archetypes \<Rightarrow> nat list \<Rightarrow> registry
    \<Rightarrow> (nat \<times> slab_pool \<times> archetypes) option" where
  "get_or_create t p as sorted_ids reg =
     (case as_by_components as sorted_ids of
        Some i \<Rightarrow> Some (i, p, as)
      | None \<Rightarrow>
          if length (as_list as) < U32_MAX
          then let i = length (as_list as) in
            do {
              (p', a) \<leftarrow> archetype_new t p i sorted_ids reg;
              Some (i, p', as\<lparr>as_list := as_list as @ [a],
                              as_by_components := (as_by_components as)(sorted_ids \<mapsto> i)\<rparr>)
            }
          else None)"

subsection \<open>Construction\<close>

lemma foldl_max_ge: "c \<in> set xs \<or> c \<le> m \<Longrightarrow> c \<le> foldl max m xs" for c m :: nat
proof (induction xs arbitrary: m)
  case (Cons x xs)
  then have "c \<in> set xs \<or> c = x \<or> c \<le> m" by auto
  then have "c \<in> set xs \<or> c \<le> max m x" by (simp only: le_max_iff_disj) blast
  from Cons.IH [OF this] show ?case by simp
qed simp

lemma max_or_zero_ge: "c \<in> set xs \<Longrightarrow> c \<le> max_or_zero xs"
  using foldl_max_ge [of c xs 0] by (cases xs) (simp_all add: max_or_zero_def)

text \<open>An empty column takes nothing from the pool.\<close>

lemma bv_new_empty: "\<exists>v. bv_new t p item df 0 = Some (p, v) \<and> bv_len v = 0"
proof (cases "l_size item = 0")
  case True
  then have "bv_new t p item df 0 = Some (p, bv_init item df (Dangling 1) USIZE_MAX)"
    by (simp add: bv_new_def try_ensure_scratch_def needs_scratch_def bv_init_def USIZE_MAX_def)
  then show ?thesis by (simp add: bv_init_def)
next
  case False
  then have "bv_new t p item df 0 = Some (p, bv_init item df (Dangling 1) 0)" by (simp add: bv_new_def)
  then show ?thesis by (simp add: bv_init_def)
qed

text \<open>What a well-formed archetype is: its four views of the component set agree.\<close>

definition ar_wf :: "registry \<Rightarrow> archetype \<Rightarrow> bool" where
  "ar_wf reg a \<longleftrightarrow> ar_component_ids a = set (ar_sorted_ids a) \<and> length (ar_columns a) = length (ar_sorted_ids a)
     \<and> (\<forall>c i. column_index a c = Some i \<longleftrightarrow> i < length (ar_sorted_ids a) \<and> ar_sorted_ids a ! i = c)
     \<and> (\<forall>i < length (ar_columns a). \<exists>info. cr_info reg (ar_sorted_ids a ! i) = Some info
          \<and> col_ok (ci_layout info) (ci_drop_fn info) (ar_columns a ! i))"

lemma add_columns_ok:
  assumes "\<forall>c \<in> set rest. cr_info reg c \<noteq> None \<and> c < length index" "distinct (done @ rest)"
    and "bits = set done" "length cols = length done"
    and "\<forall>c < length index. \<forall>i. index ! c = Some i \<longleftrightarrow> i < length done \<and> done ! i = c"
    and "\<forall>i < length cols. \<exists>info. cr_info reg (done ! i) = Some info \<and> col_ok (ci_layout info) (ci_drop_fn info) (cols ! i) \<and> bv_len (cols ! i) = 0"
  shows "\<exists>cols' index'. add_columns t p reg (length done) rest bits cols index = Some (p, set (done @ rest), cols', index')
    \<and> length cols' = length (done @ rest) \<and> length index' = length index
    \<and> (\<forall>c < length index. \<forall>i. index' ! c = Some i \<longleftrightarrow> i < length (done @ rest) \<and> (done @ rest) ! i = c)
    \<and> (\<forall>i < length cols'. \<exists>info. cr_info reg ((done @ rest) ! i) = Some info \<and> col_ok (ci_layout info) (ci_drop_fn info) (cols' ! i) \<and> bv_len (cols' ! i) = 0)"
  using assms
proof (induction rest arbitrary: "done" bits cols index)
  case Nil
  then show ?case by simp
next
  case (Cons c rest)
  obtain info where info: "cr_info reg c = Some info" using Cons.prems(1) by auto
  obtain v where v: "bv_new t p (ci_layout info) (ci_drop_fn info) 0 = Some (p, v)" "bv_len v = 0"
    using bv_new_empty by blast
  note vok = bv_new_ok [OF v(1)]
  have c: "c < length index" "c \<notin> set done" using Cons.prems(1,2) by auto
  let ?index = "index[c := Some (length done)]"
  have idx: "\<forall>c' < length ?index. \<forall>i. ?index ! c' = Some i \<longleftrightarrow> i < length (done @ [c]) \<and> (done @ [c]) ! i = c'"
    using Cons.prems(5) c by (auto simp: nth_list_update nth_append less_Suc_eq)
  have cols: "\<forall>i < length (cols @ [v]). \<exists>info. cr_info reg ((done @ [c]) ! i) = Some info
      \<and> col_ok (ci_layout info) (ci_drop_fn info) ((cols @ [v]) ! i) \<and> bv_len ((cols @ [v]) ! i) = 0"
    using Cons.prems(4,6) vok v(2) info by (auto simp: nth_append less_Suc_eq)
  have "\<exists>cols' index'. add_columns t p reg (length (done @ [c])) rest (insert c bits) (cols @ [v]) ?index = Some (p, set ((done @ [c]) @ rest), cols', index')
    \<and> length cols' = length ((done @ [c]) @ rest) \<and> length index' = length ?index
    \<and> (\<forall>c' < length ?index. \<forall>i. index' ! c' = Some i \<longleftrightarrow> i < length ((done @ [c]) @ rest) \<and> ((done @ [c]) @ rest) ! i = c')
    \<and> (\<forall>i < length cols'. \<exists>info. cr_info reg (((done @ [c]) @ rest) ! i) = Some info \<and> col_ok (ci_layout info) (ci_drop_fn info) (cols' ! i) \<and> bv_len (cols' ! i) = 0)"
    using Cons.prems(1-4) idx cols by (intro Cons.IH) auto
  then show ?case using info v(1) c(1) by simp
qed

lemma archetype_new_ok:
  assumes "distinct ids" "\<forall>c \<in> set ids. cr_info reg c \<noteq> None"
  shows "\<exists>a. archetype_new t p i ids reg = Some (p, a) \<and> ar_wf reg a \<and> ar_id a = i \<and> ar_sorted_ids a = ids
    \<and> ar_consistent a \<and> ar_len a = 0"
proof -
  let ?index = "replicate (max_or_zero ids + 1) (None :: nat option)"
  have "\<exists>cols' index'. add_columns t p reg (length ([] :: nat list)) ids {} [] ?index = Some (p, set ([] @ ids), cols', index')
    \<and> length cols' = length ([] @ ids) \<and> length index' = length ?index
    \<and> (\<forall>c < length ?index. \<forall>i. index' ! c = Some i \<longleftrightarrow> i < length ([] @ ids) \<and> ([] @ ids) ! i = c)
    \<and> (\<forall>i < length cols'. \<exists>info. cr_info reg (([] @ ids) ! i) = Some info \<and> col_ok (ci_layout info) (ci_drop_fn info) (cols' ! i) \<and> bv_len (cols' ! i) = 0)"
    using assms by (intro add_columns_ok) (auto simp: max_or_zero_ge less_Suc_eq_le simp del: replicate_Suc)
  then obtain cols index where r: "add_columns t p reg 0 ids {} [] ?index = Some (p, set ids, cols, index)"
    "length cols = length ids" "length index = max_or_zero ids + 1"
    "\<And>c i. c < max_or_zero ids + 1 \<Longrightarrow> index ! c = Some i \<longleftrightarrow> i < length ids \<and> ids ! i = c"
    "\<And>i. i < length ids \<Longrightarrow> \<exists>info. cr_info reg (ids ! i) = Some info \<and> col_ok (ci_layout info) (ci_drop_fn info) (cols ! i) \<and> bv_len (cols ! i) = 0"
    by auto
  let ?a = "\<lparr>ar_id = i, ar_component_ids = set ids, ar_sorted_ids = ids, ar_columns = cols, ar_component_index = index, ar_entities = pv_new ENTITY_TYPE\<rparr>"
  have "archetype_new t p i ids reg = Some (p, ?a)" using r(1) by (simp add: archetype_new_def Let_def)
  moreover have "column_index ?a c = Some j \<longleftrightarrow> j < length ids \<and> ids ! j = c" for c j
    using r(3,4) max_or_zero_ge [of c ids] by (auto simp: column_index_def less_Suc_eq_le)
  moreover have "ar_consistent ?a" using r(2,5) by (auto simp: ar_consistent_def list_all_length pv_new_def)
  ultimately show ?thesis using r(2,5) by (force simp: ar_wf_def ar_len_def pv_new_def)
qed

text \<open>The collection: positions are identities, and the table lists exactly the archetypes there are.\<close>

definition as_wf :: "registry \<Rightarrow> archetypes \<Rightarrow> bool" where
  "as_wf reg as \<longleftrightarrow> (\<forall>i < length (as_list as). ar_id (as_list as ! i) = i \<and> ar_wf reg (as_list as ! i))
     \<and> (\<forall>ids i. as_by_components as ids = Some i \<longleftrightarrow> i < length (as_list as) \<and> ar_sorted_ids (as_list as ! i) = ids)"

lemma ar_wf_extends: "reg_extends reg reg' \<Longrightarrow> ar_wf reg a \<Longrightarrow> ar_wf reg' a"
  unfolding ar_wf_def reg_extends_def cr_info_def
  by (auto simp: nth_append split: if_splits)

lemma as_wf_extends: "reg_extends reg reg' \<Longrightarrow> as_wf reg as \<Longrightarrow> as_wf reg' as"
  by (simp add: as_wf_def ar_wf_extends)

lemma as_new_wf [simp]: "as_wf reg as_new"
  by (simp add: as_wf_def as_new_def)

text \<open>What finding or creating does to the collection.\<close>

lemma as_wf_push:
  assumes "as_wf reg as" "as_by_components as ids = None" "ar_wf reg a" "ar_id a = length (as_list as)" "ar_sorted_ids a = ids"
  shows "as_wf reg (as\<lparr>as_list := as_list as @ [a], as_by_components := (as_by_components as)(ids \<mapsto> length (as_list as))\<rparr>)"
proof -
  have "ar_sorted_ids (as_list as ! j) \<noteq> ids" if "j < length (as_list as)" for j
  proof
    assume "ar_sorted_ids (as_list as ! j) = ids"
    then have "as_by_components as ids = Some j" using assms(1) that by (simp add: as_wf_def)
    then show False using assms(2) by simp
  qed
  then show ?thesis using assms unfolding as_wf_def by (auto simp: nth_append less_Suc_eq)
qed

lemma get_or_create_step:
  assumes "as_wf reg as" "distinct ids" "\<forall>c \<in> set ids. cr_info reg c \<noteq> None" "get_or_create t p as ids reg = Some (i, q, as')"
  shows "q = p \<and> as_wf reg as' \<and> i < length (as_list as') \<and> ar_sorted_ids (as_list as' ! i) = ids
    \<and> (as' = as \<or> (\<exists>a. as_list as' = as_list as @ [a] \<and> i = length (as_list as) \<and> ar_consistent a \<and> ar_len a = 0))"
proof (cases "as_by_components as ids")
  case (Some j)
  then have "j < length (as_list as)" "ar_sorted_ids (as_list as ! j) = ids" using assms(1) by (auto simp: as_wf_def)
  then show ?thesis using Some assms(1,4) by (auto simp: get_or_create_def)
next
  case None
  obtain a where a: "archetype_new t p (length (as_list as)) ids reg = Some (p, a)" "ar_wf reg a" "ar_id a = length (as_list as)" "ar_sorted_ids a = ids"
    "ar_consistent a" "ar_len a = 0" using archetype_new_ok [OF assms(2,3)] by blast
  have r: "q = p" "i = length (as_list as)"
    "as' = as\<lparr>as_list := as_list as @ [a], as_by_components := (as_by_components as)(ids \<mapsto> length (as_list as))\<rparr>"
    using assms(4) None a(1) by (auto simp: get_or_create_def Let_def split: if_splits)
  show ?thesis using as_wf_push [OF assms(1) None a(2,3,4)] a(4,5,6) unfolding r by (simp add: nth_append)
qed

text \<open>
  (C36) Finding or creating an archetype. For a set of registered components it never panics
  below the limit of \<open>2 ^ 32 - 1\<close> archetypes and takes nothing from the pool; the answer is
  the one archetype with exactly these components, the same whenever it is asked again;
  every archetype there was keeps its id and contents; and a new one is empty, with one
  column of the right type per component and a column index that finds exactly its
  components.
\<close>

theorem get_or_create_contract:
  assumes "as_wf reg as" "distinct ids" "\<forall>c \<in> set ids. cr_info reg c \<noteq> None" "length (as_list as) < U32_MAX"
  shows "\<exists>i as'. get_or_create t p as ids reg = Some (i, p, as') \<and> as_wf reg as'
    \<and> i < length (as_list as') \<and> ar_sorted_ids (as_list as' ! i) = ids
    \<and> get_or_create t p as' ids reg = Some (i, p, as')
    \<and> (\<forall>j < length (as_list as). j < length (as_list as') \<and> as_list as' ! j = as_list as ! j)
    \<and> (if as_by_components as ids = None then i = length (as_list as) \<and> length (as_list as') = i + 1 \<and> ar_len (as_list as' ! i) = 0 \<and> ar_consistent (as_list as' ! i)
       else as' = as)"
proof (cases "as_by_components as ids")
  case (Some i)
  then have "i < length (as_list as)" "ar_sorted_ids (as_list as ! i) = ids" using assms(1) by (auto simp: as_wf_def)
  then show ?thesis using Some assms(1) by (auto simp: get_or_create_def)
next
  case None
  let ?i = "length (as_list as)"
  obtain a where a: "archetype_new t p ?i ids reg = Some (p, a)" "ar_wf reg a" "ar_id a = ?i" "ar_sorted_ids a = ids"
    "ar_consistent a" "ar_len a = 0" using archetype_new_ok [OF assms(2,3)] by blast
  let ?as = "as\<lparr>as_list := as_list as @ [a], as_by_components := (as_by_components as)(ids \<mapsto> ?i)\<rparr>"
  from as_wf_push [OF assms(1) None a(2,3,4)]
  show ?thesis using None a assms(4) by (simp add: get_or_create_def Let_def nth_append)
qed

definition two_types :: registry where
  "two_types = snd (register (snd (register cr_new ty_pos)) ty_bag)"

lemma two_types_info: "cr_info two_types 0 \<noteq> None" "cr_info two_types 1 \<noteq> None"
  by (simp_all add: two_types_def register_def cr_new_def cr_info_def ty_pos_def ty_bag_def Let_def)

theorem get_or_create_contract_witness:
  "\<exists>as'. get_or_create 0 (slab_pool_new 2097152 1) as_new [0, 1] two_types = Some (0, slab_pool_new 2097152 1, as')
     \<and> get_or_create 0 (slab_pool_new 2097152 1) as' [0, 1] two_types = Some (0, slab_pool_new 2097152 1, as')
     \<and> column_index (as_list as' ! 0) 1 = Some 1 \<and> column_index (as_list as' ! 0) 2 = None"
proof -
  have "\<exists>i as'. get_or_create 0 (slab_pool_new 2097152 1) as_new [0, 1] two_types = Some (i, slab_pool_new 2097152 1, as') \<and> as_wf two_types as'
    \<and> i < length (as_list as') \<and> ar_sorted_ids (as_list as' ! i) = [0, 1]
    \<and> get_or_create 0 (slab_pool_new 2097152 1) as' [0, 1] two_types = Some (i, slab_pool_new 2097152 1, as')
    \<and> (\<forall>j < length (as_list as_new). j < length (as_list as') \<and> as_list as' ! j = as_list as_new ! j)
    \<and> (if as_by_components as_new [0, 1] = None then i = length (as_list as_new) \<and> length (as_list as') = i + 1 \<and> ar_len (as_list as' ! i) = 0 \<and> ar_consistent (as_list as' ! i)
       else as' = as_new)"
    using two_types_info by (intro get_or_create_contract as_new_wf) (simp_all add: as_new_def U32_MAX_def)
  then obtain i as' where r: "get_or_create 0 (slab_pool_new 2097152 1) as_new [0, 1] two_types = Some (i, slab_pool_new 2097152 1, as')"
    "as_wf two_types as'" "ar_sorted_ids (as_list as' ! i) = [0, 1]" "i < length (as_list as')"
    "get_or_create 0 (slab_pool_new 2097152 1) as' [0, 1] two_types = Some (i, slab_pool_new 2097152 1, as')"
    "i = 0" by (auto simp: as_new_def)
  have wf: "ar_wf two_types (as_list as' ! 0)" using r(2,4,6) by (auto simp: as_wf_def)
  have ci: "column_index (as_list as' ! 0) c = Some j \<longleftrightarrow> j < 2 \<and> [0, 1] ! j = c" for c j
    using wf r(3,6) by (simp add: ar_wf_def numeral_2_eq_2)
  have "column_index (as_list as' ! 0) 2 = None"
  proof (rule ccontr)
    assume "column_index (as_list as' ! 0) 2 \<noteq> None"
    then obtain j where "column_index (as_list as' ! 0) 2 = Some j" by auto
    then have "j < 2" "[0, 1] ! j = (2 :: nat)" using ci by blast+
    then show False by (auto simp: less_2_cases_iff)
  qed
  moreover have "column_index (as_list as' ! 0) 1 = Some 1" using ci by simp
  ultimately show ?thesis using r by auto
qed

text \<open>Clearing the dirty pages of an archetype after a flush.\<close>

lemma clear_dirty_pages_clean [simp]: "\<not> ar_any_dirty (clear_dirty_pages a)"
  by (auto simp: ar_any_dirty_def clear_dirty_pages_def list_ex_iff any_dirty_iff dirty_set_def)

end
