(* ===== verification/Lock_Table.thy ===== *)
theory Lock_Table
  imports Archetype "HOL-Library.Product_Lexorder"
begin

text \<open>
  The cooperative lock table of pessimistic transactions
  (\<^verbatim>\<open>crates/minkowski/src/lock_table.rs\<close>): reader counts and a writer flag per column,
  acquired for an access pattern all together or not at all. Specification: the locks held
  by the outstanding lock sets. \<^verbatim>\<open>debug_assert!\<close> is not part of the model.
\<close>

type_synonym column = "nat \<times> nat"

record column_lock =
  cl_readers :: u32
  cl_writer :: bool

datatype lock_mode = Shared | Exclusive

type_synonym request = "nat \<times> nat \<times> lock_mode"
type_synonym lock_table = "column \<rightharpoonup> column_lock"

text \<open>\<^verbatim>\<open>ColumnLockSet\<close>: what a transaction holds.\<close>

type_synonym lock_set = "request list"

definition lt_new :: lock_table where "lt_new = Map.empty"

definition lock_default :: column_lock where "lock_default = \<lparr>cl_readers = 0, cl_writer = False\<rparr>"

definition release_one :: "lock_table \<Rightarrow> nat \<Rightarrow> nat \<Rightarrow> lock_mode \<Rightarrow> lock_table" where
  "release_one locks arch_id comp_id mode =
     (case locks (arch_id, comp_id) of
        None \<Rightarrow> locks
      | Some l \<Rightarrow> locks((arch_id, comp_id) \<mapsto>
          (case mode of
             Shared \<Rightarrow> l\<lparr>cl_readers := (if cl_readers l = 0 then 0 else cl_readers l - 1)\<rparr>
           | Exclusive \<Rightarrow> l\<lparr>cl_writer := False\<rparr>)))"

fun release_list :: "lock_table \<Rightarrow> lock_set \<Rightarrow> lock_table" where
  "release_list locks [] = locks"
| "release_list locks ((a, c, m) # rest) = release_list (release_one locks a c m) rest"

text \<open>\<^verbatim>\<open>release\<close> consumes the lock set.\<close>

definition release :: "lock_table \<Rightarrow> lock_set \<Rightarrow> lock_table" where
  "release locks ls = release_list locks ls"

text \<open>The request list: per archetype, the read columns, then the written ones, in ascending order.\<close>

definition requests :: "archetype list \<Rightarrow> nat set \<Rightarrow> nat set \<Rightarrow> request list" where
  "requests archs reads writes =
     concat (map (\<lambda>a.
         map (\<lambda>c. (ar_id a, c, Shared)) (filter (\<lambda>c. column_index a c \<noteq> None) (sorted_list_of_set reads))
       @ map (\<lambda>c. (ar_id a, c, Exclusive)) (filter (\<lambda>c. column_index a c \<noteq> None) (sorted_list_of_set writes))) archs)"

definition req_key :: "request \<Rightarrow> column" where "req_key r = (fst r, fst (snd r))"

definition upgrade :: "request \<Rightarrow> request \<Rightarrow> request" where
  "upgrade prev nxt = (case snd (snd nxt) of Exclusive \<Rightarrow> (fst prev, fst (snd prev), Exclusive) | Shared \<Rightarrow> prev)"

text \<open>\<^verbatim>\<open>dedup_by\<close> drops an element whose key is that of the kept one before it.\<close>

fun dedup_from :: "request \<Rightarrow> request list \<Rightarrow> request list" where
  "dedup_from prev [] = [prev]"
| "dedup_from prev (nxt # rest) =
     (if req_key nxt = req_key prev then dedup_from (upgrade prev nxt) rest else prev # dedup_from nxt rest)"

fun dedup_requests :: "request list \<Rightarrow> request list" where
  "dedup_requests [] = []"
| "dedup_requests (r # rs) = dedup_from r rs"

definition lock_admits :: "column_lock \<Rightarrow> lock_mode \<Rightarrow> bool" where
  "lock_admits l mode = (case mode of Shared \<Rightarrow> \<not> cl_writer l | Exclusive \<Rightarrow> \<not> cl_writer l \<and> cl_readers l = 0)"

definition lock_taken :: "column_lock \<Rightarrow> lock_mode \<Rightarrow> column_lock" where
  "lock_taken l mode = (case mode of Shared \<Rightarrow> l\<lparr>cl_readers := cl_readers l + 1\<rparr> | Exclusive \<Rightarrow> l\<lparr>cl_writer := True\<rparr>)"

text \<open>The loop goes on after a refused request.\<close>

fun acquire_loop :: "request list \<Rightarrow> lock_table \<Rightarrow> lock_set \<Rightarrow> bool \<Rightarrow> lock_table \<times> lock_set \<times> bool" where
  "acquire_loop [] locks acquired failed = (locks, acquired, failed)"
| "acquire_loop ((a, c, mode) # rest) locks acquired failed =
     (let l = (case locks (a, c) of None \<Rightarrow> lock_default | Some l \<Rightarrow> l) in
      if lock_admits l mode
      then acquire_loop rest (locks((a, c) \<mapsto> lock_taken l mode)) (acquired @ [(a, c, mode)]) failed
      else acquire_loop rest (locks((a, c) \<mapsto> l)) acquired True)"

definition acquire :: "lock_table \<Rightarrow> archetype list \<Rightarrow> nat set \<Rightarrow> nat set \<Rightarrow> lock_set option \<times> lock_table" where
  "acquire locks archs reads writes =
     (let reqs = dedup_requests (sort_key req_key (requests archs reads writes));
          (locks', acquired, failed) = acquire_loop reqs locks [] False
      in if failed then (None, release_list locks' acquired)
         else (Some acquired, locks'))"

subsection \<open>The merged requests\<close>

definition wants :: "archetype list \<Rightarrow> nat set \<Rightarrow> column \<Rightarrow> bool" where
  "wants archs ids k \<longleftrightarrow> (\<exists>a \<in> set archs. ar_id a = fst k \<and> column_index a (snd k) \<noteq> None \<and> snd k \<in> ids)"

lemma set_requests:
  assumes "finite reads" "finite writes"
  shows "(a, c, m) \<in> set (requests archs reads writes) \<longleftrightarrow> wants archs (if m = Shared then reads else writes) (a, c)"
  using assms by (cases m) (auto simp: requests_def wants_def)

lemma ex_mode: "(\<exists>m. P m) \<longleftrightarrow> P Shared \<or> P Exclusive"
  by (metis lock_mode.exhaust)

lemma req_eq: "x = y \<longleftrightarrow> req_key x = req_key y \<and> (snd (snd x) = Exclusive \<longleftrightarrow> (fst x, fst (snd x), Exclusive) = y)"
proof (cases x)
  case x: (fields a c m)
  show ?thesis
  proof (cases y)
    case (fields a' c' m')
    then show ?thesis using x by (cases m; cases m') (auto simp: req_key_def)
  qed
qed

lemma set_dedup_from:
  assumes "sorted_wrt (\<lambda>x y. req_key x \<le> req_key y) (r # rs)"
  shows "(\<forall>x. x \<in> set (dedup_from r rs) \<longleftrightarrow> (req_key x \<in> req_key ` set (r # rs)
            \<and> (snd (snd x) = Exclusive \<longleftrightarrow> (fst x, fst (snd x), Exclusive) \<in> set (r # rs))))
    \<and> distinct (map req_key (dedup_from r rs))"
  using assms
proof (induction r rs rule: dedup_from.induct)
  case (1 prev)
  have "x \<in> set (dedup_from prev []) \<longleftrightarrow> (req_key x \<in> req_key ` set [prev] \<and> (snd (snd x) = Exclusive \<longleftrightarrow> (fst x, fst (snd x), Exclusive) \<in> set [prev]))" for x
    using req_eq [of x prev] by (simp only: dedup_from.simps list.set insert_iff empty_iff image_insert image_empty simp_thms)
  then have "\<forall>x. x \<in> set (dedup_from prev []) \<longleftrightarrow> (req_key x \<in> req_key ` set [prev] \<and> (snd (snd x) = Exclusive \<longleftrightarrow> (fst x, fst (snd x), Exclusive) \<in> set [prev]))" by (rule allI)
  moreover have "distinct (map req_key (dedup_from prev []))" by simp
  ultimately show ?case by (rule conjI)
next
  case (2 prev nxt rest)
  show ?case
  proof (cases "req_key nxt = req_key prev")
    case True
    have up: "req_key (upgrade prev nxt) = req_key prev"
      by (cases prev; cases nxt; cases "snd (snd nxt)") (auto simp: req_key_def upgrade_def)
    have ex: "(fst x, fst (snd x), Exclusive) = upgrade prev nxt \<longleftrightarrow> (fst x, fst (snd x), Exclusive) = prev \<or> (fst x, fst (snd x), Exclusive) = nxt" for x :: request
      using True by (cases prev; cases nxt; cases "snd (snd nxt)") (auto simp: req_key_def upgrade_def)
    have "sorted_wrt (\<lambda>x y. req_key x \<le> req_key y) (upgrade prev nxt # rest)" using 2(3) up by auto
    from 2(1) [OF True this] show ?thesis using True up ex by auto
  next
    case False
    have lt: "req_key prev < req_key y" if "y \<in> set (nxt # rest)" for y
    proof -
      have "req_key prev < req_key nxt" using 2(3) False by (simp add: less_le)
      moreover have "req_key nxt \<le> req_key y" using 2(3) that by auto
      ultimately show ?thesis by (rule less_le_trans)
    qed
    have ih: "\<And>x. x \<in> set (dedup_from nxt rest) \<longleftrightarrow> (req_key x \<in> req_key ` set (nxt # rest)
            \<and> (snd (snd x) = Exclusive \<longleftrightarrow> (fst x, fst (snd x), Exclusive) \<in> set (nxt # rest)))"
      "distinct (map req_key (dedup_from nxt rest))"
      using 2(2) [OF False] 2(3) by auto
    have kk: "req_key (fst x, fst (snd x), m) = req_key x" for x m by (simp add: req_key_def)
    have sep: "req_key x \<noteq> req_key prev" if "req_key x \<in> req_key ` set (nxt # rest)" for x
      using that lt by fastforce
    have "\<forall>x. x \<in> set (prev # dedup_from nxt rest) \<longleftrightarrow> (req_key x \<in> req_key ` set (prev # nxt # rest)
            \<and> (snd (snd x) = Exclusive \<longleftrightarrow> (fst x, fst (snd x), Exclusive) \<in> set (prev # nxt # rest)))" (is "\<forall>x. ?P x")
    proof
      fix x :: request
      let ?e = "(fst x, fst (snd x), Exclusive)"
      show "?P x"
      proof (cases "req_key x = req_key prev")
        case True
        have "?e \<notin> set (nxt # rest)" using lt [of ?e] kk [of x] True by auto
        moreover have "x \<notin> set (dedup_from nxt rest)" using ih(1) [of x] sep [of x] True by blast
        ultimately show ?thesis using True req_eq [of x prev] by (simp only: list.set insert_iff image_insert simp_thms)
      next
        case False
        have ne: "x \<noteq> prev" "?e \<noteq> prev" using False kk [of x] by auto
        have "x \<in> set (prev # dedup_from nxt rest) \<longleftrightarrow> x \<in> set (dedup_from nxt rest)" using ne(1) by simp
        also have "\<dots> \<longleftrightarrow> req_key x \<in> req_key ` set (nxt # rest) \<and> (snd (snd x) = Exclusive \<longleftrightarrow> ?e \<in> set (nxt # rest))" by (rule ih(1))
        also have "req_key x \<in> req_key ` set (nxt # rest) \<longleftrightarrow> req_key x \<in> req_key ` set (prev # nxt # rest)" using False by simp
        also have "?e \<in> set (nxt # rest) \<longleftrightarrow> ?e \<in> set (prev # nxt # rest)" using ne(2) by simp
        finally show ?thesis .
      qed
    qed
    moreover have "req_key prev \<notin> req_key ` set (dedup_from nxt rest)"
    proof
      assume "req_key prev \<in> req_key ` set (dedup_from nxt rest)"
      then obtain y where y: "req_key prev = req_key y" "y \<in> set (dedup_from nxt rest)" by (rule imageE)
      then have "req_key y \<in> req_key ` set (nxt # rest)" using ih(1) [of y] by blast
      from sep [OF this] y(1) show False by simp
    qed
    ultimately have fin: "(\<forall>x. ?P x) \<and> distinct (map req_key (prev # dedup_from nxt rest))" using ih(2) by (simp only: list.map distinct.simps set_map simp_thms)
    have eq: "dedup_from prev (nxt # rest) = prev # dedup_from nxt rest" using False by simp
    show ?thesis unfolding eq by (rule fin)
  qed
qed

text \<open>The mode a column is locked in: exclusively if it is written, shared if it is only read.\<close>

definition want :: "archetype list \<Rightarrow> nat set \<Rightarrow> nat set \<Rightarrow> column \<Rightarrow> lock_mode option" where
  "want archs reads writes k =
     (if wants archs writes k then Some Exclusive else if wants archs reads k then Some Shared else None)"

definition merged :: "archetype list \<Rightarrow> nat set \<Rightarrow> nat set \<Rightarrow> request list" where
  "merged archs reads writes = dedup_requests (sort_key req_key (requests archs reads writes))"

lemma merged_want:
  assumes "finite reads" "finite writes"
  shows "(a, c, m) \<in> set (merged archs reads writes) \<longleftrightarrow> want archs reads writes (a, c) = Some m"
    and "distinct (map req_key (merged archs reads writes))"
proof -
  let ?rs = "sort_key req_key (requests archs reads writes)"
  have mem: "(a, c, m) \<in> set ?rs \<longleftrightarrow> wants archs (if m = Shared then reads else writes) (a, c)" for a c m
    using set_requests [OF assms] by simp
  have "((a, c, m) \<in> set (dedup_requests ?rs) \<longleftrightarrow> want archs reads writes (a, c) = Some m) \<and> distinct (map req_key (dedup_requests ?rs))"
  proof (cases ?rs)
    case Nil
    then have "\<not> wants archs reads (a, c)" "\<not> wants archs writes (a, c)"
      using mem [of a c Shared] mem [of a c Exclusive] by auto
    then show ?thesis using Nil by (simp add: want_def)
  next
    case (Cons r rs)
    have "sorted_wrt (\<lambda>x y. req_key x \<le> req_key y) (r # rs)"
      unfolding Cons [symmetric] using sorted_sort_key [of req_key "requests archs reads writes"] by (simp add: sorted_map)
    note d = set_dedup_from [OF this]
    have key: "req_key (a, c, m) \<in> req_key ` set (r # rs) \<longleftrightarrow> wants archs reads (a, c) \<or> wants archs writes (a, c)"
    proof -
      have "req_key (a, c, m) \<in> req_key ` set (r # rs) \<longleftrightarrow> (\<exists>m'. (a, c, m') \<in> set (r # rs))"
      proof
        assume "req_key (a, c, m) \<in> req_key ` set (r # rs)"
        then obtain x where x: "req_key (a, c, m) = req_key x" "x \<in> set (r # rs)" by (rule imageE)
        then have "req_key x = (a, c)" by (simp add: req_key_def [of "(a, c, m)"])
        then have "(a, c, snd (snd x)) \<in> set (r # rs)" using x(2) by (metis Pair_inject prod.collapse req_key_def)
        then show "\<exists>m'. (a, c, m') \<in> set (r # rs)" ..
      next
        assume "\<exists>m'. (a, c, m') \<in> set (r # rs)"
        then obtain m' where "(a, c, m') \<in> set (r # rs)" ..
        then show "req_key (a, c, m) \<in> req_key ` set (r # rs)" by (intro image_eqI) (auto simp: req_key_def)
      qed
      also have "\<dots> \<longleftrightarrow> (\<exists>m'. wants archs (if m' = Shared then reads else writes) (a, c))"
        unfolding Cons [symmetric] mem ..
      also have "\<dots> \<longleftrightarrow> wants archs reads (a, c) \<or> wants archs writes (a, c)"
        unfolding ex_mode by simp
      finally show ?thesis .
    qed
    have "(a, c, Exclusive) \<in> set (r # rs) \<longleftrightarrow> wants archs writes (a, c)"
      unfolding Cons [symmetric] mem by simp
    then have "(a, c, m) \<in> set (dedup_from r rs) \<longleftrightarrow> want archs reads writes (a, c) = Some m"
      using d key by (cases m) (auto simp: want_def)
    then show ?thesis using d Cons by simp
  qed
  then show "(a, c, m) \<in> set (merged archs reads writes) \<longleftrightarrow> want archs reads writes (a, c) = Some m"
    "distinct (map req_key (merged archs reads writes))" by (simp_all add: merged_def)
qed

lemma merged_distinct: "distinct (map req_key (merged archs reads writes))"
proof (cases "sort_key req_key (requests archs reads writes)")
  case (Cons r rs)
  have "sorted_wrt (\<lambda>x y. req_key x \<le> req_key y) (r # rs)"
    unfolding Cons [symmetric] using sorted_sort_key [of req_key "requests archs reads writes"] by (simp add: sorted_map)
  from set_dedup_from [OF this] Cons show ?thesis by (simp add: merged_def)
qed (simp add: merged_def)

subsection \<open>The table\<close>

definition lock_view :: "lock_table \<Rightarrow> column \<Rightarrow> column_lock" where
  "lock_view T k = (case T k of None \<Rightarrow> lock_default | Some l \<Rightarrow> l)"

definition lock_released :: "column_lock \<Rightarrow> lock_mode \<Rightarrow> column_lock" where
  "lock_released l mode = (case mode of
       Shared \<Rightarrow> l\<lparr>cl_readers := (if cl_readers l = 0 then 0 else cl_readers l - 1)\<rparr>
     | Exclusive \<Rightarrow> l\<lparr>cl_writer := False\<rparr>)"

definition admitted :: "lock_table \<Rightarrow> request \<Rightarrow> bool" where
  "admitted T r = lock_admits (lock_view T (req_key r)) (snd (snd r))"

lemma lock_view_upd [simp]: "lock_view (T(k \<mapsto> l)) k' = (if k' = k then l else lock_view T k')"
  by (simp add: lock_view_def)

lemma lock_view_release:
  "lock_view (release_one T a c m) k = (if k = (a, c) then lock_released (lock_view T k) m else lock_view T k)"
  by (cases m) (auto simp: release_one_def lock_view_def lock_released_def lock_default_def split: option.splits)

lemma lock_view_new [simp]: "lock_view lt_new k = lock_default"
  by (simp add: lock_view_def lt_new_def)

text \<open>The mode in which a lock set holds a column.\<close>

definition held_mode :: "lock_set \<Rightarrow> column \<Rightarrow> lock_mode option" where
  "held_mode ls k = map_of (map (\<lambda>r. (req_key r, snd (snd r))) ls) k"

lemma held_mode_Nil [simp]: "held_mode [] k = None"
  and held_mode_Cons [simp]: "held_mode ((a, c, m) # ls) k = (if k = (a, c) then Some m else held_mode ls k)"
  by (simp_all add: held_mode_def req_key_def)

lemma held_mode_None: "held_mode ls k = None \<longleftrightarrow> k \<notin> req_key ` set ls"
  by (simp add: held_mode_def map_of_eq_None_iff image_image)

lemma held_mode_Some: "distinct (map req_key ls) \<Longrightarrow> held_mode ls (a, c) = Some m \<longleftrightarrow> (a, c, m) \<in> set ls"
proof -
  assume "distinct (map req_key ls)"
  then have "distinct (map fst (map (\<lambda>r. (req_key r, snd (snd r))) ls))" by (simp add: o_def)
  then have "held_mode ls (a, c) = Some m \<longleftrightarrow> ((a, c), m) \<in> set (map (\<lambda>r. (req_key r, snd (snd r))) ls)"
    unfolding held_mode_def by (rule map_of_eq_Some_iff)
  also have "\<dots> \<longleftrightarrow> (a, c, m) \<in> set ls" by (force simp: req_key_def)
  finally show ?thesis .
qed

lemma release_list_view:
  "distinct (map req_key ls) \<Longrightarrow> lock_view (release_list T ls) k =
     (case held_mode ls k of None \<Rightarrow> lock_view T k | Some m \<Rightarrow> lock_released (lock_view T k) m)"
proof (induction ls arbitrary: T)
  case (Cons r ls)
  obtain a c m where r: "r = (a, c, m)" by (rule prod_cases3)
  have "held_mode ls (a, c) = None" using Cons.prems r by (simp add: held_mode_None req_key_def)
  then show ?case using Cons r by (auto simp: lock_view_release split: option.splits)
qed simp

lemma acquire_loop_view:
  "distinct (map req_key rs) \<Longrightarrow>
   \<exists>T'. acquire_loop rs T acq failed = (T', acq @ filter (admitted T) rs, failed \<or> \<not> list_all (admitted T) rs)
     \<and> (\<forall>k. lock_view T' k = (case held_mode (filter (admitted T) rs) k of None \<Rightarrow> lock_view T k | Some m \<Rightarrow> lock_taken (lock_view T k) m))"
proof (induction rs arbitrary: T acq failed)
  case (Cons r rs)
  obtain a c m where r: "r = (a, c, m)" by (rule prod_cases3)
  define T1 where "T1 = T((a, c) \<mapsto> (if admitted T r then lock_taken (lock_view T (a, c)) m else lock_view T (a, c)))"
  have step: "acquire_loop (r # rs) T acq failed = acquire_loop rs T1 (if admitted T r then acq @ [r] else acq) (failed \<or> \<not> admitted T r)"
    by (auto simp: r T1_def admitted_def req_key_def lock_view_def Let_def)
  have "admitted T1 x = admitted T x" if "x \<in> set rs" for x
    using that Cons.prems by (auto simp: admitted_def T1_def r req_key_def image_iff)
  then have same: "filter (admitted T1) rs = filter (admitted T) rs" "list_all (admitted T1) rs = list_all (admitted T) rs"
    by (auto simp: list_all_iff intro: filter_cong)
  have ac: "held_mode (filter (admitted T) rs) (a, c) = None"
    using Cons.prems r by (auto simp: held_mode_None req_key_def image_iff)
  obtain T' where t: "acquire_loop rs T1 (if admitted T r then acq @ [r] else acq) (failed \<or> \<not> admitted T r)
      = (T', (if admitted T r then acq @ [r] else acq) @ filter (admitted T) rs, (failed \<or> \<not> admitted T r) \<or> \<not> list_all (admitted T) rs)"
    "\<And>k. lock_view T' k = (case held_mode (filter (admitted T) rs) k of None \<Rightarrow> lock_view T1 k | Some m \<Rightarrow> lock_taken (lock_view T1 k) m)"
    using Cons.IH [of T1 "if admitted T r then acq @ [r] else acq" "failed \<or> \<not> admitted T r"] Cons.prems unfolding same by auto
  have "lock_view T' k = (case held_mode (filter (admitted T) (r # rs)) k of None \<Rightarrow> lock_view T k | Some m \<Rightarrow> lock_taken (lock_view T k) m)" for k
    using ac by (cases "k = (a, c)") (auto simp: t(2) T1_def r split: option.splits)
  then show ?case unfolding step t(1) by auto
qed simp

text \<open>What \<^verbatim>\<open>acquire\<close> does, in terms of the view: all columns or none.\<close>

definition lock_set_for :: "archetype list \<Rightarrow> nat set \<Rightarrow> nat set \<Rightarrow> lock_set \<Rightarrow> bool" where
  "lock_set_for archs reads writes ls \<longleftrightarrow> distinct (map req_key ls)
     \<and> (\<forall>k. held_mode ls k = want archs reads writes k)"

lemma acquire_view:
  assumes room: "\<And>k. cl_readers (lock_view T k) \<noteq> - 1"
  shows "if list_all (admitted T) (merged archs reads writes)
    then \<exists>T'. acquire T archs reads writes = (Some (merged archs reads writes), T')
      \<and> (\<forall>k. lock_view T' k = (case held_mode (merged archs reads writes) k of None \<Rightarrow> lock_view T k | Some m \<Rightarrow> lock_taken (lock_view T k) m))
    else \<exists>T'. acquire T archs reads writes = (None, T') \<and> lock_view T' = lock_view T"
proof -
  let ?rs = "merged archs reads writes"
  let ?ok = "filter (admitted T) ?rs"
  obtain T' where t: "acquire_loop ?rs T [] False = (T', ?ok, \<not> list_all (admitted T) ?rs)"
    "\<And>k. lock_view T' k = (case held_mode ?ok k of None \<Rightarrow> lock_view T k | Some m \<Rightarrow> lock_taken (lock_view T k) m)"
    using acquire_loop_view [OF merged_distinct, of archs reads writes T "[]" False] by auto
  show ?thesis
  proof (cases "list_all (admitted T) ?rs")
    case True
    then have "?ok = ?rs" by (simp add: list_all_iff)
    then show ?thesis using True t by (simp add: acquire_def merged_def [symmetric])
  next
    case False
    have d: "distinct (map req_key ?ok)" using merged_distinct by (rule distinct_map_filter)
    have undo: "lock_released (lock_taken l m) m = l" if "lock_admits l m" "cl_readers l \<noteq> - 1" for l m
    proof -
      have "cl_readers l + 1 \<noteq> 0" using that(2) by (metis add_eq_0_iff add.commute)
      then show ?thesis using that(1) by (cases m) (auto simp: lock_released_def lock_taken_def lock_admits_def)
    qed
    have "lock_view (release_list T' ?ok) k = lock_view T k" for k
    proof (cases "held_mode ?ok k")
      case None
      then show ?thesis by (simp add: release_list_view [OF d] t(2))
    next
      case (Some m)
      then have "(fst k, snd k, m) \<in> set ?ok" using held_mode_Some [OF d, of "fst k" "snd k" m] by simp
      then have "lock_admits (lock_view T k) m" by (simp add: admitted_def req_key_def)
      then show ?thesis using Some undo room by (simp add: release_list_view [OF d] t(2))
    qed
    then show ?thesis using False t(1) by (auto simp: acquire_def merged_def [symmetric])
  qed
qed

subsection \<open>Histories of transactions\<close>

declare split_paired_All [simp del] split_paired_Ex [simp del]

text \<open>
  The table together with the lock sets that transactions hold. A \<^verbatim>\<open>ColumnLockSet\<close> cannot be
  copied, so it is released once; fewer than \<open>2 ^ 32 - 1\<close> are out at a time.
\<close>

datatype lock_op = LAcquire "archetype list" "nat set" "nat set" | LRelease nat

type_synonym lock_state = "lock_table \<times> lock_set list"

fun lock_exec :: "lock_op \<Rightarrow> lock_state \<Rightarrow> lock_state option" where
  "lock_exec (LAcquire archs reads writes) (T, H) =
     (if length H < 4294967295
      then (case acquire T archs reads writes of
          (Some ls, T') \<Rightarrow> Some (T', H @ [ls])
        | (None, T') \<Rightarrow> Some (T', H))
      else None)"
| "lock_exec (LRelease i) (T, H) =
     (if i < length H then Some (release T (H ! i), take i H @ drop (Suc i) H) else None)"

definition holders :: "lock_set list \<Rightarrow> column \<Rightarrow> lock_mode \<Rightarrow> nat" where
  "holders H k m = length (filter (\<lambda>ls. held_mode ls k = Some m) H)"

lemma holders_Nil [simp]: "holders [] k m = 0"
  and holders_app [simp]: "holders (H @ H') k m = holders H k m + holders H' k m"
  and holders_one [simp]: "holders [ls] k m = (if held_mode ls k = Some m then 1 else 0)"
  by (simp_all add: holders_def)

lemma holders_remove:
  assumes "i < length H"
  shows "holders H k m = holders (take i H @ drop (Suc i) H) k m + (if held_mode (H ! i) k = Some m then 1 else 0)"
proof -
  have "H = take i H @ [H ! i] @ drop (Suc i) H" using assms by (simp add: id_take_nth_drop)
  then have "holders H k m = holders (take i H @ [H ! i] @ drop (Suc i) H) k m" by (rule arg_cong)
  then show ?thesis by (simp add: holders_def)
qed

lemma holders_le: "holders H k m \<le> length H"
  by (simp add: holders_def)

text \<open>The table counts exactly what is held, and a writer is alone.\<close>

definition lock_inv :: "lock_state \<Rightarrow> bool" where
  "lock_inv s \<longleftrightarrow> (case s of (T, H) \<Rightarrow> length H \<le> 4294967295
     \<and> (\<forall>ls \<in> set H. distinct (map req_key ls))
     \<and> (\<forall>k. unat (cl_readers (lock_view T k)) = holders H k Shared
          \<and> holders H k Exclusive = (if cl_writer (lock_view T k) then 1 else 0)
          \<and> (cl_writer (lock_view T k) \<longrightarrow> holders H k Shared = 0)))"

lemma lock_invI:
  "length H \<le> 4294967295 \<Longrightarrow> (\<And>ls. ls \<in> set H \<Longrightarrow> distinct (map req_key ls)) \<Longrightarrow>
   (\<And>k. unat (cl_readers (lock_view T k)) = holders H k Shared
        \<and> holders H k Exclusive = (if cl_writer (lock_view T k) then 1 else 0)
        \<and> (cl_writer (lock_view T k) \<longrightarrow> holders H k Shared = 0)) \<Longrightarrow> lock_inv (T, H)"
  unfolding lock_inv_def prod.case by blast

lemma lock_invD:
  assumes "lock_inv (T, H)"
  shows "length H \<le> 4294967295" "ls \<in> set H \<Longrightarrow> distinct (map req_key ls)"
    "unat (cl_readers (lock_view T k)) = holders H k Shared"
    "holders H k Exclusive = (if cl_writer (lock_view T k) then 1 else 0)"
    "cl_writer (lock_view T k) \<Longrightarrow> holders H k Shared = 0"
  using assms unfolding lock_inv_def prod.case by blast+

lemma lock_inv_room:
  assumes "lock_inv (T, H)" "length H < 4294967295"
  shows "cl_readers (lock_view T k) \<noteq> - 1"
proof
  assume "cl_readers (lock_view T k) = - 1"
  then have "holders H k Shared = unat (- 1 :: u32)" using lock_invD(3) [OF assms(1), of k] by simp
  also have "\<dots> = 4294967295" by (simp add: unsigned_minus_1_eq_mask mask_eq_exp_minus_1)
  finally show False using holders_le [of H k Shared] assms(2) by simp
qed

lemma acquired_inv:
  assumes inv: "lock_inv (T, H)" and len: "length H < 4294967295" and d: "distinct (map req_key ls)"
    and ok: "list_all (admitted T) ls"
    and v: "\<And>k. lock_view T' k = (case held_mode ls k of None \<Rightarrow> lock_view T k | Some m \<Rightarrow> lock_taken (lock_view T k) m)"
  shows "lock_inv (T', H @ [ls])"
proof -
  have "unat (cl_readers (lock_view T' k)) = holders (H @ [ls]) k Shared
      \<and> holders (H @ [ls]) k Exclusive = (if cl_writer (lock_view T' k) then 1 else 0)
      \<and> (cl_writer (lock_view T' k) \<longrightarrow> holders (H @ [ls]) k Shared = 0)" for k
  proof -
    note iv = lock_invD(3-5) [OF inv, of k]
    show ?thesis
  proof (cases "held_mode ls k")
    case None
    then show ?thesis using iv v [of k] by simp
  next
    case (Some m)
    then have "(fst k, snd k, m) \<in> set ls" using held_mode_Some [OF d, of "fst k" "snd k" m] by simp
    then have adm: "lock_admits (lock_view T k) m" using ok by (auto simp: list_all_iff admitted_def req_key_def)
    show ?thesis
    proof (cases m)
      case Shared
      then show ?thesis using iv v [of k] Some adm word_inc [OF lock_inv_room [OF inv len, of k]]
        by (simp add: lock_taken_def lock_admits_def)
    next
      case Exclusive
      then have "unat (cl_readers (lock_view T k)) = 0" using adm by (simp add: lock_admits_def)
      then show ?thesis using iv v [of k] Some adm Exclusive
        by (simp add: lock_taken_def lock_admits_def)
    qed
  qed
  qed
  then show ?thesis using lock_invD(2) [OF inv] len d by (intro lock_invI) auto
qed

lemma released_inv:
  assumes inv: "lock_inv (T, H)" and i: "i < length H"
  shows "lock_inv (release T (H ! i), take i H @ drop (Suc i) H)"
proof -
  let ?ls = "H ! i" and ?H = "take i H @ drop (Suc i) H"
  have d: "distinct (map req_key ?ls)" using lock_invD(2) [OF inv] i by simp
  have "unat (cl_readers (lock_view (release T ?ls) k)) = holders ?H k Shared
      \<and> holders ?H k Exclusive = (if cl_writer (lock_view (release T ?ls) k) then 1 else 0)
      \<and> (cl_writer (lock_view (release T ?ls) k) \<longrightarrow> holders ?H k Shared = 0)" for k
  proof (cases "held_mode ?ls k")
    case None
    then show ?thesis using lock_invD(3-5) [OF inv, of k] holders_remove [OF i, of k] by (simp add: release_def release_list_view [OF d])
  next
    case (Some m)
    have iv: "unat (cl_readers (lock_view T k)) = holders H k Shared"
      "holders H k Exclusive = (if cl_writer (lock_view T k) then 1 else 0)"
      "cl_writer (lock_view T k) \<Longrightarrow> holders H k Shared = 0" by (rule lock_invD [OF inv])+
    note h = holders_remove [OF i, of k]
    show ?thesis
    proof (cases m)
      case Shared
      then have R: "unat (cl_readers (lock_view T k)) = holders ?H k Shared + 1" using iv(1) h [of Shared] Some by simp
      have nz: "cl_readers (lock_view T k) \<noteq> 0"
      proof
        assume "cl_readers (lock_view T k) = 0"
        then have "unat (cl_readers (lock_view T k)) = 0" by (rule ssubst) simp
        then show False using R by arith
      qed
      have "unat (cl_readers (lock_view T k) - 1) = holders ?H k Shared"
        by (simp only: unat_minus_one [OF nz] R diff_add_inverse2)
      with nz have "cl_readers (lock_view T k) \<noteq> 0 \<and> unat (cl_readers (lock_view T k) - 1) = holders ?H k Shared"
        by (rule conjI)
      then show ?thesis using Shared Some iv h by (simp add: release_def release_list_view [OF d] lock_released_def split: if_splits)
    next
      case Exclusive
      have view: "lock_view (release T ?ls) k = (lock_view T k)\<lparr>cl_writer := False\<rparr>"
        by (simp add: release_def release_list_view [OF d] Some Exclusive lock_released_def)
      have x: "holders H k Exclusive = holders ?H k Exclusive + 1" "holders H k Shared = holders ?H k Shared"
        by (simp_all only: h Some Exclusive option.inject lock_mode.distinct if_True if_False add_0_right simp_thms)
      have w: "cl_writer (lock_view T k)"
      proof (rule ccontr)
        assume "\<not> cl_writer (lock_view T k)"
        then show False using iv(2) x(1) by (simp only: if_False)
      qed
      have "holders ?H k Exclusive = 0" using iv(2) x(1) w by (simp only: if_True)
      moreover have "unat (cl_readers (lock_view T k)) = holders ?H k Shared" using iv(1) x(2) by (rule trans)
      moreover have "holders ?H k Shared = 0" using iv(3) [OF w] x(2) by (simp only:)
      ultimately show ?thesis unfolding view by simp
    qed
  qed
  moreover have "\<forall>ls \<in> set ?H. distinct (map req_key ls)" using lock_invD(2) [OF inv] by (auto dest: in_set_takeD in_set_dropD)
  moreover have "length ?H \<le> 4294967295" using lock_invD(1) [OF inv] i by simp
  ultimately show ?thesis by (intro lock_invI) auto
qed

lemma lock_step:
  assumes "lock_inv s" "lock_exec a s = Some s'"
  shows "lock_inv s'"
proof (cases s)
  case s: (Pair T H)
  show ?thesis
  proof (cases a)
    case (LRelease i)
    then show ?thesis using released_inv assms s by (auto split: if_splits)
  next
    case (LAcquire archs reads writes)
    have len: "length H < 4294967295" using assms(2) s LAcquire by (simp split: if_splits)
    have inv: "lock_inv (T, H)" using assms(1) s by simp
    note av = acquire_view [of T archs reads writes, OF lock_inv_room [OF inv len]]
    show ?thesis
    proof (cases "list_all (admitted T) (merged archs reads writes)")
      case True
      then obtain T' where t: "acquire T archs reads writes = (Some (merged archs reads writes), T')"
        "\<And>k. lock_view T' k = (case held_mode (merged archs reads writes) k of None \<Rightarrow> lock_view T k | Some m \<Rightarrow> lock_taken (lock_view T k) m)"
        using av by auto
      from acquired_inv [OF inv len merged_distinct True t(2)] t(1) len assms(2) s LAcquire show ?thesis by auto
    next
      case False
      then obtain T' where "acquire T archs reads writes = (None, T')" "lock_view T' = lock_view T" using av by auto
      then show ?thesis using lock_invD [OF inv] len assms(2) s LAcquire by (auto intro!: lock_invI)
    qed
  qed
qed

interpretation lock_table: op_system lock_exec lock_inv
  by unfold_locales (use lock_step in blast)

lemma lock_new_inv [simp]: "lock_inv (lt_new, [])"
  by (rule lock_invI) (simp_all add: lock_default_def)

lemma holders_pos: "0 < holders H k m \<longleftrightarrow> (\<exists>ls \<in> set H. held_mode ls k = Some m)"
  by (auto simp: holders_def filter_empty_conv)

lemma holders_two:
  assumes "i < length H" "j < length H" "i \<noteq> j" "held_mode (H ! i) k = Some m" "held_mode (H ! j) k = Some m"
  shows "2 \<le> holders H k m"
proof -
  have "{i, j} \<subseteq> {n. n < length H \<and> held_mode (H ! n) k = Some m}" using assms by auto
  then have "card {i, j} \<le> card {n. n < length H \<and> held_mode (H ! n) k = Some m}" by (intro card_mono) auto
  then show ?thesis using assms(3) by (simp add: holders_def length_filter_conv_card)
qed

text \<open>
  (C37) Mutual exclusion and no leaks. Over every history of transactions that acquire and
  release lock sets, no column is ever held exclusively by one lock set and held at all by
  another one that is out at the same time; and once every lock set has been released, no
  column is left locked.
\<close>

theorem lock_mutual_exclusion:
  assumes "run_ops lock_exec ops (lt_new, []) = Some (T, H)"
  shows "(\<forall>i < length H. \<forall>j < length H. i \<noteq> j \<and> held_mode (H ! i) k = Some Exclusive \<longrightarrow> held_mode (H ! j) k = None)
    \<and> (H = [] \<longrightarrow> lock_view T k = lock_default)"
proof -
  have inv: "lock_inv (T, H)" by (rule lock_table.run_inv [OF lock_new_inv assms])
  note iv = lock_invD(3-5) [OF inv, of k]
  have "held_mode (H ! j) k = None"
    if "i < length H" "j < length H" "i \<noteq> j" "held_mode (H ! i) k = Some Exclusive" for i j
  proof (rule ccontr)
    assume "held_mode (H ! j) k \<noteq> None"
    then obtain m where m: "held_mode (H ! j) k = Some m" by blast
    have "0 < holders H k Exclusive" using that by (auto simp: holders_pos)
    then have w: "holders H k Exclusive = 1" "holders H k Shared = 0" using iv by (auto split: if_splits)
    show False
    proof (cases m)
      case Shared
      then have "0 < holders H k Shared" using m that(2) by (auto simp: holders_pos)
      then show False using w by simp
    next
      case Exclusive
      then show False using holders_two [OF that(1-3) that(4), of] m w by simp
    qed
  qed
  moreover have "lock_view T k = lock_default" if "H = []"
  proof (cases "lock_view T k")
    case (fields r w)
    then show ?thesis using iv that by (auto simp: lock_default_def unsigned_eq_0_iff split: if_splits)
  qed
  ultimately show ?thesis by blast
qed

text \<open>One archetype with two columns.\<close>

definition pair_arch :: archetype where
  "pair_arch = \<lparr>ar_id = 0, ar_component_ids = {0, 1}, ar_sorted_ids = [0, 1], ar_columns = [],
     ar_component_index = [Some 0, Some 1], ar_entities = pv_new ENTITY_TYPE\<rparr>"

theorem lock_mutual_exclusion_witness:
  "\<exists>T H. run_ops lock_exec [LAcquire [pair_arch] {0} {}, LAcquire [pair_arch] {0} {1}, LAcquire [pair_arch] {1} {}] (lt_new, []) = Some (T, H)
     \<and> length H = 2 \<and> held_mode (H ! 1) (0, 1) = Some Exclusive \<and> held_mode (H ! 0) (0, 1) = None"
proof -
  have "map_option snd (run_ops lock_exec [LAcquire [pair_arch] {0} {}, LAcquire [pair_arch] {0} {1}, LAcquire [pair_arch] {1} {}] (lt_new, []))
    = Some [[(0, 0, Shared)], [(0, 0, Shared), (0, 1, Exclusive)]]"
    by (simp add: acquire_def requests_def pair_arch_def column_index_def lt_new_def lock_default_def lock_admits_def lock_taken_def req_key_def)
  then obtain T H where r: "run_ops lock_exec [LAcquire [pair_arch] {0} {}, LAcquire [pair_arch] {0} {1}, LAcquire [pair_arch] {1} {}] (lt_new, []) = Some (T, H)"
    "H = [[(0, 0, Shared)], [(0, 0, Shared), (0, 1, Exclusive)]]" by auto
  have m: "held_mode (H ! 1) (0, 1) = Some Exclusive" by (simp add: r(2))
  have "held_mode (H ! 0) (0, 1) = None"
    using lock_mutual_exclusion [OF r(1), of "(0, 1)"] m r(2) by fastforce
  then show ?thesis using r m by auto
qed

lemma no_mode: "held_mode ls k = None \<longleftrightarrow> held_mode ls k \<noteq> Some Shared \<and> held_mode ls k \<noteq> Some Exclusive"
proof (cases "held_mode ls k")
  case (Some m)
  then show ?thesis by (cases m) simp_all
qed simp

lemma admitted_all:
  assumes inv: "lock_inv (T, H)" and f: "finite reads" "finite writes"
  shows "list_all (admitted T) (merged archs reads writes) \<longleftrightarrow>
    (\<forall>k. (wants archs writes k \<longrightarrow> (\<forall>ls \<in> set H. held_mode ls k = None))
       \<and> (wants archs reads k \<longrightarrow> (\<forall>ls \<in> set H. held_mode ls k \<noteq> Some Exclusive)))"
proof -
  have free: "(\<forall>ls \<in> set H. held_mode ls k \<noteq> Some m) \<longleftrightarrow> holders H k m = 0" for k m
    using holders_pos [of H k m] by auto
  have none: "(\<forall>ls \<in> set H. held_mode ls k = None) \<longleftrightarrow> holders H k Shared = 0 \<and> holders H k Exclusive = 0" for k
    unfolding free [symmetric] using no_mode by blast
  have zero: "cl_readers (lock_view T k) = 0 \<longleftrightarrow> holders H k Shared = 0" for k
    by (simp only: lock_invD(3) [OF inv, symmetric] unsigned_eq_0_iff)
  have ad: "lock_admits (lock_view T k) m \<longleftrightarrow> (case m of Shared \<Rightarrow> holders H k Exclusive = 0 | Exclusive \<Rightarrow> holders H k Shared = 0 \<and> holders H k Exclusive = 0)" for k m
    using lock_invD(4) [OF inv, of k] zero [of k] by (cases m) (auto simp: lock_admits_def split: if_splits)
  have "list_all (admitted T) (merged archs reads writes) \<longleftrightarrow> (\<forall>k m. want archs reads writes k = Some m \<longrightarrow> lock_admits (lock_view T k) m)"
    using merged_want(1) [OF f] by (force simp: list_all_iff admitted_def req_key_def)
  also have "\<dots> \<longleftrightarrow> (\<forall>k. (wants archs writes k \<longrightarrow> (\<forall>ls \<in> set H. held_mode ls k = None))
       \<and> (wants archs reads k \<longrightarrow> (\<forall>ls \<in> set H. held_mode ls k \<noteq> Some Exclusive)))"
    unfolding free none ad want_def by (auto split: lock_mode.splits)
  finally show ?thesis .
qed

text \<open>
  (C38) Acquiring is all or nothing, and refuses exactly when it must. In every reachable
  table, a request succeeds if and only if no lock set that is out holds a column the
  request writes, or exclusively holds one it reads; on success the lock set holds every
  matching column once, exclusively exactly if it is written (also when it is read as
  well); on failure no lock has changed.
\<close>

theorem acquire_exact:
  assumes "run_ops lock_exec ops (lt_new, []) = Some (T, H)" "length H < 4294967295" "finite reads" "finite writes"
  shows "case acquire T archs reads writes of
      (Some ls, T') \<Rightarrow> (\<forall>k. held_mode ls k = want archs reads writes k)
        \<and> (\<forall>k. (wants archs writes k \<longrightarrow> (\<forall>ls \<in> set H. held_mode ls k = None)) \<and> (wants archs reads k \<longrightarrow> (\<forall>ls \<in> set H. held_mode ls k \<noteq> Some Exclusive)))
    | (None, T') \<Rightarrow> lock_view T' = lock_view T
        \<and> (\<exists>k. \<exists>ls \<in> set H. wants archs writes k \<and> held_mode ls k \<noteq> None \<or> wants archs reads k \<and> held_mode ls k = Some Exclusive)"
proof -
  have inv: "lock_inv (T, H)" by (rule lock_table.run_inv [OF lock_new_inv assms(1)])
  note av = acquire_view [of T archs reads writes, OF lock_inv_room [OF inv assms(2)]]
  note all = admitted_all [OF inv assms(3,4), of archs]
  have hm: "held_mode (merged archs reads writes) k = want archs reads writes k" for k
  proof (cases "want archs reads writes k")
    case None
    then have "k \<notin> req_key ` set (merged archs reads writes)"
      using merged_want(1) [OF assms(3,4), where archs = archs] by (auto simp: req_key_def)
    then show ?thesis using None by (simp add: held_mode_None)
  next
    case (Some m)
    then show ?thesis using merged_want [OF assms(3,4), where archs = archs] held_mode_Some [of "merged archs reads writes" "fst k" "snd k" m] by simp
  qed
  show ?thesis
  proof (cases "list_all (admitted T) (merged archs reads writes)")
    case True
    then obtain T' where "acquire T archs reads writes = (Some (merged archs reads writes), T')" using av by auto
    then show ?thesis using hm True all by simp
  next
    case False
    then obtain T' where "acquire T archs reads writes = (None, T')" "lock_view T' = lock_view T" using av by auto
    then show ?thesis using False all by auto
  qed
qed

theorem acquire_exact_witness:
  "\<exists>T H. run_ops lock_exec [LAcquire [pair_arch] {0} {}] (lt_new, []) = Some (T, H)
     \<and> (case acquire T [pair_arch] {1} {1, 5} of (Some ls, _) \<Rightarrow> held_mode ls (0, 1) = want [pair_arch] {1} {1, 5} (0, 1) | (None, T') \<Rightarrow> lock_view T' = lock_view T)"
proof -
  have "map_option snd (run_ops lock_exec [LAcquire [pair_arch] {0} {}] (lt_new, [])) = Some [[(0, 0, Shared)]]"
    by (simp add: acquire_def requests_def pair_arch_def column_index_def lt_new_def lock_default_def lock_admits_def lock_taken_def req_key_def)
  then obtain T H where r: "run_ops lock_exec [LAcquire [pair_arch] {0} {}] (lt_new, []) = Some (T, H)" "length H < 4294967295" by auto
  from acquire_exact [OF r, of "{1}" "{1, 5}" "[pair_arch]"] have
    "case acquire T [pair_arch] {1} {1, 5} of (Some ls, _) \<Rightarrow> held_mode ls (0, 1) = want [pair_arch] {1} {1, 5} (0, 1) | (None, T') \<Rightarrow> lock_view T' = lock_view T"
    by (auto split: prod.splits option.splits)
  with r(1) show ?thesis by (intro exI conjI)
qed

text \<open>
  (C39) The scheduler's conflict test is sound for the lock table. In every reachable table,
  after a transaction has taken the locks of an access, a second access that does not
  conflict with it is granted its locks if and only if it would have been granted them
  before; and one that shares a column with a write on either side is refused.
\<close>

theorem access_conflicts_lock:
  assumes "run_ops lock_exec ops (lt_new, []) = Some (T, H)" "length H < 4294967294"
    and "finite (acc_reads a)" "finite (acc_writes a)" "finite (acc_reads b)" "finite (acc_writes b)"
    and "acquire T archs (acc_reads a) (acc_writes a) = (Some ls, T')"
  shows "(\<not> conflicts_with a b \<longrightarrow>
       (fst (acquire T' archs (acc_reads b) (acc_writes b)) = None \<longleftrightarrow> fst (acquire T archs (acc_reads b) (acc_writes b)) = None))
     \<and> ((\<exists>k. wants archs (acc_writes a) k \<and> (wants archs (acc_reads b) k \<or> wants archs (acc_writes b) k)
            \<or> wants archs (acc_reads a) k \<and> wants archs (acc_writes b) k) \<longrightarrow>
       fst (acquire T' archs (acc_reads b) (acc_writes b)) = None)"
proof -
  have H1: "run_ops lock_exec (ops @ [LAcquire archs (acc_reads a) (acc_writes a)]) (lt_new, []) = Some (T', H @ [ls])"
    using assms(1,2,7) by (simp add: run_ops_append)
  have inv: "lock_inv (T, H)" "lock_inv (T', H @ [ls])"
    using lock_table.run_inv [OF lock_new_inv] assms(1) H1 by blast+
  have len: "length H < 4294967295" "length (H @ [ls]) < 4294967295" using assms(2) by simp_all
  have hm: "held_mode ls k = want archs (acc_reads a) (acc_writes a) k" for k
    using acquire_exact [OF assms(1) len(1) assms(3,4), of archs] assms(7) by simp
  have suc: "fst (acquire X archs (acc_reads b) (acc_writes b)) = None \<longleftrightarrow> \<not> list_all (admitted X) (merged archs (acc_reads b) (acc_writes b))"
    if "lock_inv (X, G)" "length G < 4294967295" for X G
    using acquire_view [of X archs "acc_reads b" "acc_writes b", OF lock_inv_room [OF that]] by (auto split: if_splits)
  have wd: "wants archs A k \<Longrightarrow> wants archs B k \<Longrightarrow> A \<inter> B \<noteq> {}" for A B k by (auto simp: wants_def)
  have none: "held_mode ls k = None \<longleftrightarrow> \<not> wants archs (acc_writes a) k \<and> \<not> wants archs (acc_reads a) k"
    and excl: "held_mode ls k = Some Exclusive \<longleftrightarrow> wants archs (acc_writes a) k" for k
    unfolding hm want_def by auto
  note aT = suc [OF inv(1) len(1), unfolded admitted_all [OF inv(1) assms(5,6)]]
  note aT' = suc [OF inv(2) len(2), unfolded admitted_all [OF inv(2) assms(5,6)]]
  show ?thesis
  proof (intro conjI impI)
    assume nc: "\<not> conflicts_with a b"
    have "\<not> (wants archs (acc_writes b) k \<and> held_mode ls k \<noteq> None)" "\<not> (wants archs (acc_reads b) k \<and> held_mode ls k = Some Exclusive)" for k
      using nc wd unfolding none excl conflicts_iff by blast+
    then show "fst (acquire T' archs (acc_reads b) (acc_writes b)) = None \<longleftrightarrow> fst (acquire T archs (acc_reads b) (acc_writes b)) = None"
      unfolding aT aT' by auto
  next
    assume "\<exists>k. wants archs (acc_writes a) k \<and> (wants archs (acc_reads b) k \<or> wants archs (acc_writes b) k)
            \<or> wants archs (acc_reads a) k \<and> wants archs (acc_writes b) k"
    then show "fst (acquire T' archs (acc_reads b) (acc_writes b)) = None"
      unfolding aT' using none excl by fastforce
  qed
qed

theorem access_conflicts_lock_witness:
  "\<exists>ls T'. acquire lt_new [pair_arch] {0} {} = (Some ls, T') \<and> fst (acquire T' [pair_arch] {} {0}) = None"
proof -
  let ?a = "add_read access_empty 0" and ?b = "add_write access_empty 0"
  obtain ls T' where r: "acquire lt_new [pair_arch] (acc_reads ?a) (acc_writes ?a) = (Some ls, T')"
    by (simp add: acquire_def requests_def pair_arch_def column_index_def lt_new_def lock_default_def lock_admits_def lock_taken_def req_key_def add_read_def access_empty_def)
  have w: "wants [pair_arch] (acc_reads ?a) (0, 0) \<and> wants [pair_arch] (acc_writes ?b) (0, 0)"
    by (simp add: wants_def pair_arch_def column_index_def add_read_def add_write_def access_empty_def)
  have "fst (acquire T' [pair_arch] (acc_reads ?b) (acc_writes ?b)) = None"
    using access_conflicts_lock [of "[]" lt_new "[]" ?a ?b "[pair_arch]" ls T'] r w
    by (force simp: add_read_def add_write_def access_empty_def)
  with r show ?thesis by (simp add: add_read_def add_write_def access_empty_def)
qed

end
