(* ===== verification/World.thy ===== *)
theory World
  imports Sparse_Set Archetype
begin

text \<open>
  The world (\<^verbatim>\<open>crates/minkowski/src/world.rs\<close>, \<^verbatim>\<open>bundle.rs\<close>): entities, archetypes, component
  registry, sparse storage, the table of entity locations and the change tick, all in one
  pool. Every \<^verbatim>\<open>&mut self\<close> operation starts by draining the orphan queue.

  A component value is its bytes. A destructor is user code that may panic: \<open>boom c x\<close> says
  whether dropping the value \<open>x\<close> of component \<open>c\<close> unwinds. An operation that runs
  destructors answers \<open>Returned\<close> or \<open>Unwound\<close> with the values whose destructor it started;
  after \<open>Unwound\<close> the state is the one a caller that catches the panic finds. \<open>None\<close> is any
  other panic or abort. \<open>t\<close> is the calling thread and \<open>order\<close> the order in which the hash
  map of sparse sets is visited. \<^verbatim>\<open>debug_assert!\<close> is not part of the model. The table cache
  holds only pointers derived from the archetypes and is left out.
\<close>

subsection \<open>Locations\<close>

text \<open>\<^verbatim>\<open>EntityLocation\<close>: archetype id plus one, so that zero is the niche of \<^verbatim>\<open>Option\<close>, and row.\<close>

record entity_location =
  el_archetype :: u32
  el_row :: u32

definition el_new :: "nat \<Rightarrow> nat \<Rightarrow> entity_location option" where
  "el_new archetype_id row =
     (if archetype_id \<le> U32_MAX \<and> word_of_nat archetype_id + (1 :: u32) \<noteq> 0 \<and> row \<le> U32_MAX
      then Some \<lparr>el_archetype = word_of_nat archetype_id + 1, el_row = word_of_nat row\<rparr>
      else None)"

definition el_archetype_id :: "entity_location \<Rightarrow> nat" where
  "el_archetype_id l = unat (el_archetype l - 1)"

definition el_row_of :: "entity_location \<Rightarrow> nat" where
  "el_row_of l = unat (el_row l)"

subsection \<open>State\<close>

text \<open>\<^verbatim>\<open>QueryCacheEntry\<close>.\<close>

record query_entry =
  qc_matched :: "nat list"
  qc_required :: "nat set"
  qc_archetypes :: nat
  qc_last_read :: tick
  qc_pending :: "tick option"
  qc_iterated :: bool
  qc_version :: u64

text \<open>\<^verbatim>\<open>OrphanQueue\<close>: the queue and the flag that says whether to look at it.\<close>

record orphan_queue =
  oq_queue :: "entity list"
  oq_has_items :: bool

record world =
  w_id :: u64
  w_entities :: entity_allocator
  w_archetypes :: archetypes
  w_components :: registry
  w_sparse :: sparse_storage
  w_locations :: "entity_location option pool_vec"
  w_queries :: "nat \<rightharpoonup> query_entry"
  w_tick :: tick
  w_orphans :: orphan_queue
  w_pool :: slab_pool

definition LOCATION_TYPE :: layout where "LOCATION_TYPE = \<lparr>l_size = 8, l_align = 4\<rparr>"

definition oq_new :: orphan_queue where
  "oq_new = \<lparr>oq_queue = [], oq_has_items = False\<rparr>"

definition new_with_pool :: "u64 \<Rightarrow> slab_pool \<Rightarrow> world" where
  "new_with_pool i p =
     \<lparr>w_id = i, w_entities = ea_new, w_archetypes = as_new, w_components = cr_new, w_sparse = st_new,
      w_locations = pv_new LOCATION_TYPE, w_queries = Map.empty, w_tick = tick_new 0,
      w_orphans = oq_new, w_pool = p\<rparr>"

definition next_tick :: "world \<Rightarrow> tick \<times> world" where
  "next_tick w = (let k = advance (w_tick w) in (k, w\<lparr>w_tick := k\<rparr>))"

text \<open>Indexing that panics out of range.\<close>

definition nth_opt :: "'a list \<Rightarrow> nat \<Rightarrow> 'a option" where
  "nth_opt xs i = (if i < length xs then Some (xs ! i) else None)"

abbreviation w_archs :: "world \<Rightarrow> archetype list" where
  "w_archs w \<equiv> as_list (w_archetypes w)"

abbreviation w_locs :: "world \<Rightarrow> entity_location option list" where
  "w_locs w \<equiv> pv_elems (w_locations w)"

definition set_archetype :: "world \<Rightarrow> nat \<Rightarrow> archetype \<Rightarrow> world" where
  "set_archetype w i a = w\<lparr>w_archetypes := (w_archetypes w)\<lparr>as_list := (w_archs w)[i := a]\<rparr>\<rparr>"

definition set_location :: "world \<Rightarrow> nat \<Rightarrow> entity_location option \<Rightarrow> world option" where
  "set_location w index l =
     (if index < length (w_locs w)
      then Some (w\<lparr>w_locations := (w_locations w)\<lparr>pv_elems := (w_locs w)[index := l]\<rparr>\<rparr>)
      else None)"

text \<open>\<^verbatim>\<open>entity_locations[index] = Some(EntityLocation::new(archetype, row))\<close>.\<close>

definition put_location :: "world \<Rightarrow> nat \<Rightarrow> nat \<Rightarrow> nat \<Rightarrow> world option" where
  "put_location w index archetype_id row =
     do { l \<leftarrow> el_new archetype_id row; set_location w index (Some l) }"

definition ent_index :: "entity \<Rightarrow> nat" where "ent_index e = unat (entity_index e)"

fun dealloc_orphans :: "nat \<Rightarrow> slab_pool \<Rightarrow> entity_allocator \<Rightarrow> entity list \<Rightarrow> (slab_pool \<times> entity_allocator) option" where
  "dealloc_orphans t p a [] = Some (p, a)"
| "dealloc_orphans t p a (e # es) = do { (_, p', a') \<leftarrow> ea_dealloc t p a e; dealloc_orphans t p' a' es }"

definition drain_orphans :: "nat \<Rightarrow> world \<Rightarrow> world option" where
  "drain_orphans t w =
     do {
       (p, a) \<leftarrow> ea_materialize_reserved t (w_pool w) (w_entities w);
       let w1 = w\<lparr>w_pool := p, w_entities := a\<rparr>;
       if \<not> oq_has_items (w_orphans w1) then Some w1
       else do {
         (p', a') \<leftarrow> dealloc_orphans t (w_pool w1) (w_entities w1) (oq_queue (w_orphans w1));
         Some (w1\<lparr>w_pool := p', w_entities := a', w_orphans := \<lparr>oq_queue = [], oq_has_items = False\<rparr>\<rparr>)
       }
     }"

definition set_current_tick :: "world \<Rightarrow> u64 \<Rightarrow> world" where
  "set_current_tick w tk = w\<lparr>w_tick := tick_new tk\<rparr>"

definition register_component :: "nat \<Rightarrow> world \<Rightarrow> rust_type \<Rightarrow> (nat \<times> world) option" where
  "register_component t w ty =
     do { w1 \<leftarrow> drain_orphans t w;
          let (i, r) = register (w_components w1) ty;
          Some (i, w1\<lparr>w_components := r\<rparr>) }"

definition register_component_raw :: "nat \<Rightarrow> world \<Rightarrow> string \<Rightarrow> layout \<Rightarrow> (nat \<times> world) option" where
  "register_component_raw t w name lay =
     do { w1 \<leftarrow> drain_orphans t w;
          let (i, r) = register_raw (w_components w1) name lay;
          Some (i, w1\<lparr>w_components := r\<rparr>) }"

text \<open>\<^verbatim>\<open>if index >= entity_locations.len() { entity_locations.resize(index + 1, None) }\<close>.\<close>

definition ensure_location :: "nat \<Rightarrow> world \<Rightarrow> nat \<Rightarrow> world option" where
  "ensure_location t w index =
     (if index \<ge> length (w_locs w)
      then do { (p, ls) \<leftarrow> pv_resize t (w_pool w) (w_locations w) (index + 1) None;
                Some (w\<lparr>w_pool := p, w_locations := ls\<rparr>) }
      else Some w)"

definition world_alloc :: "nat \<Rightarrow> world \<Rightarrow> (entity \<times> world) option" where
  "world_alloc t w =
     do { (e, p, a) \<leftarrow> ea_alloc t (w_pool w) (w_entities w);
          w1 \<leftarrow> ensure_location t (w\<lparr>w_pool := p, w_entities := a\<rparr>) (ent_index e);
          Some (e, w1) }"

definition alloc_entity :: "nat \<Rightarrow> world \<Rightarrow> (entity \<times> world) option" where
  "alloc_entity t w = do { w1 \<leftarrow> drain_orphans t w; world_alloc t w1 }"

definition is_placed :: "world \<Rightarrow> entity \<Rightarrow> bool" where
  "is_placed w e \<longleftrightarrow> ent_index e < length (w_locs w) \<and> w_locs w ! ent_index e \<noteq> None"

subsection \<open>Bundles\<close>

text \<open>
  A bundle is the tuple of its values with their types. \<^verbatim>\<open>component_ids\<close> registers the types
  in order, sorts, and panics on a duplicate; \<^verbatim>\<open>put\<close> hands each value to a callback, in order.
\<close>

type_synonym bundle_values = "(rust_type \<times> item) list"

fun register_all :: "registry \<Rightarrow> rust_type list \<Rightarrow> nat list \<times> registry" where
  "register_all r [] = ([], r)"
| "register_all r (ty # tys) = (let (i, r1) = register r ty; (is, r2) = register_all r1 tys in (i # is, r2))"

definition bundle_ids :: "registry \<Rightarrow> bundle_values \<Rightarrow> (nat list \<times> registry) option" where
  "bundle_ids r b =
     (let (ids, r') = register_all r (map fst b) in
      if length (remdups_adj (sort ids)) = length b then Some (remdups_adj (sort ids), r') else None)"

text \<open>\<^verbatim>\<open>put\<close> with the callback of \<^verbatim>\<open>spawn\<close>: push the value onto its column.\<close>

fun put_push :: "nat \<Rightarrow> registry \<Rightarrow> bundle_values \<Rightarrow> slab_pool \<times> archetype \<Rightarrow> (slab_pool \<times> archetype) option" where
  "put_push t reg [] pa = Some pa"
| "put_push t reg ((ty, x) # b) (p, a) =
     do {
       comp_id \<leftarrow> cr_id reg ty;
       col \<leftarrow> column_index a comp_id;
       v \<leftarrow> nth_opt (ar_columns a) col;
       (p', v') \<leftarrow> bv_push t p v x;
       put_push t reg b (p', a\<lparr>ar_columns := (ar_columns a)[col := v']\<rparr>)
     }"

definition mark_all_changed :: "archetype \<Rightarrow> tick \<Rightarrow> archetype" where
  "mark_all_changed a tk = a\<lparr>ar_columns := map (\<lambda>c. mark_changed c tk) (ar_columns a)\<rparr>"

text \<open>The common tail of \<^verbatim>\<open>spawn\<close>, \<^verbatim>\<open>try_spawn\<close> and \<^verbatim>\<open>spawn_batch\<close>: a new entity at the end of an archetype.\<close>

definition place_new :: "nat \<Rightarrow> world \<Rightarrow> nat \<Rightarrow> bundle_values \<Rightarrow> (entity \<times> world) option" where
  "place_new t w arch_id b =
     do {
       (e, w1) \<leftarrow> world_alloc t w;
       let (tk, w2) = next_tick w1;
       a \<leftarrow> nth_opt (w_archs w2) arch_id;
       (p, a1) \<leftarrow> put_push t (w_components w2) b (w_pool w2, a);
       let a2 = mark_all_changed a1 tk;
       let row = pv_len (ar_entities a2);
       (p', es) \<leftarrow> pv_push t p (ar_entities a2) e;
       let w3 = (set_archetype w2 arch_id (a2\<lparr>ar_entities := es\<rparr>))\<lparr>w_pool := p'\<rparr>;
       w4 \<leftarrow> put_location w3 (ent_index e) arch_id row;
       Some (e, w4)
     }"

text \<open>Resolving the archetype of a bundle.\<close>

definition bundle_archetype :: "nat \<Rightarrow> world \<Rightarrow> bundle_values \<Rightarrow> (nat \<times> world) option" where
  "bundle_archetype t w b =
     do {
       (ids, reg) \<leftarrow> bundle_ids (w_components w) b;
       let w1 = w\<lparr>w_components := reg\<rparr>;
       (arch_id, p, archs) \<leftarrow> get_or_create t (w_pool w1) (w_archetypes w1) ids reg;
       Some (arch_id, w1\<lparr>w_pool := p, w_archetypes := archs\<rparr>)
     }"

definition spawn :: "nat \<Rightarrow> world \<Rightarrow> bundle_values \<Rightarrow> (entity \<times> world) option" where
  "spawn t w b =
     do {
       w1 \<leftarrow> drain_orphans t w;
       (arch_id, w2) \<leftarrow> bundle_archetype t w1 b;
       place_new t w2 arch_id b
     }"

text \<open>Room for one more row in every column; the loop stops at the first column the pool cannot grow.\<close>

fun grow_columns :: "nat \<Rightarrow> slab_pool \<Rightarrow> blob_vec list \<Rightarrow> ((pool_exhausted + unit) \<times> slab_pool \<times> blob_vec list) option" where
  "grow_columns t p [] = Some (Inr (), p, [])"
| "grow_columns t p (c # cs) =
     do {
       (r, p1, c1) \<leftarrow> (if bv_len c = bv_cap c then try_grow t p c else Some (Inr (), p, c));
       (case r of
          Inl e \<Rightarrow> Some (Inl e, p1, c1 # cs)
        | Inr _ \<Rightarrow> do { (r', p2, cs') \<leftarrow> grow_columns t p1 cs; Some (r', p2, c1 # cs') })
     }"

text \<open>Row space in an archetype: its columns, then its entity list.\<close>

definition grow_archetype :: "nat \<Rightarrow> world \<Rightarrow> nat \<Rightarrow> ((pool_exhausted + unit) \<times> world) option" where
  "grow_archetype t w arch_id =
     do {
       a \<leftarrow> nth_opt (w_archs w) arch_id;
       (r, p, cols) \<leftarrow> grow_columns t (w_pool w) (ar_columns a);
       let a1 = a\<lparr>ar_columns := cols\<rparr>;
       let w1 = (set_archetype w arch_id a1)\<lparr>w_pool := p\<rparr>;
       (case r of
          Inl e \<Rightarrow> Some (Inl e, w1)
        | Inr _ \<Rightarrow> do {
            (r2, p2, es) \<leftarrow> pv_try_reserve t (w_pool w1) (ar_entities a1) 1;
            Some (r2, (set_archetype w1 arch_id (a1\<lparr>ar_entities := es\<rparr>))\<lparr>w_pool := p2\<rparr>)
          })
     }"

definition try_spawn :: "nat \<Rightarrow> world \<Rightarrow> bundle_values \<Rightarrow> ((pool_exhausted + entity) \<times> world) option" where
  "try_spawn t w b =
     do {
       w1 \<leftarrow> drain_orphans t w;
       (arch_id, w2) \<leftarrow> bundle_archetype t w1 b;
       (r, w3) \<leftarrow> grow_archetype t w2 arch_id;
       (case r of
          Inl e \<Rightarrow> Some (Inl e, w3)
        | Inr _ \<Rightarrow> do {
            (r2, p, en) \<leftarrow> ea_try_prepare_alloc t (w_pool w3) (w_entities w3);
            let w4 = w3\<lparr>w_pool := p, w_entities := en\<rparr>;
            (case r2 of
               Inl e \<Rightarrow> Some (Inl e, w4)
             | Inr bound \<Rightarrow> do {
                 (r3, p', ls) \<leftarrow> pv_try_reserve t (w_pool w4) (w_locations w4) (bound - length (w_locs w4));
                 let w5 = w4\<lparr>w_pool := p', w_locations := ls\<rparr>;
                 (case r3 of
                    Inl e \<Rightarrow> Some (Inl e, w5)
                  | Inr _ \<Rightarrow> do { (e, w6) \<leftarrow> place_new t w5 arch_id b; Some (Inr e, w6) })
               })
          })
     }"

text \<open>\<^verbatim>\<open>spawn_batch\<close>; \<open>lower\<close> is the lower bound of the iterator's size hint.\<close>

fun reserve_columns :: "nat \<Rightarrow> slab_pool \<Rightarrow> blob_vec list \<Rightarrow> nat \<Rightarrow> (slab_pool \<times> blob_vec list) option" where
  "reserve_columns t p [] n = Some (p, [])"
| "reserve_columns t p (c # cs) n =
     do { (p1, c1) \<leftarrow> bv_reserve t p c n; (p2, cs') \<leftarrow> reserve_columns t p1 cs n; Some (p2, c1 # cs') }"

fun place_all :: "nat \<Rightarrow> world \<Rightarrow> nat \<Rightarrow> bundle_values list \<Rightarrow> (entity list \<times> world) option" where
  "place_all t w arch_id [] = Some ([], w)"
| "place_all t w arch_id (b # bs) =
     do { (e, w1) \<leftarrow> place_new t w arch_id b; (es, w2) \<leftarrow> place_all t w1 arch_id bs; Some (e # es, w2) }"

definition spawn_batch :: "nat \<Rightarrow> world \<Rightarrow> rust_type list \<Rightarrow> item list list \<Rightarrow> nat \<Rightarrow> (entity list \<times> world) option" where
  "spawn_batch t w tys rows lower =
     do {
       w1 \<leftarrow> drain_orphans t w;
       (arch_id, w2) \<leftarrow> bundle_archetype t w1 (map (\<lambda>ty. (ty, [])) tys);
       w3 \<leftarrow> (if lower > 0
              then do {
                a \<leftarrow> nth_opt (w_archs w2) arch_id;
                (p, cols) \<leftarrow> reserve_columns t (w_pool w2) (ar_columns a) lower;
                (p', es) \<leftarrow> pv_reserve t p (ar_entities a) lower;
                Some ((set_archetype w2 arch_id (a\<lparr>ar_columns := cols, ar_entities := es\<rparr>))\<lparr>w_pool := p'\<rparr>)
              }
              else Some w2);
       place_all t w3 arch_id (map (zip tys) rows)
     }"

subsection \<open>Despawning\<close>

datatype 'a outcome = Returned 'a | Unwound

type_synonym drops = "(nat \<times> item) list"

fun extract_all :: "nat \<Rightarrow> blob_vec list \<Rightarrow> (extracted_slot list \<times> blob_vec list) option" where
  "extract_all row [] = Some ([], [])"
| "extract_all row (c # cs) =
     do { (s, c') \<leftarrow> begin_extract_swap c row; (ss, cs') \<leftarrow> extract_all row cs; Some (s # ss, c' # cs') }"

text \<open>The last loop: each slot's value is dropped through its pointer into the column's scratch slot.\<close>

fun drop_slots :: "(nat \<Rightarrow> item \<Rightarrow> bool) \<Rightarrow> nat list \<Rightarrow> blob_vec list \<Rightarrow> extracted_slot list \<Rightarrow> drops \<times> bool" where
  "drop_slots boom (c # cs) (v # vs) (s # ss) =
     (let ((ds, u), _) = drop_value (boom c) v s in
      if u then (map (Pair c) ds, True)
      else let (ds', u') = drop_slots boom cs vs ss in (map (Pair c) ds @ ds', u'))"
| "drop_slots boom _ _ _ = ([], False)"

definition despawn :: "(nat \<Rightarrow> item \<Rightarrow> bool) \<Rightarrow> nat list \<Rightarrow> nat \<Rightarrow> world \<Rightarrow> entity \<Rightarrow> ((bool outcome \<times> drops) \<times> world) option" where
  "despawn boom order t w0 e =
     do {
       w \<leftarrow> drain_orphans t w0;
       if \<not> ea_is_alive (w_entities w) e then Some ((Returned False, []), w)
       else do {
         let index = ent_index e;
         place \<leftarrow> nth_opt (w_locs w) index;
         (case place of
            None \<Rightarrow> Some ((Returned False, []), w)
          | Some location \<Rightarrow> do {
              let aid = el_archetype_id location;
              let row = el_row_of location;
              a \<leftarrow> nth_opt (w_archs w) aid;
              (slots, cols) \<leftarrow> extract_all row (ar_columns a);
              let cols' = map (\<lambda>c. commit_extracted_swap c row) cols;
              (_, es) \<leftarrow> pv_swap_remove (ar_entities a) row;
              let w1 = set_archetype w aid (a\<lparr>ar_columns := cols', ar_entities := es\<rparr>);
              w2 \<leftarrow> (if row < pv_len es then put_location w1 (ent_index (pv_elems es ! row)) aid row else Some w1);
              ((sds, su), st) \<leftarrow> st_remove_all boom order (w_sparse w2) e;
              let w3 = w2\<lparr>w_sparse := st\<rparr>;
              if su then Some ((Unwound, sds), w3)
              else do {
                w4 \<leftarrow> set_location w3 index None;
                (_, p, en) \<leftarrow> ea_dealloc t (w_pool w4) (w_entities w4) e;
                let w5 = w4\<lparr>w_pool := p, w_entities := en\<rparr>;
                let (ds, u) = drop_slots boom (ar_sorted_ids a) cols' slots;
                Some ((if u then Unwound else Returned True, sds @ ds), w5)
              }
            })
       }
     }"

text \<open>
  \<^verbatim>\<open>despawn_batch\<close>. Phase 1: the entities that are alive and placed, once each, with their
  rows, in the order of the argument.
\<close>

fun batch_collect :: "world \<Rightarrow> nat set \<Rightarrow> entity list \<Rightarrow> (nat \<times> nat \<times> entity) list option" where
  "batch_collect w seen [] = Some []"
| "batch_collect w seen (e # es) =
     (if \<not> ea_is_alive (w_entities w) e \<or> ent_index e \<in> seen then batch_collect w seen es
      else do {
        place \<leftarrow> nth_opt (w_locs w) (ent_index e);
        rest \<leftarrow> batch_collect w (insert (ent_index e) seen) es;
        Some (case place of None \<Rightarrow> rest | Some l \<Rightarrow> (el_archetype_id l, el_row_of l, e) # rest)
      })"

text \<open>Phase 2.\<close>

fun sparse_remove_each :: "(nat \<Rightarrow> item \<Rightarrow> bool) \<Rightarrow> nat list \<Rightarrow> sparse_storage \<Rightarrow> entity list \<Rightarrow> ((drops \<times> bool) \<times> sparse_storage) option" where
  "sparse_remove_each boom order st [] = Some (([], False), st)"
| "sparse_remove_each boom order st (e # es) =
     do { ((ds, u), st1) \<leftarrow> st_remove_all boom order st e;
          if u then Some ((ds, True), st1)
          else do { ((ds', u'), st2) \<leftarrow> sparse_remove_each boom order st1 es; Some ((ds @ ds', u'), st2) } }"

text \<open>Phase 3, one row of one archetype.\<close>

definition sweep_row :: "(nat \<Rightarrow> item \<Rightarrow> bool) \<Rightarrow> world \<Rightarrow> nat \<Rightarrow> nat \<Rightarrow> ((drops \<times> bool) \<times> world) option" where
  "sweep_row boom w arch_idx row =
     do {
       a \<leftarrow> nth_opt (w_archs w) arch_idx;
       if pv_elems (ar_entities a) = [] then None
       else do {
         let last_row = pv_len (ar_entities a) - 1;
         (slots, cols) \<leftarrow> extract_all row (ar_columns a);
         (w1, cols1, es) \<leftarrow>
           (if row < last_row
            then do {
              let moved = pv_elems (ar_entities a) ! last_row;
              w1 \<leftarrow> put_location w (ent_index moved) arch_idx row;
              Some (w1, map (\<lambda>c. copy_unchecked c last_row row) cols,
                    (ar_entities a)\<lparr>pv_elems := (pv_elems (ar_entities a))[row := moved]\<rparr>)
            }
            else Some (w, cols, ar_entities a));
         let cols2 = map (\<lambda>c. bv_set_len c last_row) cols1;
         let a' = a\<lparr>ar_columns := cols2, ar_entities := pv_truncate es last_row\<rparr>;
         Some (drop_slots boom (ar_sorted_ids a) cols2 slots, set_archetype w1 arch_idx a')
       }
     }"

fun sweep_rows :: "(nat \<Rightarrow> item \<Rightarrow> bool) \<Rightarrow> world \<Rightarrow> nat \<Rightarrow> nat list \<Rightarrow> ((drops \<times> bool) \<times> world) option" where
  "sweep_rows boom w arch_idx [] = Some (([], False), w)"
| "sweep_rows boom w arch_idx (row # rows) =
     do { ((ds, u), w1) \<leftarrow> sweep_row boom w arch_idx row;
          if u then Some ((ds, True), w1)
          else do { ((ds', u'), w2) \<leftarrow> sweep_rows boom w1 arch_idx rows; Some ((ds @ ds', u'), w2) } }"

text \<open>The rows of one group in descending order, and the groups in the order the hash map yields them.\<close>

definition group_rows :: "(nat \<times> nat \<times> entity) list \<Rightarrow> nat \<Rightarrow> nat list" where
  "group_rows found arch_idx = rev (sort (map (\<lambda>(_, row, _). row) (filter (\<lambda>(i, _). i = arch_idx) found)))"

fun sweep_groups :: "(nat \<Rightarrow> item \<Rightarrow> bool) \<Rightarrow> world \<Rightarrow> (nat \<times> nat \<times> entity) list \<Rightarrow> nat list \<Rightarrow> ((drops \<times> bool) \<times> world) option" where
  "sweep_groups boom w found [] = Some (([], False), w)"
| "sweep_groups boom w found (arch_idx # ks) =
     do { ((ds, u), w1) \<leftarrow> sweep_rows boom w arch_idx (group_rows found arch_idx);
          if u then Some ((ds, True), w1)
          else do { ((ds', u'), w2) \<leftarrow> sweep_groups boom w1 found ks; Some ((ds @ ds', u'), w2) } }"

text \<open>Phase 4.\<close>

fun release_all :: "nat \<Rightarrow> world \<Rightarrow> entity list \<Rightarrow> world option" where
  "release_all t w [] = Some w"
| "release_all t w (e # es) =
     do { w1 \<leftarrow> set_location w (ent_index e) None;
          (_, p, en) \<leftarrow> ea_dealloc t (w_pool w1) (w_entities w1) e;
          release_all t (w1\<lparr>w_pool := p, w_entities := en\<rparr>) es }"

definition despawn_batch :: "(nat \<Rightarrow> item \<Rightarrow> bool) \<Rightarrow> nat list \<Rightarrow> nat list \<Rightarrow> nat \<Rightarrow> world \<Rightarrow> entity list \<Rightarrow> ((nat outcome \<times> drops) \<times> world) option" where
  "despawn_batch boom order groups t w0 es =
     do {
       w \<leftarrow> drain_orphans t w0;
       found \<leftarrow> batch_collect w {} es;
       let to_dealloc = map (\<lambda>(_, _, e). e) found;
       ((sds, su), st) \<leftarrow> sparse_remove_each boom order (w_sparse w) to_dealloc;
       let w1 = w\<lparr>w_sparse := st\<rparr>;
       if su then Some ((Unwound, sds), w1)
       else do {
         ((ds, u), w2) \<leftarrow> sweep_groups boom w1 found groups;
         if u then Some ((Unwound, sds @ ds), w2)
         else do {
           w3 \<leftarrow> release_all t w2 to_dealloc;
           Some ((Returned (length to_dealloc), sds @ ds), w3)
         }
       }
     }"

subsection \<open>Reading\<close>

definition world_is_alive :: "world \<Rightarrow> entity \<Rightarrow> bool" where
  "world_is_alive w e \<longleftrightarrow> ea_is_alive (w_entities w) e"

definition validate_entity :: "world \<Rightarrow> entity \<Rightarrow> entity_location option" where
  "validate_entity w e =
     (let idx = ent_index e in
      if idx \<ge> length (ea_gens (w_entities w)) then None
      else if ea_gens (w_entities w) ! idx \<noteq> entity_generation e then None
      else if idx < length (w_locs w) then w_locs w ! idx else None)"

text \<open>The guard of the readers: \<open>None\<close> is the index panic, \<open>Some None\<close> a dead or unplaced entity.\<close>

definition locate :: "world \<Rightarrow> entity \<Rightarrow> entity_location option option" where
  "locate w e = (if \<not> ea_is_alive (w_entities w) e then Some None else nth_opt (w_locs w) (ent_index e))"

definition has_component :: "world \<Rightarrow> entity \<Rightarrow> rust_type \<Rightarrow> bool option" where
  "has_component w e ty =
     do {
       place \<leftarrow> locate w e;
       (case place of
          None \<Rightarrow> Some False
        | Some location \<Rightarrow>
            (case cr_id (w_components w) ty of
               None \<Rightarrow> Some False
             | Some comp_id \<Rightarrow>
                 if is_sparse (w_components w) comp_id then Some (st_contains (w_sparse w) comp_id e)
                 else do { a \<leftarrow> nth_opt (w_archs w) (el_archetype_id location); Some (comp_id \<in> ar_component_ids a) }))
     }"

text \<open>Reading a row of an archetype.\<close>

definition read_row :: "world \<Rightarrow> entity_location \<Rightarrow> nat \<Rightarrow> item option option" where
  "read_row w location comp_id =
     do {
       a \<leftarrow> nth_opt (w_archs w) (el_archetype_id location);
       (case column_index a comp_id of
          None \<Rightarrow> Some None
        | Some col \<Rightarrow> do { v \<leftarrow> nth_opt (ar_columns a) col; Some (Some (bv_read v (el_row_of location))) })
     }"

definition get :: "world \<Rightarrow> entity \<Rightarrow> rust_type \<Rightarrow> item option option" where
  "get w e ty =
     do {
       place \<leftarrow> locate w e;
       (case place of
          None \<Rightarrow> Some None
        | Some location \<Rightarrow>
            (case cr_id (w_components w) ty of
               None \<Rightarrow> Some None
             | Some comp_id \<Rightarrow>
                 if is_sparse (w_components w) comp_id then Some (st_get (w_sparse w) comp_id e)
                 else read_row w location comp_id))
     }"

definition get_by_id :: "world \<Rightarrow> entity \<Rightarrow> nat \<Rightarrow> item option option" where
  "get_by_id w e comp_id =
     do { place \<leftarrow> locate w e; (case place of None \<Rightarrow> Some None | Some location \<Rightarrow> read_row w location comp_id) }"

text \<open>
  \<^verbatim>\<open>get_mut\<close>, with the write \<open>x\<close> the caller makes through the reference: the column is marked
  changed and the row dirty before the reference is handed out. The answer says whether
  there was a reference.
\<close>

definition get_mut :: "nat \<Rightarrow> world \<Rightarrow> entity \<Rightarrow> rust_type \<Rightarrow> item \<Rightarrow> (bool \<times> world) option" where
  "get_mut t w0 e ty x =
     do {
       w \<leftarrow> drain_orphans t w0;
       place \<leftarrow> locate w e;
       (case place of
          None \<Rightarrow> Some (False, w)
        | Some location \<Rightarrow>
            (case cr_id (w_components w) ty of
               None \<Rightarrow> Some (False, w)
             | Some comp_id \<Rightarrow>
                 if is_sparse (w_components w) comp_id
                 then Some (case st_get_mut (w_sparse w) comp_id e x of
                        None \<Rightarrow> (False, w) | Some st \<Rightarrow> (True, w\<lparr>w_sparse := st\<rparr>))
                 else do {
                   let (tk, w1) = next_tick w;
                   let aid = el_archetype_id location;
                   a \<leftarrow> nth_opt (w_archs w1) aid;
                   (case column_index a comp_id of
                      None \<Rightarrow> Some (False, w1)
                    | Some col \<Rightarrow> do {
                        v \<leftarrow> nth_opt (ar_columns a) col;
                        let v' = bv_write (get_ptr_mut v (el_row_of location) tk) (el_row_of location) x;
                        Some (True, set_archetype w1 aid (a\<lparr>ar_columns := (ar_columns a)[col := v']\<rparr>))
                      })
                 }))
     }"

text \<open>
  \<^verbatim>\<open>get_batch\<close>: the rows are gathered per archetype (\<open>groups\<close> is the order in which the hash
  map yields the groups) and the results written to the positions of the argument.
\<close>

fun batch_rows :: "world \<Rightarrow> nat \<Rightarrow> entity list \<Rightarrow> (nat \<times> nat \<times> nat) list option" where
  "batch_rows w i [] = Some []"
| "batch_rows w i (e # es) =
     do { place \<leftarrow> locate w e;
          rest \<leftarrow> batch_rows w (i + 1) es;
          Some (case place of None \<Rightarrow> rest | Some l \<Rightarrow> (el_archetype_id l, i, el_row_of l) # rest) }"

fun fill_group :: "blob_vec \<Rightarrow> (nat \<times> nat \<times> nat) list \<Rightarrow> item option list \<Rightarrow> item option list" where
  "fill_group v [] results = results"
| "fill_group v ((_, i, row) # rows) results = fill_group v rows (results[i := Some (bv_read v row)])"

fun fill_groups :: "world \<Rightarrow> nat \<Rightarrow> (nat \<times> nat \<times> nat) list \<Rightarrow> nat list \<Rightarrow> item option list \<Rightarrow> item option list option" where
  "fill_groups w comp_id found [] results = Some results"
| "fill_groups w comp_id found (k # ks) results =
     (if filter (\<lambda>(i, _). i = k) found = [] then fill_groups w comp_id found ks results
      else do {
        a \<leftarrow> nth_opt (w_archs w) k;
        results' \<leftarrow> (case column_index a comp_id of
            None \<Rightarrow> Some results
          | Some col \<Rightarrow> do { v \<leftarrow> nth_opt (ar_columns a) col; Some (fill_group v (filter (\<lambda>(i, _). i = k) found) results) });
        fill_groups w comp_id found ks results'
      })"

definition get_batch :: "nat list \<Rightarrow> world \<Rightarrow> entity list \<Rightarrow> rust_type \<Rightarrow> item option list option" where
  "get_batch groups w es ty =
     (if es = [] then Some []
      else case cr_id (w_components w) ty of
        None \<Rightarrow> Some (replicate (length es) None)
      | Some comp_id \<Rightarrow>
          if is_sparse (w_components w) comp_id
          then Some (map (\<lambda>e. if ea_is_alive (w_entities w) e then st_get (w_sparse w) comp_id e else None) es)
          else do { found \<leftarrow> batch_rows w 0 es; fill_groups w comp_id found groups (replicate (length es) None) })"

subsection \<open>Inserting and removing components\<close>

datatype insert_error = DeadEntity entity | Unplaced entity | Exhausted pool_exhausted

text \<open>
  What unwinding does to the bundle values that were not handed over yet: they are dropped,
  as locals of \<^verbatim>\<open>put\<close> in reverse order, or as the fields of the bundle in order. A second
  panic there aborts.
\<close>

fun drop_values :: "(nat \<Rightarrow> item \<Rightarrow> bool) \<Rightarrow> registry \<Rightarrow> bundle_values \<Rightarrow> drops option" where
  "drop_values boom reg [] = Some []"
| "drop_values boom reg ((ty, x) # b) =
     do {
       comp_id \<leftarrow> cr_id reg ty;
       if ty_needs_drop ty
       then (if boom comp_id x then None else map_option (Cons (comp_id, x)) (drop_values boom reg b))
       else drop_values boom reg b
     }"

text \<open>\<^verbatim>\<open>put\<close> with the overwriting callback of \<^verbatim>\<open>insert\<close>.\<close>

fun put_replace :: "(nat \<Rightarrow> item \<Rightarrow> bool) \<Rightarrow> registry \<Rightarrow> nat \<Rightarrow> tick \<Rightarrow> bundle_values \<Rightarrow> archetype \<Rightarrow> ((drops \<times> bool) \<times> archetype) option" where
  "put_replace boom reg row tk [] a = Some (([], False), a)"
| "put_replace boom reg row tk ((ty, x) # b) a =
     do {
       comp_id \<leftarrow> cr_id reg ty;
       col \<leftarrow> column_index a comp_id;
       v \<leftarrow> nth_opt (ar_columns a) col;
       ((ds, u), v1) \<leftarrow> replace_protected (boom comp_id) v row x;
       if u
       then do { rest \<leftarrow> drop_values boom reg (rev b);
                 Some ((map (Pair comp_id) ds @ rest, True), a\<lparr>ar_columns := (ar_columns a)[col := v1]\<rparr>) }
       else do {
         let v2 = mark_row_dirty (mark_changed v1 tk) row;
         ((ds', u'), a') \<leftarrow> put_replace boom reg row tk b (a\<lparr>ar_columns := (ar_columns a)[col := v2]\<rparr>);
         Some ((map (Pair comp_id) ds @ ds', u'), a')
       }
     }"

text \<open>
  The loop that moves a row from the source to the target archetype, over the source's
  columns with their positions. A component in \<open>leaving\<close> stays behind: \<^verbatim>\<open>insert\<close> drops its old
  value in place first (\<open>drop_old\<close>), \<^verbatim>\<open>remove\<close> has read it already.
\<close>

fun move_columns :: "(nat \<Rightarrow> item \<Rightarrow> bool) \<Rightarrow> bool \<Rightarrow> nat \<Rightarrow> registry \<Rightarrow> nat set \<Rightarrow> nat \<Rightarrow> (nat \<times> nat) list
    \<Rightarrow> slab_pool \<times> archetype \<times> archetype \<Rightarrow> ((drops \<times> bool) \<times> slab_pool \<times> archetype \<times> archetype) option" where
  "move_columns boom drop_old t reg leaving row [] s = Some (([], False), s)"
| "move_columns boom drop_old t reg leaving row ((k, cid) # rest) (p, src, tgt) =
     do {
       v \<leftarrow> nth_opt (ar_columns src) k;
       let src' = src\<lparr>ar_columns := (ar_columns src)[k := swap_remove_no_drop v row]\<rparr>;
       if cid \<in> leaving
       then do {
         info \<leftarrow> cr_info reg cid;
         let ds = (if drop_old \<and> ci_drop_fn info then [(cid, bv_read v row)] else []);
         if list_ex (\<lambda>(c, x). boom c x) ds then Some ((ds, True), p, src, tgt)
         else do {
           ((ds', u), s') \<leftarrow> move_columns boom drop_old t reg leaving row rest (p, src', tgt);
           Some ((ds @ ds', u), s')
         }
       }
       else (case column_index tgt cid of
           None \<Rightarrow> move_columns boom drop_old t reg leaving row rest (p, src, tgt)
         | Some j \<Rightarrow> do {
             u \<leftarrow> nth_opt (ar_columns tgt) j;
             (p', u') \<leftarrow> bv_push t p u (bv_read v row);
             move_columns boom drop_old t reg leaving row rest
               (p', src', tgt\<lparr>ar_columns := (ar_columns tgt)[j := u']\<rparr>)
           })
     }"

text \<open>\<^verbatim>\<open>get_pair_mut\<close>.\<close>

definition get_pair :: "archetype list \<Rightarrow> nat \<Rightarrow> nat \<Rightarrow> (archetype \<times> archetype) option" where
  "get_pair v a b = (if a = b then None else do { x \<leftarrow> nth_opt v a; y \<leftarrow> nth_opt v b; Some (x, y) })"

text \<open>Moving the entity from the source's list to the target's, and the two locations.\<close>

definition move_entity :: "nat \<Rightarrow> world \<Rightarrow> entity \<Rightarrow> nat \<Rightarrow> nat \<Rightarrow> nat \<Rightarrow> archetype \<Rightarrow> archetype \<Rightarrow> world option" where
  "move_entity t w e src_id row tgt_id src tgt =
     do {
       (p, es) \<leftarrow> pv_push t (w_pool w) (ar_entities tgt) e;
       let tgt_row = pv_len es - 1;
       (_, ss) \<leftarrow> pv_swap_remove (ar_entities src) row;
       let w1 = (set_archetype (set_archetype w src_id (src\<lparr>ar_entities := ss\<rparr>)) tgt_id (tgt\<lparr>ar_entities := es\<rparr>))\<lparr>w_pool := p\<rparr>;
       w2 \<leftarrow> (if row < pv_len ss then put_location w1 (ent_index (pv_elems ss ! row)) src_id row else Some w1);
       put_location w2 (ent_index e) tgt_id tgt_row
     }"

text \<open>Overwriting in place, when the archetype has every component of the bundle.\<close>

definition overwrite :: "(nat \<Rightarrow> item \<Rightarrow> bool) \<Rightarrow> world \<Rightarrow> nat \<Rightarrow> nat \<Rightarrow> bundle_values \<Rightarrow> ((unit outcome \<times> drops) \<times> world) option" where
  "overwrite boom w aid row b =
     do {
       let (tk, w1) = next_tick w;
       a \<leftarrow> nth_opt (w_archs w1) aid;
       ((ds, u), a') \<leftarrow> put_replace boom (w_components w1) row tk b a;
       Some ((if u then Unwound else Returned (), ds), set_archetype w1 aid a')
     }"

text \<open>The migration of \<^verbatim>\<open>insert\<close> and \<^verbatim>\<open>try_insert\<close>, after the tick is drawn.\<close>

definition migrate_insert :: "(nat \<Rightarrow> item \<Rightarrow> bool) \<Rightarrow> nat \<Rightarrow> world \<Rightarrow> entity \<Rightarrow> nat \<Rightarrow> nat \<Rightarrow> nat \<Rightarrow> nat list \<Rightarrow> bundle_values \<Rightarrow> tick
    \<Rightarrow> ((unit outcome \<times> drops) \<times> world) option" where
  "migrate_insert boom t w e src_id row tgt_id new_ids b tk =
     do {
       (src, tgt) \<leftarrow> get_pair (w_archs w) src_id tgt_id;
       ((ds, u), p, src1, tgt1) \<leftarrow> move_columns boom True t (w_components w) (set new_ids) row
            (enumerate 0 (ar_sorted_ids src)) (w_pool w, src, tgt);
       if u
       then do {
         rest \<leftarrow> drop_values boom (w_components w) b;
         Some ((Unwound, ds @ rest), (set_archetype (set_archetype w src_id src1) tgt_id tgt1)\<lparr>w_pool := p\<rparr>)
       }
       else do {
         (p', tgt2) \<leftarrow> put_push t (w_components w) b (p, tgt1);
         w' \<leftarrow> move_entity t (w\<lparr>w_pool := p'\<rparr>) e src_id row tgt_id src1 (mark_all_changed tgt2 tk);
         Some ((Returned (), ds), w')
       }
     }"

text \<open>The component ids of the target: those of the source and the new ones.\<close>

definition target_ids :: "archetype \<Rightarrow> nat list \<Rightarrow> nat list" where
  "target_ids src new_ids = sort (ar_sorted_ids src @ filter (\<lambda>i. i \<notin> ar_component_ids src) new_ids)"

definition world_insert :: "(nat \<Rightarrow> item \<Rightarrow> bool) \<Rightarrow> nat \<Rightarrow> world \<Rightarrow> entity \<Rightarrow> bundle_values
    \<Rightarrow> (((entity + unit) outcome \<times> drops) \<times> world) option" where
  "world_insert boom t w0 e b =
     do {
       w \<leftarrow> drain_orphans t w0;
       if \<not> ea_is_alive (w_entities w) e then Some ((Returned (Inl e), []), w)
       else (case (if ent_index e < length (w_locs w) then w_locs w ! ent_index e else None) of
           None \<Rightarrow> Some ((Returned (Inl e), []), w)
         | Some location \<Rightarrow> do {
             (new_ids, reg) \<leftarrow> bundle_ids (w_components w) b;
             let w1 = w\<lparr>w_components := reg\<rparr>;
             let src_id = el_archetype_id location;
             let row = el_row_of location;
             src \<leftarrow> nth_opt (w_archs w1) src_id;
             if list_all (\<lambda>i. i \<in> ar_component_ids src) new_ids
             then map_option (apfst (apfst (map_outcome Inr))) (overwrite boom w1 src_id row b)
             else do {
               (tgt_id, p, archs) \<leftarrow> get_or_create t (w_pool w1) (w_archetypes w1) (target_ids src new_ids) reg;
               let w2 = w1\<lparr>w_pool := p, w_archetypes := archs\<rparr>;
               if src_id = tgt_id
               then map_option (apfst (apfst (map_outcome Inr))) (overwrite boom w2 src_id row b)
               else do {
                 let (tk, w3) = next_tick w2;
                 map_option (apfst (apfst (map_outcome Inr))) (migrate_insert boom t w3 e src_id row tgt_id new_ids b tk)
               }
             }
           })
     }"

text \<open>\<^verbatim>\<open>try_insert\<close>: the same, with row space reserved in the target before the tick is drawn.\<close>

definition try_insert :: "(nat \<Rightarrow> item \<Rightarrow> bool) \<Rightarrow> nat \<Rightarrow> world \<Rightarrow> entity \<Rightarrow> bundle_values
    \<Rightarrow> (((insert_error + unit) outcome \<times> drops) \<times> world) option" where
  "try_insert boom t w0 e b =
     do {
       w \<leftarrow> drain_orphans t w0;
       if \<not> ea_is_alive (w_entities w) e then Some ((Returned (Inl (DeadEntity e)), []), w)
       else (case (if ent_index e < length (w_locs w) then w_locs w ! ent_index e else None) of
           None \<Rightarrow> Some ((Returned (Inl (Unplaced e)), []), w)
         | Some location \<Rightarrow> do {
             (new_ids, reg) \<leftarrow> bundle_ids (w_components w) b;
             let w1 = w\<lparr>w_components := reg\<rparr>;
             let src_id = el_archetype_id location;
             let row = el_row_of location;
             src \<leftarrow> nth_opt (w_archs w1) src_id;
             if list_all (\<lambda>i. i \<in> ar_component_ids src) new_ids
             then map_option (apfst (apfst (map_outcome Inr))) (overwrite boom w1 src_id row b)
             else do {
               (tgt_id, p, archs) \<leftarrow> get_or_create t (w_pool w1) (w_archetypes w1) (target_ids src new_ids) reg;
               let w2 = w1\<lparr>w_pool := p, w_archetypes := archs\<rparr>;
               if src_id = tgt_id
               then map_option (apfst (apfst (map_outcome Inr))) (overwrite boom w2 src_id row b)
               else do {
                 (r, w3) \<leftarrow> grow_archetype t w2 tgt_id;
                 (case r of
                    Inl x \<Rightarrow> Some ((Returned (Inl (Exhausted x)), []), w3)
                  | Inr _ \<Rightarrow> do {
                      let (tk, w4) = next_tick w3;
                      map_option (apfst (apfst (map_outcome Inr))) (migrate_insert boom t w4 e src_id row tgt_id new_ids b tk)
                    })
               }
             }
           })
     }"

text \<open>
  \<^verbatim>\<open>remove\<close>: the value is read out first. The last component leaves the entity in the
  archetype without components (the loop over the other columns has nothing to visit there).
\<close>

definition world_remove :: "nat \<Rightarrow> world \<Rightarrow> entity \<Rightarrow> rust_type \<Rightarrow> (item option \<times> world) option" where
  "world_remove t w0 e ty =
     do {
       w \<leftarrow> drain_orphans t w0;
       place \<leftarrow> locate w e;
       (case place of
          None \<Rightarrow> Some (None, w)
        | Some location \<Rightarrow>
            (case cr_id (w_components w) ty of
               None \<Rightarrow> Some (None, w)
             | Some comp_id \<Rightarrow> do {
                 let src_id = el_archetype_id location;
                 let row = el_row_of location;
                 src \<leftarrow> nth_opt (w_archs w) src_id;
                 if comp_id \<notin> ar_component_ids src then Some (None, w)
                 else do {
                   col \<leftarrow> column_index src comp_id;
                   v \<leftarrow> nth_opt (ar_columns src) col;
                   let removed = bv_read v row;
                   let tgt_ids = filter (\<lambda>i. i \<noteq> comp_id) (ar_sorted_ids src);
                   if tgt_ids = []
                   then do {
                     let src1 = src\<lparr>ar_columns := (ar_columns src)[col := swap_remove_no_drop v row]\<rparr>;
                     (_, ss) \<leftarrow> pv_swap_remove (ar_entities src1) row;
                     let w1 = set_archetype w src_id (src1\<lparr>ar_entities := ss\<rparr>);
                     w2 \<leftarrow> (if row < pv_len ss then put_location w1 (ent_index (pv_elems ss ! row)) src_id row else Some w1);
                     (tgt_id, p, archs) \<leftarrow> get_or_create t (w_pool w2) (w_archetypes w2) [] (w_components w2);
                     let w3 = w2\<lparr>w_pool := p, w_archetypes := archs\<rparr>;
                     tgt \<leftarrow> nth_opt (w_archs w3) tgt_id;
                     (p', es) \<leftarrow> pv_push t (w_pool w3) (ar_entities tgt) e;
                     let w4 = (set_archetype w3 tgt_id (tgt\<lparr>ar_entities := es\<rparr>))\<lparr>w_pool := p'\<rparr>;
                     w5 \<leftarrow> put_location w4 (ent_index e) tgt_id (pv_len es - 1);
                     Some (Some removed, w5)
                   }
                   else do {
                     (tgt_id, p, archs) \<leftarrow> get_or_create t (w_pool w) (w_archetypes w) tgt_ids (w_components w);
                     let w1 = w\<lparr>w_pool := p, w_archetypes := archs\<rparr>;
                     (src', tgt) \<leftarrow> get_pair (w_archs w1) src_id tgt_id;
                     (_, p', src1, tgt1) \<leftarrow> move_columns (\<lambda>_ _. False) False t (w_components w1) {comp_id} row
                        (enumerate 0 (ar_sorted_ids src')) (w_pool w1, src', tgt);
                     w2 \<leftarrow> move_entity t (w1\<lparr>w_pool := p'\<rparr>) e src_id row tgt_id src1 tgt1;
                     Some (Some removed, w2)
                   }
                 }
               }))
     }"

subsection \<open>Sparse components, restore, introspection\<close>

definition insert_sparse :: "(nat \<Rightarrow> item \<Rightarrow> bool) \<Rightarrow> nat \<Rightarrow> world \<Rightarrow> entity \<Rightarrow> rust_type \<Rightarrow> item \<Rightarrow> ((unit outcome \<times> drops) \<times> world) option" where
  "insert_sparse boom t w0 e ty x =
     do {
       w \<leftarrow> drain_orphans t w0;
       let (comp_id, reg) = register_sparse (w_components w) ty;
       ((ds, u), p, st) \<leftarrow> st_insert (boom comp_id) t (w_pool w) (w_sparse w) comp_id e x (ty_layout ty) (ty_needs_drop ty);
       Some ((if u then Unwound else Returned (), map (Pair comp_id) ds), w\<lparr>w_components := reg, w_pool := p, w_sparse := st\<rparr>)
     }"

text \<open>\<^verbatim>\<open>try_insert_sparse\<close>: an unwinding destructor skips \<^verbatim>\<open>mark_sparse\<close> as well.\<close>

definition try_insert_sparse :: "(nat \<Rightarrow> item \<Rightarrow> bool) \<Rightarrow> nat \<Rightarrow> world \<Rightarrow> entity \<Rightarrow> rust_type \<Rightarrow> item
    \<Rightarrow> (((pool_exhausted + unit) outcome \<times> drops) \<times> world) option" where
  "try_insert_sparse boom t w0 e ty x =
     do {
       w \<leftarrow> drain_orphans t w0;
       let (comp_id, reg) = register (w_components w) ty;
       ((err, ds, u), p, st) \<leftarrow> st_try_insert (boom comp_id) t (w_pool w) (w_sparse w) comp_id e x (ty_layout ty) (ty_needs_drop ty);
       let w1 = w\<lparr>w_components := reg, w_pool := p, w_sparse := st\<rparr>;
       let out = map (Pair comp_id) ds;
       if u then Some ((Unwound, out), w1)
       else (case err of
           Some er \<Rightarrow> Some ((Returned (Inl er), out), w1)
         | None \<Rightarrow> do { reg' \<leftarrow> mark_sparse reg comp_id; Some ((Returned (Inr ()), out), w1\<lparr>w_components := reg'\<rparr>) })
     }"

definition try_restore_allocator_state :: "nat \<Rightarrow> world \<Rightarrow> u32 list \<Rightarrow> u32 list \<Rightarrow> ((pool_exhausted + unit) \<times> world) option" where
  "try_restore_allocator_state t w0 generations frees =
     do {
       w \<leftarrow> drain_orphans t w0;
       let n = length generations;
       let en = w_entities w;
       (r, p, gs) \<leftarrow> pv_try_reserve t (w_pool w) (ea_generations en) (n - length (ea_gens en));
       let w1 = w\<lparr>w_pool := p, w_entities := en\<lparr>ea_generations := gs\<rparr>\<rparr>;
       (case r of Inl x \<Rightarrow> Some (Inl x, w1) | Inr _ \<Rightarrow> do {
         (r2, p2, l) \<leftarrow> fl_try_reserve_total t (w_pool w1) (ea_free (w_entities w1)) (max (length frees) n);
         let w2 = w1\<lparr>w_pool := p2, w_entities := (w_entities w1)\<lparr>ea_free := l\<rparr>\<rparr>;
         (case r2 of Inl x \<Rightarrow> Some (Inl x, w2) | Inr _ \<Rightarrow> do {
           (r3, p3, ls) \<leftarrow> pv_try_reserve t (w_pool w2) (w_locations w2) (n - length (w_locs w2));
           let w3 = w2\<lparr>w_pool := p3, w_locations := ls\<rparr>;
           (case r3 of Inl x \<Rightarrow> Some (Inl x, w3) | Inr _ \<Rightarrow> do {
             (p4, gs') \<leftarrow> pv_extend_from_slice t (w_pool w3) (pv_truncate (ea_generations (w_entities w3)) 0) generations;
             (p5, l') \<leftarrow> fl_assign t p4 (ea_free (w_entities w3)) frees;
             let en' = ea_sync_reserved ((w_entities w3)\<lparr>ea_generations := gs', ea_free := l'\<rparr>);
             (p6, ls') \<leftarrow> pv_resize t p5 (w_locations w3) n None;
             Some (Inr (), w3\<lparr>w_pool := p6, w_entities := en', w_locations := ls'\<rparr>)
           })
         })
       })
     }"

definition restore_allocator_state :: "nat \<Rightarrow> world \<Rightarrow> u32 list \<Rightarrow> u32 list \<Rightarrow> world option" where
  "restore_allocator_state t w generations frees =
     do { (r, w') \<leftarrow> try_restore_allocator_state t w generations frees;
          (case r of Inl _ \<Rightarrow> None | Inr _ \<Rightarrow> Some w') }"

definition entity_allocator_state :: "world \<Rightarrow> (u32 list \<times> u32 list) \<times> world" where
  "entity_allocator_state w =
     (let (f, l) = fl_as_slice (ea_free (w_entities w)) in
      ((ea_gens (w_entities w), f), w\<lparr>w_entities := (w_entities w)\<lparr>ea_free := l\<rparr>\<rparr>))"

definition entity_count :: "world \<Rightarrow> nat" where
  "entity_count w = sum_list (map ar_len (w_archs w))"

text \<open>The read-set snapshot of optimistic transactions and its validation.\<close>

definition snapshot_column_ticks :: "world \<Rightarrow> nat set \<Rightarrow> (nat \<times> nat \<times> tick) list" where
  "snapshot_column_ticks w ids =
     concat (map (\<lambda>a. concat (map (\<lambda>c. case column_index a c of
         None \<Rightarrow> [] | Some i \<Rightarrow> [(ar_id a, c, bv_tick (ar_columns a ! i))]) (sorted_list_of_set ids))) (w_archs w))"

definition check_column_conflicts :: "world \<Rightarrow> (nat \<times> nat \<times> tick) list \<Rightarrow> nat set" where
  "check_column_conflicts w snapshot =
     set (concat (map (\<lambda>(i, c, begin_tick).
        if i < length (w_archs w)
        then (case column_index (w_archs w ! i) c of
            None \<Rightarrow> []
          | Some k \<Rightarrow> if is_newer_than (bv_tick (ar_columns (w_archs w ! i) ! k)) begin_tick then [c] else [])
        else []) snapshot))"

definition query_changed_since :: "nat \<Rightarrow> world \<Rightarrow> rust_type \<Rightarrow> change_tick \<Rightarrow> ((entity \<times> item) list \<times> world) option" where
  "query_changed_since t w0 ty since =
     do {
       w \<leftarrow> drain_orphans t w0;
       Some (case cr_id (w_components w) ty of
           None \<Rightarrow> ([], w)
         | Some comp_id \<Rightarrow>
             (concat (map (\<lambda>a. case column_index a comp_id of
                 None \<Rightarrow> []
               | Some k \<Rightarrow>
                   if is_newer_than (bv_tick (ar_columns a ! k)) (Tick (to_raw since))
                   then map (\<lambda>row. (pv_elems (ar_entities a) ! row, bv_read (ar_columns a ! k) row)) [0..<ar_len a]
                   else []) (w_archs w)), w))
     }"

definition column_page_bytes :: "world \<Rightarrow> nat \<Rightarrow> nat \<Rightarrow> nat \<Rightarrow> nat \<Rightarrow> 8 word list option option" where
  "column_page_bytes w arch_idx comp_id start_row row_count =
     do {
       a \<leftarrow> nth_opt (w_archs w) arch_idx;
       (case column_index a comp_id of
          None \<Rightarrow> Some None
        | Some k \<Rightarrow> do {
            col \<leftarrow> nth_opt (ar_columns a) k;
            let end_row = start_row + row_count;
            Some (if end_row > USIZE_MAX \<or> end_row > bv_len col then None
              else if l_size (bv_item col) = 0 then Some []
              else if start_row * l_size (bv_item col) > USIZE_MAX \<or> row_count * l_size (bv_item col) > USIZE_MAX then None
              else Some (concat (map (bv_read col) [start_row..<end_row])))
          })
     }"

definition clear_all_dirty_pages :: "world \<Rightarrow> world" where
  "clear_all_dirty_pages w = w\<lparr>w_archetypes := (w_archetypes w)\<lparr>as_list := map clear_dirty_pages (w_archs w)\<rparr>\<rparr>"

definition clear_archetype_dirty_pages :: "world \<Rightarrow> nat \<Rightarrow> world option" where
  "clear_archetype_dirty_pages w arch_idx =
     do { a \<leftarrow> nth_opt (w_archs w) arch_idx; Some (set_archetype w arch_idx (clear_dirty_pages a)) }"

definition flush_pool_caches :: "nat \<Rightarrow> world \<Rightarrow> world option" where
  "flush_pool_caches t w = do { p \<leftarrow> flush_caches (w_pool w) t; Some (w\<lparr>w_pool := p\<rparr>) }"

end
