(* ===== verification/Located_Tables.thy ===== *)
theory Located_Tables
  imports Mk_Prelude
begin

text \<open>
  A list of tables whose rows are found through an index: the shape of the world, where the
  tables are the archetypes, a row is an entity with its component values, and the index is
  the table of entity locations. The index and the tables describe each other
  (\<open>located\<close>); appending a row, removing one by swapping in the last, and overwriting one
  in place act on the keyed rows as on a finite map (\<open>row_of\<close>).
\<close>

type_synonym place = "nat \<times> nat"

definition located :: "('r \<Rightarrow> nat) \<Rightarrow> (nat \<rightharpoonup> place) \<Rightarrow> 'r list list \<Rightarrow> bool" where
  "located key L T \<longleftrightarrow>
     (\<forall>a r. a < length T \<longrightarrow> r < length (T ! a) \<longrightarrow> L (key (T ! a ! r)) = Some (a, r))
   \<and> (\<forall>i a r. L i = Some (a, r) \<longrightarrow> a < length T \<and> r < length (T ! a) \<and> key (T ! a ! r) = i)"

definition row_of :: "(nat \<rightharpoonup> place) \<Rightarrow> 'r list list \<Rightarrow> nat \<rightharpoonup> nat \<times> 'r" where
  "row_of L T i = map_option (\<lambda>(a, r). (a, T ! a ! r)) (L i)"

lemma locatedD:
  assumes "located key L T"
  shows "a < length T \<Longrightarrow> r < length (T ! a) \<Longrightarrow> L (key (T ! a ! r)) = Some (a, r)"
    and "L i = Some (a, r) \<Longrightarrow> a < length T"
    and "L i = Some (a, r) \<Longrightarrow> r < length (T ! a)"
    and "L i = Some (a, r) \<Longrightarrow> key (T ! a ! r) = i"
  using assms unfolding located_def by blast+

lemma located_empty [simp]: "located key Map.empty []"
  by (simp add: located_def)

lemma row_of_None [simp]: "row_of L T i = None \<longleftrightarrow> L i = None"
  by (simp add: row_of_def)

lemma row_of_key: "located key L T \<Longrightarrow> row_of L T i = Some (a, x) \<Longrightarrow> a < length T \<and> x \<in> set (T ! a) \<and> key x = i"
  using locatedD [of key L T] by (auto simp: row_of_def)

lemma row_of_mem:
  assumes "located key L T" "a < length T" "x \<in> set (T ! a)"
  shows "row_of L T (key x) = Some (a, x)"
proof -
  obtain r where "r < length (T ! a)" "x = T ! a ! r" using assms(3) by (auto simp: in_set_conv_nth)
  then show ?thesis using locatedD(1) [OF assms(1,2)] by (simp add: row_of_def)
qed

text \<open>The rows determine the map.\<close>

lemma row_of_iff:
  assumes "located key L T"
  shows "row_of L T i = Some (a, x) \<longleftrightarrow> a < length T \<and> x \<in> set (T ! a) \<and> key x = i"
  using row_of_key [OF assms] row_of_mem [OF assms] by auto

subsection \<open>A new, empty table\<close>

lemma located_new_table: "located key L T \<Longrightarrow> located key L (T @ [[]])"
  unfolding located_def by (auto simp: nth_append less_Suc_eq)

lemma row_of_new_table: "located key L T \<Longrightarrow> row_of L (T @ [[]]) = row_of L T"
proof
  fix i
  assume loc: "located key L T"
  show "row_of L (T @ [[]]) i = row_of L T i"
  proof (cases "L i")
    case (Some br)
    then show ?thesis using locatedD(2) [OF loc, of i] by (cases br) (simp add: row_of_def nth_append)
  qed (simp add: row_of_def)
qed

subsection \<open>Appending a row\<close>

lemma located_append:
  assumes "located key L T" "a < length T" "L (key x) = None"
  shows "located key (L(key x \<mapsto> (a, length (T ! a)))) (T[a := T ! a @ [x]])"
proof -
  have ne: "key (T ! b ! r) \<noteq> key x" if "b < length T" "r < length (T ! b)" for b r
    using locatedD(1) [OF assms(1) that] assms(3) by auto
  show ?thesis
    unfolding located_def
    using assms(2) ne locatedD [OF assms(1)]
    by (auto simp: nth_list_update nth_append less_Suc_eq split: if_splits)
qed

lemma row_of_append:
  assumes "located key L T" "a < length T" "L (key x) = None"
  shows "row_of (L(key x \<mapsto> (a, length (T ! a)))) (T[a := T ! a @ [x]]) = (row_of L T)(key x \<mapsto> (a, x))"
proof
  fix i
  show "row_of (L(key x \<mapsto> (a, length (T ! a)))) (T[a := T ! a @ [x]]) i = ((row_of L T)(key x \<mapsto> (a, x))) i"
  proof (cases "L i")
    case None
    then show ?thesis using assms(2) by (auto simp: row_of_def)
  next
    case (Some br)
    then obtain b r where b: "L i = Some (b, r)" by (cases br) auto
    note d = locatedD(2,3) [OF assms(1) b]
    then show ?thesis using assms b by (auto simp: row_of_def nth_list_update nth_append)
  qed
qed

subsection \<open>Removing a row\<close>

text \<open>The index after a swap-remove at \<open>(a, r)\<close>: the row that moved in, if any, is found there, and the key is gone.\<close>

definition unplace :: "('r \<Rightarrow> nat) \<Rightarrow> (nat \<rightharpoonup> place) \<Rightarrow> 'r list list \<Rightarrow> nat \<Rightarrow> nat \<Rightarrow> (nat \<rightharpoonup> place)" where
  "unplace key L T a r =
     (let xs = swap_remove r (T ! a);
          L' = (if r < length xs then L(key (xs ! r) \<mapsto> (a, r)) else L)
      in L'(key (T ! a ! r) := None))"

lemma unplace_apply:
  assumes "located key L T" "a < length T" "r < length (T ! a)"
  shows "unplace key L T a r i =
     (if i = key (T ! a ! r) then None
      else if i = key (last (T ! a)) \<and> r < length (T ! a) - 1 then Some (a, r) else L i)"
  using assms(3) by (auto simp: unplace_def Let_def nth_swap_remove)

lemma key_inj:
  assumes "located key L T" "a < length T" "b < length T" "r < length (T ! a)" "q < length (T ! b)" "key (T ! a ! r) = key (T ! b ! q)"
  shows "a = b \<and> r = q"
proof -
  have "Some (a, r) = L (key (T ! a ! r))" by (rule locatedD(1) [OF assms(1,2,4), symmetric])
  also have "\<dots> = L (key (T ! b ! q))" by (simp only: assms(6))
  also have "\<dots> = Some (b, q)" by (rule locatedD(1) [OF assms(1,3,5)])
  finally show ?thesis by simp
qed

lemma located_remove:
  assumes loc: "located key L T" and a: "a < length T" and r: "r < length (T ! a)"
  shows "located key (unplace key L T a r) (T[a := swap_remove r (T ! a)])"
proof -
  let ?n = "length (T ! a) - 1" and ?xs = "swap_remove r (T ! a)"
  have last: "last (T ! a) = T ! a ! ?n" using r by (intro last_conv_nth) auto
  have n: "?n < length (T ! a)" using r by simp
  note inj = key_inj [OF loc a]
  note U = unplace_apply [OF assms]
  have 1: "unplace key L T a r (key (T[a := ?xs] ! b ! q)) = Some (b, q)"
    if "b < length T" "q < length (T[a := ?xs] ! b)" for b q
  proof (cases "b = a")
    case False
    then have q: "q < length (T ! b)" using that by simp
    have "key (T ! b ! q) \<noteq> key (T ! a ! r)" "key (T ! b ! q) \<noteq> key (T ! a ! ?n)"
      using inj [OF that(1) r q] inj [OF that(1) n q] False by metis+
    then show ?thesis using False locatedD(1) [OF loc that(1) q] by (simp add: U last)
  next
    case True
    then have q: "q < ?n" using that a by simp
    show ?thesis
    proof (cases "q = r")
      case True
      then have "key (T ! a ! ?n) \<noteq> key (T ! a ! r)" using inj [OF a r n] q by auto
      then show ?thesis using True \<open>b = a\<close> q a by (simp add: U last nth_swap_remove)
    next
      case False
      have ql: "q < length (T ! a)" using q by simp
      have "key (T ! a ! q) \<noteq> key (T ! a ! r)" "key (T ! a ! q) \<noteq> key (T ! a ! ?n)"
        using inj [OF a r ql] inj [OF a n ql] False q by auto
      then show ?thesis using False \<open>b = a\<close> q a locatedD(1) [OF loc a, of q] by (simp add: U last nth_swap_remove)
    qed
  qed
  have 2: "b < length T \<and> q < length (T[a := ?xs] ! b) \<and> key (T[a := ?xs] ! b ! q) = i"
    if u: "unplace key L T a r i = Some (b, q)" for i b q
  proof (cases "i = key (last (T ! a)) \<and> r < ?n")
    case True
    then have "b = a" "q = r" using u by (auto simp: U split: if_splits)
    then show ?thesis using True a by (simp add: nth_swap_remove)
  next
    case False
    then have L: "L i = Some (b, q)" and ne: "i \<noteq> key (T ! a ! r)" using u by (auto simp: U split: if_splits)
    note d = locatedD(2-4) [OF loc L]
    show ?thesis
    proof (cases "b = a")
      case True
      then have "q \<noteq> r" using d ne by auto
      moreover have "q \<noteq> ?n" using False d True last \<open>q \<noteq> r\<close> r by auto
      ultimately show ?thesis using d True a by (auto simp: nth_swap_remove)
    next
      case False
      then show ?thesis using d by simp
    qed
  qed
  show ?thesis unfolding located_def using 1 2 by simp
qed

lemma row_of_remove:
  assumes loc: "located key L T" and a: "a < length T" and r: "r < length (T ! a)"
  shows "row_of (unplace key L T a r) (T[a := swap_remove r (T ! a)]) = (row_of L T)(key (T ! a ! r) := None)"
proof
  fix i
  note U = unplace_apply [OF assms, of i]
  have last: "last (T ! a) = T ! a ! (length (T ! a) - 1)" using r by (intro last_conv_nth) auto
  show "row_of (unplace key L T a r) (T[a := swap_remove r (T ! a)]) i = ((row_of L T)(key (T ! a ! r) := None)) i"
  proof (cases "i = key (T ! a ! r)")
    case True
    then show ?thesis using U by (simp add: row_of_def)
  next
    case ne: False
    show ?thesis
    proof (cases "i = key (last (T ! a)) \<and> r < length (T ! a) - 1")
      case True
      then have "L i = Some (a, length (T ! a) - 1)" using locatedD(1) [OF loc a, of "length (T ! a) - 1"] r by (simp add: last)
      then show ?thesis using ne True U a by (simp add: row_of_def nth_swap_remove last)
    next
      case False
      then have u: "unplace key L T a r i = L i" by (simp only: U ne if_False)
      show ?thesis
      proof (cases "L i")
        case None
        then show ?thesis using u ne by (simp add: row_of_def)
      next
        case (Some bq)
        then obtain b q where L: "L i = Some (b, q)" by (cases bq) auto
        note d = locatedD(2-4) [OF loc L]
        have "q < length (T ! a) - 1" "q \<noteq> r" if "b = a"
          using that d ne False last r by (auto simp: less_Suc_eq_le) (metis Suc_pred diff_Suc_1 less_Suc_eq length_pos_if_in_set nth_mem)+
        then show ?thesis using u ne L a d by (cases "b = a") (simp_all add: row_of_def nth_swap_remove)
      qed
    qed
  qed
qed

subsection \<open>Overwriting a row\<close>

lemma located_update:
  assumes "located key L T" "a < length T" "r < length (T ! a)" "key x = key (T ! a ! r)"
  shows "located key L (T[a := (T ! a)[r := x]])"
  using assms(2-4) locatedD [OF assms(1)] unfolding located_def
  by (auto simp: nth_list_update split: if_splits)

lemma row_of_update:
  assumes "located key L T" "a < length T" "r < length (T ! a)" "key x = key (T ! a ! r)"
  shows "row_of L (T[a := (T ! a)[r := x]]) = (row_of L T)(key x \<mapsto> (a, x))"
proof
  fix i
  have k: "L (key x) = Some (a, r)" using locatedD(1) [OF assms(1-3)] assms(4) by simp
  show "row_of L (T[a := (T ! a)[r := x]]) i = ((row_of L T)(key x \<mapsto> (a, x))) i"
  proof (cases "L i")
    case None
    then show ?thesis using k by (auto simp: row_of_def)
  next
    case (Some bq)
    then obtain b q where L: "L i = Some (b, q)" by (cases bq) auto
    note d = locatedD(2-4) [OF assms(1) L]
    have "\<not> (b = a \<and> q = r)" if "i \<noteq> key x" using that d assms(4) by auto
    then show ?thesis using L k d assms(2,3) by (auto simp: row_of_def nth_list_update)
  qed
qed

end
