(* ===== verification/World_Rows.thy ===== *)
theory World_Rows
  imports World Located_Tables
begin

text \<open>
  Archetypes as lists of rows: a row is an entity with the map of its components. What the
  column operations of the world do to all columns of an archetype (extraction and removal
  of a row, pushing a bundle, overwriting with a bundle, moving a row to another
  archetype, growing) is stated as a change of the rows.
\<close>

subsection \<open>Rows of an archetype\<close>

type_synonym comps = "nat \<rightharpoonup> item"
type_synonym world_row = "entity \<times> comps"

definition row_comps :: "archetype \<Rightarrow> nat \<Rightarrow> comps" where
  "row_comps a r c = map_option (\<lambda>i. bv_read (ar_columns a ! i) r) (column_index a c)"

definition arch_rows :: "archetype \<Rightarrow> world_row list" where
  "arch_rows a = map (\<lambda>r. (pv_elems (ar_entities a) ! r, row_comps a r)) [0..<ar_len a]"

abbreviation row_key :: "world_row \<Rightarrow> nat" where
  "row_key x \<equiv> ent_index (fst x)"

lemma arch_rows_len [simp]: "length (arch_rows a) = ar_len a"
  by (simp add: arch_rows_def)

lemma arch_rows_nth: "r < ar_len a \<Longrightarrow> arch_rows a ! r = (pv_elems (ar_entities a) ! r, row_comps a r)"
  by (simp add: arch_rows_def)

lemma arch_rows_fst: "map fst (arch_rows a) = pv_elems (ar_entities a)"
  by (intro nth_equalityI) (simp_all add: arch_rows_def ar_len_def)

text \<open>Two states of one archetype: same components, other contents.\<close>

definition same_shape :: "archetype \<Rightarrow> archetype \<Rightarrow> bool" where
  "same_shape a b \<longleftrightarrow> ar_id b = ar_id a \<and> ar_component_ids b = ar_component_ids a \<and> ar_sorted_ids b = ar_sorted_ids a
     \<and> ar_component_index b = ar_component_index a \<and> length (ar_columns b) = length (ar_columns a)"

lemma same_shape_refl [simp]: "same_shape a a"
  by (simp add: same_shape_def)

lemma same_shape_trans: "same_shape a b \<Longrightarrow> same_shape b c \<Longrightarrow> same_shape a c"
  by (simp add: same_shape_def)

lemma same_shape_upd [simp]:
  "same_shape a (b\<lparr>ar_entities := es\<rparr>) = same_shape a b"
  "length cols = length (ar_columns b) \<Longrightarrow> same_shape a (b\<lparr>ar_columns := cols\<rparr>) = same_shape a b"
  by (simp_all add: same_shape_def)

lemma same_shape_index: "same_shape a b \<Longrightarrow> column_index b c = column_index a c"
  by (simp add: same_shape_def column_index_def)

lemma column_index_upd [simp]:
  "column_index (a\<lparr>ar_columns := cols\<rparr>) c = column_index a c" "column_index (a\<lparr>ar_entities := es\<rparr>) c = column_index a c"
  by (simp_all add: column_index_def)

text \<open>The type of the column at a position, as the registry has it.\<close>

definition typed :: "registry \<Rightarrow> nat \<Rightarrow> blob_vec \<Rightarrow> bool" where
  "typed reg c v \<longleftrightarrow> (\<exists>info. cr_info reg c = Some info \<and> col_ok (ci_layout info) (ci_drop_fn info) v)"

text \<open>A value fits a component: a zero-sized one has no bytes.\<close>

definition sized :: "registry \<Rightarrow> nat \<Rightarrow> item \<Rightarrow> bool" where
  "sized reg c x \<longleftrightarrow> (\<exists>info. cr_info reg c = Some info \<and> (l_size (ci_layout info) = 0 \<longrightarrow> x = []))"

lemma ar_wf_typed:
  "ar_wf reg a \<longleftrightarrow> ar_component_ids a = set (ar_sorted_ids a) \<and> length (ar_columns a) = length (ar_sorted_ids a)
     \<and> (\<forall>c i. column_index a c = Some i \<longleftrightarrow> i < length (ar_sorted_ids a) \<and> ar_sorted_ids a ! i = c)
     \<and> (\<forall>i < length (ar_columns a). typed reg (ar_sorted_ids a ! i) (ar_columns a ! i))"
  by (simp add: ar_wf_def typed_def)

lemma ar_wfD:
  assumes "ar_wf reg a"
  shows "ar_component_ids a = set (ar_sorted_ids a)" "length (ar_columns a) = length (ar_sorted_ids a)"
    and "column_index a c = Some i \<longleftrightarrow> i < length (ar_sorted_ids a) \<and> ar_sorted_ids a ! i = c"
    and "i < length (ar_columns a) \<Longrightarrow> typed reg (ar_sorted_ids a ! i) (ar_columns a ! i)"
  using assms unfolding ar_wf_typed by blast+

lemma column_index_bound: "ar_wf reg a \<Longrightarrow> column_index a c = Some i \<Longrightarrow> i < length (ar_columns a)"
  using ar_wfD(2,3) [of reg a] by simp

lemma ar_wf_distinct: "ar_wf reg a \<Longrightarrow> distinct (ar_sorted_ids a)"
  using ar_wfD(3) [of reg a] by (auto simp: distinct_conv_nth) (metis option.inject)

lemma column_index_nth: "ar_wf reg a \<Longrightarrow> i < length (ar_columns a) \<Longrightarrow> column_index a (ar_sorted_ids a ! i) = Some i"
  using ar_wfD(2,3) [of reg a] by simp

lemma row_comps_dom: "ar_wf reg a \<Longrightarrow> dom (row_comps a r) = set (ar_sorted_ids a)"
  using ar_wfD(3) [of reg a] by (auto simp: row_comps_def dom_def in_set_conv_nth)

text \<open>What a change of the columns is: each new column is typed like the old one and has the live rows \<open>f\<close> makes of the old ones.\<close>

definition cols_step :: "(nat \<Rightarrow> item list \<Rightarrow> item list) \<Rightarrow> registry \<Rightarrow> nat list \<Rightarrow> blob_vec list \<Rightarrow> blob_vec list \<Rightarrow> bool" where
  "cols_step f reg ids cols cols' \<longleftrightarrow> length cols' = length cols
     \<and> (\<forall>i < length cols. typed reg (ids ! i) (cols' ! i) \<and> live_rows (cols' ! i) = f i (live_rows (cols ! i)))"

lemma cols_stepD:
  assumes "cols_step f reg ids cols cols'"
  shows "length cols' = length cols"
    and "i < length cols \<Longrightarrow> typed reg (ids ! i) (cols' ! i)"
    and "i < length cols \<Longrightarrow> live_rows (cols' ! i) = f i (live_rows (cols ! i))"
    and "i < length cols \<Longrightarrow> bv_len (cols' ! i) = length (f i (live_rows (cols ! i)))"
  using assms unfolding cols_step_def by (blast, blast, blast, metis live_rows_basic(1))

lemma cols_step_trans:
  "cols_step f reg ids cols cols' \<Longrightarrow> cols_step g reg ids cols' cols'' \<Longrightarrow> cols_step (\<lambda>i xs. g i (f i xs)) reg ids cols cols''"
  by (simp add: cols_step_def)

lemma cols_step_cong:
  "cols_step f reg ids cols cols' \<Longrightarrow> (\<And>i. i < length cols \<Longrightarrow> f i (live_rows (cols ! i)) = g i (live_rows (cols ! i))) \<Longrightarrow> cols_step g reg ids cols cols'"
  by (simp add: cols_step_def)

lemma cols_step_one:
  assumes "k < length cols" "\<forall>i < length cols. typed reg (ids ! i) (cols ! i)"
    and "typed reg (ids ! k) v" "live_rows v = h (live_rows (cols ! k))"
  shows "cols_step (\<lambda>i xs. if i = k then h xs else xs) reg ids cols (cols[k := v])"
  using assms by (simp add: cols_step_def nth_list_update)

lemma wf_step:
  assumes "ar_wf reg a" "same_shape a b" "cols_step f reg (ar_sorted_ids a) (ar_columns a) (ar_columns b)"
  shows "ar_wf reg b"
  using assms(2) cols_stepD [OF assms(3)] ar_wfD [OF assms(1)] same_shape_index [OF assms(2)]
  unfolding ar_wf_typed by (simp add: same_shape_def)

lemma consistent_len: "ar_consistent a \<Longrightarrow> i < length (ar_columns a) \<Longrightarrow> bv_len (ar_columns a ! i) = ar_len a"
  by (simp add: ar_consistent_def ar_len_def list_all_length)

lemma read_live: "r < bv_len v \<Longrightarrow> bv_read v r = live_rows v ! r"
  by simp

lemma consistentI: "(\<And>i. i < length (ar_columns a) \<Longrightarrow> bv_len (ar_columns a ! i) = ar_len a) \<Longrightarrow> ar_consistent a"
  by (simp add: ar_consistent_def ar_len_def list_all_length)

text \<open>A row removed.\<close>

lemma rows_removed:
  assumes wf: "ar_wf reg a" and con: "ar_consistent a" and sh: "same_shape a b" and r: "r < ar_len a"
    and cols: "cols_step (\<lambda>_. swap_remove r) reg (ar_sorted_ids a) (ar_columns a) (ar_columns b)"
    and ents: "pv_elems (ar_entities b) = swap_remove r (pv_elems (ar_entities a))"
  shows "ar_wf reg b \<and> ar_consistent b \<and> arch_rows b = swap_remove r (arch_rows a)"
proof -
  have len: "ar_len b = ar_len a - 1" by (simp add: ar_len_def ents)
  have bl: "bv_len (ar_columns b ! i) = ar_len b" if "i < length (ar_columns b)" for i
    using that cols_stepD(1,4) [OF cols] consistent_len [OF con] len by simp
  have "row_comps b q = row_comps a (if q = r then ar_len a - 1 else q)" if q: "q < ar_len a - 1" for q
  proof
    fix c
    show "row_comps b q c = row_comps a (if q = r then ar_len a - 1 else q) c"
    proof (cases "column_index a c")
      case None
      then show ?thesis using same_shape_index [OF sh] by (simp add: row_comps_def)
    next
      case (Some i)
      have i: "i < length (ar_columns a)" by (rule column_index_bound [OF wf Some])
      have n: "bv_len (ar_columns a ! i) = ar_len a" by (rule consistent_len [OF con i])
      have ne: "live_rows (ar_columns a ! i) \<noteq> []" using n r by (simp flip: length_greater_0_conv)
      have "bv_read (ar_columns b ! i) q = live_rows (ar_columns b ! i) ! q"
        using q bl [of i] i cols_stepD(1) [OF cols] len by simp
      also have "\<dots> = bv_read (ar_columns a ! i) (if q = r then ar_len a - 1 else q)"
        using cols_stepD(3) [OF cols i] q n r last_conv_nth [OF ne] by (simp add: nth_swap_remove)
      finally show ?thesis using Some same_shape_index [OF sh] by (simp add: row_comps_def)
    qed
  qed
  moreover have "last (arch_rows a) = (last (pv_elems (ar_entities a)), row_comps a (ar_len a - 1))"
  proof -
    have ne: "arch_rows a \<noteq> []" "pv_elems (ar_entities a) \<noteq> []" using r by (auto simp: arch_rows_def ar_len_def)
    show ?thesis unfolding last_conv_nth [OF ne(1)] last_conv_nth [OF ne(2)] using r by (simp add: arch_rows_nth ar_len_def)
  qed
  ultimately have "arch_rows b = swap_remove r (arch_rows a)"
    using r by (intro nth_equalityI) (auto simp: len arch_rows_nth nth_swap_remove ents ar_len_def)
  then show ?thesis using wf_step [OF wf sh cols] consistentI [of b] bl by blast
qed

text \<open>A row appended.\<close>

lemma rows_appended:
  assumes wf: "ar_wf reg a" and con: "ar_consistent a" and sh: "same_shape a b"
    and cols: "cols_step (\<lambda>i xs. xs @ [vals i]) reg (ar_sorted_ids a) (ar_columns a) (ar_columns b)"
    and ents: "pv_elems (ar_entities b) = pv_elems (ar_entities a) @ [e]"
  shows "ar_wf reg b \<and> ar_consistent b \<and> arch_rows b = arch_rows a @ [(e, \<lambda>c. map_option vals (column_index a c))]"
proof -
  have len: "ar_len b = ar_len a + 1" by (simp add: ar_len_def ents)
  have bl: "bv_len (ar_columns b ! i) = ar_len b" if "i < length (ar_columns b)" for i
    using that cols_stepD(1,4) [OF cols] consistent_len [OF con] len by simp
  have "row_comps b q = (if q < ar_len a then row_comps a q else (\<lambda>c. map_option vals (column_index a c)))" if q: "q < ar_len a + 1" for q
  proof
    fix c
    show "row_comps b q c = (if q < ar_len a then row_comps a q else (\<lambda>c. map_option vals (column_index a c))) c"
    proof (cases "column_index a c")
      case None
      then show ?thesis using same_shape_index [OF sh] by (simp add: row_comps_def)
    next
      case (Some i)
      have i: "i < length (ar_columns a)" by (rule column_index_bound [OF wf Some])
      have n: "bv_len (ar_columns a ! i) = ar_len a" by (rule consistent_len [OF con i])
      have "bv_read (ar_columns b ! i) q = live_rows (ar_columns b ! i) ! q"
        using q bl [of i] i cols_stepD(1) [OF cols] len by simp
      also have "\<dots> = (if q < ar_len a then bv_read (ar_columns a ! i) q else vals i)"
        using cols_stepD(3) [OF cols i] q n by (simp add: nth_append)
      finally show ?thesis using Some same_shape_index [OF sh] by (simp add: row_comps_def)
    qed
  qed
  then have "arch_rows b = arch_rows a @ [(e, \<lambda>c. map_option vals (column_index a c))]"
    by (intro nth_equalityI) (auto simp: len arch_rows_nth nth_append ents ar_len_def less_Suc_eq)
  then show ?thesis using wf_step [OF wf sh cols] consistentI [of b] bl by blast
qed

text \<open>A row overwritten in some columns.\<close>

lemma rows_updated:
  assumes wf: "ar_wf reg a" and con: "ar_consistent a" and sh: "same_shape a b" and r: "r < ar_len a"
    and cols: "cols_step (\<lambda>i xs. case vals i of None \<Rightarrow> xs | Some x \<Rightarrow> xs[r := x]) reg (ar_sorted_ids a) (ar_columns a) (ar_columns b)"
    and ents: "pv_elems (ar_entities b) = pv_elems (ar_entities a)"
  shows "ar_wf reg b \<and> ar_consistent b
    \<and> arch_rows b = (arch_rows a)[r := (pv_elems (ar_entities a) ! r, row_comps a r ++ (\<lambda>c. Option.bind (column_index a c) vals))]"
proof -
  have len: "ar_len b = ar_len a" by (simp add: ar_len_def ents)
  have bl: "bv_len (ar_columns b ! i) = ar_len b" if "i < length (ar_columns b)" for i
    using that cols_stepD(1,4) [OF cols] consistent_len [OF con] len by (simp split: option.splits)
  have "row_comps b q = (if q = r then row_comps a r ++ (\<lambda>c. Option.bind (column_index a c) vals) else row_comps a q)" if q: "q < ar_len a" for q
  proof
    fix c
    show "row_comps b q c = (if q = r then row_comps a r ++ (\<lambda>c. Option.bind (column_index a c) vals) else row_comps a q) c"
    proof (cases "column_index a c")
      case None
      then show ?thesis using same_shape_index [OF sh] by (simp add: row_comps_def map_add_def)
    next
      case (Some i)
      have i: "i < length (ar_columns a)" by (rule column_index_bound [OF wf Some])
      have n: "bv_len (ar_columns a ! i) = ar_len a" by (rule consistent_len [OF con i])
      have "bv_read (ar_columns b ! i) q = live_rows (ar_columns b ! i) ! q"
        using q bl [of i] i cols_stepD(1) [OF cols] len by simp
      also have "\<dots> = (case vals i of None \<Rightarrow> bv_read (ar_columns a ! i) q | Some x \<Rightarrow> if q = r then x else bv_read (ar_columns a ! i) q)"
        using cols_stepD(3) [OF cols i] q n by (simp add: nth_list_update split: option.splits)
      finally show ?thesis using Some same_shape_index [OF sh]
        by (simp add: row_comps_def map_add_def split: option.splits)
    qed
  qed
  then have "arch_rows b = (arch_rows a)[r := (pv_elems (ar_entities a) ! r, row_comps a r ++ (\<lambda>c. Option.bind (column_index a c) vals))]"
    using r by (intro nth_equalityI) (auto simp: len arch_rows_nth nth_list_update ents)
  then show ?thesis using wf_step [OF wf sh cols] consistentI [of b] bl by blast
qed

text \<open>Spare capacity, ticks and dirty pages do not show in the rows.\<close>

lemma rows_same:
  assumes wf: "ar_wf reg a" and con: "ar_consistent a" and sh: "same_shape a b"
    and cols: "cols_step (\<lambda>i xs. xs) reg (ar_sorted_ids a) (ar_columns a) (ar_columns b)"
    and ents: "pv_elems (ar_entities b) = pv_elems (ar_entities a)"
  shows "ar_wf reg b \<and> ar_consistent b \<and> arch_rows b = arch_rows a"
proof -
  have len: "ar_len b = ar_len a" by (simp add: ar_len_def ents)
  have bl: "bv_len (ar_columns b ! i) = ar_len b" if "i < length (ar_columns b)" for i
    using that cols_stepD(1,4) [OF cols] consistent_len [OF con] len by simp
  have "row_comps b q = row_comps a q" if q: "q < ar_len a" for q
  proof
    fix c
    show "row_comps b q c = row_comps a q c"
    proof (cases "column_index a c")
      case (Some i)
      have i: "i < length (ar_columns a)" by (rule column_index_bound [OF wf Some])
      have "bv_read (ar_columns b ! i) q = live_rows (ar_columns b ! i) ! q"
        using q bl [of i] i cols_stepD(1) [OF cols] len by simp
      also have "\<dots> = bv_read (ar_columns a ! i) q"
        using cols_stepD(3) [OF cols i] q consistent_len [OF con i] by simp
      finally show ?thesis using Some same_shape_index [OF sh] by (simp add: row_comps_def)
    qed (use same_shape_index [OF sh] in \<open>simp add: row_comps_def\<close>)
  qed
  then have "arch_rows b = arch_rows a"
    by (intro nth_equalityI) (auto simp: len arch_rows_nth ents)
  then show ?thesis using wf_step [OF wf sh cols] consistentI [of b] bl by blast
qed

subsection \<open>Operations on all columns\<close>

lemma typedE:
  assumes "typed reg c v"
  obtains info where "cr_info reg c = Some info" "col_ok (ci_layout info) (ci_drop_fn info) v"
  using assms by (auto simp: typed_def)

text \<open>The destructors a removed row owes, in column order, and running them up to the first that unwinds.\<close>

definition droppable :: "registry \<Rightarrow> nat \<Rightarrow> bool" where
  "droppable reg c = (case cr_info reg c of None \<Rightarrow> False | Some info \<Rightarrow> ci_drop_fn info \<and> l_size (ci_layout info) > 0)"

fun run_drops :: "(nat \<Rightarrow> item \<Rightarrow> bool) \<Rightarrow> drops \<Rightarrow> drops \<times> bool" where
  "run_drops boom [] = ([], False)"
| "run_drops boom ((c, x) # ds) =
     (if boom c x then ([(c, x)], True) else let (r, u) = run_drops boom ds in ((c, x) # r, u))"

lemma run_drops_calm: "(\<And>c x. (c, x) \<in> set ds \<Longrightarrow> \<not> boom c x) \<Longrightarrow> run_drops boom ds = (ds, False)"
  by (induction ds rule: run_drops.induct [of _ boom]) (auto simp: Let_def)

lemma run_drops_Cons: "run_drops boom ((c, x) # ds) =
  (if boom c x then ([(c, x)], True) else ((c, x) # fst (run_drops boom ds), snd (run_drops boom ds)))"
  by (simp add: Let_def split: prod.split)

definition row_drops :: "registry \<Rightarrow> nat list \<Rightarrow> item list \<Rightarrow> drops" where
  "row_drops reg ids vals = filter (\<lambda>(c, x). droppable reg c) (zip ids vals)"

lemma extract_all_ok:
  assumes "length ids = length cols" "\<forall>i < length cols. typed reg (ids ! i) (cols ! i) \<and> row < bv_len (cols ! i)"
  shows "\<exists>slots cols1. extract_all row cols = Some (slots, cols1)
    \<and> cols_step (\<lambda>_ xs. xs) reg ids cols cols1
    \<and> (\<forall>us. length us = length cols \<longrightarrow> (\<forall>i < length cols. bv_slot (us ! i) = bv_slot (cols1 ! i)) \<longrightarrow>
         drop_slots boom ids us slots = run_drops boom (row_drops reg ids (map (\<lambda>c. live_rows c ! row) cols)))"
  using assms
proof (induction cols arbitrary: ids)
  case Nil
  then show ?case by (simp add: cols_step_def row_drops_def)
next
  case (Cons v cols)
  then obtain c ids' where ids: "ids = c # ids'" "length ids' = length cols" by (cases ids) auto
  have v: "typed reg c v" "row < bv_len v" using Cons.prems(2) ids by force+
  obtain info where info: "cr_info reg c = Some info" "col_ok (ci_layout info) (ci_drop_fn info) v" by (rule typedE [OF v(1)])
  obtain es u where u: "begin_extract_swap v row = Some (es, u)" "col_ok (ci_layout info) (ci_drop_fn info) u" "live_rows u = live_rows v"
    "\<And>w. bv_slot w = bv_slot u \<Longrightarrow> fst (drop_value (boom c) w es) =
       (if ci_drop_fn info \<and> l_size (ci_layout info) > 0 then ([live_rows v ! row], boom c (live_rows v ! row)) else ([], False))"
    using begin_extract [OF info(2) v(2)] by blast
  have "\<forall>i < length cols. typed reg (ids' ! i) (cols ! i) \<and> row < bv_len (cols ! i)"
    using Cons.prems(2) ids by (auto simp: less_Suc_eq_0_disj)
  then obtain slots cols1 where ih: "extract_all row cols = Some (slots, cols1)" "cols_step (\<lambda>_ xs. xs) reg ids' cols cols1"
    "\<And>us. length us = length cols \<Longrightarrow> (\<forall>i < length cols. bv_slot (us ! i) = bv_slot (cols1 ! i)) \<Longrightarrow>
       drop_slots boom ids' us slots = run_drops boom (row_drops reg ids' (map (\<lambda>c. live_rows c ! row) cols))"
    using Cons.IH [OF ids(2)] by blast
  have "cols_step (\<lambda>_ xs. xs) reg ids (v # cols) (u # cols1)"
    using ih(2) u(2,3) info(1) unfolding cols_step_def ids(1) by (auto simp: nth_Cons typed_def split: nat.splits)
  moreover have "drop_slots boom ids us (es # slots) = run_drops boom (row_drops reg ids (map (\<lambda>c. live_rows c ! row) (v # cols)))"
    if us: "length us = length (v # cols)" "\<forall>i < length (v # cols). bv_slot (us ! i) = bv_slot ((u # cols1) ! i)" for us
  proof -
    obtain w us' where w: "us = w # us'" "length us' = length cols" using us(1) by (cases us) auto
    have "bv_slot w = bv_slot u" using us(2) w by force
    note dv = u(4) [OF this]
    have "\<forall>i < length cols. bv_slot (us' ! i) = bv_slot (cols1 ! i)" using us(2) w by (auto simp: nth_Cons split: nat.splits)
    from ih(3) [OF w(2) this] dv show ?thesis
      unfolding ids(1) w(1) by (auto simp: row_drops_def droppable_def info(1) run_drops_Cons split: prod.splits if_splits)
  qed
  ultimately show ?case using u(1) ih(1) by (intro exI [of _ "es # slots"] exI [of _ "u # cols1"]) simp
qed

lemma commit_all:
  assumes "cols_step (\<lambda>_ xs. xs) reg ids cols cols1" "\<forall>i < length cols. row < bv_len (cols ! i)"
  shows "cols_step (\<lambda>_. swap_remove row) reg ids cols (map (\<lambda>c. commit_extracted_swap c row) cols1)"
  unfolding cols_step_def
proof (intro conjI allI impI)
  note d = cols_stepD [OF assms(1)]
  show "length (map (\<lambda>c. commit_extracted_swap c row) cols1) = length cols" using d(1) by simp
  fix i assume i: "i < length cols"
  have len: "row < bv_len (cols1 ! i)" using d(4) [OF i] assms(2) i by simp
  obtain info where info: "cr_info reg (ids ! i) = Some info" "col_ok (ci_layout info) (ci_drop_fn info) (cols1 ! i)" by (rule typedE [OF d(2) [OF i]])
  show "typed reg (ids ! i) (map (\<lambda>c. commit_extracted_swap c row) cols1 ! i)"
    using commit_col_ok [OF info(2) len] info(1) i d(1) by (simp add: typed_def)
  show "live_rows (map (\<lambda>c. commit_extracted_swap c row) cols1 ! i) = swap_remove row (live_rows (cols ! i))"
    using live_commit [OF len] d(1,3) i by simp
qed

text \<open>The batch variant: overwrite from the last row, then shrink.\<close>

lemma shrink_all:
  assumes "cols_step (\<lambda>_ xs. xs) reg ids cols cols1" "\<forall>i < length cols. bv_len (cols ! i) = n" "row < n"
  shows "cols_step (\<lambda>_. swap_remove row) reg ids cols
    (map (\<lambda>c. bv_set_len c (n - 1)) (if row < n - 1 then map (\<lambda>c. copy_unchecked c (n - 1) row) cols1 else cols1))"
  unfolding cols_step_def
proof (intro conjI allI impI)
  note d = cols_stepD [OF assms(1)]
  let ?f = "\<lambda>c. bv_set_len (if row < bv_len c - 1 then copy_unchecked c (bv_len c - 1) row else c) (bv_len c - 1)"
  show "length (map (\<lambda>c. bv_set_len c (n - 1)) (if row < n - 1 then map (\<lambda>c. copy_unchecked c (n - 1) row) cols1 else cols1)) = length cols"
    using d(1) by simp
  fix i assume i: "i < length cols"
  have len: "bv_len (cols1 ! i) = n" using d(4) [OF i] assms(2) i by simp
  obtain info where info: "cr_info reg (ids ! i) = Some info" "col_ok (ci_layout info) (ci_drop_fn info) (cols1 ! i)" by (rule typedE [OF d(2) [OF i]])
  have eq: "map (\<lambda>c. bv_set_len c (n - 1)) (if row < n - 1 then map (\<lambda>c. copy_unchecked c (n - 1) row) cols1 else cols1) ! i = ?f (cols1 ! i)"
    using i d(1) len by simp
  have "col_ok (ci_layout info) (ci_drop_fn info) (?f (cols1 ! i))"
    using info(2) by (auto simp: col_ok_def copy_unchecked_def bv_set_len_def)
  then show "typed reg (ids ! i) (map (\<lambda>c. bv_set_len c (n - 1)) (if row < n - 1 then map (\<lambda>c. copy_unchecked c (n - 1) row) cols1 else cols1) ! i)"
    unfolding eq using info(1) by (auto simp: typed_def)
  show "live_rows (map (\<lambda>c. bv_set_len c (n - 1)) (if row < n - 1 then map (\<lambda>c. copy_unchecked c (n - 1) row) cols1 else cols1) ! i) = swap_remove row (live_rows (cols ! i))"
    unfolding eq using live_copy_set_len [of row "cols1 ! i"] len assms(3) d(3) [OF i] by simp
qed

lemma mark_changed_all:
  "\<forall>i < length cols. typed reg (ids ! i) (cols ! i) \<Longrightarrow> cols_step (\<lambda>_ xs. xs) reg ids cols (map (\<lambda>c. mark_changed c tk) cols)"
  by (auto simp: cols_step_def mark_changed_def typed_def col_ok_def has_scratch_def)

lemma typed_push:
  assumes "typed reg c v" "sized reg c x" "bv_push t p v x = Some (q, w)"
  shows "typed reg c w \<and> live_rows w = live_rows v @ [x]"
proof -
  obtain info where info: "cr_info reg c = Some info" "col_ok (ci_layout info) (ci_drop_fn info) v" by (rule typedE [OF assms(1)])
  have "l_size (ci_layout info) = 0 \<Longrightarrow> x = []" using assms(2) info(1) by (simp add: sized_def)
  from bv_push_live [OF assms(3) info(2) this] info(1) show ?thesis by (auto simp: typed_def)
qed

lemma try_grow_same:
  assumes "typed reg c v" "try_grow t p v = Some (r, q, w)"
  shows "typed reg c w \<and> live_rows w = live_rows v"
proof -
  obtain info where info: "cr_info reg c = Some info" "col_ok (ci_layout info) (ci_drop_fn info) v" by (rule typedE [OF assms(1)])
  show ?thesis
  proof (cases "l_size (bv_item v) = 0")
    case True
    then show ?thesis using assms by (simp add: try_grow_def)
  next
    case False
    define n where "n = (if bv_cap v = 0 then 4 else bv_cap v * 2)"
    obtain l r1 u where g: "grow_allocation t p v l = Some (r1, q, u)" "case r1 of Inl e \<Rightarrow> w = u | Inr a \<Rightarrow> w = u\<lparr>bv_data := a, bv_cap := n\<rparr>"
      using assms(2) False by (auto simp: try_grow_def n_def Let_def split: bind_splits sum.splits)
    note gr = grow_allocation_grown [OF g(1)]
    have n: "bv_len v \<le> n" using info(2) False by (auto simp: n_def col_ok_def)
    have "col_ok (ci_layout info) (ci_drop_fn info) w \<and> same_values v w"
    proof (cases r1)
      case (Inl e)
      then show ?thesis using g(2) grown_col_ok [OF gr info(2)] grown_values [OF gr] by simp
    next
      case (Inr a)
      then have "grown v True u" using gr by simp
      from grown_new_cap [OF this info(2) n, of a] grown_values [OF this] g(2) Inr show ?thesis by simp
    qed
    then show ?thesis using info(1) same_values_live by (auto simp: typed_def)
  qed
qed

lemma cols_step_Cons:
  assumes "typed reg c w" "live_rows w = live_rows v" "cols_step (\<lambda>_ xs. xs) reg ids cols cols'"
  shows "cols_step (\<lambda>_ xs. xs) reg (c # ids) (v # cols) (w # cols')"
  using assms unfolding cols_step_def by (auto simp: nth_Cons split: nat.splits)

lemma cols_step_refl: "\<forall>i < length cols. typed reg (ids ! i) (cols ! i) \<Longrightarrow> cols_step (\<lambda>_ xs. xs) reg ids cols cols"
  by (simp add: cols_step_def)

lemma typed_Cons:
  "(\<forall>i < length (v # cols). typed reg (ids ! i) ((v # cols) ! i)) \<Longrightarrow> length ids = length (v # cols) \<Longrightarrow>
   \<exists>c ids'. ids = c # ids' \<and> typed reg c v \<and> length ids' = length cols \<and> (\<forall>i < length cols. typed reg (ids' ! i) (cols ! i))"
  by (cases ids) (auto simp: less_Suc_eq_0_disj)

lemma grow_columns_same:
  "length ids = length cols \<Longrightarrow> \<forall>i < length cols. typed reg (ids ! i) (cols ! i) \<Longrightarrow> grow_columns t p cols = Some (r, q, cols') \<Longrightarrow>
   cols_step (\<lambda>_ xs. xs) reg ids cols cols'"
proof (induction cols arbitrary: ids p r cols')
  case Nil
  then show ?case by (simp add: cols_step_def)
next
  case (Cons v cols)
  obtain c ids' where ids: "ids = c # ids'" "typed reg c v" "length ids' = length cols" "\<forall>i < length cols. typed reg (ids' ! i) (cols ! i)"
    using typed_Cons [OF Cons.prems(2,1)] by blast
  obtain r1 p1 w where w: "(if bv_len v = bv_cap v then try_grow t p v else Some (Inr (), p, v)) = Some (r1, p1, w)"
    using Cons.prems(3) by (auto split: bind_splits)
  have tw: "typed reg c w \<and> live_rows w = live_rows v"
    using w ids(2) try_grow_same [OF ids(2), of t p r1 p1 w] by (auto split: if_splits)
  show ?case
  proof (cases r1)
    case (Inl e)
    then have "cols' = w # cols" using Cons.prems(3) w by auto
    then show ?thesis using cols_step_Cons [of reg c w v ids' cols cols] tw cols_step_refl [OF ids(4)] ids(1) by simp
  next
    case (Inr x)
    then obtain cols1 where "grow_columns t p1 cols = Some (r, q, cols1)" "cols' = w # cols1"
      using Cons.prems(3) w by (auto split: bind_splits)
    then show ?thesis using cols_step_Cons [of reg c w v ids' cols cols1] tw Cons.IH [OF ids(3,4)] ids(1) by simp
  qed
qed

lemma reserve_columns_same:
  "length ids = length cols \<Longrightarrow> \<forall>i < length cols. typed reg (ids ! i) (cols ! i) \<Longrightarrow> reserve_columns t p cols n = Some (q, cols') \<Longrightarrow>
   cols_step (\<lambda>_ xs. xs) reg ids cols cols'"
proof (induction cols arbitrary: ids p cols')
  case Nil
  then show ?case by (simp add: cols_step_def)
next
  case (Cons v cols)
  obtain c ids' where ids: "ids = c # ids'" "typed reg c v" "length ids' = length cols" "\<forall>i < length cols. typed reg (ids' ! i) (cols ! i)"
    using typed_Cons [OF Cons.prems(2,1)] by blast
  obtain p1 w cols1 where w: "bv_reserve t p v n = Some (p1, w)" "reserve_columns t p1 cols n = Some (q, cols1)" "cols' = w # cols1"
    using Cons.prems(3) by (auto split: bind_splits)
  obtain info where info: "cr_info reg c = Some info" "col_ok (ci_layout info) (ci_drop_fn info) v" by (rule typedE [OF ids(2)])
  have "typed reg c w \<and> live_rows w = live_rows v"
    using bv_reserve_values [OF w(1) info(2)] info(1) same_values_live [of v w] by (auto simp: typed_def)
  then show ?case using cols_step_Cons [of reg c w v ids' cols cols1] Cons.IH [OF ids(3,4) w(2)] ids(1) w(3) by simp
qed

subsection \<open>Bundles\<close>

text \<open>The component map of a bundle, and when its values can be written: types registered and distinct, values of their size.\<close>

definition bundle_map :: "registry \<Rightarrow> bundle_values \<Rightarrow> comps" where
  "bundle_map reg b = map_of (map (\<lambda>v. (the (cr_id reg (fst v)), snd v)) b)"

definition bundle_ok :: "registry \<Rightarrow> bundle_values \<Rightarrow> bool" where
  "bundle_ok reg b \<longleftrightarrow> distinct (map (\<lambda>v. the (cr_id reg (fst v))) b)
     \<and> (\<forall>v \<in> set b. \<exists>c. cr_id reg (fst v) = Some c \<and> sized reg c (snd v))"

lemma bundle_map_None: "bundle_map reg b c = None \<longleftrightarrow> c \<notin> (\<lambda>v. the (cr_id reg (fst v))) ` set b"
  by (simp add: bundle_map_def map_of_eq_None_iff image_image)

lemma bundle_ok_Cons:
  "bundle_ok reg ((ty, x) # b) \<longleftrightarrow> bundle_ok reg b \<and> (\<exists>c. cr_id reg ty = Some c \<and> sized reg c x \<and> bundle_map reg b c = None)"
  unfolding bundle_map_None by (cases "cr_id reg ty") (simp_all add: bundle_ok_def conj_ac)

lemma bundle_map_Cons: "cr_id reg ty = Some c \<Longrightarrow> bundle_map reg ((ty, x) # b) = (bundle_map reg b)(c \<mapsto> x)"
  by (simp add: bundle_map_def)

lemma bundle_map_Nil [simp]: "bundle_map reg [] = Map.empty"
  by (simp add: bundle_map_def)

lemma bundle_map_sized: "bundle_ok reg b \<Longrightarrow> bundle_map reg b c = Some x \<Longrightarrow> sized reg c x"
  by (induction b) (auto simp: bundle_ok_Cons bundle_map_Cons split: if_splits)

lemma bundle_map_dom: "bundle_ok reg b \<Longrightarrow> dom (bundle_map reg b) = set (map (\<lambda>v. the (cr_id reg (fst v))) b)"
  by (simp add: bundle_map_def dom_map_of_conv_image_fst image_image)

lemma put_push_cols:
  assumes "put_push t reg b (p, a) = Some (q, a')" "ar_wf reg a" "bundle_ok reg b"
  shows "same_shape a a' \<and> ar_entities a' = ar_entities a
    \<and> cols_step (\<lambda>i xs. case bundle_map reg b (ar_sorted_ids a ! i) of None \<Rightarrow> xs | Some x \<Rightarrow> xs @ [x]) reg (ar_sorted_ids a) (ar_columns a) (ar_columns a')"
  using assms
proof (induction b arbitrary: p a)
  case Nil
  then show ?case using ar_wfD(4) [OF Nil(2)] by (simp add: cols_step_def)
next
  case (Cons tx b)
  obtain ty x where tx: "tx = (ty, x)" by (cases tx)
  obtain c k v p1 w where s: "cr_id reg ty = Some c" "column_index a c = Some k" "nth_opt (ar_columns a) k = Some v"
    "bv_push t p v x = Some (p1, w)" "put_push t reg b (p1, a\<lparr>ar_columns := (ar_columns a)[k := w]\<rparr>) = Some (q, a')"
    using Cons.prems(1) tx by (auto split: bind_splits)
  let ?a = "a\<lparr>ar_columns := (ar_columns a)[k := w]\<rparr>"
  have b: "bundle_ok reg b" "sized reg c x" "bundle_map reg b c = None" using Cons.prems(3) tx s(1) by (auto simp: bundle_ok_Cons)
  have k: "k < length (ar_columns a)" "v = ar_columns a ! k" using s(3) by (auto simp: nth_opt_def split: if_splits)
  have ck: "ar_sorted_ids a ! k = c" "k < length (ar_sorted_ids a)" using ar_wfD(3) [OF Cons.prems(2)] s(2) by blast+
  have "typed reg c v" using ar_wfD(4) [OF Cons.prems(2) k(1)] ck k(2) by simp
  from typed_push [OF this b(2) s(4)] have w: "typed reg (ar_sorted_ids a ! k) w" "live_rows w = live_rows (ar_columns a ! k) @ [x]"
    using ck k(2) by auto
  have st: "cols_step (\<lambda>i xs. if i = k then xs @ [x] else xs) reg (ar_sorted_ids a) (ar_columns a) (ar_columns ?a)"
    using cols_step_one [OF k(1) _ w(1), of "\<lambda>xs. xs @ [x]"] ar_wfD(4) [OF Cons.prems(2)] w(2) by simp
  have sh: "same_shape a ?a" by simp
  have wf: "ar_wf reg ?a" by (rule wf_step [OF Cons.prems(2) sh st])
  note ih = Cons.IH [OF s(5) wf b(1)]
  have ids: "ar_sorted_ids a ! i = c \<longleftrightarrow> i = k" if "i < length (ar_columns a)" for i
    using that ck ar_wf_distinct [OF Cons.prems(2)] ar_wfD(2) [OF Cons.prems(2)] by (auto simp: nth_eq_iff_index_eq)
  have "cols_step (\<lambda>i xs. case bundle_map reg b (ar_sorted_ids a ! i) of None \<Rightarrow> xs | Some x \<Rightarrow> xs @ [x]) reg (ar_sorted_ids a) (ar_columns ?a) (ar_columns a')"
    using ih by simp
  from cols_step_trans [OF st this]
  have "cols_step (\<lambda>i xs. case bundle_map reg (tx # b) (ar_sorted_ids a ! i) of None \<Rightarrow> xs | Some x \<Rightarrow> xs @ [x]) reg (ar_sorted_ids a) (ar_columns a) (ar_columns a')"
    by (rule cols_step_cong) (use ids b(3) s(1) tx ck(1) in \<open>auto simp: bundle_map_Cons split: option.splits\<close>)
  moreover have "same_shape ?a a'" using ih by blast
  ultimately show ?case using ih same_shape_trans [OF sh] by simp
qed

text \<open>Overwriting with calm destructors.\<close>

lemma put_replace_cols:
  assumes "put_replace boom reg row tk b a = Some ((ds, u), a')" "ar_wf reg a" "bundle_ok reg b"
    and "\<forall>i < length (ar_columns a). row < bv_len (ar_columns a ! i)" "\<And>c x. \<not> boom c x"
  shows "\<not> u \<and> same_shape a a' \<and> ar_entities a' = ar_entities a
    \<and> cols_step (\<lambda>i xs. case bundle_map reg b (ar_sorted_ids a ! i) of None \<Rightarrow> xs | Some x \<Rightarrow> xs[row := x]) reg (ar_sorted_ids a) (ar_columns a) (ar_columns a')"
  using assms(1-4)
proof (induction b arbitrary: a ds)
  case Nil
  then show ?case using ar_wfD(4) [OF Nil(2)] by (simp add: cols_step_def)
next
  case (Cons tx b)
  obtain ty x where tx: "tx = (ty, x)" by (cases tx)
  obtain c where c: "cr_id reg ty = Some c" "sized reg c x" "bundle_ok reg b" "bundle_map reg b c = None"
    using Cons.prems(3) tx by (auto simp: bundle_ok_Cons)
  obtain k v where kv: "column_index a c = Some k" "nth_opt (ar_columns a) k = Some v"
    using Cons.prems(1) tx c(1) by (auto split: bind_splits)
  have k: "k < length (ar_columns a)" "v = ar_columns a ! k" using kv(2) by (auto simp: nth_opt_def split: if_splits)
  have ck: "ar_sorted_ids a ! k = c" "k < length (ar_sorted_ids a)" using ar_wfD(3) [OF Cons.prems(2)] kv(1) by blast+
  have row: "row < bv_len v" using Cons.prems(4) k by simp
  have "typed reg c v" using ar_wfD(4) [OF Cons.prems(2) k(1)] ck k(2) by simp
  then obtain info where info: "cr_info reg c = Some info" "col_ok (ci_layout info) (ci_drop_fn info) v" by (rule typedE)
  have xl: "l_size (ci_layout info) = 0 \<Longrightarrow> x = []" using c(2) info(1) by (simp add: sized_def)
  obtain v1 where r1: "replace_protected (boom c) v row x = Some (if ci_drop_fn info \<and> l_size (ci_layout info) > 0
      then ([live_rows v ! row], boom c (live_rows v ! row)) else ([], False), v1)" "col_ok (ci_layout info) (ci_drop_fn info) v1"
    "live_rows v1 = (live_rows v)[row := x]"
    using replace_protected_live [OF info(2) row xl, of "boom c"] by blast
  obtain d where r: "replace_protected (boom c) v row x = Some ((d, False), v1)"
    using r1(1) assms(5) by (cases "ci_drop_fn info \<and> l_size (ci_layout info) > 0") auto
  let ?w = "mark_row_dirty (mark_changed v1 tk) row"
  let ?a = "a\<lparr>ar_columns := (ar_columns a)[k := ?w]\<rparr>"
  obtain ds' where s: "put_replace boom reg row tk b ?a = Some ((ds', u), a')"
    using Cons.prems(1) tx c(1) kv r by (auto split: bind_splits)
  have w: "typed reg (ar_sorted_ids a ! k) ?w" "live_rows ?w = (live_rows (ar_columns a ! k))[row := x]"
    using r1(2,3) info(1) ck k(2) by (auto simp: typed_def mark_row_dirty_def mark_changed_def col_ok_def has_scratch_def)
  have st: "cols_step (\<lambda>i xs. if i = k then xs[row := x] else xs) reg (ar_sorted_ids a) (ar_columns a) (ar_columns ?a)"
    using cols_step_one [OF k(1) _ w(1), of "\<lambda>xs. xs[row := x]"] ar_wfD(4) [OF Cons.prems(2)] w(2) by simp
  have sh: "same_shape a ?a" by simp
  have wf: "ar_wf reg ?a" by (rule wf_step [OF Cons.prems(2) sh st])
  have rows: "\<forall>i < length (ar_columns ?a). row < bv_len (ar_columns ?a ! i)"
    using cols_stepD(1,4) [OF st] Cons.prems(4) by (auto split: if_splits)
  note ih = Cons.IH [OF s wf c(3) rows]
  have ids: "ar_sorted_ids a ! i = c \<longleftrightarrow> i = k" if "i < length (ar_columns a)" for i
    using that ck ar_wf_distinct [OF Cons.prems(2)] ar_wfD(2) [OF Cons.prems(2)] by (auto simp: nth_eq_iff_index_eq)
  have "cols_step (\<lambda>i xs. case bundle_map reg b (ar_sorted_ids a ! i) of None \<Rightarrow> xs | Some x \<Rightarrow> xs[row := x]) reg (ar_sorted_ids a) (ar_columns ?a) (ar_columns a')"
    using ih by simp
  from cols_step_trans [OF st this]
  have "cols_step (\<lambda>i xs. case bundle_map reg (tx # b) (ar_sorted_ids a ! i) of None \<Rightarrow> xs | Some x \<Rightarrow> xs[row := x]) reg (ar_sorted_ids a) (ar_columns a) (ar_columns a')"
    by (rule cols_step_cong) (use ids c(1,4) tx ck(1) in \<open>auto simp: bundle_map_Cons split: option.splits\<close>)
  moreover have "same_shape ?a a'" using ih by blast
  ultimately show ?case using ih same_shape_trans [OF sh] by simp
qed

text \<open>Moving a row's columns, with calm destructors. \<open>ks\<close> are the positions still to visit.\<close>

definition moved_map :: "(nat \<times> nat) list \<Rightarrow> nat set \<Rightarrow> blob_vec list \<Rightarrow> nat \<Rightarrow> comps" where
  "moved_map ks leaving cols row c = (if c \<in> leaving then None else map_of (map (\<lambda>(k, cid). (cid, bv_read (cols ! k) row)) ks) c)"

lemma moved_map_Cons:
  "moved_map ((k, cid) # ks) leaving cols row = (if cid \<in> leaving then moved_map ks leaving cols row else (moved_map ks leaving cols row)(cid \<mapsto> bv_read (cols ! k) row))"
  by (auto simp: moved_map_def fun_eq_iff)

lemma moved_map_upd: "k \<notin> fst ` set ks \<Longrightarrow> moved_map ks leaving (cols[k := v]) row = moved_map ks leaving cols row"
proof -
  assume "k \<notin> fst ` set ks"
  then have "map (\<lambda>(j, cid). (cid, bv_read (cols[k := v] ! j) row)) ks = map (\<lambda>(j, cid). (cid, bv_read (cols ! j) row)) ks"
    by (intro map_cong refl) (metis (no_types, lifting) case_prod_beta image_eqI nth_list_update_neq)
  then show ?thesis by (intro ext) (simp only: moved_map_def)
qed

lemma read_sized: "typed reg c v \<Longrightarrow> sized reg c (bv_read v row)"
  by (auto simp: typed_def sized_def bv_read_def col_ok_def)

text \<open>Reading at a position that was not touched gives the same value.\<close>

lemma move_columns_ok:
  assumes "move_columns boom drop_old t reg leaving row ks (p, src, tgt) = Some ((ds, u), q, src', tgt')"
    and "ar_wf reg src" "ar_wf reg tgt" "distinct (map fst ks)"
    and "\<forall>(k, cid) \<in> set ks. k < length (ar_columns src) \<and> ar_sorted_ids src ! k = cid \<and> (cid \<in> leaving \<or> cid \<in> set (ar_sorted_ids tgt))"
    and "\<forall>i < length (ar_columns src). row < bv_len (ar_columns src ! i) \<or> i \<notin> fst ` set ks"
    and calm: "\<And>c x. \<not> boom c x"
  shows "\<not> u \<and> same_shape src src' \<and> ar_entities src' = ar_entities src \<and> same_shape tgt tgt' \<and> ar_entities tgt' = ar_entities tgt
    \<and> cols_step (\<lambda>i xs. if i \<in> fst ` set ks then swap_remove row xs else xs) reg (ar_sorted_ids src) (ar_columns src) (ar_columns src')
    \<and> cols_step (\<lambda>j xs. case moved_map ks leaving (ar_columns src) row (ar_sorted_ids tgt ! j) of None \<Rightarrow> xs | Some x \<Rightarrow> xs @ [x])
        reg (ar_sorted_ids tgt) (ar_columns tgt) (ar_columns tgt')"
  using assms(1-6)
proof (induction ks arbitrary: p src tgt ds)
  case Nil
  then show ?case using ar_wfD(4) [OF Nil(2)] ar_wfD(4) [OF Nil(3)] by (simp add: cols_step_def moved_map_def)
next
  case (Cons kc ks)
  obtain k cid where kc: "kc = (k, cid)" by (cases kc)
  let ?v = "ar_columns src ! k"
  let ?w = "swap_remove_no_drop ?v row"
  let ?src = "src\<lparr>ar_columns := (ar_columns src)[k := ?w]\<rparr>"
  have k: "k < length (ar_columns src)" "ar_sorted_ids src ! k = cid" "cid \<in> leaving \<or> cid \<in> set (ar_sorted_ids tgt)" "k \<notin> fst ` set ks"
    using Cons.prems(4,5) kc by auto
  have row: "row < bv_len ?v" using Cons.prems(6) k(1) kc by auto
  have nk: "nth_opt (ar_columns src) k = Some ?v" using k(1) by (simp add: nth_opt_def)
  have ty: "typed reg cid ?v" using ar_wfD(4) [OF Cons.prems(2) k(1)] k(2) by simp
  obtain info where info: "cr_info reg cid = Some info" "col_ok (ci_layout info) (ci_drop_fn info) ?v" by (rule typedE [OF ty])
  have w: "typed reg (ar_sorted_ids src ! k) ?w" "live_rows ?w = swap_remove row (live_rows ?v)"
    using commit_col_ok [OF info(2) row] live_commit [OF row] info(1) k(2) by (auto simp: typed_def removal_eq)
  have st: "cols_step (\<lambda>i xs. if i = k then swap_remove row xs else xs) reg (ar_sorted_ids src) (ar_columns src) (ar_columns ?src)"
    using cols_step_one [OF k(1) _ w(1), of "swap_remove row"] ar_wfD(4) [OF Cons.prems(2)] w(2) by simp
  have sh: "same_shape src ?src" by simp
  have wf: "ar_wf reg ?src" by (rule wf_step [OF Cons.prems(2) sh st])
  have ks: "distinct (map fst ks)"
    "\<forall>(j, c) \<in> set ks. j < length (ar_columns ?src) \<and> ar_sorted_ids ?src ! j = c \<and> (c \<in> leaving \<or> c \<in> set (ar_sorted_ids tgt))"
    using Cons.prems(4,5) by auto
  have rows: "\<forall>i < length (ar_columns ?src). row < bv_len (ar_columns ?src ! i) \<or> i \<notin> fst ` set ks"
  proof (intro allI impI)
    fix i assume "i < length (ar_columns ?src)"
    then show "row < bv_len (ar_columns ?src ! i) \<or> i \<notin> fst ` set ks"
      using Cons.prems(6) k(4) kc by (cases "i = k") auto
  qed
  have quiet: "list_ex (\<lambda>(c, x). boom c x) xs = False" for xs by (simp add: list_ex_iff split_def calm)
  have mm: "moved_map ks leaving (ar_columns ?src) row = moved_map ks leaving (ar_columns src) row"
    using moved_map_upd [OF k(4)] by simp
  have srcs: "cols_step (\<lambda>i xs. if i \<in> fst ` set (kc # ks) then swap_remove row xs else xs) reg (ar_sorted_ids src) (ar_columns src) (ar_columns src')"
    if "cols_step (\<lambda>i xs. if i \<in> fst ` set ks then swap_remove row xs else xs) reg (ar_sorted_ids src) (ar_columns ?src) (ar_columns src')"
    using cols_step_trans [OF st that] by (rule cols_step_cong) (use k(4) kc in auto)
  show ?case
  proof (cases "cid \<in> leaving")
    case True
    obtain ds' where s: "move_columns boom drop_old t reg leaving row ks (p, ?src, tgt) = Some ((ds', u), q, src', tgt')"
      using Cons.prems(1) kc nk True info(1) quiet by (auto simp: Let_def split: bind_splits)
    note ih = Cons.IH [OF s wf Cons.prems(3) ks rows]
    have "moved_map (kc # ks) leaving (ar_columns src) row = moved_map ks leaving (ar_columns src) row"
      using True by (simp add: kc moved_map_Cons)
    moreover have "same_shape src src'" using ih same_shape_trans [OF sh] by blast
    ultimately show ?thesis using ih srcs mm by simp
  next
    case False
    then obtain j where j: "column_index tgt cid = Some j" using k(3) ar_wfD(3) [OF Cons.prems(3)] by (auto simp: in_set_conv_nth)
    have jl: "j < length (ar_columns tgt)" by (rule column_index_bound [OF Cons.prems(3) j])
    have jc: "ar_sorted_ids tgt ! j = cid" using j ar_wfD(3) [OF Cons.prems(3)] by blast
    have nj: "nth_opt (ar_columns tgt) j = Some (ar_columns tgt ! j)" using jl by (simp add: nth_opt_def)
    obtain p1 z where z: "bv_push t p (ar_columns tgt ! j) (bv_read ?v row) = Some (p1, z)"
      "move_columns boom drop_old t reg leaving row ks (p1, ?src, tgt\<lparr>ar_columns := (ar_columns tgt)[j := z]\<rparr>) = Some ((ds, u), q, src', tgt')"
      using Cons.prems(1) kc nk False j nj by (auto simp: Let_def split: bind_splits)
    let ?tgt = "tgt\<lparr>ar_columns := (ar_columns tgt)[j := z]\<rparr>"
    have tj: "typed reg cid (ar_columns tgt ! j)" using ar_wfD(4) [OF Cons.prems(3) jl] jc by simp
    have tz: "typed reg (ar_sorted_ids tgt ! j) z" "live_rows z = live_rows (ar_columns tgt ! j) @ [bv_read ?v row]"
      using typed_push [OF tj read_sized [OF ty] z(1)] jc by auto
    have st2: "cols_step (\<lambda>i xs. if i = j then xs @ [bv_read ?v row] else xs) reg (ar_sorted_ids tgt) (ar_columns tgt) (ar_columns ?tgt)"
      using cols_step_one [OF jl _ tz(1), of "\<lambda>xs. xs @ [bv_read ?v row]"] ar_wfD(4) [OF Cons.prems(3)] tz(2) by simp
    have sh2: "same_shape tgt ?tgt" by simp
    have wf2: "ar_wf reg ?tgt" by (rule wf_step [OF Cons.prems(3) sh2 st2])
    have ks2: "\<forall>(j, c) \<in> set ks. j < length (ar_columns ?src) \<and> ar_sorted_ids ?src ! j = c \<and> (c \<in> leaving \<or> c \<in> set (ar_sorted_ids ?tgt))"
      using ks(2) by simp
    note ih = Cons.IH [OF z(2) wf wf2 ks(1) ks2 rows]
    have fresh: "moved_map ks leaving (ar_columns src) row cid = None"
    proof -
      have "cid \<notin> snd ` set ks"
      proof
        assume "cid \<in> snd ` set ks"
        then obtain k' where "(k', cid) \<in> set ks" by auto
        then have "k' < length (ar_columns src)" "ar_sorted_ids src ! k' = cid" "k' \<noteq> k" using ks(2) k(4) by force+
        then show False using k(1,2) nth_eq_iff_index_eq [OF ar_wf_distinct [OF Cons.prems(2)], of k' k] ar_wfD(2) [OF Cons.prems(2)] by simp
      qed
      then show ?thesis by (auto simp: moved_map_def map_of_eq_None_iff image_image split_def)
    qed
    have ids: "ar_sorted_ids tgt ! i = cid \<longleftrightarrow> i = j" if "i < length (ar_columns tgt)" for i
      using that jc jl ar_wf_distinct [OF Cons.prems(3)] ar_wfD(2) [OF Cons.prems(3)] by (auto simp: nth_eq_iff_index_eq)
    have "cols_step (\<lambda>j xs. case moved_map ks leaving (ar_columns src) row (ar_sorted_ids tgt ! j) of None \<Rightarrow> xs | Some x \<Rightarrow> xs @ [x])
        reg (ar_sorted_ids tgt) (ar_columns ?tgt) (ar_columns tgt')" using ih mm by simp
    from cols_step_trans [OF st2 this]
    have "cols_step (\<lambda>j xs. case moved_map (kc # ks) leaving (ar_columns src) row (ar_sorted_ids tgt ! j) of None \<Rightarrow> xs | Some x \<Rightarrow> xs @ [x])
        reg (ar_sorted_ids tgt) (ar_columns tgt) (ar_columns tgt')"
      by (rule cols_step_cong) (use ids fresh False jc in \<open>auto simp: kc moved_map_Cons split: option.splits\<close>)
    moreover have "same_shape src src'" "same_shape tgt tgt'" using ih same_shape_trans [OF sh] same_shape_trans [OF sh2] by blast+
    ultimately show ?thesis using ih srcs by simp
  qed
qed

end
