(* ===== verification/World_Inv.thy ===== *)
theory World_Inv
  imports World_Rows Entity_Reserve
begin

text \<open>
  The invariant of the world. The location table and the rows of the archetypes describe
  each other; every entity in a row is alive and not on the free list; orphans are not in
  any row. Every operation on the way of spawning, despawning, inserting and removing keeps
  it and changes the map from entities to components as it should.
\<close>

subsection \<open>Locations\<close>

lemma el_new_parts: "el_new aid row = Some l \<Longrightarrow> el_archetype_id l = aid \<and> el_row_of l = row"
  by (auto simp: el_new_def el_archetype_id_def el_row_of_def U32_MAX_def unat_of_nat take_bit_nat_eq_self split: if_splits)

definition places :: "world \<Rightarrow> nat \<rightharpoonup> place" where
  "places w i = (if i < length (w_locs w) then map_option (\<lambda>l. (el_archetype_id l, el_row_of l)) (w_locs w ! i) else None)"

definition tables :: "world \<Rightarrow> world_row list list" where
  "tables w = map arch_rows (w_archs w)"

definition rows :: "world \<Rightarrow> nat \<rightharpoonup> nat \<times> world_row" where
  "rows w = row_of (places w) (tables w)"

definition view_of :: "(nat \<rightharpoonup> nat \<times> world_row) \<Rightarrow> entity \<rightharpoonup> comps" where
  "view_of M e = (case M (ent_index e) of None \<Rightarrow> None | Some (_, e', m) \<Rightarrow> if e' = e then Some m else None)"

text \<open>The content of the archetypes: which entities are placed, with which component values.\<close>

definition view :: "world \<Rightarrow> entity \<rightharpoonup> comps" where
  "view w = view_of (rows w)"

lemma view_put: "M (ent_index e) = None \<or> (\<exists>a m'. M (ent_index e) = Some (a, e, m')) \<Longrightarrow> view_of (M(ent_index e \<mapsto> (a, e, m))) = (view_of M)(e \<mapsto> m)"
  by (auto simp: view_of_def fun_eq_iff)

lemma view_del: "M (ent_index e) = Some (a, e, m) \<Longrightarrow> view_of (M(ent_index e := None)) = (view_of M)(e := None)"
  by (auto simp: view_of_def fun_eq_iff)

lemma tables_len [simp]: "length (tables w) = length (w_archs w)"
  by (simp add: tables_def)

lemma tables_nth: "a < length (w_archs w) \<Longrightarrow> tables w ! a = arch_rows (w_archs w ! a)"
  by (simp add: tables_def)

lemma set_location_places: "set_location w i l = Some w' \<Longrightarrow> places w' = (places w)(i := map_option (\<lambda>l. (el_archetype_id l, el_row_of l)) l)"
  by (auto simp: set_location_def places_def fun_eq_iff nth_list_update split: if_splits)

lemma set_location_frame:
  "set_location w i l = Some w' \<Longrightarrow> w_archetypes w' = w_archetypes w \<and> w_entities w' = w_entities w \<and> w_components w' = w_components w
     \<and> w_sparse w' = w_sparse w \<and> w_orphans w' = w_orphans w \<and> w_pool w' = w_pool w \<and> w_tick w' = w_tick w \<and> length (w_locs w') = length (w_locs w)"
  by (auto simp: set_location_def split: if_splits)

lemma put_location_places: "put_location w i aid row = Some w' \<Longrightarrow> places w' = (places w)(i \<mapsto> (aid, row))"
  by (auto simp: put_location_def split: bind_splits dest!: el_new_parts set_location_places)

lemma put_location_frame:
  "put_location w i aid row = Some w' \<Longrightarrow> w_archetypes w' = w_archetypes w \<and> w_entities w' = w_entities w \<and> w_components w' = w_components w
     \<and> w_sparse w' = w_sparse w \<and> w_orphans w' = w_orphans w \<and> w_pool w' = w_pool w \<and> w_tick w' = w_tick w \<and> length (w_locs w') = length (w_locs w)"
  by (auto simp: put_location_def split: bind_splits dest: set_location_frame)

lemma tables_cong: "w_archetypes w' = w_archetypes w \<Longrightarrow> tables w' = tables w"
  by (simp add: tables_def)

lemma places_cong: "w_locs w' = w_locs w \<Longrightarrow> places w' = places w"
  by (simp add: places_def fun_eq_iff)

lemma tables_set: "tables (set_archetype w i a) = (tables w)[i := arch_rows a]"
  by (simp add: tables_def set_archetype_def map_update)

lemma set_archetype_frame [simp]:
  "w_archs (set_archetype w i a) = (w_archs w)[i := a]" "w_locations (set_archetype w i a) = w_locations w"
  "w_entities (set_archetype w i a) = w_entities w" "w_components (set_archetype w i a) = w_components w"
  "w_sparse (set_archetype w i a) = w_sparse w" "w_orphans (set_archetype w i a) = w_orphans w"
  "w_pool (set_archetype w i a) = w_pool w" "w_tick (set_archetype w i a) = w_tick w"
  "as_by_components (w_archetypes (set_archetype w i a)) = as_by_components (w_archetypes w)"
  by (simp_all add: set_archetype_def)

lemma as_wf_set:
  "as_wf reg as \<Longrightarrow> i < length (as_list as) \<Longrightarrow> same_shape (as_list as ! i) a \<Longrightarrow> ar_wf reg a \<Longrightarrow> as_wf reg (as\<lparr>as_list := (as_list as)[i := a]\<rparr>)"
  unfolding as_wf_def same_shape_def by (auto simp: nth_list_update)

subsection \<open>The invariant\<close>

text \<open>An entity that is in use: alive, and its index not on the free list.\<close>

definition held :: "entity_allocator \<Rightarrow> entity \<Rightarrow> bool" where
  "held a e \<longleftrightarrow> ea_is_alive a e \<and> entity_index e \<notin> set (fl_abs (ea_free a))"

definition struct_ok :: "world \<Rightarrow> bool" where
  "struct_ok w \<longleftrightarrow> reg_inv (w_components w) \<and> as_wf (w_components w) (w_archetypes w)
     \<and> (\<forall>a \<in> set (w_archs w). ar_consistent a) \<and> located row_key (places w) (tables w)"

definition orphans_ok :: "world \<Rightarrow> bool" where
  "orphans_ok w \<longleftrightarrow> (oq_queue (w_orphans w) \<noteq> [] \<longrightarrow> oq_has_items (w_orphans w))
     \<and> distinct (map ent_index (oq_queue (w_orphans w)))
     \<and> (\<forall>e \<in> set (oq_queue (w_orphans w)). places w (ent_index e) = None \<and> entity_index e \<notin> set (fl_abs (ea_free (w_entities w))))"

definition placed_held :: "world \<Rightarrow> bool" where
  "placed_held w \<longleftrightarrow> (\<forall>i a e m. rows w i = Some (a, e, m) \<longrightarrow> held (w_entities w) e)"

definition world_ok :: "world \<Rightarrow> bool" where
  "world_ok w \<longleftrightarrow> struct_ok w \<and> ea_ok (w_entities w) \<and> placed_held w \<and> orphans_ok w \<and> storage_ok (w_sparse w)"

lemma struct_okD:
  assumes "struct_ok w"
  shows "reg_inv (w_components w)" "as_wf (w_components w) (w_archetypes w)" "located row_key (places w) (tables w)"
    and "i < length (w_archs w) \<Longrightarrow> ar_wf (w_components w) (w_archs w ! i)"
    and "i < length (w_archs w) \<Longrightarrow> ar_consistent (w_archs w ! i)"
    and "i < length (w_archs w) \<Longrightarrow> ar_id (w_archs w ! i) = i"
  using assms unfolding struct_ok_def as_wf_def by auto

lemma struct_okI:
  "reg_inv (w_components w) \<Longrightarrow> as_wf (w_components w) (w_archetypes w) \<Longrightarrow> (\<And>i. i < length (w_archs w) \<Longrightarrow> ar_consistent (w_archs w ! i))
   \<Longrightarrow> located row_key (places w) (tables w) \<Longrightarrow> struct_ok w"
  unfolding struct_ok_def by (auto simp: in_set_conv_nth)

lemma new_world_ok: "world_ok (new_with_pool i p)" "view (new_with_pool i p) = Map.empty"
proof -
  have t: "tables (new_with_pool i p) = []" "places (new_with_pool i p) = Map.empty"
    by (simp_all add: tables_def places_def new_with_pool_def as_new_def pv_new_def fun_eq_iff)
  have r: "rows (new_with_pool i p) = Map.empty" by (simp add: rows_def t row_of_def fun_eq_iff)
  then show "view (new_with_pool i p) = Map.empty" by (simp add: view_def view_of_def fun_eq_iff)
  have "w_archetypes (new_with_pool i p) = as_new" "w_components (new_with_pool i p) = cr_new" by (simp_all add: new_with_pool_def)
  moreover have "as_list as_new = []" by (simp add: as_new_def)
  ultimately have "struct_ok (new_with_pool i p)" by (simp add: struct_ok_def t)
  moreover have "storage_ok st_new" by (simp add: storage_ok_def st_new_def)
  ultimately show "world_ok (new_with_pool i p)" using r ea_new_ok
    by (simp add: world_ok_def placed_held_def orphans_ok_def) (simp add: new_with_pool_def oq_new_def)
qed

text \<open>What the invariant needs to see of a row: the key is the index of its entity.\<close>

lemma rows_key: "struct_ok w \<Longrightarrow> rows w i = Some (a, e, m) \<Longrightarrow> ent_index e = i \<and> a < length (w_archs w)"
  using row_of_key [of row_key "places w" "tables w" i a "(e, m)"] struct_okD(3) [of w] by (simp add: rows_def)

lemma rows_place:
  assumes "struct_ok w" "places w i = Some (a, r)"
  shows "a < length (w_archs w)" "r < ar_len (w_archs w ! a)"
    and "rows w i = Some (a, arch_rows (w_archs w ! a) ! r)" "ent_index (pv_elems (ar_entities (w_archs w ! a)) ! r) = i"
proof -
  note d = locatedD(2-4) [OF struct_okD(3) [OF assms(1)] assms(2)]
  show a: "a < length (w_archs w)" using d(1) by simp
  show r: "r < ar_len (w_archs w ! a)" using d(2) a by (simp add: tables_nth)
  show "rows w i = Some (a, arch_rows (w_archs w ! a) ! r)" using assms(2) a by (simp add: rows_def row_of_def tables_nth)
  show "ent_index (pv_elems (ar_entities (w_archs w ! a)) ! r) = i" using d(3) a r by (simp add: tables_nth arch_rows_nth)
qed

text \<open>Sections that leave rows and locations alone.\<close>

lemma rows_cong: "w_locs w' = w_locs w \<Longrightarrow> tables w' = tables w \<Longrightarrow> rows w' = rows w"
  by (simp add: rows_def places_cong [of w' w])

lemma struct_cong:
  "struct_ok w \<Longrightarrow> w_locs w' = w_locs w \<Longrightarrow> w_archetypes w' = w_archetypes w \<Longrightarrow> w_components w' = w_components w \<Longrightarrow> struct_ok w'"
proof -
  assume ok: "struct_ok w" and eq: "w_locs w' = w_locs w" "w_archetypes w' = w_archetypes w" "w_components w' = w_components w"
  show "struct_ok w'"
    using ok unfolding struct_ok_def places_cong [OF eq(1)] tables_cong [OF eq(2)] eq .
qed

lemma consistent_set:
  "(\<And>j. j < length as \<Longrightarrow> ar_consistent (as ! j)) \<Longrightarrow> ar_consistent a \<Longrightarrow> j < length as \<Longrightarrow> ar_consistent (as[i := a] ! j)"
  by (cases "j = i") auto

text \<open>An archetype replaced by one with the same rows.\<close>

lemma struct_same_rows:
  assumes "struct_ok w" "i < length (w_archs w)" "same_shape (w_archs w ! i) a" "ar_wf (w_components w) a" "ar_consistent a"
    and "arch_rows a = arch_rows (w_archs w ! i)"
  shows "struct_ok (set_archetype w i a) \<and> rows (set_archetype w i a) = rows w"
proof -
  have t: "tables (set_archetype w i a) = tables w" using assms(2,6) by (simp add: tables_set tables_nth [symmetric])
  have p: "places (set_archetype w i a) = places w" by (rule places_cong) simp
  have "struct_ok (set_archetype w i a)"
  proof (rule struct_okI)
    show "as_wf (w_components (set_archetype w i a)) (w_archetypes (set_archetype w i a))"
      using as_wf_set [OF struct_okD(2) [OF assms(1)] assms(2,3,4)] by (simp add: set_archetype_def)
    show "ar_consistent (w_archs (set_archetype w i a) ! j)" if "j < length (w_archs (set_archetype w i a))" for j
      using that consistent_set [OF struct_okD(5) [OF assms(1)] assms(5)] by simp
  qed (use struct_okD [OF assms(1)] t p in auto)
  then show ?thesis by (simp add: rows_def t p)
qed

text \<open>A row appended to an archetype.\<close>

lemma struct_append:
  assumes ok: "struct_ok w" and i: "i < length (w_archs w)" and sh: "same_shape (w_archs w ! i) a"
    and wf: "ar_wf (w_components w) a" "ar_consistent a"
    and app: "arch_rows a = arch_rows (w_archs w ! i) @ [(e, m)]" and free: "places w (ent_index e) = None"
    and put: "put_location (set_archetype w i a) (ent_index e) i (ar_len (w_archs w ! i)) = Some w'"
  shows "struct_ok w' \<and> rows w' = (rows w)(ent_index e \<mapsto> (i, e, m))"
proof -
  let ?w = "set_archetype w i a" and ?x = "(e, m) :: world_row"
  note f = put_location_frame [OF put]
  have p: "places w' = (places w)(row_key ?x \<mapsto> (i, length (tables w ! i)))"
    using put_location_places [OF put] places_cong [of ?w w] i by (simp add: tables_nth)
  have t: "tables w' = (tables w)[i := tables w ! i @ [?x]]"
    using tables_cong [of w' ?w] f i app by (simp add: tables_set tables_nth)
  note loc = struct_okD(3) [OF ok]
  have it: "i < length (tables w)" using i by simp
  have fr: "places w (row_key ?x) = None" using free by simp
  have "struct_ok w'"
  proof (rule struct_okI)
    show "located row_key (places w') (tables w')" unfolding p t by (rule located_append [OF loc it fr])
    show "as_wf (w_components w') (w_archetypes w')"
      using as_wf_set [OF struct_okD(2) [OF ok] i sh wf(1)] f by (simp add: set_archetype_def)
    show "ar_consistent (w_archs w' ! j)" if "j < length (w_archs w')" for j
      using that consistent_set [OF struct_okD(5) [OF ok] wf(2)] f by simp
  qed (use struct_okD(1) [OF ok] f in simp)
  moreover have "rows w' = (rows w)(ent_index e \<mapsto> (i, e, m))"
    unfolding rows_def p t using row_of_append [OF loc it fr] by simp
  ultimately show ?thesis by simp
qed

text \<open>A row removed: the location of the row that moved in is corrected, that of the removed one cleared.\<close>

lemma struct_remove:
  assumes ok: "struct_ok w" and pl: "places w (ent_index e) = Some (i, r)" and sh: "same_shape (w_archs w ! i) a"
    and wf: "ar_wf (w_components w) a" "ar_consistent a"
    and rem: "arch_rows a = swap_remove r (arch_rows (w_archs w ! i))"
    and w1: "(if r < ar_len a then put_location (set_archetype w i a) (ent_index (pv_elems (ar_entities a) ! r)) i r else Some (set_archetype w i a)) = Some w1"
    and w2: "w_locs w2 = w_locs w1" "w_archetypes w2 = w_archetypes w1" "w_components w2 = w_components w1"
    and w3: "set_location w2 (ent_index e) None = Some w3"
  shows "struct_ok w3 \<and> rows w3 = (rows w)(ent_index e := None)"
proof -
  let ?w = "set_archetype w i a"
  note pr = rows_place [OF ok pl]
  have it: "i < length (tables w)" "r < length (tables w ! i)" using pr by (simp_all add: tables_nth)
  note loc = struct_okD(3) [OF ok]
  have key: "row_key (tables w ! i ! r) = ent_index e" using pr by (simp add: tables_nth arch_rows_nth)
  have f1: "w_archetypes w1 = w_archetypes ?w" "w_components w1 = w_components w"
    using w1 put_location_frame by (auto split: if_splits)
  note f3 = set_location_frame [OF w3]
  have sw: "pv_elems (ar_entities a) ! r = fst (swap_remove r (tables w ! i) ! r)" if "r < ar_len a"
  proof -
    have "swap_remove r (tables w ! i) = arch_rows a" using rem pr(1) by (simp add: tables_nth)
    then show ?thesis using arch_rows_nth [OF that] by simp
  qed
  have len: "length (swap_remove r (tables w ! i)) = ar_len a" using arg_cong [OF rem, of length] pr(1) by (simp add: tables_nth)
  have "places w1 = (if r < length (swap_remove r (tables w ! i)) then (places w)(row_key (swap_remove r (tables w ! i) ! r) \<mapsto> (i, r)) else places w)"
    using w1 put_location_places [of ?w] places_cong [of ?w w] unfolding len by (auto simp: sw split: if_splits)
  then have p: "places w3 = unplace row_key (places w) (tables w) i r"
    using set_location_places [OF w3] places_cong [OF w2(1)] by (simp add: unplace_def Let_def key)
  have t: "tables w3 = (tables w)[i := swap_remove r (tables w ! i)]"
    using tables_cong [of w3 ?w] f1 f3 w2 rem pr(1) by (simp add: tables_set tables_nth)
  have "struct_ok w3"
  proof (rule struct_okI)
    show "located row_key (places w3) (tables w3)" unfolding p t by (rule located_remove [OF loc it])
    show "as_wf (w_components w3) (w_archetypes w3)"
      using as_wf_set [OF struct_okD(2) [OF ok] pr(1) sh wf(1)] f1 f3 w2 by (simp add: set_archetype_def)
    show "ar_consistent (w_archs w3 ! j)" if "j < length (w_archs w3)" for j
      using that consistent_set [OF struct_okD(5) [OF ok] wf(2)] f1 f3 w2 by simp
  qed (use struct_okD(1) [OF ok] f1 f3 w2 in simp)
  moreover have "rows w3 = (rows w)(ent_index e := None)"
    unfolding rows_def p t using row_of_remove [OF loc it] by (simp add: key)
  ultimately show ?thesis by simp
qed

text \<open>A row overwritten in place.\<close>

lemma struct_update:
  assumes ok: "struct_ok w" and pl: "places w (ent_index e) = Some (i, r)" and sh: "same_shape (w_archs w ! i) a"
    and wf: "ar_wf (w_components w) a" "ar_consistent a"
    and upd: "arch_rows a = (arch_rows (w_archs w ! i))[r := (e, m)]"
  shows "struct_ok (set_archetype w i a) \<and> rows (set_archetype w i a) = (rows w)(ent_index e \<mapsto> (i, e, m))"
proof -
  let ?w = "set_archetype w i a" and ?x = "(e, m) :: world_row"
  note pr = rows_place [OF ok pl]
  have it: "i < length (tables w)" "r < length (tables w ! i)" using pr by (simp_all add: tables_nth)
  note loc = struct_okD(3) [OF ok]
  have key: "row_key ?x = row_key (tables w ! i ! r)" using pr by (simp add: tables_nth arch_rows_nth)
  have p: "places ?w = places w" by (rule places_cong) simp
  have t: "tables ?w = (tables w)[i := (tables w ! i)[r := ?x]]" using upd pr(1) by (simp add: tables_set tables_nth)
  have "struct_ok ?w"
  proof (rule struct_okI)
    show "located row_key (places ?w) (tables ?w)" unfolding p t by (rule located_update [OF loc it key])
    show "as_wf (w_components ?w) (w_archetypes ?w)"
      using as_wf_set [OF struct_okD(2) [OF ok] pr(1) sh wf(1)] by (simp add: set_archetype_def)
    show "ar_consistent (w_archs ?w ! j)" if "j < length (w_archs ?w)" for j
      using that consistent_set [OF struct_okD(5) [OF ok] wf(2)] by simp
  qed (use struct_okD(1) [OF ok] in simp)
  moreover have "rows ?w = (rows w)(ent_index e \<mapsto> (i, e, m))"
    unfolding rows_def p t using row_of_update [OF loc it key] by simp
  ultimately show ?thesis by simp
qed

subsection \<open>Handles in use\<close>

lemma held_abs: "held a e \<longleftrightarrow> (case ea_abs a of (G, F, n) \<Rightarrow>
    ent_index e < length G \<and> G ! ent_index e = entity_generation e \<and> entity_index e \<notin> set F)"
  by (simp add: held_def ea_is_alive_def ea_abs_def ent_index_def)

lemma ea_ok_abs: "ea_ok a \<Longrightarrow> ea_abs a = (G, F, n) \<Longrightarrow> distinct F \<and> (\<forall>i \<in> set F. unat i < length G) \<and> length G \<le> n \<and> n \<le> 4294967295"
  using ea_ok_slots [of a] by (simp add: slots_ok_def)

lemma ent_index_eq: "ent_index e = ent_index e' \<longleftrightarrow> entity_index e = entity_index e'"
  by (simp add: ent_index_def word_unat_eq_iff)

lemma held_materialize:
  assumes "ea_ok a" "ea_materialize_reserved t p a = Some (q, b)"
  shows "ea_ok b" "ea_spec EMaterialize (ea_abs a) = (AUnit, ea_abs b)" "held a e \<Longrightarrow> held b e"
    "set (fl_abs (ea_free b)) = set (fl_abs (ea_free a))"
proof -
  note m = materialize_abs [OF assms]
  show "ea_ok b" by (rule m(1))
  show sp: "ea_spec EMaterialize (ea_abs a) = (AUnit, ea_abs b)" using m by (simp add: ea_abs_def)
  show "set (fl_abs (ea_free b)) = set (fl_abs (ea_free a))" using m by simp
  show "held b e" if "held a e" using that sp by (auto simp: held_abs filled_nth split: prod.splits)
qed

lemma held_dealloc:
  assumes ok: "ea_ok a" and f: "entity_index e \<notin> set (fl_abs (ea_free a))" and d: "ea_dealloc t p a e = Some (r, q, b)"
  shows "ea_ok b" "ea_spec (EDealloc e) (ea_abs a) = (ABool r, ea_abs b)"
    "held a e' \<Longrightarrow> ent_index e' \<noteq> ent_index e \<Longrightarrow> held b e'" "set (fl_abs (ea_free b)) \<subseteq> insert (entity_index e) (set (fl_abs (ea_free a)))"
proof -
  have pre: "ea_pre (EDealloc e) (ea_abs a)" using f by (simp add: ea_abs_def)
  note D = ea_dealloc_abs [OF ok pre d]
  show "ea_ok b" "ea_spec (EDealloc e) (ea_abs a) = (ABool r, ea_abs b)" using D by auto
  obtain G F n where a: "ea_abs a = (G, F, n)" by (cases "ea_abs a")
  show "held b e'" if "held a e'" "ent_index e' \<noteq> ent_index e"
    using that D a by (auto simp: held_abs Let_def ent_index_eq [symmetric] simp flip: ent_index_def split: if_splits)
  have "fl_abs (ea_free b) = fl_abs (ea_free a) \<or> fl_abs (ea_free b) = fl_abs (ea_free a) @ [entity_index e]"
    using D by (auto simp: ea_abs_def Let_def split: if_splits)
  then show "set (fl_abs (ea_free b)) \<subseteq> insert (entity_index e) (set (fl_abs (ea_free a)))" by auto
qed

lemma held_alloc:
  assumes ok: "ea_ok a" and pre: "ea_pre EAlloc (ea_abs a)" and al: "ea_alloc t p a = Some (e, q, b)"
  shows "ea_ok b" "ea_spec EAlloc (ea_abs a) = (AEntity e, ea_abs b)" "held b e"
    "held a e' \<Longrightarrow> held b e' \<and> ent_index e' \<noteq> ent_index e"
proof -
  note A = ea_alloc_abs [OF ok pre al]
  show "ea_ok b" "ea_spec EAlloc (ea_abs a) = (AEntity e, ea_abs b)" using A by auto
  obtain G F n where a: "ea_abs a = (G, F, n)" by (cases "ea_abs a")
  note S = ea_ok_abs [OF ok a]
  have "held b e \<and> (held a e' \<longrightarrow> held b e' \<and> ent_index e' \<noteq> ent_index e)"
  proof (cases "F = []")
    case True
    then have n: "n < 4294967295" using pre a by simp
    then have u: "unat (word_of_nat n :: u32) = n" by (intro u32_of_nat) simp
    have e: "ent_index e = n" "entity_generation e = 0" and b: "ea_abs b = (filled G n @ [0], [], n + 1)"
      using A a True u by (auto simp: ent_index_def Let_def)
    show ?thesis using a b e S True by (auto simp: held_abs filled_nth nth_append)
  next
    case False
    have b: "ea_abs b = (filled G n, butlast F, n)" and e: "entity_index e = last F" "entity_generation e = filled G n ! unat (last F)"
      using A a False by (auto simp: Let_def)
    have "last F \<in> set F" using False by simp
    then have l: "unat (last F) < length G" using S by auto
    have "distinct (butlast F @ [last F])" using S False by simp
    then have nl: "last F \<notin> set (butlast F)" by simp
    have ie: "ent_index e = unat (last F)" using e(1) by (simp add: ent_index_def)
    have "held b e" using b e ie l nl by (simp add: held_abs)
    moreover have "held b e' \<and> ent_index e' \<noteq> ent_index e" if "held a e'"
    proof -
      have h: "ent_index e' < length G" "G ! ent_index e' = entity_generation e'" "entity_index e' \<notin> set F" using that a by (auto simp: held_abs)
      have "entity_index e' \<noteq> last F" using h(3) \<open>last F \<in> set F\<close> by metis
      then show ?thesis using h b e(1) by (auto simp: held_abs filled_nth ent_index_eq dest: in_set_butlastD)
    qed
    ultimately show ?thesis by blast
  qed
  then show "held b e" "held a e' \<Longrightarrow> held b e' \<and> ent_index e' \<noteq> ent_index e" by auto
qed

lemma held_alive: "held a e \<Longrightarrow> ea_is_alive a e' \<Longrightarrow> ent_index e' = ent_index e \<Longrightarrow> e' = e"
  by (auto simp: held_def ea_is_alive_def entity_eq_iff ent_index_eq)

subsection \<open>Draining orphans\<close>

definition dealloc_spec :: "slot_table \<Rightarrow> entity \<Rightarrow> slot_table" where
  "dealloc_spec s e = snd (ea_spec (EDealloc e) s)"

lemma dealloc_orphans_ok:
  "ea_ok a \<Longrightarrow> distinct (map ent_index es) \<Longrightarrow> \<forall>e \<in> set es. entity_index e \<notin> set (fl_abs (ea_free a)) \<Longrightarrow>
   dealloc_orphans t p a es = Some (q, b) \<Longrightarrow>
   ea_ok b \<and> ea_abs b = foldl dealloc_spec (ea_abs a) es \<and> (\<forall>e. held a e \<and> ent_index e \<notin> ent_index ` set es \<longrightarrow> held b e)"
proof (induction es arbitrary: p a)
  case (Cons e es)
  obtain r p1 a1 where d: "ea_dealloc t p a e = Some (r, p1, a1)" "dealloc_orphans t p1 a1 es = Some (q, b)"
    using Cons.prems(4) by (auto split: bind_splits)
  have f: "entity_index e \<notin> set (fl_abs (ea_free a))" using Cons.prems(3) by simp
  note H = held_dealloc [OF Cons.prems(1) f d(1)]
  have "\<forall>x \<in> set es. entity_index x \<notin> set (fl_abs (ea_free a1))"
  proof
    fix x assume x: "x \<in> set es"
    then have "entity_index x \<noteq> entity_index e" using Cons.prems(2) by (auto simp: image_iff ent_index_eq)
    moreover have "entity_index x \<notin> set (fl_abs (ea_free a))" using Cons.prems(3) x by simp
    ultimately show "entity_index x \<notin> set (fl_abs (ea_free a1))" using H(4) by blast
  qed
  then have ih: "ea_ok b \<and> ea_abs b = foldl dealloc_spec (ea_abs a1) es \<and> (\<forall>e. held a1 e \<and> ent_index e \<notin> ent_index ` set es \<longrightarrow> held b e)"
    using Cons.IH [OF H(1) _ _ d(2)] Cons.prems(2) by simp
  moreover have "dealloc_spec (ea_abs a) e = ea_abs a1" by (simp add: dealloc_spec_def H(2))
  ultimately show ?case using H(3) by auto
qed simp

fun drain_spec :: "slot_table \<times> orphan_queue \<Rightarrow> slot_table \<times> orphan_queue" where
  "drain_spec (s, oq) = (let s1 = snd (ea_spec EMaterialize s) in
     if oq_has_items oq then (foldl dealloc_spec s1 (oq_queue oq), oq_new) else (s1, oq))"

text \<open>Fields a section leaves alone.\<close>

definition same_store :: "world \<Rightarrow> world \<Rightarrow> bool" where
  "same_store w w' \<longleftrightarrow> w_archetypes w' = w_archetypes w \<and> w_locations w' = w_locations w \<and> w_components w' = w_components w
     \<and> w_sparse w' = w_sparse w"

lemma same_store_rows:
  assumes "same_store w w'"
  shows "rows w' = rows w" "places w' = places w"
proof -
  note s = assms
  then have l: "w_locs w' = w_locs w" by (simp add: same_store_def)
  show "places w' = places w" by (rule places_cong [OF l])
  have "tables w' = tables w" by (rule tables_cong) (use s in \<open>simp add: same_store_def\<close>)
  then show "rows w' = rows w" by (rule rows_cong [OF l])
qed

lemma same_store_struct: "same_store w w' \<Longrightarrow> struct_ok w \<Longrightarrow> struct_ok w'"
  by (rule struct_cong [of w]) (simp_all add: same_store_def)

lemma drain_ok:
  assumes ok: "world_ok w" and d: "drain_orphans t w = Some w'"
  shows "world_ok w' \<and> same_store w w' \<and> w_tick w' = w_tick w \<and> oq_queue (w_orphans w') = []
    \<and> (ea_abs (w_entities w'), w_orphans w') = drain_spec (ea_abs (w_entities w), w_orphans w)"
proof -
  have st: "struct_ok w" "ea_ok (w_entities w)" "storage_ok (w_sparse w)" and ph: "placed_held w" and oo: "orphans_ok w"
    using ok by (auto simp: world_ok_def)
  obtain p a where m: "ea_materialize_reserved t (w_pool w) (w_entities w) = Some (p, a)" using d by (auto simp: drain_orphans_def split: bind_splits)
  note M = held_materialize [OF st(2) m]
  let ?q = "oq_queue (w_orphans w)"
  have fin: "world_ok w' \<and> same_store w w'"
    if "same_store w w'" "ea_ok (w_entities w')" "oq_queue (w_orphans w') = []"
      and h: "\<And>e. held a e \<Longrightarrow> ent_index e \<notin> ent_index ` set ?q \<Longrightarrow> held (w_entities w') e"
  proof -
    note r = same_store_rows [OF that(1)]
    have "held (w_entities w') e" if x: "rows w' i = Some (k, e, mm)" for i k e mm
    proof -
      have x': "rows w i = Some (k, e, mm)" using x r by simp
      then have "held (w_entities w) e" using ph by (auto simp: placed_held_def)
      moreover have "ent_index e \<notin> ent_index ` set ?q"
      proof
        assume "ent_index e \<in> ent_index ` set ?q"
        then have "places w (ent_index e) = None" using oo by (auto simp: orphans_ok_def)
        then have "rows w i = None" using rows_key [OF st(1) x'] by (simp add: rows_def)
        then show False using x' by simp
      qed
      ultimately show ?thesis using h M(3) by blast
    qed
    then have "placed_held w'" by (auto simp: placed_held_def)
    moreover have "orphans_ok w'" using that(3) by (simp add: orphans_ok_def)
    ultimately show ?thesis using that(1,2) same_store_struct [OF that(1) st(1)] st(3) by (simp add: world_ok_def same_store_def)
  qed
  show ?thesis
  proof (cases "oq_has_items (w_orphans w)")
    case False
    then have w': "w' = w\<lparr>w_pool := p, w_entities := a\<rparr>" and q: "?q = []" using d m oo by (auto simp: drain_orphans_def orphans_ok_def)
    have ss: "same_store w w'" by (simp add: w' same_store_def)
    show ?thesis using fin [OF ss] M q False by (simp add: w' Let_def)
  next
    case True
    then obtain p' a' where dd: "dealloc_orphans t p a ?q = Some (p', a')"
      and w': "w' = w\<lparr>w_pool := p', w_entities := a', w_orphans := \<lparr>oq_queue = [], oq_has_items = False\<rparr>\<rparr>"
      using d m by (auto simp: drain_orphans_def split: bind_splits)
    have D: "ea_ok a' \<and> ea_abs a' = foldl dealloc_spec (ea_abs a) ?q \<and> (\<forall>e. held a e \<and> ent_index e \<notin> ent_index ` set ?q \<longrightarrow> held a' e)"
      using dealloc_orphans_ok [OF M(1) _ _ dd] oo M(4) by (auto simp: orphans_ok_def)
    have ss: "same_store w w'" by (simp add: w' same_store_def)
    show ?thesis using fin [OF ss] D M(2) True by (simp add: w' Let_def oq_new_def)
  qed
qed

end
