(* ===== verification/World_Spawn.thy ===== *)
theory World_Spawn
  imports World_Inv
begin

text \<open>
  Spawning: allocating a handle, resolving the archetype of a bundle and appending the row.
  Each step keeps the structure of the world and changes the map of components as it should.
\<close>

subsection \<open>Allocation\<close>

lemma ensure_location_ok:
  assumes "ensure_location t w i = Some w'"
  shows "i < length (w_locs w')" "places w' = places w" "w_archetypes w' = w_archetypes w" "w_components w' = w_components w"
    "w_entities w' = w_entities w" "w_sparse w' = w_sparse w" "w_orphans w' = w_orphans w" "w_tick w' = w_tick w"
proof -
  have "i < length (w_locs w') \<and> places w' = places w \<and> w_archetypes w' = w_archetypes w \<and> w_components w' = w_components w
     \<and> w_entities w' = w_entities w \<and> w_sparse w' = w_sparse w \<and> w_orphans w' = w_orphans w \<and> w_tick w' = w_tick w"
  proof (cases "i < length (w_locs w)")
    case True
    then show ?thesis using assms by (simp add: ensure_location_def)
  next
    case False
    then obtain p ls where r: "pv_resize t (w_pool w) (w_locations w) (i + 1) None = Some (p, ls)" "w' = w\<lparr>w_pool := p, w_locations := ls\<rparr>"
      using assms by (auto simp: ensure_location_def split: bind_splits)
    have e: "pv_elems ls = w_locs w @ replicate (i + 1 - length (w_locs w)) None"
      using pv_resize_elems [OF r(1)] False by (simp add: resize_list_def)
    have "places w' = places w"
      by (rule ext) (use False in \<open>simp add: r(2) places_def e nth_append del: replicate_Suc\<close>)
    then show ?thesis using False by (simp add: r(2) e)
  qed
  then show "i < length (w_locs w')" "places w' = places w" "w_archetypes w' = w_archetypes w" "w_components w' = w_components w"
    "w_entities w' = w_entities w" "w_sparse w' = w_sparse w" "w_orphans w' = w_orphans w" "w_tick w' = w_tick w" by blast+
qed

text \<open>Structure without the location table's spare entries: what depends on places and tables only.\<close>

lemma struct_places:
  assumes "struct_ok w" "places w' = places w" "w_archetypes w' = w_archetypes w" "w_components w' = w_components w"
  shows "struct_ok w' \<and> rows w' = rows w"
  using assms(1) unfolding struct_ok_def rows_def tables_cong [OF assms(3)] assms(2-4) by simp

definition settled :: "world \<Rightarrow> bool" where
  "settled w \<longleftrightarrow> world_ok w \<and> oq_queue (w_orphans w) = []"

lemma settledI: "struct_ok w \<Longrightarrow> ea_ok (w_entities w) \<Longrightarrow> placed_held w \<Longrightarrow> storage_ok (w_sparse w) \<Longrightarrow> oq_queue (w_orphans w) = [] \<Longrightarrow> settled w"
  by (simp add: settled_def world_ok_def orphans_ok_def)

lemma settledD:
  assumes "settled w"
  shows "struct_ok w" "ea_ok (w_entities w)" "placed_held w" "storage_ok (w_sparse w)" "oq_queue (w_orphans w) = []" "world_ok w"
  using assms by (auto simp: settled_def world_ok_def)

lemma free_place:
  assumes "settled w" "\<And>e'. held (w_entities w) e' \<Longrightarrow> ent_index e' \<noteq> i"
  shows "places w i = None"
proof (rule ccontr)
  assume "places w i \<noteq> None"
  then obtain a r where "places w i = Some (a, r)" by auto
  note pr = rows_place [OF settledD(1) [OF assms(1)] this]
  then have row: "rows w i = Some (a, pv_elems (ar_entities (w_archs w ! a)) ! r, row_comps (w_archs w ! a) r)" by (simp add: arch_rows_nth)
  then have "held (w_entities w) (pv_elems (ar_entities (w_archs w ! a)) ! r)" using settledD(3) [OF assms(1)] by (auto simp: placed_held_def)
  then show False using assms(2) pr(4) by blast
qed

lemma world_alloc_ok:
  assumes ok: "settled w" and pre: "ea_pre EAlloc (ea_abs (w_entities w))" and al: "world_alloc t w = Some (e, w')"
  shows "settled w'" "rows w' = rows w" "places w' (ent_index e) = None" "held (w_entities w') e" "ent_index e < length (w_locs w')"
    "ea_spec EAlloc (ea_abs (w_entities w)) = (AEntity e, ea_abs (w_entities w'))"
    "w_archetypes w' = w_archetypes w" "w_components w' = w_components w" "w_sparse w' = w_sparse w" "w_orphans w' = w_orphans w" "w_tick w' = w_tick w"
proof -
  obtain p a where a: "ea_alloc t (w_pool w) (w_entities w) = Some (e, p, a)"
    and l: "ensure_location t (w\<lparr>w_pool := p, w_entities := a\<rparr>) (ent_index e) = Some w'"
    using al by (auto simp: world_alloc_def split: bind_splits)
  note E = ensure_location_ok [OF l]
  have p0: "places (w\<lparr>w_pool := p, w_entities := a\<rparr>) = places w" by (rule places_cong) simp
  note H = held_alloc [OF settledD(2) [OF ok] pre a]
  have S: "struct_ok w' \<and> rows w' = rows w"
    using struct_places [OF settledD(1) [OF ok], of w'] E p0 by simp
  have ent: "w_entities w' = a" using E by simp
  have ph: "placed_held w'" using settledD(3) [OF ok] S ent H(4) unfolding placed_held_def by metis
  show "settled w'" using S ph settledD [OF ok] E H(1) by (intro settledI) simp_all
  show "rows w' = rows w" using S by blast
  have "places w (ent_index e) = None"
  proof (rule free_place [OF ok])
    show "ent_index e' \<noteq> ent_index e" if "held (w_entities w) e'" for e' using H(4) [OF that] by blast
  qed
  then show "places w' (ent_index e) = None" using E(2) p0 by simp
  show "held (w_entities w') e" using H(3) ent by simp
  show "ea_spec EAlloc (ea_abs (w_entities w)) = (AEntity e, ea_abs (w_entities w'))" using H(2) ent by simp
qed (use ensure_location_ok al in \<open>auto simp: world_alloc_def split: bind_splits\<close>)

subsection \<open>Bundles\<close>

lemma reg_extends_id: "reg_extends r r' \<Longrightarrow> cr_id r ty = Some c \<Longrightarrow> cr_id r' ty = Some c"
  by (auto simp: reg_extends_def cr_id_def map_le_def dom_def)

lemma reg_extends_info: "reg_extends r r' \<Longrightarrow> cr_info r c = Some x \<Longrightarrow> cr_info r' c = Some x"
  by (auto simp: reg_extends_def cr_info_def nth_append split: if_splits)

lemma register_id:
  assumes "reg_inv r" "register r ty = (i, r')"
  shows "reg_inv r'" "reg_extends r r'" "cr_id r' ty = Some i" "cr_info r' i \<noteq> None"
proof -
  have k: "reg_inv r'" "reg_extends r r'" "cr_by_type r' (ty_id ty) = Some i" using register_inv [OF assms(1), of ty] assms(2) by auto
  then show "reg_inv r'" "reg_extends r r'" "cr_id r' ty = Some i" by (simp_all add: cr_id_def)
  show "cr_info r' i \<noteq> None" using k(3) reg_id [OF k(1)] by (simp add: cr_info_def)
qed

lemma register_all_ok:
  "reg_inv r \<Longrightarrow> register_all r tys = (ids, r') \<Longrightarrow>
   reg_inv r' \<and> reg_extends r r' \<and> ids = map (\<lambda>ty. the (cr_id r' ty)) tys \<and> (\<forall>ty \<in> set tys. \<exists>c. cr_id r' ty = Some c \<and> cr_info r' c \<noteq> None)"
proof (induction tys arbitrary: r ids)
  case (Cons ty tys)
  obtain i r1 js where s: "register r ty = (i, r1)" "register_all r1 tys = (js, r')" "ids = i # js"
    using Cons.prems(2) by (auto simp: Let_def split: prod.splits)
  note R = register_id [OF Cons.prems(1) s(1)]
  note ih = Cons.IH [OF R(1) s(2)]
  have ex: "reg_extends r1 r'" using ih by blast
  have i: "cr_id r' ty = Some i" by (rule reg_extends_id [OF ex R(3)])
  obtain x where "cr_info r1 i = Some x" using R(4) by auto
  from reg_extends_info [OF ex this] show ?case using ih i s(3) reg_extends_trans [OF R(2) ex] by auto
qed simp

text \<open>The values of a bundle fit the components their types name; a zero-sized value has no bytes.\<close>

definition bundle_fits :: "registry \<Rightarrow> bundle_values \<Rightarrow> bool" where
  "bundle_fits reg b \<longleftrightarrow> (let reg' = snd (register_all reg (map fst b)) in
     list_all (\<lambda>(ty, x). case cr_id reg' ty of None \<Rightarrow> True | Some c \<Rightarrow>
       (case cr_info reg' c of None \<Rightarrow> True | Some info \<Rightarrow> l_size (ci_layout info) = 0 \<longrightarrow> x = [])) b)"

lemma bundle_fitsD:
  assumes "bundle_fits reg b" "v \<in> set b" "reg' = snd (register_all reg (map fst b))" "cr_id reg' (fst v) = Some c" "cr_info reg' c = Some info"
  shows "l_size (ci_layout info) = 0 \<longrightarrow> snd v = []"
  using assms by (auto simp: bundle_fits_def Let_def list_all_iff)

lemma remdups_adj_sort_full:
  fixes xs :: "nat list"
  assumes "length (remdups_adj (sort xs)) = length xs"
  shows "distinct xs \<and> remdups_adj (sort xs) = sort xs"
proof -
  have d: "distinct (remdups_adj ys)" if "sorted ys" for ys :: "nat list"
    using that by (induction ys rule: remdups_adj.induct) auto
  have "card (set xs) = length (remdups_adj (sort xs))"
    using distinct_card [OF d [of "sort xs"]] by simp
  then have "distinct xs" using assms by (simp add: card_distinct)
  then show ?thesis by (simp add: remdups_adj_distinct)
qed

lemma bundle_ids_ok:
  assumes r: "reg_inv r" and b: "bundle_ids r b = Some (ids, r')" and fit: "bundle_fits r b"
  shows "reg_inv r'" "reg_extends r r'" "bundle_ok r' b" "sorted ids" "distinct ids" "set ids = dom (bundle_map r' b)"
    "\<forall>c \<in> set ids. cr_info r' c \<noteq> None" "register_all r (map fst b) = (map (\<lambda>v. the (cr_id r' (fst v))) b, r')"
proof -
  obtain js where s: "register_all r (map fst b) = (js, r')" "length (remdups_adj (sort js)) = length b" "ids = remdups_adj (sort js)"
    using b by (auto simp: bundle_ids_def Let_def split: prod.splits if_splits)
  note R = register_all_ok [OF r s(1)]
  have js: "js = map (\<lambda>v. the (cr_id r' (fst v))) b" using R by simp
  have d: "distinct js \<and> ids = sort js" using remdups_adj_sort_full [of js] s(2,3) js by simp
  show "reg_inv r'" "reg_extends r r'" using R by auto
  show "sorted ids" "distinct ids" using d by auto
  have reg: "\<exists>c info. cr_id r' (fst v) = Some c \<and> cr_info r' c = Some info" if "v \<in> set b" for v
  proof -
    have "fst v \<in> set (map fst b)" using that by simp
    then obtain c where "cr_id r' (fst v) = Some c" "cr_info r' c \<noteq> None" using R by blast
    then show ?thesis by blast
  qed
  have "\<exists>c. cr_id r' (fst v) = Some c \<and> sized r' c (snd v)" if v: "v \<in> set b" for v
  proof -
    obtain c info where c: "cr_id r' (fst v) = Some c" "cr_info r' c = Some info" using reg [OF v] by blast
    have "l_size (ci_layout info) = 0 \<longrightarrow> snd v = []" using bundle_fitsD [OF fit v _ c] s(1) by simp
    then show ?thesis using c by (auto simp: sized_def)
  qed
  then show bok: "bundle_ok r' b" using d js by (simp add: bundle_ok_def)
  show "set ids = dom (bundle_map r' b)" using bundle_map_dom [OF bok] d js by simp
  show "\<forall>c \<in> set ids. cr_info r' c \<noteq> None" 
  proof
    fix c assume "c \<in> set ids"
    then obtain v where "v \<in> set b" "c = the (cr_id r' (fst v))" using d js by auto
    then show "cr_info r' c \<noteq> None" using reg [of v] by auto
  qed
  show "register_all r (map fst b) = (map (\<lambda>v. the (cr_id r' (fst v))) b, r')" using s(1) js by simp
qed

subsection \<open>The archetype of a bundle\<close>

lemma located_grown:
  assumes "located row_key (places w) (tables w)" "places w' = places w" "tables w' = tables w \<or> tables w' = tables w @ [[]]"
  shows "located row_key (places w') (tables w') \<and> rows w' = rows w"
  using assms located_new_table [OF assms(1)] row_of_new_table [OF assms(1)] unfolding rows_def by auto

lemma struct_extend_reg:
  assumes "struct_ok w" "reg_inv reg" "reg_extends (w_components w) reg"
  shows "struct_ok (w\<lparr>w_components := reg\<rparr>)" "rows (w\<lparr>w_components := reg\<rparr>) = rows w" "places (w\<lparr>w_components := reg\<rparr>) = places w"
proof -
  let ?w = "w\<lparr>w_components := reg\<rparr>"
  show p: "places ?w = places w" by (rule places_cong) simp
  have t: "tables ?w = tables w" by (rule tables_cong) simp
  show "rows ?w = rows w" by (simp add: rows_def p t)
  show "struct_ok ?w"
    using assms as_wf_extends [OF assms(3)] by (simp add: struct_ok_def p t)
qed

lemma archetype_found:
  assumes ok: "struct_ok w" and ids: "distinct ids" "\<forall>c \<in> set ids. cr_info (w_components w) c \<noteq> None"
    and g: "get_or_create t (w_pool w) (w_archetypes w) ids (w_components w) = Some (i, p, archs)"
    and w': "w' = w\<lparr>w_pool := p, w_archetypes := archs\<rparr>"
  shows "struct_ok w'" "rows w' = rows w" "places w' = places w" "i < length (w_archs w')" "ar_sorted_ids (w_archs w' ! i) = ids"
    "j < length (w_archs w) \<Longrightarrow> j < length (w_archs w') \<and> w_archs w' ! j = w_archs w ! j"
    "i \<ge> length (w_archs w) \<Longrightarrow> ar_len (w_archs w' ! i) = 0"
proof -
  note G = get_or_create_step [OF struct_okD(2) [OF ok] ids g]
  show p: "places w' = places w" by (rule places_cong) (simp add: w')
  have la: "as_list archs = w_archs w \<or> (\<exists>a. as_list archs = w_archs w @ [a] \<and> i = length (w_archs w) \<and> ar_consistent a \<and> ar_len a = 0)" using G by auto
  have "tables w' = tables w \<or> tables w' = tables w @ [[]]"
    using la by (auto simp: tables_def w' arch_rows_def)
  note L = located_grown [OF struct_okD(3) [OF ok] p this]
  show "rows w' = rows w" using L by blast
  show "i < length (w_archs w')" "ar_sorted_ids (w_archs w' ! i) = ids" using G by (auto simp: w')
  show "j < length (w_archs w) \<Longrightarrow> j < length (w_archs w') \<and> w_archs w' ! j = w_archs w ! j" using la by (auto simp: w' nth_append)
  show "i \<ge> length (w_archs w) \<Longrightarrow> ar_len (w_archs w' ! i) = 0" using la G by (auto simp: w')
  have "ar_consistent (w_archs w' ! k)" if k: "k < length (w_archs w')" for k
  proof (cases "k < length (w_archs w)")
    case True
    then show ?thesis using struct_okD(5) [OF ok True] la by (auto simp: w' nth_append)
  next
    case False
    then show ?thesis using k la by (auto simp: w' nth_append)
  qed
  then show "struct_ok w'" using L G struct_okD(1) [OF ok] by (intro struct_okI) (simp_all add: w')
qed

definition bundle_reg :: "registry \<Rightarrow> bundle_values \<Rightarrow> registry" where
  "bundle_reg r b = snd (register_all r (map fst b))"

lemma bundle_archetype_ok:
  assumes ok: "settled w" and fit: "bundle_fits (w_components w) b" and r: "bundle_archetype t w b = Some (i, w')"
  shows "settled w'" "rows w' = rows w" "w_components w' = bundle_reg (w_components w) b" "w_entities w' = w_entities w"
    "w_sparse w' = w_sparse w" "w_orphans w' = w_orphans w" "w_tick w' = w_tick w" "bundle_ok (w_components w') b"
    "i < length (w_archs w')" "set (ar_sorted_ids (w_archs w' ! i)) = dom (bundle_map (w_components w') b)"
proof -
  obtain ids reg p archs where s: "bundle_ids (w_components w) b = Some (ids, reg)"
    "get_or_create t (w_pool w) (w_archetypes w) ids reg = Some (i, p, archs)"
    "w' = (w\<lparr>w_components := reg\<rparr>)\<lparr>w_pool := p, w_archetypes := archs\<rparr>"
    using r by (auto simp: bundle_archetype_def Let_def split: bind_splits)
  note B = bundle_ids_ok [OF struct_okD(1) [OF settledD(1) [OF ok]] s(1) fit]
  note X = struct_extend_reg [OF settledD(1) [OF ok] B(1,2)]
  have g: "get_or_create t (w_pool (w\<lparr>w_components := reg\<rparr>)) (w_archetypes (w\<lparr>w_components := reg\<rparr>)) ids (w_components (w\<lparr>w_components := reg\<rparr>)) = Some (i, p, archs)"
    using s(2) by simp
  have inf: "\<forall>c \<in> set ids. cr_info (w_components (w\<lparr>w_components := reg\<rparr>)) c \<noteq> None" using B(7) by simp
  note A = archetype_found [OF X(1) B(5) inf g s(3)]
  show rw: "rows w' = rows w" using A(2) X(2) by simp
  have ent: "w_entities w' = w_entities w" "w_components w' = reg" "w_sparse w' = w_sparse w" "w_orphans w' = w_orphans w" "w_tick w' = w_tick w" by (simp_all add: s(3))
  then show "w_entities w' = w_entities w" "w_sparse w' = w_sparse w" "w_orphans w' = w_orphans w" "w_tick w' = w_tick w" by blast+
  show "w_components w' = bundle_reg (w_components w) b" using B(8) ent by (simp add: bundle_reg_def)
  have "placed_held w'" using settledD(3) [OF ok] rw ent by (simp add: placed_held_def)
  then show "settled w'" using settledD [OF ok] A(1) ent by (intro settledI) simp_all
  show "bundle_ok (w_components w') b" using B(3) ent by simp
  show "i < length (w_archs w')" by (rule A(4))
  show "set (ar_sorted_ids (w_archs w' ! i)) = dom (bundle_map (w_components w') b)" using A(5) B(6) ent by simp
qed

subsection \<open>Appending the row\<close>

lemma column_index_None: "ar_wf reg a \<Longrightarrow> column_index a c = None \<longleftrightarrow> c \<notin> set (ar_sorted_ids a)"
  using ar_wfD(3) [of reg a c] by (cases "column_index a c") (auto simp: in_set_conv_nth)

lemma append_bundle:
  assumes wf: "ar_wf reg a" "ar_consistent a" and bok: "bundle_ok reg b" and ids: "set (ar_sorted_ids a) = dom (bundle_map reg b)"
    and push: "put_push t reg b (p, a) = Some (q, a1)" and es: "pv_push t q (ar_entities a1) e = Some (q', es)"
    and a': "a' = (mark_all_changed a1 tk)\<lparr>ar_entities := es\<rparr>"
  shows "same_shape a a' \<and> ar_wf reg a' \<and> ar_consistent a' \<and> arch_rows a' = arch_rows a @ [(e, bundle_map reg b)] \<and> pv_len (ar_entities a1) = ar_len a"
proof -
  note P = put_push_cols [OF push wf(1) bok]
  have sh1: "same_shape a a1" and e1: "ar_entities a1 = ar_entities a" using P by auto
  have c1: "cols_step (\<lambda>i xs. case bundle_map reg b (ar_sorted_ids a ! i) of None \<Rightarrow> xs | Some x \<Rightarrow> xs @ [x]) reg (ar_sorted_ids a) (ar_columns a) (ar_columns a1)" using P by blast
  have cols: "ar_columns a' = map (\<lambda>c. mark_changed c tk) (ar_columns a1)" by (simp add: a' mark_all_changed_def)
  have len: "length (ar_columns a1) = length (ar_columns a)" by (rule cols_stepD(1) [OF c1])
  have c2: "cols_step (\<lambda>_ xs. xs) reg (ar_sorted_ids a) (ar_columns a1) (ar_columns a')"
    unfolding cols using cols_stepD(2) [OF c1] len by (intro mark_changed_all) simp
  have sh: "same_shape a a'" using sh1 by (simp add: a' mark_all_changed_def)
  let ?v = "\<lambda>i. the (bundle_map reg b (ar_sorted_ids a ! i))"
  have st: "cols_step (\<lambda>i xs. xs @ [?v i]) reg (ar_sorted_ids a) (ar_columns a) (ar_columns a')"
  proof (rule cols_step_cong [OF cols_step_trans [OF c1 c2]])
    fix i assume i: "i < length (ar_columns a)"
    have "ar_sorted_ids a ! i \<in> set (ar_sorted_ids a)" using i ar_wfD(2) [OF wf(1)] by simp
    then have "ar_sorted_ids a ! i \<in> dom (bundle_map reg b)" unfolding ids .
    then show "(case bundle_map reg b (ar_sorted_ids a ! i) of None \<Rightarrow> live_rows (ar_columns a ! i) | Some x \<Rightarrow> live_rows (ar_columns a ! i) @ [x])
        = live_rows (ar_columns a ! i) @ [?v i]" by auto
  qed
  have ee: "pv_elems (ar_entities a') = pv_elems (ar_entities a) @ [e]" using pv_push_elems [OF es] e1 by (simp add: a')
  note R = rows_appended [OF wf sh st ee]
  have "(\<lambda>c. map_option ?v (column_index a c)) = bundle_map reg b"
  proof
    fix c
    show "map_option ?v (column_index a c) = bundle_map reg b c"
    proof (cases "column_index a c")
      case None
      then have "c \<notin> set (ar_sorted_ids a)" using column_index_None [OF wf(1)] by blast
      then show ?thesis using None ids by auto
    next
      case (Some i)
      then have "ar_sorted_ids a ! i = c" "c \<in> set (ar_sorted_ids a)" using ar_wfD(3) [OF wf(1)] by (auto simp: in_set_conv_nth)
      then show ?thesis using Some ids by auto
    qed
  qed
  then show ?thesis using R sh e1 by (simp add: ar_len_def)
qed

lemma held_fresh_rows: "struct_ok w \<Longrightarrow> rows w = (rows v)(ent_index e \<mapsto> (i, e, m)) \<Longrightarrow> placed_held v \<Longrightarrow> w_entities w = w_entities v \<Longrightarrow> held (w_entities v) e \<Longrightarrow> placed_held w"
  by (auto simp: placed_held_def split: if_splits)

lemma place_new_ok:
  assumes ok: "settled w" and pre: "ea_pre EAlloc (ea_abs (w_entities w))" and bok: "bundle_ok (w_components w) b"
    and i: "i < length (w_archs w)" and ids: "set (ar_sorted_ids (w_archs w ! i)) = dom (bundle_map (w_components w) b)"
    and r: "place_new t w i b = Some (e, w')"
  shows "settled w'" "rows w' = (rows w)(ent_index e \<mapsto> (i, e, bundle_map (w_components w) b))" "rows w (ent_index e) = None"
    "ea_spec EAlloc (ea_abs (w_entities w)) = (AEntity e, ea_abs (w_entities w'))" "w_components w' = w_components w"
    "w_sparse w' = w_sparse w" "w_orphans w' = w_orphans w" "w_tick w' = advance (w_tick w)"
    "length (w_archs w') = length (w_archs w)" "ar_sorted_ids (w_archs w' ! i) = ar_sorted_ids (w_archs w ! i)"
proof -
  obtain w1 where al: "world_alloc t w = Some (e, w1)" using r by (auto simp: place_new_def next_tick_def Let_def split: bind_splits)
  note A = world_alloc_ok [OF ok pre al]
  define w2 where "w2 = w1\<lparr>w_tick := advance (w_tick w1)\<rparr>"
  let ?a = "w_archs w ! i"
  have arc: "w_archs w2 = w_archs w" using A(7) by (simp add: w2_def)
  have comp: "w_components w2 = w_components w" using A(8) by (simp add: w2_def)
  have S2: "struct_ok w2 \<and> rows w2 = rows w1 \<and> places w2 = places w1"
  proof -
    have p: "places w2 = places w1" by (rule places_cong) (simp add: w2_def)
    show ?thesis using struct_places [OF settledD(1) [OF A(1)] p] p by (simp add: w2_def)
  qed
  obtain p a1 p' es w4 where s: "put_push t (w_components w2) b (w_pool w2, ?a) = Some (p, a1)"
    "pv_push t p (ar_entities a1) e = Some (p', es)"
    "put_location ((set_archetype w2 i ((mark_all_changed a1 (advance (w_tick w1)))\<lparr>ar_entities := es\<rparr>))\<lparr>w_pool := p'\<rparr>) (ent_index e) i (pv_len (ar_entities a1)) = Some w4" "w' = w4"
    using r al i arc by (auto simp: place_new_def next_tick_def w2_def nth_opt_def Let_def mark_all_changed_def A(7) split: bind_splits)
  define a' where "a' = (mark_all_changed a1 (advance (w_tick w1)))\<lparr>ar_entities := es\<rparr>"
  have wfa: "ar_wf (w_components w2) ?a" "ar_consistent ?a" using struct_okD(4,5) [OF settledD(1) [OF ok] i] comp by simp_all
  have bok2: "bundle_ok (w_components w2) b" "set (ar_sorted_ids ?a) = dom (bundle_map (w_components w2) b)" using bok ids comp by simp_all
  note P = append_bundle [OF wfa bok2 s(1,2) a'_def]
  have i2: "i < length (w_archs w2)" using i arc by simp
  let ?w3 = "(set_archetype w2 i a')\<lparr>w_pool := p'\<rparr>"
  have put: "put_location ?w3 (ent_index e) i (ar_len (w_archs w2 ! i)) = Some w'" using s(3,4) P arc by (simp add: a'_def)
  have wp: "?w3 = set_archetype (w2\<lparr>w_pool := p'\<rparr>) i a'" by (simp add: set_archetype_def)
  have S3: "struct_ok (w2\<lparr>w_pool := p'\<rparr>)" "rows (w2\<lparr>w_pool := p'\<rparr>) = rows w2" "places (w2\<lparr>w_pool := p'\<rparr>) = places w2"
  proof -
    have p: "places (w2\<lparr>w_pool := p'\<rparr>) = places w2" by (rule places_cong) simp
    show "struct_ok (w2\<lparr>w_pool := p'\<rparr>)" "rows (w2\<lparr>w_pool := p'\<rparr>) = rows w2" "places (w2\<lparr>w_pool := p'\<rparr>) = places w2"
      using struct_places [of w2, OF _ p] S2 p by auto
  qed
  have sa: "struct_ok w' \<and> rows w' = (rows (w2\<lparr>w_pool := p'\<rparr>))(ent_index e \<mapsto> (i, e, bundle_map (w_components w) b))"
  proof (rule struct_append [OF S3(1)])
    show "i < length (w_archs (w2\<lparr>w_pool := p'\<rparr>))" using i2 by simp
    show "same_shape (w_archs (w2\<lparr>w_pool := p'\<rparr>) ! i) a'" "ar_wf (w_components (w2\<lparr>w_pool := p'\<rparr>)) a'" "ar_consistent a'"
      "arch_rows a' = arch_rows (w_archs (w2\<lparr>w_pool := p'\<rparr>) ! i) @ [(e, bundle_map (w_components w) b)]" using P arc comp by simp_all
    show "places (w2\<lparr>w_pool := p'\<rparr>) (ent_index e) = None" using S3(3) S2 A(3) by simp
    show "put_location (set_archetype (w2\<lparr>w_pool := p'\<rparr>) i a') (ent_index e) i (ar_len (w_archs (w2\<lparr>w_pool := p'\<rparr>) ! i)) = Some w'"
      using put wp by simp
  qed
  note f = put_location_frame [OF put]
  show rw: "rows w' = (rows w)(ent_index e \<mapsto> (i, e, bundle_map (w_components w) b))" using sa S3(2) S2 A(2) by simp
  have ent: "w_entities w' = w_entities w1" using f by (simp add: w2_def)
  have "placed_held w'"
    using held_fresh_rows [of w' w1 e i] sa rw A(1,2,4) ent settledD(3) by metis
  then show "settled w'" using sa settledD [OF A(1)] f ent by (intro settledI) (simp_all add: w2_def)
  show "rows w (ent_index e) = None" using A(2,3) by (metis rows_def row_of_None)
  show "ea_spec EAlloc (ea_abs (w_entities w)) = (AEntity e, ea_abs (w_entities w'))" using A(6) ent by simp
  show "w_components w' = w_components w" "w_sparse w' = w_sparse w" "w_orphans w' = w_orphans w" "w_tick w' = advance (w_tick w)"
    using f A(8-11) by (simp_all add: w2_def)
  show "length (w_archs w') = length (w_archs w)" using f arc by simp
  show "ar_sorted_ids (w_archs w' ! i) = ar_sorted_ids (w_archs w ! i)" using f arc i P by (simp add: same_shape_def)
qed

end
