(* ===== verification/World_Change.thy ===== *)
theory World_Change
  imports World_Spawn
begin

text \<open>
  Despawning an entity, overwriting its components, and moving its row to another
  archetype when components are added or removed.
\<close>

subsection \<open>Handles and rows\<close>

lemma view_rows: "settled w \<Longrightarrow> view w e = Some m \<longleftrightarrow> (\<exists>a. rows w (ent_index e) = Some (a, e, m))"
  by (auto simp: view_def view_of_def split: option.splits prod.splits if_splits)

lemma view_held:
  assumes "settled w" "view w e = Some m"
  shows "held (w_entities w) e" "ea_is_alive (w_entities w) e"
proof -
  obtain a where "rows w (ent_index e) = Some (a, e, m)" using assms view_rows by blast
  then show "held (w_entities w) e" using settledD(3) [OF assms(1)] by (auto simp: placed_held_def)
  then show "ea_is_alive (w_entities w) e" by (simp add: held_def)
qed

text \<open>An entity that is alive and has a place owns the row at that place.\<close>

lemma own_row:
  assumes ok: "settled w" and al: "ea_is_alive (w_entities w) e" and pl: "places w (ent_index e) = Some (a, r)"
  shows "a < length (w_archs w)" "r < ar_len (w_archs w ! a)" "pv_elems (ar_entities (w_archs w ! a)) ! r = e"
    "rows w (ent_index e) = Some (a, e, row_comps (w_archs w ! a) r)" "view w e = Some (row_comps (w_archs w ! a) r)"
proof -
  note P = rows_place [OF settledD(1) [OF ok] pl]
  show "a < length (w_archs w)" "r < ar_len (w_archs w ! a)" using P by blast+
  have row: "rows w (ent_index e) = Some (a, pv_elems (ar_entities (w_archs w ! a)) ! r, row_comps (w_archs w ! a) r)"
    using P by (simp add: arch_rows_nth)
  then have "held (w_entities w) (pv_elems (ar_entities (w_archs w ! a)) ! r)" using settledD(3) [OF ok] by (auto simp: placed_held_def)
  from held_alive [OF this al] P(4) show e: "pv_elems (ar_entities (w_archs w ! a)) ! r = e" by simp
  show "rows w (ent_index e) = Some (a, e, row_comps (w_archs w ! a) r)" using row e by simp
  then show "view w e = Some (row_comps (w_archs w ! a) r)" using view_rows [OF ok] by blast
qed

lemma places_loc:
  "i < length (w_locs w) \<Longrightarrow> w_locs w ! i = Some l \<Longrightarrow> places w i = Some (el_archetype_id l, el_row_of l)"
  "i < length (w_locs w) \<Longrightarrow> w_locs w ! i = None \<Longrightarrow> places w i = None"
  by (simp_all add: places_def)

lemma unplaced_view: "settled w \<Longrightarrow> places w (ent_index e) = None \<Longrightarrow> view w e = None"
  by (simp add: view_def view_of_def rows_def row_of_def)

lemma dead_view: "settled w \<Longrightarrow> \<not> ea_is_alive (w_entities w) e \<Longrightarrow> view w e = None"
  using view_held(2) by (cases "view w e") auto

text \<open>After a row is removed and its handle released.\<close>

lemma settled_removed:
  assumes ok: "settled w" and own: "rows w (ent_index e) = Some (a, e, m)"
    and w3: "struct_ok w3" "rows w3 = (rows w)(ent_index e := None)" "w_entities w3 = w_entities w" "storage_ok (w_sparse w3)" "w_orphans w3 = w_orphans w"
    and d: "ea_dealloc t p (w_entities w3) e = Some (b, q, en)"
  shows "settled (w3\<lparr>w_pool := q, w_entities := en\<rparr>)" "rows (w3\<lparr>w_pool := q, w_entities := en\<rparr>) = rows w3"
    "ea_abs en = dealloc_spec (ea_abs (w_entities w)) e"
proof -
  let ?w = "w3\<lparr>w_pool := q, w_entities := en\<rparr>"
  have h: "held (w_entities w) e" using own settledD(3) [OF ok] by (auto simp: placed_held_def)
  then have f: "entity_index e \<notin> set (fl_abs (ea_free (w_entities w)))" by (simp add: held_def)
  have d': "ea_dealloc t p (w_entities w) e = Some (b, q, en)" using d w3(3) by simp
  note H = held_dealloc [OF settledD(2) [OF ok] f d']
  show "ea_abs en = dealloc_spec (ea_abs (w_entities w)) e" using H(2) by (simp add: dealloc_spec_def)
  have ss: "same_store w3 ?w" by (simp add: same_store_def)
  show rw: "rows ?w = rows w3" by (rule same_store_rows(1) [OF ss])
  have "held en e'" if r: "rows ?w i = Some (a', e', m')" for i a' e' m'
  proof -
    have r3: "rows w i = Some (a', e', m')" "i \<noteq> ent_index e" using r rw w3(2) by (auto split: if_splits)
    then have "held (w_entities w) e'" "ent_index e' = i" using settledD(3) [OF ok] rows_key [OF settledD(1) [OF ok]] by (auto simp: placed_held_def)
    then show ?thesis using H(3) r3(2) by blast
  qed
  then have "placed_held ?w" by (auto simp: placed_held_def)
  then show "settled ?w" using same_store_struct [OF ss w3(1)] H(1) w3(4,5) settledD(5) [OF ok] by (intro settledI) simp_all
qed

subsection \<open>Despawn\<close>

lemma commit_slot [simp]: "bv_slot (commit_extracted_swap c row) = bv_slot c"
  by (simp add: commit_extracted_swap_def Let_def)

lemma remove_row:
  assumes wf: "ar_wf reg a" "ar_consistent a" and r: "row < ar_len a"
  shows "\<exists>slots cols1 es. extract_all row (ar_columns a) = Some (slots, cols1) \<and> pv_swap_remove (ar_entities a) row = Some (pv_elems (ar_entities a) ! row, es)
    \<and> (let cols' = map (\<lambda>c. commit_extracted_swap c row) cols1; a' = a\<lparr>ar_columns := cols', ar_entities := es\<rparr> in
        same_shape a a' \<and> ar_wf reg a' \<and> ar_consistent a' \<and> arch_rows a' = swap_remove row (arch_rows a)
      \<and> drop_slots boom (ar_sorted_ids a) cols' slots = run_drops boom (row_drops reg (ar_sorted_ids a) (map (\<lambda>c. live_rows c ! row) (ar_columns a))))"
proof -
  have len: "length (ar_sorted_ids a) = length (ar_columns a)" using ar_wfD(2) [OF wf(1)] by simp
  have bl: "\<forall>i < length (ar_columns a). row < bv_len (ar_columns a ! i)" using consistent_len [OF wf(2)] r by simp
  have ty: "\<forall>i < length (ar_columns a). typed reg (ar_sorted_ids a ! i) (ar_columns a ! i) \<and> row < bv_len (ar_columns a ! i)"
    using ar_wfD(4) [OF wf(1)] bl by blast
  obtain slots cols1 where x: "extract_all row (ar_columns a) = Some (slots, cols1)" "cols_step (\<lambda>_ xs. xs) reg (ar_sorted_ids a) (ar_columns a) cols1"
    "\<forall>us. length us = length (ar_columns a) \<longrightarrow> (\<forall>i < length (ar_columns a). bv_slot (us ! i) = bv_slot (cols1 ! i)) \<longrightarrow>
         drop_slots boom (ar_sorted_ids a) us slots = run_drops boom (row_drops reg (ar_sorted_ids a) (map (\<lambda>c. live_rows c ! row) (ar_columns a)))"
    using extract_all_ok [OF len ty, of boom] by blast
  define cols' where "cols' = map (\<lambda>c. commit_extracted_swap c row) cols1"
  have lc: "length cols1 = length (ar_columns a)" by (rule cols_stepD(1) [OF x(2)])
  have st: "cols_step (\<lambda>_. swap_remove row) reg (ar_sorted_ids a) (ar_columns a) cols'" unfolding cols'_def by (rule commit_all [OF x(2) bl])
  define es where "es = (ar_entities a)\<lparr>pv_elems := swap_remove row (pv_elems (ar_entities a))\<rparr>"
  have es: "pv_swap_remove (ar_entities a) row = Some (pv_elems (ar_entities a) ! row, es)" using r by (simp add: es_def ar_len_def)
  define a' where "a' = a\<lparr>ar_columns := cols', ar_entities := es\<rparr>"
  have sh: "same_shape a a'" using lc by (simp add: a'_def cols'_def)
  have "ar_wf reg a' \<and> ar_consistent a' \<and> arch_rows a' = swap_remove row (arch_rows a)"
    using st by (intro rows_removed [OF wf sh r]) (simp_all add: a'_def es_def)
  moreover have "drop_slots boom (ar_sorted_ids a) cols' slots = run_drops boom (row_drops reg (ar_sorted_ids a) (map (\<lambda>c. live_rows c ! row) (ar_columns a)))"
  proof -
    have "length cols' = length (ar_columns a)" "\<forall>i < length (ar_columns a). bv_slot (cols' ! i) = bv_slot (cols1 ! i)"
      using lc by (simp_all add: cols'_def)
    then show ?thesis using x(3) by blast
  qed
  ultimately show ?thesis using x(1) es sh unfolding Let_def a'_def cols'_def by blast
qed

text \<open>The destructors despawning an entity owes for its row.\<close>

definition owed :: "world \<Rightarrow> entity \<Rightarrow> drops" where
  "owed w e = (case places w (ent_index e) of None \<Rightarrow> []
     | Some (a, r) \<Rightarrow> row_drops (w_components w) (ar_sorted_ids (w_archs w ! a)) (map (\<lambda>c. live_rows c ! r) (ar_columns (w_archs w ! a))))"

lemma despawn_ok:
  assumes ok: "settled w" and dr: "drain_orphans t w0 = Some w" and cover: "dom (w_sparse w) \<subseteq> set order"
    and d: "despawn boom order t w0 e = Some ((out, ds), w')"
  shows "if view w e = None then out = Returned False \<and> ds = [] \<and> w' = w
    else \<exists>sds su st. st_remove_all boom order (w_sparse w) e = Some ((sds, su), st) \<and> (if su then out = Unwound \<and> ds = sds \<and> w_entities w' = w_entities w
      else settled w' \<and> view w' = (view w)(e := None) \<and> w_sparse w' = st \<and> w_components w' = w_components w \<and> w_tick w' = w_tick w
        \<and> w_orphans w' = w_orphans w \<and> ea_abs (w_entities w') = dealloc_spec (ea_abs (w_entities w)) e
        \<and> out = (if snd (run_drops boom (owed w e)) then Unwound else Returned True) \<and> ds = sds @ fst (run_drops boom (owed w e)))"
proof (cases "view w e")
  case None
  have "out = Returned False \<and> ds = [] \<and> w' = w"
  proof (cases "ea_is_alive (w_entities w) e")
    case True
    obtain pl where pl: "nth_opt (w_locs w) (ent_index e) = Some pl" using d dr True by (auto simp: despawn_def Let_def split: bind_splits)
    have "pl = None"
    proof (cases pl)
      case (Some l)
      then have "places w (ent_index e) = Some (el_archetype_id l, el_row_of l)" using pl by (auto simp: nth_opt_def places_def split: if_splits)
      from own_row(5) [OF ok True this] None show ?thesis by simp
    qed
    then show ?thesis using d dr True pl by (simp add: despawn_def Let_def)
  qed (use d dr in \<open>simp add: despawn_def\<close>)
  then show ?thesis using None by simp
next
  case (Some m)
  note al = view_held(2) [OF ok Some]
  obtain pl where pl: "nth_opt (w_locs w) (ent_index e) = Some pl" using d dr al by (auto simp: despawn_def Let_def split: bind_splits)
  have i: "ent_index e < length (w_locs w)" "w_locs w ! ent_index e = pl" using pl by (auto simp: nth_opt_def split: if_splits)
  obtain l where l: "pl = Some l"
    using places_loc(2) [OF i(1)] i(2) unplaced_view [OF ok, of e] Some by (cases pl) auto
  let ?aid = "el_archetype_id l" and ?row = "el_row_of l"
  have plc: "places w (ent_index e) = Some (?aid, ?row)" using places_loc(1) [OF i(1)] i(2) l by simp
  note O = own_row [OF ok al plc]
  let ?a = "w_archs w ! ?aid"
  have na: "nth_opt (w_archs w) ?aid = Some ?a" using O(1) by (simp add: nth_opt_def)
  obtain slots cols1 es where rr: "extract_all ?row (ar_columns ?a) = Some (slots, cols1)"
    "pv_swap_remove (ar_entities ?a) ?row = Some (pv_elems (ar_entities ?a) ! ?row, es)"
    "let cols' = map (\<lambda>c. commit_extracted_swap c ?row) cols1; a' = ?a\<lparr>ar_columns := cols', ar_entities := es\<rparr> in
        same_shape ?a a' \<and> ar_wf (w_components w) a' \<and> ar_consistent a' \<and> arch_rows a' = swap_remove ?row (arch_rows ?a)
      \<and> drop_slots boom (ar_sorted_ids ?a) cols' slots = run_drops boom (row_drops (w_components w) (ar_sorted_ids ?a) (map (\<lambda>c. live_rows c ! ?row) (ar_columns ?a)))"
    using remove_row [OF struct_okD(4) [OF settledD(1) [OF ok] O(1)] struct_okD(5) [OF settledD(1) [OF ok] O(1)] O(2), of boom] by blast
  define a' where "a' = ?a\<lparr>ar_columns := map (\<lambda>c. commit_extracted_swap c ?row) cols1, ar_entities := es\<rparr>"
  have A: "same_shape ?a a'" "ar_wf (w_components w) a'" "ar_consistent a'" "arch_rows a' = swap_remove ?row (arch_rows ?a)"
    and ds: "drop_slots boom (ar_sorted_ids ?a) (map (\<lambda>c. commit_extracted_swap c ?row) cols1) slots = run_drops boom (owed w e)"
    using rr(3) plc by (auto simp: Let_def a'_def owed_def)
  have ea: "ar_entities a' = es" "ar_len a' = pv_len es" by (simp_all add: a'_def ar_len_def)
  let ?w1 = "set_archetype w ?aid a'"
  obtain w2 where w2: "(if ?row < pv_len es then put_location ?w1 (ent_index (pv_elems es ! ?row)) ?aid ?row else Some ?w1) = Some w2"
    using d dr al pl l na rr(1,2) by (auto simp: despawn_def Let_def a'_def cong: if_cong simp del: pv_swap_remove_eq split: bind_splits)
  have f2: "w_entities w2 = w_entities w" "w_components w2 = w_components w" "w_sparse w2 = w_sparse w" "w_orphans w2 = w_orphans w" "w_tick w2 = w_tick w"
    using w2 put_location_frame by (auto split: if_splits)
  obtain sds su st where sr: "st_remove_all boom order (w_sparse w) e = Some ((sds, su), st)" "storage_ok st"
    using st_remove_all_run [OF settledD(4) [OF ok]] by blast
  show ?thesis
  proof (cases su)
    case True
    then have "out = Unwound \<and> ds = sds \<and> w' = w2\<lparr>w_sparse := st\<rparr>"
      using d dr al pl l na rr(1,2) w2 sr(1) f2(3) by (simp add: despawn_def Let_def a'_def cong: if_cong del: pv_swap_remove_eq)
    then show ?thesis using Some sr(1) True f2 by auto
  next
    case False
    let ?w3 = "w2\<lparr>w_sparse := st\<rparr>"
    obtain w4 where w4: "set_location ?w3 (ent_index e) None = Some w4"
      using d dr al pl l na rr(1,2) w2 sr(1) f2(3) False by (auto simp: despawn_def Let_def a'_def cong: if_cong simp del: pv_swap_remove_eq split: bind_splits)
    obtain b p en where de: "ea_dealloc t (w_pool w4) (w_entities w4) e = Some (b, p, en)"
      using d dr al pl l na rr(1,2) w2 sr(1) f2(3) False w4 by (auto simp: despawn_def Let_def a'_def cong: if_cong simp del: pv_swap_remove_eq split: bind_splits)
    have res: "w' = w4\<lparr>w_pool := p, w_entities := en\<rparr> \<and> out = (if snd (run_drops boom (owed w e)) then Unwound else Returned True) \<and> ds = sds @ fst (run_drops boom (owed w e))"
      using d dr al pl l na rr(1,2) w2 sr(1) f2(3) False w4 de ds
      by (auto simp: despawn_def Let_def a'_def cong: if_cong simp del: pv_swap_remove_eq split: prod.splits)
    have sr3: "struct_ok w4 \<and> rows w4 = (rows w)(ent_index e := None)"
      by (rule struct_remove [OF settledD(1) [OF ok] plc A _ _ _ _ w4, of w2]) (use w2 ea in \<open>simp_all split: if_splits\<close>)
    note f4 = set_location_frame [OF w4]
    have e4: "w_entities w4 = w_entities w" using f4 f2 by simp
    note R = settled_removed [OF ok O(4) sr3 [THEN conjunct1] sr3 [THEN conjunct2] e4 _ _ de]
    have st4: "storage_ok (w_sparse w4)" "w_orphans w4 = w_orphans w" using f4 f2 sr(2) by simp_all
    have "view w' = (view w)(e := None)"
    proof -
      have "rows w' = (rows w)(ent_index e := None)" using R(2) [OF st4] res sr3 by simp
      then show ?thesis using view_del [of "rows w", OF O(4)] by (simp add: view_def)
    qed
    then show ?thesis using Some sr(1) False res R [OF st4] f4 f2 by auto
  qed
qed

subsection \<open>Overwriting in place\<close>

text \<open>A row of a held entity replaced: the world stays settled.\<close>

lemma settled_put:
  assumes ok: "settled w" and own: "rows w (ent_index e) = Some (a, e, m)"
    and w': "struct_ok w'" "rows w' = (rows w)(ent_index e \<mapsto> (b, e, m'))" "w_entities w' = w_entities w" "w_sparse w' = w_sparse w" "w_orphans w' = w_orphans w"
  shows "settled w'" "view w' = (view w)(e \<mapsto> m')"
proof -
  have "held (w_entities w) e" using own settledD(3) [OF ok] by (auto simp: placed_held_def)
  then have "placed_held w'" using settledD(3) [OF ok] w'(2,3) by (auto simp: placed_held_def split: if_splits)
  then show "settled w'" using w' settledD [OF ok] by (intro settledI) simp_all
  show "view w' = (view w)(e \<mapsto> m')" unfolding view_def w'(2) by (rule view_put) (use own in blast)
qed

lemma bind_index:
  assumes "ar_wf reg a" "dom M \<subseteq> set (ar_sorted_ids a)"
  shows "(\<lambda>c. Option.bind (column_index a c) (\<lambda>i. M (ar_sorted_ids a ! i))) = M"
proof
  fix c
  show "Option.bind (column_index a c) (\<lambda>i. M (ar_sorted_ids a ! i)) = M c"
  proof (cases "column_index a c")
    case None
    then have "c \<notin> dom M" using column_index_None [OF assms(1)] assms(2) by blast
    then have "M c = None" by blast
    then show ?thesis using None by simp
  next
    case (Some i)
    then have "ar_sorted_ids a ! i = c" using ar_wfD(3) [OF assms(1)] by blast
    then show ?thesis using Some by simp
  qed
qed

lemma overwrite_ok:
  assumes ok: "settled w" and al: "ea_is_alive (w_entities w) e" and pl: "places w (ent_index e) = Some (aid, row)"
    and bok: "bundle_ok (w_components w) b" and ids: "dom (bundle_map (w_components w) b) \<subseteq> set (ar_sorted_ids (w_archs w ! aid))"
    and calm: "\<And>c x. \<not> boom c x" and r: "overwrite boom w aid row b = Some ((out, ds), w')"
  shows "out = Returned () \<and> settled w' \<and> view w' = (view w)(e \<mapsto> the (view w e) ++ bundle_map (w_components w) b)
    \<and> w_components w' = w_components w \<and> w_entities w' = w_entities w \<and> w_sparse w' = w_sparse w \<and> w_orphans w' = w_orphans w \<and> w_tick w' = advance (w_tick w)"
proof -
  note O = own_row [OF ok al pl]
  let ?a = "w_archs w ! aid"
  define w1 where "w1 = w\<lparr>w_tick := advance (w_tick w)\<rparr>"
  have ss: "same_store w w1" by (simp add: same_store_def w1_def)
  obtain u a' where s: "put_replace boom (w_components w) row (advance (w_tick w)) b ?a = Some ((ds, u), a')"
    "out = (if u then Unwound else Returned ())" "w' = set_archetype w1 aid a'"
    using r O(1) by (auto simp: overwrite_def next_tick_def w1_def nth_opt_def Let_def split: bind_splits)
  note st = settledD(1) [OF ok]
  note wf = struct_okD(4,5) [OF st O(1)]
  have bl: "\<forall>i < length (ar_columns ?a). row < bv_len (ar_columns ?a ! i)" using consistent_len [OF wf(2)] O(2) by simp
  note P = put_replace_cols [OF s(1) wf(1) bok bl calm]
  have "ar_wf (w_components w) a' \<and> ar_consistent a'
    \<and> arch_rows a' = (arch_rows ?a)[row := (pv_elems (ar_entities ?a) ! row, row_comps ?a row ++ (\<lambda>c. Option.bind (column_index ?a c) (\<lambda>i. bundle_map (w_components w) b (ar_sorted_ids ?a ! i))))]"
    using P by (intro rows_updated [OF wf _ O(2)]) auto
  then have R: "ar_wf (w_components w) a'" "ar_consistent a'"
    "arch_rows a' = (arch_rows ?a)[row := (e, row_comps ?a row ++ bundle_map (w_components w) b)]"
    using bind_index [OF wf(1) ids] O(3) by auto
  have "places w1 (ent_index e) = Some (aid, row)" using same_store_rows(2) [OF ss] pl by simp
  from struct_update [OF same_store_struct [OF ss st] this, of a']
  have "struct_ok w' \<and> rows w' = (rows w1)(ent_index e \<mapsto> (aid, e, row_comps ?a row ++ bundle_map (w_components w) b))"
    using R P unfolding s(3) by (simp add: w1_def)
  then have X: "struct_ok w'" "rows w' = (rows w)(ent_index e \<mapsto> (aid, e, row_comps ?a row ++ bundle_map (w_components w) b))"
    using same_store_rows(1) [OF ss] by auto
  have f: "w_entities w' = w_entities w" "w_sparse w' = w_sparse w" "w_orphans w' = w_orphans w" "w_components w' = w_components w" "w_tick w' = advance (w_tick w)"
    by (simp_all add: s(3) w1_def)
  show ?thesis using settled_put [OF ok O(4) X f(1-3)] O(5) f P s(2) by simp
qed

subsection \<open>Moving a row\<close>

lemma struct_move:
  assumes ok: "struct_ok w" and pl: "places w (ent_index e) = Some (i, r)" and ij: "i \<noteq> j" "j < length (w_archs w)"
    and src: "same_shape (w_archs w ! i) src" "ar_wf (w_components w) src" "ar_consistent src" "arch_rows src = swap_remove r (arch_rows (w_archs w ! i))"
    and tgt: "same_shape (w_archs w ! j) tgt" "ar_wf (w_components w) tgt" "ar_consistent tgt" "arch_rows tgt = arch_rows (w_archs w ! j) @ [(e, m)]"
    and arcs: "w_archetypes w' = (w_archetypes w)\<lparr>as_list := (w_archs w)[i := src, j := tgt]\<rparr>" and comp: "w_components w' = w_components w"
    and locs: "places w' = (if r < ar_len src then (places w)(ent_index (pv_elems (ar_entities src) ! r) \<mapsto> (i, r)) else places w)(ent_index e \<mapsto> (j, ar_len (w_archs w ! j)))"
  shows "struct_ok w' \<and> rows w' = (rows w)(ent_index e \<mapsto> (j, e, m))"
proof -
  let ?x = "(e, m) :: world_row"
  note pr = rows_place [OF ok pl]
  note loc = struct_okD(3) [OF ok]
  have it: "i < length (tables w)" "r < length (tables w ! i)" using pr by (simp_all add: tables_nth)
  have key: "row_key (tables w ! i ! r) = ent_index e" using pr by (simp add: tables_nth arch_rows_nth)
  define L where "L = unplace row_key (places w) (tables w) i r"
  define T where "T = (tables w)[i := swap_remove r (tables w ! i)]"
  have LT: "located row_key L T" unfolding L_def T_def by (rule located_remove [OF loc it])
  have R1: "row_of L T = (rows w)(ent_index e := None)" unfolding L_def T_def rows_def using row_of_remove [OF loc it] key by simp
  have jT: "j < length T" "T ! j = tables w ! j" using ij by (simp_all add: T_def)
  have free: "L (row_key ?x) = None" using unplace_apply [OF loc it] key by (simp add: L_def)
  have "swap_remove r (tables w ! i) = arch_rows src" using src(4) pr(1) by (simp add: tables_nth)
  then have sw: "swap_remove r (tables w ! i) ! r = (pv_elems (ar_entities src) ! r, row_comps src r)" if "r < ar_len src"
    using arch_rows_nth [OF that] by simp
  have len: "length (swap_remove r (tables w ! i)) = ar_len src" using arg_cong [OF src(4), of length] pr(1) by (simp add: tables_nth)
  have p: "places w' = L(row_key ?x \<mapsto> (j, length (T ! j)))"
    unfolding locs L_def unplace_def Let_def len key using sw ij jT(2) by (simp add: tables_nth)
  have t: "tables w' = T[j := T ! j @ [?x]]"
    using arcs src(4) tgt(4) ij pr(1) by (simp add: tables_def T_def map_update)
  have "struct_ok w'"
  proof (rule struct_okI)
    show "located row_key (places w') (tables w')" unfolding p t by (rule located_append [OF LT jT(1) free])
    have "as_wf (w_components w) ((w_archetypes w)\<lparr>as_list := (w_archs w)[i := src]\<rparr>)" by (rule as_wf_set [OF struct_okD(2) [OF ok] pr(1) src(1,2)])
    from as_wf_set [OF this, of j tgt] show "as_wf (w_components w') (w_archetypes w')" using ij tgt(1,2) arcs comp by simp
    show "ar_consistent (w_archs w' ! k)" if "k < length (w_archs w')" for k
    proof -
      have "ar_consistent ((w_archs w)[i := src] ! l)" if "l < length ((w_archs w)[i := src])" for l
        using that by (intro consistent_set struct_okD(5) [OF ok] src(3)) simp_all
      from consistent_set [OF this tgt(3), of k j] that show ?thesis using arcs by simp
    qed
  qed (use struct_okD(1) [OF ok] comp in simp)
  moreover have "rows w' = (rows w)(ent_index e \<mapsto> (j, e, m))"
    unfolding rows_def [of w'] p t using row_of_append [OF LT jT(1) free] R1 by simp
  ultimately show ?thesis by simp
qed

lemma move_entity_ok:
  assumes "move_entity t w e i row j src tgt = Some w'"
  shows "\<exists>es ss. pv_elems es = pv_elems (ar_entities tgt) @ [e] \<and> row < ar_len src \<and> pv_elems ss = swap_remove row (pv_elems (ar_entities src))
    \<and> w_archetypes w' = (w_archetypes w)\<lparr>as_list := (w_archs w)[i := src\<lparr>ar_entities := ss\<rparr>, j := tgt\<lparr>ar_entities := es\<rparr>]\<rparr>
    \<and> places w' = (if row < pv_len ss then (places w)(ent_index (pv_elems ss ! row) \<mapsto> (i, row)) else places w)(ent_index e \<mapsto> (j, ar_len tgt))
    \<and> w_components w' = w_components w \<and> w_entities w' = w_entities w \<and> w_sparse w' = w_sparse w \<and> w_orphans w' = w_orphans w \<and> w_tick w' = w_tick w"
proof -
  obtain p es where es: "pv_push t (w_pool w) (ar_entities tgt) e = Some (p, es)" using assms by (auto simp: move_entity_def split: bind_splits)
  obtain x ss where ss: "pv_swap_remove (ar_entities src) row = Some (x, ss)" using assms es by (auto simp: move_entity_def simp del: pv_swap_remove_eq split: bind_splits)
  define w1 where "w1 = (set_archetype (set_archetype w i (src\<lparr>ar_entities := ss\<rparr>)) j (tgt\<lparr>ar_entities := es\<rparr>))\<lparr>w_pool := p\<rparr>"
  obtain w2 where w2: "(if row < pv_len ss then put_location w1 (ent_index (pv_elems ss ! row)) i row else Some w1) = Some w2"
    "put_location w2 (ent_index e) j (pv_len es - 1) = Some w'"
    using assms es ss by (auto simp: move_entity_def Let_def w1_def cong: if_cong simp del: pv_swap_remove_eq split: bind_splits)
  have e: "pv_elems es = pv_elems (ar_entities tgt) @ [e]" "pv_len es - 1 = ar_len tgt" using pv_push_elems [OF es] by (simp_all add: ar_len_def)
  have s: "row < ar_len src" "pv_elems ss = swap_remove row (pv_elems (ar_entities src))" using ss by (auto simp: ar_len_def split: if_splits)
  have p1: "places w1 = places w" by (rule places_cong) (simp add: w1_def)
  have p2: "places w2 = (if row < pv_len ss then (places w)(ent_index (pv_elems ss ! row) \<mapsto> (i, row)) else places w)"
    using w2(1) put_location_places [of w1 _ _ _ w2] p1 by (auto split: if_splits)
  have f2: "w_archetypes w2 = w_archetypes w1" "w_components w2 = w_components w" "w_entities w2 = w_entities w" "w_sparse w2 = w_sparse w"
    "w_orphans w2 = w_orphans w" "w_tick w2 = w_tick w" using w2(1) put_location_frame [of w1 _ _ _ w2] by (auto simp: w1_def split: if_splits)
  note f = put_location_frame [OF w2(2)]
  have "places w' = (places w2)(ent_index e \<mapsto> (j, ar_len tgt))" using put_location_places [OF w2(2)] e(2) by simp
  moreover have "w_archetypes w' = (w_archetypes w)\<lparr>as_list := (w_archs w)[i := src\<lparr>ar_entities := ss\<rparr>, j := tgt\<lparr>ar_entities := es\<rparr>]\<rparr>"
    using f f2 by (simp add: w1_def set_archetype_def)
  ultimately show ?thesis using e(1) s p2 f f2 by (intro exI [of _ es] exI [of _ ss]) simp
qed

end
