(* ===== verification/World_Move.thy ===== *)
theory World_Move
  imports World_Change
begin

text \<open>
  Adding and removing components: the row of an entity moves between archetypes with
  exactly the values it should have.
\<close>

subsection \<open>The columns of a moved row\<close>

lemma moved_map_all:
  assumes "ar_wf reg a"
  shows "moved_map (enumerate 0 (ar_sorted_ids a)) leaving (ar_columns a) row = row_comps a row |` (- leaving)"
proof
  fix c
  let ?ids = "ar_sorted_ids a"
  let ?xs = "map (\<lambda>(k, cid). (cid, bv_read (ar_columns a ! k) row)) (enumerate 0 ?ids)"
  have d: "distinct (map fst ?xs)" using ar_wf_distinct [OF assms] by (simp add: split_def comp_def)
  have "map_of ?xs c = row_comps a row c"
  proof (cases "column_index a c")
    case None
    then have "c \<notin> set ?ids" using column_index_None [OF assms] by blast
    then have "c \<notin> fst ` set ?xs" by (auto simp: in_set_enumerate_eq)
    then show ?thesis using None by (simp add: row_comps_def map_of_eq_None_iff)
  next
    case (Some i)
    then have i: "i < length ?ids" "?ids ! i = c" using ar_wfD(3) [OF assms] by blast+
    have "(i, c) \<in> set (enumerate 0 ?ids)" using i by (simp add: in_set_enumerate_eq)
    then have "(c, bv_read (ar_columns a ! i) row) \<in> set ?xs" by force
    then show ?thesis using Some d by (simp add: row_comps_def)
  qed
  then show "moved_map (enumerate 0 ?ids) leaving (ar_columns a) row c = (row_comps a row |` (- leaving)) c"
    by (simp add: moved_map_def restrict_map_def)
qed

lemma moved_row:
  assumes wf: "ar_wf reg src" "ar_consistent src" "ar_wf reg tgt" and row: "row < ar_len src"
    and m: "move_columns boom drop_old t reg leaving row (enumerate 0 (ar_sorted_ids src)) (p, src, tgt) = Some ((ds, u), q, src1, tgt1)"
    and sub: "set (ar_sorted_ids src) \<subseteq> leaving \<union> set (ar_sorted_ids tgt)" and calm: "\<And>c x. \<not> boom c x"
  shows "\<not> u" "same_shape src src1" "ar_entities src1 = ar_entities src" "same_shape tgt tgt1" "ar_entities tgt1 = ar_entities tgt"
    "cols_step (\<lambda>_. swap_remove row) reg (ar_sorted_ids src) (ar_columns src) (ar_columns src1)"
    "cols_step (\<lambda>j xs. case (row_comps src row |` (- leaving)) (ar_sorted_ids tgt ! j) of None \<Rightarrow> xs | Some x \<Rightarrow> xs @ [x])
        reg (ar_sorted_ids tgt) (ar_columns tgt) (ar_columns tgt1)"
proof -
  let ?ks = "enumerate 0 (ar_sorted_ids src)"
  have len: "length (ar_columns src) = length (ar_sorted_ids src)" by (rule ar_wfD(2) [OF wf(1)])
  have d: "distinct (map fst ?ks)" by simp
  have mem: "\<forall>(k, cid) \<in> set ?ks. k < length (ar_columns src) \<and> ar_sorted_ids src ! k = cid \<and> (cid \<in> leaving \<or> cid \<in> set (ar_sorted_ids tgt))"
    using sub len nth_mem by (fastforce simp: in_set_enumerate_eq)
  have rows: "\<forall>i < length (ar_columns src). row < bv_len (ar_columns src ! i) \<or> i \<notin> fst ` set ?ks"
    using consistent_len [OF wf(2)] row by simp
  note M = move_columns_ok [OF m wf(1,3) d mem rows calm]
  have fs: "fst ` set ?ks = {..<length (ar_columns src)}" unfolding len by (simp flip: set_map add: atLeast0LessThan)
  show "\<not> u" "same_shape src src1" "ar_entities src1 = ar_entities src" "same_shape tgt tgt1" "ar_entities tgt1 = ar_entities tgt" using M by blast+
  have "cols_step (\<lambda>i xs. if i \<in> fst ` set ?ks then swap_remove row xs else xs) reg (ar_sorted_ids src) (ar_columns src) (ar_columns src1)" using M by blast
  then show "cols_step (\<lambda>_. swap_remove row) reg (ar_sorted_ids src) (ar_columns src) (ar_columns src1)"
    by (rule cols_step_cong) (simp add: fs)
  have "cols_step (\<lambda>j xs. case moved_map ?ks leaving (ar_columns src) row (ar_sorted_ids tgt ! j) of None \<Rightarrow> xs | Some x \<Rightarrow> xs @ [x])
        reg (ar_sorted_ids tgt) (ar_columns tgt) (ar_columns tgt1)" using M by blast
  then show "cols_step (\<lambda>j xs. case (row_comps src row |` (- leaving)) (ar_sorted_ids tgt ! j) of None \<Rightarrow> xs | Some x \<Rightarrow> xs @ [x])
        reg (ar_sorted_ids tgt) (ar_columns tgt) (ar_columns tgt1)" unfolding moved_map_all [OF wf(1)] .
qed

text \<open>The whole move, once the target's columns have their values.\<close>

lemma move_finish:
  assumes ok: "settled w" and al: "ea_is_alive (w_entities w) e" and pl: "places w (ent_index e) = Some (i, row)"
    and ij: "i \<noteq> j" "j < length (w_archs w)"
    and src: "same_shape (w_archs w ! i) src1" "ar_entities src1 = ar_entities (w_archs w ! i)"
      "cols_step (\<lambda>_. swap_remove row) (w_components w) (ar_sorted_ids (w_archs w ! i)) (ar_columns (w_archs w ! i)) (ar_columns src1)"
    and tgt: "same_shape (w_archs w ! j) tgt1" "ar_entities tgt1 = ar_entities (w_archs w ! j)"
      "cols_step (\<lambda>k xs. xs @ [the (m (ar_sorted_ids (w_archs w ! j) ! k))]) (w_components w) (ar_sorted_ids (w_archs w ! j)) (ar_columns (w_archs w ! j)) (ar_columns tgt1)"
    and dom: "dom m = set (ar_sorted_ids (w_archs w ! j))"
    and v: "w_archetypes v = w_archetypes w" "w_locations v = w_locations w" "w_components v = w_components w" "w_entities v = w_entities w"
      "w_sparse v = w_sparse w" "w_orphans v = w_orphans w"
    and mv: "move_entity t v e i row j src1 tgt1 = Some w'"
  shows "settled w'" "view w' = (view w)(e \<mapsto> m)" "w_components w' = w_components w" "w_entities w' = w_entities w"
    "w_sparse w' = w_sparse w" "w_orphans w' = w_orphans w" "w_tick w' = w_tick v"
proof -
  note O = own_row [OF ok al pl]
  note st = settledD(1) [OF ok]
  let ?src = "w_archs w ! i" and ?tgt = "w_archs w ! j"
  note ws = struct_okD(4,5) [OF st O(1)]
  note wt = struct_okD(4,5) [OF st ij(2)]
  obtain es ss where E: "pv_elems es = pv_elems (ar_entities tgt1) @ [e]" "pv_elems ss = swap_remove row (pv_elems (ar_entities src1))"
    "w_archetypes w' = (w_archetypes v)\<lparr>as_list := (w_archs v)[i := src1\<lparr>ar_entities := ss\<rparr>, j := tgt1\<lparr>ar_entities := es\<rparr>]\<rparr>"
    "places w' = (if row < pv_len ss then (places v)(ent_index (pv_elems ss ! row) \<mapsto> (i, row)) else places v)(ent_index e \<mapsto> (j, ar_len tgt1))"
    and f: "w_components w' = w_components v" "w_entities w' = w_entities v" "w_sparse w' = w_sparse v" "w_orphans w' = w_orphans v" "w_tick w' = w_tick v"
    using move_entity_ok [OF mv] by blast
  have pv: "places v = places w" by (rule places_cong) (use v in simp)
  define src' where "src' = src1\<lparr>ar_entities := ss\<rparr>"
  define tgt' where "tgt' = tgt1\<lparr>ar_entities := es\<rparr>"
  have sh: "same_shape ?src src'" "same_shape ?tgt tgt'" using src(1) tgt(1) by (simp_all add: src'_def tgt'_def)
  have S: "ar_wf (w_components w) src' \<and> ar_consistent src' \<and> arch_rows src' = swap_remove row (arch_rows ?src)"
    by (rule rows_removed [OF ws sh(1) O(2)]) (use src E(2) in \<open>simp_all add: src'_def\<close>)
  have T: "ar_wf (w_components w) tgt' \<and> ar_consistent tgt' \<and> arch_rows tgt' = arch_rows ?tgt @ [(e, \<lambda>c. map_option (\<lambda>k. the (m (ar_sorted_ids ?tgt ! k))) (column_index ?tgt c))]"
    by (rule rows_appended [OF wt sh(2)]) (use tgt E(1) in \<open>simp_all add: tgt'_def\<close>)
  have mm: "(\<lambda>c. map_option (\<lambda>k. the (m (ar_sorted_ids ?tgt ! k))) (column_index ?tgt c)) = m"
  proof
    fix c
    show "map_option (\<lambda>k. the (m (ar_sorted_ids ?tgt ! k))) (column_index ?tgt c) = m c"
    proof (cases "column_index ?tgt c")
      case None
      then have "c \<notin> dom m" using column_index_None [OF wt(1)] dom by blast
      then have "m c = None" by blast
      then show ?thesis using None by simp
    next
      case (Some k)
      then have k: "k < length (ar_sorted_ids ?tgt)" "ar_sorted_ids ?tgt ! k = c" using ar_wfD(3) [OF wt(1)] by blast+
      then have "c \<in> dom m" unfolding dom by auto
      then show ?thesis using Some k by auto
    qed
  qed
  have X: "struct_ok w' \<and> rows w' = (rows w)(ent_index e \<mapsto> (j, e, m))"
  proof (rule struct_move [OF st pl ij sh(1) _ _ _ sh(2)])
    show "ar_wf (w_components w) src'" "ar_consistent src'" "arch_rows src' = swap_remove row (arch_rows ?src)" using S by auto
    show "ar_wf (w_components w) tgt'" "ar_consistent tgt'" "arch_rows tgt' = arch_rows ?tgt @ [(e, m)]" using T mm by auto
    show "w_archetypes w' = (w_archetypes w)\<lparr>as_list := (w_archs w)[i := src', j := tgt']\<rparr>" using E(3) v(1) by (simp add: src'_def tgt'_def)
    show "w_components w' = w_components w" using f(1) v(3) by simp
    have len: "ar_len src' = pv_len ss" "pv_elems (ar_entities src') = pv_elems ss" "ar_len tgt1 = ar_len ?tgt" using tgt(2) by (simp_all add: src'_def ar_len_def)
    show "places w' = (if row < ar_len src' then (places w)(ent_index (pv_elems (ar_entities src') ! row) \<mapsto> (i, row)) else places w)(ent_index e \<mapsto> (j, ar_len ?tgt))"
      using E(4) unfolding pv len .
  qed
  have f': "w_entities w' = w_entities w" "w_sparse w' = w_sparse w" "w_orphans w' = w_orphans w" "w_components w' = w_components w" using f v by simp_all
  show "settled w'" "view w' = (view w)(e \<mapsto> m)" using settled_put [OF ok O(4)] X f'(1-3) by blast+
  show "w_components w' = w_components w" "w_entities w' = w_entities w" "w_sparse w' = w_sparse w" "w_orphans w' = w_orphans w" by (rule f')+
  show "w_tick w' = w_tick v" by (rule f(5))
qed

subsection \<open>Inserting\<close>

lemma migrate_insert_ok:
  assumes ok: "settled w" and al: "ea_is_alive (w_entities w) e" and pl: "places w (ent_index e) = Some (i, row)"
    and bok: "bundle_ok (w_components w) b" and new: "set new_ids = dom (bundle_map (w_components w) b)"
    and ij: "i \<noteq> j" "j < length (w_archs w)" and ids: "set (ar_sorted_ids (w_archs w ! j)) = set (ar_sorted_ids (w_archs w ! i)) \<union> set new_ids"
    and calm: "\<And>c x. \<not> boom c x" and r: "migrate_insert boom t w e i row j new_ids b tk = Some ((out, ds), w')"
  shows "out = Returned () \<and> settled w' \<and> view w' = (view w)(e \<mapsto> the (view w e) ++ bundle_map (w_components w) b)
    \<and> w_components w' = w_components w \<and> w_entities w' = w_entities w \<and> w_sparse w' = w_sparse w \<and> w_orphans w' = w_orphans w \<and> w_tick w' = w_tick w"
proof -
  note O = own_row [OF ok al pl]
  note st = settledD(1) [OF ok]
  let ?src = "w_archs w ! i" and ?tgt = "w_archs w ! j" and ?reg = "w_components w"
  note ws = struct_okD(4,5) [OF st O(1)]
  note wt = struct_okD(4,5) [OF st ij(2)]
  have gp: "get_pair (w_archs w) i j = Some (?src, ?tgt)" using ij O(1) by (simp add: get_pair_def nth_opt_def)
  obtain ds1 u p src1 tgt1 where mv: "move_columns boom True t ?reg (set new_ids) row (enumerate 0 (ar_sorted_ids ?src)) (w_pool w, ?src, ?tgt) = Some ((ds1, u), p, src1, tgt1)"
    using r gp by (auto simp: migrate_insert_def split: bind_splits)
  have sub: "set (ar_sorted_ids ?src) \<subseteq> set new_ids \<union> set (ar_sorted_ids ?tgt)" using ids by blast
  note M = moved_row [OF ws wt(1) O(2) mv sub calm]
  obtain p' tgt2 where pp: "put_push t ?reg b (p, tgt1) = Some (p', tgt2)"
    and me: "move_entity t (w\<lparr>w_pool := p'\<rparr>) e i row j src1 (mark_all_changed tgt2 tk) = Some w'" and out: "out = Returned ()"
    using r gp mv M(1) by (auto simp: migrate_insert_def split: bind_splits)
  have wt1: "ar_wf ?reg tgt1" by (rule wf_step [OF wt(1) M(4,7)])
  note P = put_push_cols [OF pp wt1 bok]
  have sid: "ar_sorted_ids tgt1 = ar_sorted_ids ?tgt" using M(4) by (simp add: same_shape_def)
  let ?B = "bundle_map ?reg b" and ?R = "row_comps ?src row"
  have c2: "cols_step (\<lambda>k xs. case ?B (ar_sorted_ids ?tgt ! k) of None \<Rightarrow> xs | Some x \<Rightarrow> xs @ [x]) ?reg (ar_sorted_ids ?tgt) (ar_columns tgt1) (ar_columns tgt2)"
    using P unfolding sid by blast
  have len2: "length (ar_columns tgt2) = length (ar_columns ?tgt)" using cols_stepD(1) [OF c2] cols_stepD(1) [OF M(7)] by simp
  have c3: "cols_step (\<lambda>_ xs. xs) ?reg (ar_sorted_ids ?tgt) (ar_columns tgt2) (ar_columns (mark_all_changed tgt2 tk))"
    using cols_stepD(2) [OF c2] cols_stepD(1) [OF c2] by (simp add: mark_all_changed_def mark_changed_all)
  let ?m = "?R ++ ?B"
  have domR: "dom ?R = set (ar_sorted_ids ?src)" by (rule row_comps_dom [OF ws(1)])
  have dom: "dom ?m = set (ar_sorted_ids ?tgt)" using ids new domR by auto
  have cols: "cols_step (\<lambda>k xs. xs @ [the (?m (ar_sorted_ids ?tgt ! k))]) ?reg (ar_sorted_ids ?tgt) (ar_columns ?tgt) (ar_columns (mark_all_changed tgt2 tk))"
  proof (rule cols_step_cong [OF cols_step_trans [OF cols_step_trans [OF M(7) c2] c3]])
    fix k assume k: "k < length (ar_columns ?tgt)"
    let ?c = "ar_sorted_ids ?tgt ! k" and ?xs = "live_rows (ar_columns ?tgt ! k)"
    have "?c \<in> set (ar_sorted_ids ?tgt)" using k ar_wfD(2) [OF wt(1)] by simp
    then have c: "?c \<in> set (ar_sorted_ids ?src) \<or> ?c \<in> set new_ids" using ids by blast
    show "(case ?B ?c of None \<Rightarrow> (case (?R |` (- set new_ids)) ?c of None \<Rightarrow> ?xs | Some x \<Rightarrow> ?xs @ [x])
       | Some x \<Rightarrow> (case (?R |` (- set new_ids)) ?c of None \<Rightarrow> ?xs | Some x \<Rightarrow> ?xs @ [x]) @ [x]) = ?xs @ [the (?m ?c)]"
    proof (cases "?c \<in> set new_ids")
      case True
      then obtain x where "?B ?c = Some x" using new by blast
      then show ?thesis using True by (simp add: restrict_map_def)
    next
      case False
      then have "?B ?c = None" using new by (metis domIff)
      moreover obtain y where "?R ?c = Some y" using c False domR by blast
      ultimately show ?thesis using False by (simp add: restrict_map_def map_add_def)
    qed
  qed
  have sh: "same_shape ?tgt (mark_all_changed tgt2 tk)" "ar_entities (mark_all_changed tgt2 tk) = ar_entities ?tgt"
  proof -
    have "same_shape ?tgt tgt2" using P same_shape_trans [OF M(4)] by blast
    then show "same_shape ?tgt (mark_all_changed tgt2 tk)" by (simp add: mark_all_changed_def)
    show "ar_entities (mark_all_changed tgt2 tk) = ar_entities ?tgt" using P M(5) by (simp add: mark_all_changed_def)
  qed
  note F = move_finish [OF ok al pl ij M(2,3,6) sh cols dom _ _ _ _ _ _ me]
  show ?thesis using F out O(5) by simp
qed

text \<open>Registering the types of a bundle, and finding the target archetype, leave the contents alone.\<close>

lemma settled_reg:
  assumes "settled w" "reg_inv reg" "reg_extends (w_components w) reg"
  shows "settled (w\<lparr>w_components := reg\<rparr>)" "rows (w\<lparr>w_components := reg\<rparr>) = rows w" "places (w\<lparr>w_components := reg\<rparr>) = places w"
proof -
  note X = struct_extend_reg [OF settledD(1) [OF assms(1)] assms(2,3)]
  show "settled (w\<lparr>w_components := reg\<rparr>)" using settledD [OF assms(1)] X by (intro settledI) (simp_all add: placed_held_def)
  show "rows (w\<lparr>w_components := reg\<rparr>) = rows w" "places (w\<lparr>w_components := reg\<rparr>) = places w" using X by blast+
qed

lemma settled_found:
  assumes ok: "settled w" and ids: "distinct ids" "\<forall>c \<in> set ids. cr_info (w_components w) c \<noteq> None"
    and g: "get_or_create t (w_pool w) (w_archetypes w) ids (w_components w) = Some (i, p, archs)"
    and w': "w' = w\<lparr>w_pool := p, w_archetypes := archs\<rparr>"
  shows "settled w'" "rows w' = rows w" "places w' = places w" "i < length (w_archs w')" "ar_sorted_ids (w_archs w' ! i) = ids"
    "j < length (w_archs w) \<Longrightarrow> j < length (w_archs w') \<and> w_archs w' ! j = w_archs w ! j"
proof -
  note A = archetype_found [OF settledD(1) [OF ok] ids g w']
  show "settled w'" using settledD [OF ok] A(1,2) by (intro settledI) (simp_all add: placed_held_def w')
qed (use archetype_found [OF settledD(1) [OF ok] ids g w'] in blast)+

lemma target_ids_set: "ar_wf reg src \<Longrightarrow> distinct new_ids \<Longrightarrow> set (target_ids src new_ids) = set (ar_sorted_ids src) \<union> set new_ids \<and> distinct (target_ids src new_ids)"
  using ar_wfD(1) [of reg src] ar_wf_distinct [of reg src] by (auto simp: target_ids_def)

lemma ar_wf_infos: "ar_wf reg a \<Longrightarrow> c \<in> set (ar_sorted_ids a) \<Longrightarrow> cr_info reg c \<noteq> None"
  using ar_wfD(2,4) [of reg a] by (fastforce simp: in_set_conv_nth typed_def)

text \<open>The place an insertion starts from.\<close>

definition loc_of :: "world \<Rightarrow> entity \<Rightarrow> entity_location option" where
  "loc_of w e = (if ent_index e < length (w_locs w) then w_locs w ! ent_index e else None)"

lemma loc_of_places: "places w (ent_index e) = map_option (\<lambda>l. (el_archetype_id l, el_row_of l)) (loc_of w e)"
  by (simp add: places_def loc_of_def)

text \<open>From the resolved bundle on, both insertions are the same up to the reservation of the target row.\<close>

lemma insert_cases:
  assumes ok: "settled w" and al: "ea_is_alive (w_entities w) e" and l: "loc_of w e = Some l"
    and fit: "bundle_fits (w_components w) b" and bi: "bundle_ids (w_components w) b = Some (new_ids, reg)"
    and w1: "w1 = w\<lparr>w_components := reg\<rparr>"
  shows "settled w1" "rows w1 = rows w" "reg = bundle_reg (w_components w) b" "bundle_ok reg b" "distinct new_ids" "set new_ids = dom (bundle_map reg b)"
    "places w1 (ent_index e) = Some (el_archetype_id l, el_row_of l)" "el_archetype_id l < length (w_archs w1)"
    "list_all (\<lambda>i. i \<in> ar_component_ids (w_archs w1 ! el_archetype_id l)) new_ids \<longleftrightarrow> dom (bundle_map reg b) \<subseteq> set (ar_sorted_ids (w_archs w1 ! el_archetype_id l))"
    "c \<in> set (target_ids (w_archs w1 ! el_archetype_id l) new_ids) \<Longrightarrow> cr_info reg c \<noteq> None"
    "ar_wf reg (w_archs w1 ! el_archetype_id l)"
proof -
  note B = bundle_ids_ok [OF struct_okD(1) [OF settledD(1) [OF ok]] bi fit]
  note S = settled_reg [OF ok B(1,2)]
  show s1: "settled w1" "rows w1 = rows w" using S unfolding w1 by blast+
  show "reg = bundle_reg (w_components w) b" using B(8) by (simp add: bundle_reg_def)
  show "bundle_ok reg b" "distinct new_ids" "set new_ids = dom (bundle_map reg b)" by (rule B)+
  show p: "places w1 (ent_index e) = Some (el_archetype_id l, el_row_of l)" using S(3) loc_of_places [of w e] l unfolding w1 by simp
  have al1: "ea_is_alive (w_entities w1) e" using al by (simp add: w1)
  show a: "el_archetype_id l < length (w_archs w1)" by (rule own_row(1) [OF s1(1) al1 p])
  show wf: "ar_wf reg (w_archs w1 ! el_archetype_id l)" using struct_okD(4) [OF settledD(1) [OF s1(1)] a] by (simp add: w1)
  show "list_all (\<lambda>i. i \<in> ar_component_ids (w_archs w1 ! el_archetype_id l)) new_ids \<longleftrightarrow> dom (bundle_map reg b) \<subseteq> set (ar_sorted_ids (w_archs w1 ! el_archetype_id l))"
    using ar_wfD(1) [OF wf] B(6) by (auto simp: list_all_iff)
  show "cr_info reg c \<noteq> None" if "c \<in> set (target_ids (w_archs w1 ! el_archetype_id l) new_ids)"
    using that target_ids_set [OF wf B(5)] B(7) ar_wf_infos [OF wf] by blast
qed

lemma insert_target:
  assumes ok: "settled w1" and src: "i < length (w_archs w1)" and d: "distinct new_ids"
    and inf: "\<And>c. c \<in> set (target_ids (w_archs w1 ! i) new_ids) \<Longrightarrow> cr_info (w_components w1) c \<noteq> None"
    and notall: "\<not> set new_ids \<subseteq> set (ar_sorted_ids (w_archs w1 ! i))"
    and g: "get_or_create t (w_pool w1) (w_archetypes w1) (target_ids (w_archs w1 ! i) new_ids) (w_components w1) = Some (j, p, archs)"
    and w2: "w2 = w1\<lparr>w_pool := p, w_archetypes := archs\<rparr>"
  shows "settled w2" "rows w2 = rows w1" "places w2 = places w1" "i \<noteq> j" "j < length (w_archs w2)"
    "set (ar_sorted_ids (w_archs w2 ! j)) = set (ar_sorted_ids (w_archs w2 ! i)) \<union> set new_ids"
proof -
  let ?src = "w_archs w1 ! i"
  have wf: "ar_wf (w_components w1) ?src" by (rule struct_okD(4) [OF settledD(1) [OF ok] src])
  note T = target_ids_set [OF wf d]
  have inf': "\<forall>c \<in> set (target_ids ?src new_ids). cr_info (w_components w1) c \<noteq> None" using inf by blast
  note F = settled_found [OF ok _ inf' g w2]
  have dt: "distinct (target_ids ?src new_ids)" using T by blast
  show "settled w2" "rows w2 = rows w1" "places w2 = places w1" "j < length (w_archs w2)" by (rule F [OF dt])+
  have i2: "w_archs w2 ! i = ?src" using F(6) [OF dt src] by blast
  show u: "set (ar_sorted_ids (w_archs w2 ! j)) = set (ar_sorted_ids (w_archs w2 ! i)) \<union> set new_ids" using F(5) [OF dt] T i2 by simp
  show "i \<noteq> j" using u i2 notall by (metis Un_upper2)
qed

lemma insert_dead:
  assumes ok: "settled w" and "\<not> ea_is_alive (w_entities w) e \<or> loc_of w e = None"
  shows "view w e = None"
  using assms dead_view [OF ok] unplaced_view [OF ok] loc_of_places [of w e] by auto

definition inserted :: "world \<Rightarrow> entity \<Rightarrow> bundle_values \<Rightarrow> world \<Rightarrow> bool" where
  "inserted w e b w' \<longleftrightarrow> settled w' \<and> w_components w' = bundle_reg (w_components w) b
     \<and> view w' = (view w)(e \<mapsto> the (view w e) ++ bundle_map (bundle_reg (w_components w) b) b)
     \<and> w_entities w' = w_entities w \<and> w_sparse w' = w_sparse w \<and> w_orphans w' = w_orphans w \<and> w_tick w' = advance (w_tick w)"

lemma view_rows_eq: "rows w' = rows w \<Longrightarrow> view w' = view w"
  by (simp add: view_def)

lemma inserted_trans: "rows w1 = rows w \<Longrightarrow> w_entities w1 = w_entities w \<Longrightarrow> w_sparse w1 = w_sparse w \<Longrightarrow> w_orphans w1 = w_orphans w \<Longrightarrow> w_tick w1 = w_tick w \<Longrightarrow>
  w_components w1 = bundle_reg (w_components w) b \<Longrightarrow> settled w' \<Longrightarrow> view w' = (view w1)(e \<mapsto> the (view w1 e) ++ bundle_map (w_components w1) b) \<Longrightarrow>
  w_components w' = w_components w1 \<Longrightarrow> w_entities w' = w_entities w1 \<Longrightarrow> w_sparse w' = w_sparse w1 \<Longrightarrow> w_orphans w' = w_orphans w1 \<Longrightarrow> w_tick w' = advance (w_tick w1) \<Longrightarrow> inserted w e b w'"
  using view_rows_eq [of w1 w] by (simp add: inserted_def)

text \<open>The two ways an insertion ends once the bundle is resolved.\<close>

lemma insert_overwrite:
  assumes ok: "settled w" and al: "ea_is_alive (w_entities w) e" and l: "loc_of w e = Some l"
    and fit: "bundle_fits (w_components w) b" and bi: "bundle_ids (w_components w) b = Some (new_ids, reg)" and w1: "w1 = w\<lparr>w_components := reg\<rparr>"
    and all: "list_all (\<lambda>i. i \<in> ar_component_ids (w_archs w1 ! el_archetype_id l)) new_ids" and calm: "\<And>c x. \<not> boom c x"
    and r: "overwrite boom w1 (el_archetype_id l) (el_row_of l) b = Some ((out, ds), w')"
  shows "out = Returned () \<and> inserted w e b w'"
proof -
  note C = insert_cases [OF ok al l fit bi w1]
  have al1: "ea_is_alive (w_entities w1) e" and c1: "w_components w1 = reg" using al by (simp_all add: w1)
  have b1: "bundle_ok (w_components w1) b" "dom (bundle_map (w_components w1) b) \<subseteq> set (ar_sorted_ids (w_archs w1 ! el_archetype_id l))"
    using C(4,9) all c1 by simp_all
  note V = overwrite_ok [OF C(1) al1 C(7) b1 calm r]
  have "inserted w e b w'" by (rule inserted_trans [of w1]) (use V C(2,3) in \<open>simp_all add: w1\<close>)
  then show ?thesis using V by blast
qed

lemma insert_migrate:
  assumes ok: "settled w" and al: "ea_is_alive (w_entities w) e" and l: "loc_of w e = Some l"
    and fit: "bundle_fits (w_components w) b" and bi: "bundle_ids (w_components w) b = Some (new_ids, reg)" and w1: "w1 = w\<lparr>w_components := reg\<rparr>"
    and notall: "\<not> list_all (\<lambda>i. i \<in> ar_component_ids (w_archs w1 ! el_archetype_id l)) new_ids"
    and g: "get_or_create t (w_pool w1) (w_archetypes w1) (target_ids (w_archs w1 ! el_archetype_id l) new_ids) reg = Some (j, p, archs)"
    and w2: "w2 = w1\<lparr>w_pool := p, w_archetypes := archs\<rparr>"
  shows "settled w2 \<and> rows w2 = rows w \<and> el_archetype_id l \<noteq> j \<and> j < length (w_archs w2) \<and> w_components w2 = bundle_reg (w_components w) b"
    and "settled w3 \<Longrightarrow> rows w3 = rows w2 \<Longrightarrow> places w3 = places w2 \<Longrightarrow> w_components w3 = w_components w2 \<Longrightarrow> w_entities w3 = w_entities w2 \<Longrightarrow> w_sparse w3 = w_sparse w2
      \<Longrightarrow> w_orphans w3 = w_orphans w2 \<Longrightarrow> w_tick w3 = advance (w_tick w2) \<Longrightarrow> length (w_archs w3) = length (w_archs w2)
      \<Longrightarrow> (\<And>k. k < length (w_archs w2) \<Longrightarrow> ar_sorted_ids (w_archs w3 ! k) = ar_sorted_ids (w_archs w2 ! k)) \<Longrightarrow> (\<And>c x. \<not> boom c x)
      \<Longrightarrow> migrate_insert boom t w3 e (el_archetype_id l) (el_row_of l) j new_ids b tk = Some ((out, ds), w') \<Longrightarrow> out = Returned () \<and> inserted w e b w'"
proof -
  note C = insert_cases [OF ok al l fit bi w1]
  have c1: "w_components w1 = reg" by (simp add: w1)
  have n: "\<not> set new_ids \<subseteq> set (ar_sorted_ids (w_archs w1 ! el_archetype_id l))" using notall C(6,9) by simp
  have g1: "get_or_create t (w_pool w1) (w_archetypes w1) (target_ids (w_archs w1 ! el_archetype_id l) new_ids) (w_components w1) = Some (j, p, archs)" using g c1 by simp
  have inf: "cr_info (w_components w1) c \<noteq> None" if "c \<in> set (target_ids (w_archs w1 ! el_archetype_id l) new_ids)" for c using C(10) [OF that] c1 by simp
  note T = insert_target [OF C(1) C(8) C(5) inf n g1 w2]
  have i2: "el_archetype_id l < length (w_archs w2)" using settled_found(6) [OF C(1) _ _ g1 w2 C(8)] target_ids_set [OF C(11) C(5)] inf by blast
  show S: "settled w2 \<and> rows w2 = rows w \<and> el_archetype_id l \<noteq> j \<and> j < length (w_archs w2) \<and> w_components w2 = bundle_reg (w_components w) b"
    using T C(2,3) by (simp add: w2 w1)
  assume w3: "settled w3" "rows w3 = rows w2" "places w3 = places w2" "w_components w3 = w_components w2" "w_entities w3 = w_entities w2" "w_sparse w3 = w_sparse w2"
      "w_orphans w3 = w_orphans w2" "w_tick w3 = advance (w_tick w2)" "length (w_archs w3) = length (w_archs w2)"
      "\<And>k. k < length (w_archs w2) \<Longrightarrow> ar_sorted_ids (w_archs w3 ! k) = ar_sorted_ids (w_archs w2 ! k)" and calm: "\<And>c x. \<not> boom c x"
      and r: "migrate_insert boom t w3 e (el_archetype_id l) (el_row_of l) j new_ids b tk = Some ((out, ds), w')"
  have c3: "w_components w3 = reg" using w3(4) c1 by (simp add: w2)
  have "ea_is_alive (w_entities w3) e" using al w3(5) by (simp add: w2 w1)
  moreover have "places w3 (ent_index e) = Some (el_archetype_id l, el_row_of l)" using w3(3) T(3) C(7) by simp
  moreover have "bundle_ok (w_components w3) b" "set new_ids = dom (bundle_map (w_components w3) b)" using C(4,6) c3 by simp_all
  moreover have "set (ar_sorted_ids (w_archs w3 ! j)) = set (ar_sorted_ids (w_archs w3 ! el_archetype_id l)) \<union> set new_ids"
    using w3(10) [OF T(5)] w3(10) [OF i2] T(6) by simp
  ultimately have V: "out = Returned () \<and> settled w' \<and> view w' = (view w3)(e \<mapsto> the (view w3 e) ++ bundle_map (w_components w3) b)
    \<and> w_components w' = w_components w3 \<and> w_entities w' = w_entities w3 \<and> w_sparse w' = w_sparse w3 \<and> w_orphans w' = w_orphans w3 \<and> w_tick w' = w_tick w3"
    using T(4,5) w3(9) by (intro migrate_insert_ok [OF w3(1) _ _ _ _ _ _ _ calm r]) simp_all
  have "view w3 = view w" using w3(2) T(2) C(2) by (intro view_rows_eq) simp
  then have "inserted w e b w'" using V w3 C(3) by (simp add: inserted_def w2 w1)
  then show "out = Returned () \<and> inserted w e b w'" using V by blast
qed

text \<open>A split of the two insertions into refusal, overwriting and migration.\<close>

lemma world_insert_ok:
  assumes ok: "settled w" and dr: "drain_orphans t w0 = Some w" and fit: "bundle_fits (w_components w) b" and calm: "\<And>c x. \<not> boom c x"
    and r: "world_insert boom t w0 e b = Some ((out, ds), w')"
  shows "if view w e = None then out = Returned (Inl e) \<and> ds = [] \<and> w' = w else out = Returned (Inr ()) \<and> inserted w e b w'"
proof (cases "ea_is_alive (w_entities w) e \<and> loc_of w e \<noteq> None")
  case False
  then have "view w e = None" using insert_dead [OF ok] by blast
  moreover have "out = Returned (Inl e) \<and> ds = [] \<and> w' = w"
    using False r dr by (cases "ea_is_alive (w_entities w) e") (simp_all add: world_insert_def loc_of_def [symmetric])
  ultimately show ?thesis by simp
next
  case True
  then obtain l where l: "loc_of w e = Some l" and al: "ea_is_alive (w_entities w) e" by blast
  have v: "view w e \<noteq> None" using own_row(5) [OF ok al] loc_of_places [of w e] l by simp
  obtain new_ids reg where bi: "bundle_ids (w_components w) b = Some (new_ids, reg)"
    using r dr al l by (auto simp: world_insert_def loc_of_def [symmetric] split: bind_splits)
  define w1 where "w1 = w\<lparr>w_components := reg\<rparr>"
  let ?i = "el_archetype_id l" and ?src = "w_archs w1 ! el_archetype_id l"
  note C = insert_cases [OF ok al l fit bi w1_def]
  have na: "nth_opt (w_archs w1) ?i = Some ?src" using C(8) by (simp add: nth_opt_def)
  have na': "nth_opt (w_archs w) ?i = Some ?src" using na by (simp add: w1_def)
  show ?thesis
  proof (cases "list_all (\<lambda>i. i \<in> ar_component_ids ?src) new_ids")
    case True
    then obtain out1 where o: "overwrite boom w1 ?i (el_row_of l) b = Some ((out1, ds), w')" "out = map_outcome Inr out1"
      using r dr al l bi na' by (auto simp: world_insert_def loc_of_def [symmetric] Let_def w1_def)
    from insert_overwrite [OF ok al l fit bi w1_def True calm o(1)] o(2) v show ?thesis by simp
  next
    case False
    then obtain j p archs where g: "get_or_create t (w_pool w1) (w_archetypes w1) (target_ids ?src new_ids) reg = Some (j, p, archs)"
      using r dr al l bi na' by (auto simp: world_insert_def loc_of_def [symmetric] Let_def w1_def split: bind_splits)
    define w2 where "w2 = w1\<lparr>w_pool := p, w_archetypes := archs\<rparr>"
    note T = insert_migrate [OF ok al l fit bi w1_def False g w2_def]
    define w3 where "w3 = w2\<lparr>w_tick := advance (w_tick w2)\<rparr>"
    have ne: "?i \<noteq> j" using T(1) by blast
    obtain out1 where o: "migrate_insert boom t w3 e ?i (el_row_of l) j new_ids b (advance (w_tick w2)) = Some ((out1, ds), w')" "out = map_outcome Inr out1"
      using r dr al l bi na' False g ne by (auto simp: world_insert_def loc_of_def [symmetric] Let_def w1_def w2_def w3_def next_tick_def)
    have ss: "same_store w2 w3" by (simp add: same_store_def w3_def)
    have "settled w3"
      using settledD [of w2] T(1) same_store_struct [OF ss] same_store_rows(1) [OF ss] by (intro settledI) (simp_all add: placed_held_def w3_def)
    from T(2) [OF this same_store_rows [OF ss] _ _ _ _ _ _ _ calm o(1)] o(2) v show ?thesis by (simp add: w3_def)
  qed
qed

subsection \<open>Reserving row space\<close>

text \<open>Room for more rows does not show.\<close>

lemma settled_roomier:
  assumes ok: "settled w" and i: "i < length (w_archs w)"
    and cs: "cols_step (\<lambda>_ xs. xs) (w_components w) (ar_sorted_ids (w_archs w ! i)) (ar_columns (w_archs w ! i)) cols"
    and es: "pv_elems es = pv_elems (ar_entities (w_archs w ! i))"
    and w': "w' = (set_archetype w i ((w_archs w ! i)\<lparr>ar_columns := cols, ar_entities := es\<rparr>))\<lparr>w_pool := q\<rparr>"
  shows "settled w'" "rows w' = rows w" "places w' = places w" "w_components w' = w_components w" "w_entities w' = w_entities w" "w_sparse w' = w_sparse w"
    "w_orphans w' = w_orphans w" "w_tick w' = w_tick w" "length (w_archs w') = length (w_archs w)"
    "k < length (w_archs w) \<Longrightarrow> ar_sorted_ids (w_archs w' ! k) = ar_sorted_ids (w_archs w ! k)"
proof -
  let ?a = "w_archs w ! i" and ?reg = "w_components w"
  note st = settledD(1) [OF ok]
  note wf = struct_okD(4,5) [OF st i]
  let ?b = "?a\<lparr>ar_columns := cols, ar_entities := es\<rparr>"
  have sh: "same_shape ?a ?b" using cols_stepD(1) [OF cs] by simp
  have R: "ar_wf ?reg ?b \<and> ar_consistent ?b \<and> arch_rows ?b = arch_rows ?a"
    by (rule rows_same [OF wf sh]) (use cs es in simp_all)
  let ?v = "set_archetype w i ?b"
  have S: "struct_ok ?v" "rows ?v = rows w" using struct_same_rows [OF st i sh] R by blast+
  have ss: "same_store ?v w'" by (simp add: same_store_def w')
  show rw: "rows w' = rows w" using same_store_rows(1) [OF ss] S(2) by simp
  have "places ?v = places w" by (rule places_cong) simp
  then show "places w' = places w" using same_store_rows(2) [OF ss] by simp
  show f: "w_components w' = w_components w" "w_entities w' = w_entities w" "w_sparse w' = w_sparse w" "w_orphans w' = w_orphans w" "w_tick w' = w_tick w"
    "length (w_archs w') = length (w_archs w)" by (simp_all add: w')
  show "settled w'" using settledD [OF ok] same_store_struct [OF ss S(1)] rw f by (intro settledI) (simp_all add: placed_held_def)
  show "ar_sorted_ids (w_archs w' ! k) = ar_sorted_ids (w_archs w ! k)" if "k < length (w_archs w)"
    using that by (cases "k = i") (simp_all add: w')
qed

lemma grow_archetype_ok:
  assumes ok: "settled w" and i: "i < length (w_archs w)" and g: "grow_archetype t w i = Some (r, w')"
  shows "settled w'" "rows w' = rows w" "places w' = places w" "w_components w' = w_components w" "w_entities w' = w_entities w" "w_sparse w' = w_sparse w"
    "w_orphans w' = w_orphans w" "w_tick w' = w_tick w" "length (w_archs w') = length (w_archs w)"
    "k < length (w_archs w) \<Longrightarrow> ar_sorted_ids (w_archs w' ! k) = ar_sorted_ids (w_archs w ! k)"
proof -
  let ?a = "w_archs w ! i"
  note wf = struct_okD(4) [OF settledD(1) [OF ok] i]
  obtain r1 p cols where gc: "grow_columns t (w_pool w) (ar_columns ?a) = Some (r1, p, cols)"
    using g i by (auto simp: grow_archetype_def nth_opt_def split: bind_splits)
  obtain es q where w': "w' = (set_archetype w i (?a\<lparr>ar_columns := cols, ar_entities := es\<rparr>))\<lparr>w_pool := q\<rparr>" "pv_elems es = pv_elems (ar_entities ?a)"
  proof (cases r1)
    case (Inl x)
    then have "w' = (set_archetype w i (?a\<lparr>ar_columns := cols, ar_entities := ar_entities ?a\<rparr>))\<lparr>w_pool := p\<rparr>"
      using g i gc by (simp add: grow_archetype_def nth_opt_def Let_def)
    then show thesis using that by blast
  next
    case (Inr x)
    then obtain r2 q es where s: "pv_try_reserve t p (ar_entities ?a) 1 = Some (r2, q, es)"
      "w' = (set_archetype ((set_archetype w i (?a\<lparr>ar_columns := cols\<rparr>))\<lparr>w_pool := p\<rparr>) i (?a\<lparr>ar_columns := cols, ar_entities := es\<rparr>))\<lparr>w_pool := q\<rparr>"
      using g i gc by (auto simp: grow_archetype_def nth_opt_def Let_def split: bind_splits)
    have "w' = (set_archetype w i (?a\<lparr>ar_columns := cols, ar_entities := es\<rparr>))\<lparr>w_pool := q\<rparr>" unfolding s(2) by (simp add: set_archetype_def)
    then show thesis using that pv_try_reserve_elems [OF s(1)] by blast
  qed
  have cs: "cols_step (\<lambda>_ xs. xs) (w_components w) (ar_sorted_ids ?a) (ar_columns ?a) cols"
    using grow_columns_same [OF _ _ gc] ar_wfD(2,4) [OF wf] by simp
  note R = settled_roomier [OF ok i cs w'(2,1)]
  show "settled w'" "rows w' = rows w" "places w' = places w" "w_components w' = w_components w" "w_entities w' = w_entities w" "w_sparse w' = w_sparse w"
    "w_orphans w' = w_orphans w" "w_tick w' = w_tick w" "length (w_archs w') = length (w_archs w)"
    "k < length (w_archs w) \<Longrightarrow> ar_sorted_ids (w_archs w' ! k) = ar_sorted_ids (w_archs w ! k)" by (rule R, assumption?)+
qed

lemma try_insert_ok:
  assumes ok: "settled w" and dr: "drain_orphans t w0 = Some w" and fit: "bundle_fits (w_components w) b" and calm: "\<And>c x. \<not> boom c x"
    and r: "try_insert boom t w0 e b = Some ((out, ds), w')"
  shows "if view w e = None then (out = Returned (Inl (DeadEntity e)) \<or> out = Returned (Inl (Unplaced e))) \<and> ds = [] \<and> w' = w
    else (out = Returned (Inr ()) \<and> inserted w e b w')
       \<or> (\<exists>x. out = Returned (Inl (insert_error.Exhausted x)) \<and> ds = [] \<and> settled w' \<and> view w' = view w \<and> w_components w' = bundle_reg (w_components w) b
            \<and> w_entities w' = w_entities w \<and> w_sparse w' = w_sparse w \<and> w_orphans w' = w_orphans w \<and> w_tick w' = w_tick w)"
proof (cases "ea_is_alive (w_entities w) e \<and> loc_of w e \<noteq> None")
  case False
  then have "view w e = None" using insert_dead [OF ok] by blast
  moreover have "(out = Returned (Inl (DeadEntity e)) \<or> out = Returned (Inl (Unplaced e))) \<and> ds = [] \<and> w' = w"
    using False r dr by (cases "ea_is_alive (w_entities w) e") (simp_all add: try_insert_def loc_of_def [symmetric])
  ultimately show ?thesis by simp
next
  case True
  then obtain l where l: "loc_of w e = Some l" and al: "ea_is_alive (w_entities w) e" by blast
  have v: "view w e \<noteq> None" using own_row(5) [OF ok al] loc_of_places [of w e] l by simp
  obtain new_ids reg where bi: "bundle_ids (w_components w) b = Some (new_ids, reg)"
    using r dr al l by (auto simp: try_insert_def loc_of_def [symmetric] split: bind_splits)
  define w1 where "w1 = w\<lparr>w_components := reg\<rparr>"
  let ?i = "el_archetype_id l" and ?src = "w_archs w1 ! el_archetype_id l"
  note C = insert_cases [OF ok al l fit bi w1_def]
  have na': "nth_opt (w_archs w) ?i = Some ?src" using C(8) by (simp add: nth_opt_def w1_def)
  show ?thesis
  proof (cases "list_all (\<lambda>i. i \<in> ar_component_ids ?src) new_ids")
    case True
    then obtain out1 where o: "overwrite boom w1 ?i (el_row_of l) b = Some ((out1, ds), w')" "out = map_outcome Inr out1"
      using r dr al l bi na' by (auto simp: try_insert_def loc_of_def [symmetric] Let_def w1_def)
    from insert_overwrite [OF ok al l fit bi w1_def True calm o(1)] o(2) v show ?thesis by simp
  next
    case False
    then obtain j p archs where g: "get_or_create t (w_pool w1) (w_archetypes w1) (target_ids ?src new_ids) reg = Some (j, p, archs)"
      using r dr al l bi na' by (auto simp: try_insert_def loc_of_def [symmetric] Let_def w1_def split: bind_splits)
    define w2 where "w2 = w1\<lparr>w_pool := p, w_archetypes := archs\<rparr>"
    note T = insert_migrate [OF ok al l fit bi w1_def False g w2_def]
    have ne: "?i \<noteq> j" "settled w2" "j < length (w_archs w2)" using T(1) by blast+
    obtain r1 w2' where gr: "grow_archetype t w2 j = Some (r1, w2')"
      using r dr al l bi na' False g ne(1) by (auto simp: try_insert_def loc_of_def [symmetric] Let_def w1_def w2_def split: bind_splits)
    note G = grow_archetype_ok [OF ne(2,3) gr]
    show ?thesis
    proof (cases r1)
      case (Inl x)
      then have "out = Returned (Inl (insert_error.Exhausted x)) \<and> ds = [] \<and> w' = w2'"
        using r dr al l bi na' False g ne(1) gr by (simp add: try_insert_def loc_of_def [symmetric] Let_def w1_def w2_def)
      moreover have "view w2' = view w" using G(2) T(1) by (intro view_rows_eq) simp
      ultimately show ?thesis using v G T(1) by (simp add: w2_def w1_def)
    next
      case (Inr x)
      define w3 where "w3 = w2'\<lparr>w_tick := advance (w_tick w2')\<rparr>"
      obtain out1 where o: "migrate_insert boom t w3 e ?i (el_row_of l) j new_ids b (advance (w_tick w2')) = Some ((out1, ds), w')" "out = map_outcome Inr out1"
        using r dr al l bi na' False g ne(1) gr Inr by (auto simp: try_insert_def loc_of_def [symmetric] Let_def w1_def w2_def w3_def next_tick_def)
      have ss: "same_store w2' w3" by (simp add: same_store_def w3_def)
      note R = same_store_rows [OF ss]
      have "settled w3"
        using settledD [OF G(1)] same_store_struct [OF ss] R by (intro settledI) (simp_all add: placed_held_def w3_def)
      from T(2) [OF this _ _ _ _ _ _ _ _ _ calm o(1)] R G o(2) v show ?thesis by (simp add: w3_def)
    qed
  qed
qed

subsection \<open>Removing a component\<close>

lemma get_or_create_commute:
  assumes "get_or_create t p as ids reg = Some (k, q, as')" "i < length (as_list as)"
  shows "get_or_create t p (as\<lparr>as_list := (as_list as)[i := a]\<rparr>) ids reg = Some (k, q, as'\<lparr>as_list := (as_list as')[i := a]\<rparr>)"
  using assms by (auto simp: get_or_create_def Let_def list_update_append split: option.splits bind_splits if_splits)

lemma get_or_create_set:
  assumes "get_or_create t p (as\<lparr>as_list := (as_list as)[i := a]\<rparr>) ids reg = Some (k, q, as2)" "i < length (as_list as)"
  shows "\<exists>as'. get_or_create t p as ids reg = Some (k, q, as') \<and> as2 = as'\<lparr>as_list := (as_list as')[i := a]\<rparr>"
proof -
  have "get_or_create t p as ids reg \<noteq> None" using assms(1) by (auto simp: get_or_create_def Let_def split: option.splits bind_splits if_splits)
  then obtain k' q' as' where g: "get_or_create t p as ids reg = Some (k', q', as')" by auto
  from get_or_create_commute [OF g assms(2), of a] assms(1) g show ?thesis by simp
qed

lemma restrict_single: "m |` (- {c}) = m(c := None)"
  by (auto simp: restrict_map_def)

lemma remove_drop_last:
  assumes wf: "ar_wf reg a" and one: "filter (\<lambda>i. i \<noteq> c) (ar_sorted_ids a) = []" and c: "column_index a c = Some k"
  shows "ar_sorted_ids a = [c]" "k = 0" "length (ar_columns a) = 1"
proof -
  have all: "\<forall>x \<in> set (ar_sorted_ids a). x = c" using one by (simp add: filter_empty_conv)
  have k: "k < length (ar_sorted_ids a)" "ar_sorted_ids a ! k = c" using ar_wfD(3) [OF wf] c by blast+
  have d: "distinct (ar_sorted_ids a)" by (rule ar_wf_distinct [OF wf])
  show ids: "ar_sorted_ids a = [c]" using all d k(1) by (cases "ar_sorted_ids a"; cases "tl (ar_sorted_ids a)") auto
  show "k = 0" using k(1) ids by simp
  show "length (ar_columns a) = 1" using ar_wfD(2) [OF wf] ids by simp
qed

definition removed_comp :: "world \<Rightarrow> entity \<Rightarrow> nat \<Rightarrow> world \<Rightarrow> bool" where
  "removed_comp w e c w' \<longleftrightarrow> settled w' \<and> view w' = (view w)(e \<mapsto> (the (view w e))(c := None))
     \<and> w_components w' = w_components w \<and> w_entities w' = w_entities w \<and> w_sparse w' = w_sparse w \<and> w_orphans w' = w_orphans w \<and> w_tick w' = w_tick w"

text \<open>The general case: other components stay.\<close>

lemma remove_migrate:
  assumes ok: "settled w" and al: "ea_is_alive (w_entities w) e" and pl: "places w (ent_index e) = Some (i, row)"
    and src: "src = w_archs w ! i" and c: "c \<in> set (ar_sorted_ids src)"
    and g: "get_or_create t (w_pool w) (w_archetypes w) (filter (\<lambda>i. i \<noteq> c) (ar_sorted_ids src)) (w_components w) = Some (j, p, archs)"
    and w1: "w1 = w\<lparr>w_pool := p, w_archetypes := archs\<rparr>"
    and gp: "get_pair (w_archs w1) i j = Some (src', tgt)"
    and mv: "move_columns (\<lambda>_ _. False) False t (w_components w1) {c} row (enumerate 0 (ar_sorted_ids src')) (w_pool w1, src', tgt) = Some (out, p', src1, tgt1)"
    and me: "move_entity t (w1\<lparr>w_pool := p'\<rparr>) e i row j src1 tgt1 = Some w'"
  shows "removed_comp w e c w'"
proof -
  note O = own_row [OF ok al pl]
  have wfs: "ar_wf (w_components w) src" using struct_okD(4) [OF settledD(1) [OF ok] O(1)] src by simp
  let ?ids = "filter (\<lambda>i. i \<noteq> c) (ar_sorted_ids src)"
  have dt: "distinct ?ids" "\<forall>x \<in> set ?ids. cr_info (w_components w) x \<noteq> None" using ar_wf_distinct [OF wfs] ar_wf_infos [OF wfs] by auto
  note F = settled_found [OF ok dt g w1]
  have i1: "i < length (w_archs w1)" "w_archs w1 ! i = src" using F(6) [OF O(1)] src by auto
  have sp: "src' = src" "tgt = w_archs w1 ! j" "i \<noteq> j" using gp i1 by (auto simp: get_pair_def nth_opt_def split: if_splits bind_splits)
  have al1: "ea_is_alive (w_entities w1) e" and pl1: "places w1 (ent_index e) = Some (i, row)" using al F(3) pl by (simp_all add: w1)
  note st1 = settledD(1) [OF F(1)]
  note ws = struct_okD(4,5) [OF st1 i1(1)]
  note wt = struct_okD(4,5) [OF st1 F(4)]
  note O1 = own_row [OF F(1) al1 pl1]
  obtain ds u where ou: "out = (ds, u)" by (cases out)
  have sub: "set (ar_sorted_ids (w_archs w1 ! i)) \<subseteq> {c} \<union> set (ar_sorted_ids (w_archs w1 ! j))" using F(5) i1(2) by auto
  have mv1: "move_columns (\<lambda>_ _. False) False t (w_components w1) {c} row (enumerate 0 (ar_sorted_ids (w_archs w1 ! i))) (w_pool w1, w_archs w1 ! i, w_archs w1 ! j) = Some ((ds, u), p', src1, tgt1)"
    using mv ou sp i1(2) by simp
  note M = moved_row [OF ws wt(1) O1(2) mv1 sub]
  let ?m = "(row_comps src row)(c := None)"
  have domR: "dom (row_comps src row) = set (ar_sorted_ids src)" by (rule row_comps_dom [OF wfs])
  have dom: "dom ?m = set (ar_sorted_ids (w_archs w1 ! j))" using F(5) domR by auto
  have cols: "cols_step (\<lambda>k xs. xs @ [the (?m (ar_sorted_ids (w_archs w1 ! j) ! k))]) (w_components w1) (ar_sorted_ids (w_archs w1 ! j)) (ar_columns (w_archs w1 ! j)) (ar_columns tgt1)"
  proof (rule cols_step_cong [OF M(7)])
    fix k assume k: "k < length (ar_columns (w_archs w1 ! j))"
    let ?c = "ar_sorted_ids (w_archs w1 ! j) ! k"
    have "?c \<in> set (ar_sorted_ids (w_archs w1 ! j))" using k ar_wfD(2) [OF wt(1)] by simp
    then have "?c \<in> dom ?m" unfolding dom .
    then show "(case (row_comps (w_archs w1 ! i) row |` (- {c})) ?c of None \<Rightarrow> live_rows (ar_columns (w_archs w1 ! j) ! k)
        | Some x \<Rightarrow> live_rows (ar_columns (w_archs w1 ! j) ! k) @ [x]) = live_rows (ar_columns (w_archs w1 ! j) ! k) @ [the (?m ?c)]"
      unfolding restrict_single i1(2) by (auto split: if_splits)
  qed simp
  note X = move_finish [OF F(1) al1 pl1 sp(3) F(4) M(2,3,6) M(4,5) cols dom _ _ _ _ _ _ me]
  have "view w1 = view w" by (rule view_rows_eq [OF F(2)])
  moreover have "view w e = Some (row_comps src row)" using O(5) src by simp
  ultimately show ?thesis using X by (simp add: removed_comp_def w1)
qed

text \<open>The last component: the row moves to the archetype without components.\<close>

lemma remove_last:
  assumes ok: "settled w" and al: "ea_is_alive (w_entities w) e" and pl: "places w (ent_index e) = Some (i, row)"
    and src: "src = w_archs w ! i" and c: "column_index src c = Some k" and one: "filter (\<lambda>i. i \<noteq> c) (ar_sorted_ids src) = []"
    and s1: "src1 = src\<lparr>ar_columns := (ar_columns src)[k := swap_remove_no_drop (ar_columns src ! k) row]\<rparr>"
    and ss: "pv_swap_remove (ar_entities src1) row = Some (x, ss)"
    and w2: "(if row < pv_len ss then put_location (set_archetype w i (src1\<lparr>ar_entities := ss\<rparr>)) (ent_index (pv_elems ss ! row)) i row
       else Some (set_archetype w i (src1\<lparr>ar_entities := ss\<rparr>))) = Some w2"
    and g: "get_or_create t (w_pool w2) (w_archetypes w2) [] (w_components w2) = Some (j, p, archs)"
    and w3: "w3 = w2\<lparr>w_pool := p, w_archetypes := archs\<rparr>"
    and tgt: "nth_opt (w_archs w3) j = Some tgt" and es: "pv_push t (w_pool w3) (ar_entities tgt) e = Some (p', es)"
    and w': "put_location ((set_archetype w3 j (tgt\<lparr>ar_entities := es\<rparr>))\<lparr>w_pool := p'\<rparr>) (ent_index e) j (pv_len es - 1) = Some w'"
  shows "removed_comp w e c w'"
proof -
  note O = own_row [OF ok al pl]
  note st = settledD(1) [OF ok]
  have wfs: "ar_wf (w_components w) src" "ar_consistent src" using struct_okD(4,5) [OF st O(1)] src by simp_all
  note L = remove_drop_last [OF wfs(1) one c]
  define src' where "src' = src1\<lparr>ar_entities := ss\<rparr>"
  have f2: "w_archetypes w2 = (w_archetypes w)\<lparr>as_list := (w_archs w)[i := src']\<rparr>" "w_pool w2 = w_pool w" "w_components w2 = w_components w"
    "w_entities w2 = w_entities w" "w_sparse w2 = w_sparse w" "w_orphans w2 = w_orphans w" "w_tick w2 = w_tick w"
    using w2 put_location_frame [of "set_archetype w i src'" _ _ _ w2] by (auto simp: src'_def set_archetype_def split: if_splits)
  have "get_or_create t (w_pool w) ((w_archetypes w)\<lparr>as_list := (w_archs w)[i := src']\<rparr>) [] (w_components w) = Some (j, p, archs)" using g f2(1-3) by simp
  from get_or_create_set [OF this O(1)] obtain as' where as': "get_or_create t (w_pool w) (w_archetypes w) [] (w_components w) = Some (j, p, as')"
    "archs = as'\<lparr>as_list := (as_list as')[i := src']\<rparr>" by blast
  define wA where "wA = w\<lparr>w_pool := p, w_archetypes := as'\<rparr>"
  note F = settled_found [OF ok _ _ as'(1) wA_def, simplified]
  have iA: "i < length (w_archs wA)" "w_archs wA ! i = src" using F(6) [OF O(1)] src by auto
  have ij: "i \<noteq> j" using F(5) iA(2) L(1) by auto
  have tg: "tgt = w_archs wA ! j" using tgt ij F(4) by (simp add: nth_opt_def w3 as'(2) wA_def split: if_splits)
  have alA: "ea_is_alive (w_entities wA) e" and plA: "places wA (ent_index e) = Some (i, row)" using al F(3) pl by (simp_all add: wA_def)
  note OA = own_row [OF F(1) alA plA]
  note stA = settledD(1) [OF F(1)]
  note wt = struct_okD(4,5) [OF stA F(4)]
  define tgt' where "tgt' = tgt\<lparr>ar_entities := es\<rparr>"
  have row: "row < ar_len src" using O(2) src by simp
  have sse: "pv_elems ss = swap_remove row (pv_elems (ar_entities src))" using ss s1 by (auto split: if_splits)
  have ese: "pv_elems es = pv_elems (ar_entities tgt) @ [e]" using pv_push_elems [OF es] by simp
  have S: "ar_wf (w_components w) src' \<and> ar_consistent src' \<and> arch_rows src' = swap_remove row (arch_rows src)"
  proof (rule rows_removed [OF wfs _ row])
    let ?v = "ar_columns src ! k"
    have k: "k < length (ar_columns src)" using L(2,3) by simp
    have "typed (w_components w) (ar_sorted_ids src ! k) ?v" by (rule ar_wfD(4) [OF wfs(1) k])
    then obtain info where info: "cr_info (w_components w) (ar_sorted_ids src ! k) = Some info" "col_ok (ci_layout info) (ci_drop_fn info) ?v" by (rule typedE)
    have rl: "row < bv_len ?v" using consistent_len [OF wfs(2) k] row by simp
    have "typed (w_components w) (ar_sorted_ids src ! k) (swap_remove_no_drop ?v row)" "live_rows (swap_remove_no_drop ?v row) = swap_remove row (live_rows ?v)"
      using commit_col_ok [OF info(2) rl] live_commit [OF rl] info(1) by (auto simp: typed_def removal_eq)
    then show "cols_step (\<lambda>_. swap_remove row) (w_components w) (ar_sorted_ids src) (ar_columns src) (ar_columns src')"
      using L(2,3) by (simp add: cols_step_def src'_def s1)
  qed (simp_all add: src'_def s1 sse)
  have shS: "same_shape src src'" by (simp add: src'_def s1)
  have T: "ar_wf (w_components w) tgt' \<and> ar_consistent tgt' \<and> arch_rows tgt' = arch_rows tgt @ [(e, \<lambda>c. map_option (\<lambda>_. []) (column_index tgt c))]"
  proof (rule rows_appended)
    show "ar_wf (w_components w) tgt" "ar_consistent tgt" using wt tg by (simp_all add: wA_def)
    have "ar_columns tgt = []" using ar_wfD(2) [OF wt(1)] F(5) tg by simp
    then show "cols_step (\<lambda>i xs. xs @ [[]]) (w_components w) (ar_sorted_ids tgt) (ar_columns tgt) (ar_columns tgt')" by (simp add: cols_step_def tgt'_def)
  qed (simp_all add: tgt'_def ese)
  have none: "(\<lambda>c. map_option (\<lambda>_. []) (column_index tgt c)) = (Map.empty :: comps)"
    using column_index_None [OF wt(1)] F(5) tg by (auto simp: fun_eq_iff)
  have put: "put_location ((set_archetype w3 j tgt')\<lparr>w_pool := p'\<rparr>) (ent_index e) j (ar_len tgt) = Some w'" using w' ese by (simp add: tgt'_def ar_len_def)
  note f' = put_location_frame [OF put]
  have p2: "places w2 = (if row < pv_len ss then (places w)(ent_index (pv_elems ss ! row) \<mapsto> (i, row)) else places w)"
    using w2 put_location_places [of "set_archetype w i (src1\<lparr>ar_entities := ss\<rparr>)" _ _ _ w2] places_cong [of "set_archetype w i (src1\<lparr>ar_entities := ss\<rparr>)" w] by (auto split: if_splits)
  have X: "struct_ok w' \<and> rows w' = (rows wA)(ent_index e \<mapsto> (j, e, Map.empty))"
  proof (rule struct_move [OF stA plA ij F(4)])
    show "same_shape (w_archs wA ! i) src'" "same_shape (w_archs wA ! j) tgt'" using shS iA(2) tg by (simp_all add: tgt'_def)
    show "ar_wf (w_components wA) src'" "ar_consistent src'" "arch_rows src' = swap_remove row (arch_rows (w_archs wA ! i))" using S iA(2) by (simp_all add: wA_def)
    show "ar_wf (w_components wA) tgt'" "ar_consistent tgt'" "arch_rows tgt' = arch_rows (w_archs wA ! j) @ [(e, Map.empty)]" using T none tg by (simp_all add: wA_def)
    show "w_archetypes w' = (w_archetypes wA)\<lparr>as_list := (w_archs wA)[i := src', j := tgt']\<rparr>" using f' by (simp add: w3 as'(2) wA_def set_archetype_def)
    show "w_components w' = w_components wA" using f' f2 by (simp add: w3 wA_def)
    have p3: "places ((set_archetype w3 j tgt')\<lparr>w_pool := p'\<rparr>) = places w2" by (rule places_cong) (simp add: w3)
    have len: "ar_len src' = pv_len ss" "pv_elems (ar_entities src') = pv_elems ss" by (simp_all add: src'_def ar_len_def)
    show "places w' = (if row < ar_len src' then (places wA)(ent_index (pv_elems (ar_entities src') ! row) \<mapsto> (i, row)) else places wA)(ent_index e \<mapsto> (j, ar_len (w_archs wA ! j)))"
      unfolding put_location_places [OF put] p3 p2 len F(3) tg ..
  qed
  have fr: "w_entities w' = w_entities wA" "w_sparse w' = w_sparse wA" "w_orphans w' = w_orphans wA" "w_components w' = w_components w" "w_tick w' = w_tick w"
    using f' f2 by (simp_all add: w3 wA_def)
  have vA: "view wA = view w" by (rule view_rows_eq [OF F(2)])
  have "(row_comps src row)(c := None) = Map.empty"
    using row_comps_dom [OF wfs(1), of row] L(1) by (auto simp: fun_eq_iff)
  then show ?thesis using settled_put [OF F(1) OA(4) _ _ fr(1-3)] X vA O(5) fr src by (simp add: removed_comp_def wA_def)
qed

text \<open>The value \<^verbatim>\<open>remove\<close> hands back is the one the entity had.\<close>

lemma world_remove_ok:
  assumes ok: "settled w" and dr: "drain_orphans t w0 = Some w" and r: "world_remove t w0 e ty = Some (res, w')"
  shows "case Option.bind (view w e) (\<lambda>m. Option.bind (cr_id (w_components w) ty) (\<lambda>c. map_option (Pair c) (m c))) of
      None \<Rightarrow> res = None \<and> w' = w
    | Some (c, x) \<Rightarrow> res = Some x \<and> removed_comp w e c w'"
proof (cases "locate w e")
  case None
  then show ?thesis using r dr by (simp add: world_remove_def)
next
  case (Some place)
  show ?thesis
  proof (cases "place = None \<or> cr_id (w_components w) ty = None")
    case True
    have "view w e = None \<or> cr_id (w_components w) ty = None"
    proof (cases place)
      case None
      then have "\<not> ea_is_alive (w_entities w) e \<or> loc_of w e = None"
        using Some by (auto simp: locate_def loc_of_def nth_opt_def split: if_splits)
      then show ?thesis using insert_dead [OF ok] by blast
    qed (use True in simp)
    moreover have "res = None \<and> w' = w" using r dr Some True by (auto simp: world_remove_def split: option.splits)
    ultimately show ?thesis by auto
  next
    case False
    then obtain l c where l: "place = Some l" and c: "cr_id (w_components w) ty = Some c" by auto
    have al: "ea_is_alive (w_entities w) e" and lo: "loc_of w e = Some l"
      using Some l by (auto simp: locate_def loc_of_def nth_opt_def split: if_splits)
    let ?i = "el_archetype_id l" and ?row = "el_row_of l"
    have pl: "places w (ent_index e) = Some (?i, ?row)" using loc_of_places [of w e] lo by simp
    note O = own_row [OF ok al pl]
    define src where "src = w_archs w ! ?i"
    have na: "nth_opt (w_archs w) ?i = Some src" using O(1) by (simp add: nth_opt_def src_def)
    have wf: "ar_wf (w_components w) src" using struct_okD(4) [OF settledD(1) [OF ok] O(1)] src_def by simp
    have v: "view w e = Some (row_comps src ?row)" using O(5) src_def by simp
    show ?thesis
    proof (cases "column_index src c")
      case None
      then have "c \<notin> ar_component_ids src" using column_index_None [OF wf] ar_wfD(1) [OF wf] by simp
      then have "res = None \<and> w' = w" using r dr Some l c na by (simp add: world_remove_def Let_def)
      then show ?thesis using v c None by (simp add: row_comps_def)
    next
      case k: (Some k)
      have kl: "k < length (ar_columns src)" by (rule column_index_bound [OF wf k])
      have cm: "c \<in> ar_component_ids src" "c \<in> set (ar_sorted_ids src)" using k column_index_None [OF wf, of c] ar_wfD(1) [OF wf] by auto
      have nk: "nth_opt (ar_columns src) k = Some (ar_columns src ! k)" using kl by (simp add: nth_opt_def)
      have "res = Some (bv_read (ar_columns src ! k) ?row) \<and> removed_comp w e c w'"
      proof (cases "filter (\<lambda>i. i \<noteq> c) (ar_sorted_ids src) = []")
        case True
        define src1 where "src1 = src\<lparr>ar_columns := (ar_columns src)[k := swap_remove_no_drop (ar_columns src ! k) ?row]\<rparr>"
        obtain x ss where ss: "pv_swap_remove (ar_entities src1) ?row = Some (x, ss)"
          using r dr Some l c na cm(1) k nk True by (auto simp: world_remove_def Let_def src1_def simp del: pv_swap_remove_eq split: bind_splits)
        obtain w2 where w2: "(if ?row < pv_len ss then put_location (set_archetype w ?i (src1\<lparr>ar_entities := ss\<rparr>)) (ent_index (pv_elems ss ! ?row)) ?i ?row
             else Some (set_archetype w ?i (src1\<lparr>ar_entities := ss\<rparr>))) = Some w2"
          using r dr Some l c na cm(1) k nk True ss by (auto simp: world_remove_def Let_def src1_def cong: if_cong simp del: pv_swap_remove_eq split: bind_splits)
        obtain j p archs where g: "get_or_create t (w_pool w2) (w_archetypes w2) [] (w_components w2) = Some (j, p, archs)"
          using r dr Some l c na cm(1) k nk True ss w2 by (auto simp: world_remove_def Let_def src1_def cong: if_cong simp del: pv_swap_remove_eq split: bind_splits)
        define w3 where "w3 = w2\<lparr>w_pool := p, w_archetypes := archs\<rparr>"
        obtain tgt p' es where t: "nth_opt (w_archs w3) j = Some tgt" "pv_push t (w_pool w3) (ar_entities tgt) e = Some (p', es)"
          "put_location ((set_archetype w3 j (tgt\<lparr>ar_entities := es\<rparr>))\<lparr>w_pool := p'\<rparr>) (ent_index e) j (pv_len es - 1) = Some w'"
          and res: "res = Some (bv_read (ar_columns src ! k) ?row)"
          using r dr Some l c na cm(1) k nk True ss w2 g by (auto simp: world_remove_def Let_def src1_def w3_def cong: if_cong simp del: pv_swap_remove_eq split: bind_splits)
        from remove_last [OF ok al pl src_def k True src1_def ss w2 g w3_def t] res show ?thesis by simp
      next
        case False
        obtain j p archs where g: "get_or_create t (w_pool w) (w_archetypes w) (filter (\<lambda>i. i \<noteq> c) (ar_sorted_ids src)) (w_components w) = Some (j, p, archs)"
          using r dr Some l c na cm(1) k nk False by (auto simp: world_remove_def Let_def split: bind_splits)
        define w1 where "w1 = w\<lparr>w_pool := p, w_archetypes := archs\<rparr>"
        obtain src' tgt out p' src1 tgt1 where m: "get_pair (w_archs w1) ?i j = Some (src', tgt)"
          "move_columns (\<lambda>_ _. False) False t (w_components w1) {c} ?row (enumerate 0 (ar_sorted_ids src')) (w_pool w1, src', tgt) = Some (out, p', src1, tgt1)"
          "move_entity t (w1\<lparr>w_pool := p'\<rparr>) e ?i ?row j src1 tgt1 = Some w'" and res: "res = Some (bv_read (ar_columns src ! k) ?row)"
          using r dr Some l c na cm(1) k nk False g by (auto simp: world_remove_def Let_def w1_def split: bind_splits)
        from remove_migrate [OF ok al pl src_def cm(2) g w1_def m] res show ?thesis by simp
      qed
      then show ?thesis using v c k by (simp add: row_comps_def)
    qed
  qed
qed

end
