(* ===== verification/World_Spec.thy ===== *)
theory World_Spec
  imports World_Move
begin

text \<open>
  What the world promises: a map from entities to their components. The archetypes, the
  rows, the location table and the pool are an implementation of it.
\<close>

subsection \<open>The abstract world\<close>

record aworld =
  aw_slots :: slot_table
  aw_orphans :: orphan_queue
  aw_reg :: registry
  aw_view :: "entity \<rightharpoonup> comps"
  aw_sparse :: "nat \<Rightarrow> entity \<rightharpoonup> item"
  aw_tick :: tick

definition aw_of :: "world \<Rightarrow> aworld" where
  "aw_of w = \<lparr>aw_slots = ea_abs (w_entities w), aw_orphans = w_orphans w, aw_reg = w_components w, aw_view = view w,
     aw_sparse = st_get (w_sparse w), aw_tick = w_tick w\<rparr>"

datatype world_op = WSpawn bundle_values | WTrySpawn bundle_values bool | WSpawnBatch "rust_type list" "item list list" nat
  | WAlloc | WDespawn entity | WInsert entity bundle_values | WTryInsert entity bundle_values bool | WRemove entity rust_type
  | WGetMut entity rust_type item | WGet entity rust_type | WHas entity rust_type | WRegister rust_type

datatype world_answer = WEntity entity | WEntities "entity list" | WFlag bool | WItem "item option" | WExhausted | WId nat

definition drained :: "aworld \<Rightarrow> aworld" where
  "drained A = (let (s, oq) = drain_spec (aw_slots A, aw_orphans A) in A\<lparr>aw_slots := s, aw_orphans := oq\<rparr>)"

definition new_entity :: "slot_table \<Rightarrow> entity" where
  "new_entity s = (case fst (ea_spec EAlloc s) of AEntity e \<Rightarrow> e | _ \<Rightarrow> entity_new 0 0)"

definition alloc_spec :: "aworld \<Rightarrow> entity \<times> aworld" where
  "alloc_spec A = (new_entity (aw_slots A), A\<lparr>aw_slots := snd (ea_spec EAlloc (aw_slots A))\<rparr>)"

definition place_spec :: "bundle_values \<Rightarrow> aworld \<Rightarrow> entity \<times> aworld" where
  "place_spec b A = (let (e, A1) = alloc_spec A in
     (e, A1\<lparr>aw_view := (aw_view A1)(e \<mapsto> bundle_map (aw_reg A1) b), aw_tick := advance (aw_tick A1)\<rparr>))"

fun place_all_spec :: "bundle_values list \<Rightarrow> aworld \<Rightarrow> entity list \<times> aworld" where
  "place_all_spec [] A = ([], A)"
| "place_all_spec (b # bs) A = (let (e, A1) = place_spec b A; (es, A2) = place_all_spec bs A1 in (e # es, A2))"

definition typed_in :: "bundle_values \<Rightarrow> aworld \<Rightarrow> aworld" where
  "typed_in b A = A\<lparr>aw_reg := bundle_reg (aw_reg A) b\<rparr>"

definition insert_spec :: "entity \<Rightarrow> bundle_values \<Rightarrow> aworld \<Rightarrow> aworld" where
  "insert_spec e b A = (let A1 = typed_in b A in
     A1\<lparr>aw_view := (aw_view A1)(e \<mapsto> the (aw_view A1 e) ++ bundle_map (aw_reg A1) b), aw_tick := advance (aw_tick A1)\<rparr>)"

definition read_spec :: "aworld \<Rightarrow> entity \<Rightarrow> rust_type \<Rightarrow> item option" where
  "read_spec A e ty = (case aw_view A e of None \<Rightarrow> None | Some m \<Rightarrow>
     (case cr_id (aw_reg A) ty of None \<Rightarrow> None | Some c \<Rightarrow> if is_sparse (aw_reg A) c then aw_sparse A c e else m c))"

fun world_spec :: "world_op \<Rightarrow> aworld \<Rightarrow> world_answer \<times> aworld" where
  "world_spec (WSpawn b) A = (let (e, A1) = place_spec b (typed_in b (drained A)) in (WEntity e, A1))"
| "world_spec (WTrySpawn b ok) A =
     (if ok then let (e, A1) = place_spec b (typed_in b (drained A)) in (WEntity e, A1)
      else (WExhausted, typed_in b (drained A)))"
| "world_spec (WSpawnBatch tys rws n) A =
     (let (es, A1) = place_all_spec (map (zip tys) rws) (typed_in (map (\<lambda>ty. (ty, [])) tys) (drained A)) in (WEntities es, A1))"
| "world_spec WAlloc A = (let (e, A1) = alloc_spec (drained A) in (WEntity e, A1))"
| "world_spec (WDespawn e) A =
     (let A1 = drained A in
      if aw_view A1 e = None then (WFlag False, A1)
      else (WFlag True, A1\<lparr>aw_slots := dealloc_spec (aw_slots A1) e, aw_view := (aw_view A1)(e := None),
                           aw_sparse := (\<lambda>c. (aw_sparse A1 c)(e := None))\<rparr>))"
| "world_spec (WInsert e b) A =
     (let A1 = drained A in if aw_view A1 e = None then (WFlag False, A1) else (WFlag True, insert_spec e b A1))"
| "world_spec (WTryInsert e b ok) A =
     (let A1 = drained A in
      if aw_view A1 e = None then (WFlag False, A1)
      else if ok then (WFlag True, insert_spec e b A1) else (WExhausted, typed_in b A1))"
| "world_spec (WRemove e ty) A =
     (let A1 = drained A in
      case Option.bind (aw_view A1 e) (\<lambda>m. Option.bind (cr_id (aw_reg A1) ty) (\<lambda>c. map_option (Pair c) (m c))) of
        None \<Rightarrow> (WItem None, A1)
      | Some (c, x) \<Rightarrow> (WItem (Some x), A1\<lparr>aw_view := (aw_view A1)(e \<mapsto> (the (aw_view A1 e))(c := None))\<rparr>))"
| "world_spec (WGetMut e ty x) A =
     (let A1 = drained A in
      case Option.bind (aw_view A1 e) (\<lambda>m. map_option (Pair m) (cr_id (aw_reg A1) ty)) of
        None \<Rightarrow> (WFlag False, A1)
      | Some (m, c) \<Rightarrow> let A2 = A1\<lparr>aw_tick := advance (aw_tick A1)\<rparr> in
          if m c = None then (WFlag False, A2) else (WFlag True, A2\<lparr>aw_view := (aw_view A2)(e \<mapsto> m(c \<mapsto> x))\<rparr>))"
| "world_spec (WGet e ty) A = (WItem (read_spec A e ty), A)"
| "world_spec (WHas e ty) A = (WFlag (read_spec A e ty \<noteq> None), A)"
| "world_spec (WRegister ty) A = (let A1 = drained A; (i, r) = register (aw_reg A1) ty in (WId i, A1\<lparr>aw_reg := r\<rparr>))"

text \<open>
  The callers' contract: values of the size of their registered type, and indices below the
  reserved one. \<open>bundles_pre\<close> follows the slots through a batch.
\<close>

fun bundles_pre :: "bundle_values list \<Rightarrow> aworld \<Rightarrow> bool" where
  "bundles_pre [] A = True"
| "bundles_pre (b # bs) A \<longleftrightarrow> ea_pre EAlloc (aw_slots A) \<and> bundles_pre bs (snd (place_spec b A))"

fun world_pre :: "world_op \<Rightarrow> aworld \<Rightarrow> bool" where
  "world_pre (WSpawn b) A \<longleftrightarrow> bundle_fits (aw_reg A) b \<and> ea_pre EAlloc (aw_slots (drained A))"
| "world_pre (WTrySpawn b ok) A \<longleftrightarrow> bundle_fits (aw_reg A) b \<and> ea_pre EAlloc (aw_slots (drained A))"
| "world_pre (WSpawnBatch tys rws n) A \<longleftrightarrow>
     (\<forall>r \<in> set rws. length r = length tys \<and> bundle_fits (aw_reg A) (zip tys r))
     \<and> bundles_pre (map (zip tys) rws) (typed_in (map (\<lambda>ty. (ty, [])) tys) (drained A))"
| "world_pre WAlloc A \<longleftrightarrow> ea_pre EAlloc (aw_slots (drained A))"
| "world_pre (WInsert e b) A \<longleftrightarrow> bundle_fits (aw_reg A) b"
| "world_pre (WTryInsert e b ok) A \<longleftrightarrow> bundle_fits (aw_reg A) b"
| "world_pre (WGetMut e ty x) A \<longleftrightarrow> (case cr_id (aw_reg A) ty of None \<Rightarrow> True | Some c \<Rightarrow> \<not> is_sparse (aw_reg A) c \<and> sized (aw_reg A) c x)"
| "world_pre _ A \<longleftrightarrow> True"

abbreviation quiet :: "nat \<Rightarrow> item \<Rightarrow> bool" where
  "quiet \<equiv> \<lambda>_ _. False"

text \<open>The operations of the world as steps; the flag of a fallible one says which outcome the history is about.\<close>

fun world_step :: "nat list \<Rightarrow> nat \<Rightarrow> world_op \<Rightarrow> world \<Rightarrow> (world_answer \<times> world) option" where
  "world_step order t (WSpawn b) w = map_option (apfst WEntity) (spawn t w b)"
| "world_step order t (WTrySpawn b ok) w =
     Option.bind (try_spawn t w b) (\<lambda>(r, w'). case r of
        Inl _ \<Rightarrow> if ok then None else Some (WExhausted, w')
      | Inr e \<Rightarrow> if ok then Some (WEntity e, w') else None)"
| "world_step order t (WSpawnBatch tys rws n) w = map_option (apfst WEntities) (spawn_batch t w tys rws n)"
| "world_step order t WAlloc w = map_option (apfst WEntity) (alloc_entity t w)"
| "world_step order t (WDespawn e) w =
     Option.bind (despawn quiet order t w e) (\<lambda>((r, _), w'). case r of Returned b \<Rightarrow> Some (WFlag b, w') | Unwound \<Rightarrow> None)"
| "world_step order t (WInsert e b) w =
     Option.bind (world_insert quiet t w e b) (\<lambda>((r, _), w'). case r of Returned x \<Rightarrow> Some (WFlag (case x of Inl _ \<Rightarrow> False | Inr _ \<Rightarrow> True), w') | Unwound \<Rightarrow> None)"
| "world_step order t (WTryInsert e b ok) w =
     Option.bind (try_insert quiet t w e b) (\<lambda>((r, _), w'). case r of
        Returned (Inr _) \<Rightarrow> if ok then Some (WFlag True, w') else None
      | Returned (Inl (insert_error.Exhausted _)) \<Rightarrow> if ok then None else Some (WExhausted, w')
      | Returned (Inl _) \<Rightarrow> Some (WFlag False, w')
      | Unwound \<Rightarrow> None)"
| "world_step order t (WRemove e ty) w = map_option (apfst WItem) (world_remove t w e ty)"
| "world_step order t (WGetMut e ty x) w = map_option (apfst WFlag) (get_mut t w e ty x)"
| "world_step order t (WGet e ty) w = map_option (\<lambda>r. (WItem r, w)) (get w e ty)"
| "world_step order t (WHas e ty) w = map_option (\<lambda>r. (WFlag r, w)) (has_component w e ty)"
| "world_step order t (WRegister ty) w = map_option (apfst WId) (register_component t w ty)"

definition world_inv :: "nat list \<Rightarrow> world \<Rightarrow> bool" where
  "world_inv order w \<longleftrightarrow> world_ok w \<and> dom (w_sparse w) \<subseteq> set order"

subsection \<open>Each operation\<close>

lemma drain_settled:
  assumes "world_ok w" "drain_orphans t w = Some w'"
  shows "settled w'" "aw_of w' = drained (aw_of w)" "w_sparse w' = w_sparse w" "w_components w' = w_components w"
proof -
  note D = drain_ok [OF assms]
  show "settled w'" using D by (simp add: settled_def)
  have ss: "same_store w w'" using D by blast
  have "view w' = view w" by (rule view_rows_eq [OF same_store_rows(1) [OF ss]])
  moreover have "drain_spec (ea_abs (w_entities w), w_orphans w) = (ea_abs (w_entities w'), w_orphans w')" "w_tick w' = w_tick w" using D by simp_all
  ultimately show "aw_of w' = drained (aw_of w)"
    using ss by (simp add: aw_of_def drained_def same_store_def del: drain_spec.simps)
  show "w_sparse w' = w_sparse w" "w_components w' = w_components w" using ss by (simp_all add: same_store_def)
qed

lemma drained_reg [simp]: "aw_reg (drained A) = aw_reg A" "aw_view (drained A) = aw_view A" "aw_sparse (drained A) = aw_sparse A"
  by (simp_all add: drained_def split: prod.splits)

lemma settled_inv: "settled w' \<Longrightarrow> w_sparse w' = w_sparse w \<Longrightarrow> world_inv order w \<Longrightarrow> world_inv order w'"
  by (simp add: world_inv_def settledD(6))

lemma alloc_spec_eq: "ea_spec EAlloc s = (AEntity e, s') \<Longrightarrow> new_entity s = e \<and> snd (ea_spec EAlloc s) = s'"
  by (simp add: new_entity_def)

lemma view_fresh: "rows w (ent_index e) = None \<Longrightarrow> rows w' = (rows w)(ent_index e \<mapsto> (i, e, m)) \<Longrightarrow> view w' = (view w)(e \<mapsto> m)"
  using view_put [of "rows w" e i m] by (simp add: view_def)

lemma place_new_spec:
  assumes "settled w" "ea_pre EAlloc (ea_abs (w_entities w))" "bundle_ok (w_components w) b"
    "i < length (w_archs w)" "set (ar_sorted_ids (w_archs w ! i)) = dom (bundle_map (w_components w) b)" "place_new t w i b = Some (e, w')"
  shows "place_spec b (aw_of w) = (e, aw_of w')"
proof -
  note P = place_new_ok [OF assms]
  have "view w' = (view w)(e \<mapsto> bundle_map (w_components w) b)" by (rule view_fresh [OF P(3,2)])
  then show ?thesis using alloc_spec_eq [OF P(4)] P by (simp add: place_spec_def alloc_spec_def aw_of_def)
qed

lemma spawn_sim:
  assumes ok: "settled w" and fit: "bundle_fits (w_components w) b" and pre: "ea_pre EAlloc (ea_abs (w_entities w))"
    and b: "bundle_archetype t w b = Some (i, w2)" and p: "place_new t w2 i b = Some (e, w')"
  shows "settled w'" "place_spec b (typed_in b (aw_of w)) = (e, aw_of w')" "w_sparse w' = w_sparse w"
proof -
  note A = bundle_archetype_ok [OF ok fit b]
  have pre2: "ea_pre EAlloc (ea_abs (w_entities w2))" using pre A(4) by simp
  note P = place_new_ok [OF A(1) pre2 A(8,9,10) p]
  show "settled w'" by (rule P(1))
  have "view w2 = view w" by (rule view_rows_eq [OF A(2)])
  then have "aw_of w2 = typed_in b (aw_of w)" using A by (simp add: aw_of_def typed_in_def)
  then show "place_spec b (typed_in b (aw_of w)) = (e, aw_of w')" using place_new_spec [OF A(1) pre2 A(8,9,10) p] by simp
  show "w_sparse w' = w_sparse w" using P(6) A(5) by simp
qed

lemma same_rows_settled:
  assumes "settled w" "places w' = places w" "w_archetypes w' = w_archetypes w" "w_components w' = w_components w" "w_sparse w' = w_sparse w" "w_orphans w' = w_orphans w"
    and "ea_ok (w_entities w')" "\<And>e. held (w_entities w) e \<Longrightarrow> held (w_entities w') e"
  shows "settled w'" "rows w' = rows w"
proof -
  note S = struct_places [OF settledD(1) [OF assms(1)] assms(2-4)]
  then show "rows w' = rows w" by blast
  show "settled w'" using S settledD [OF assms(1)] assms(5-8) by (intro settledI) (auto simp: placed_held_def)
qed

lemma prepare_keeps:
  assumes ok: "ea_ok a" and r: "ea_try_prepare_alloc t p a = Some (r, q, b)"
  shows "ea_ok b" "ea_abs b = ea_abs a" "held a e \<Longrightarrow> held b e"
proof -
  obtain gs fs where b: "b = a\<lparr>ea_generations := gs, ea_free := (ea_free a)\<lparr>fl_slots := fs\<rparr>\<rparr>" "pv_elems gs = ea_gens a"
    "pv_elems fs = pv_elems (fl_slots (ea_free a))" "pv_cap (fl_slots (ea_free a)) \<le> pv_cap fs"
  proof -
    obtain tot r1 p1 gs where g: "pv_try_reserve t p (ea_generations a) (tot - length (ea_gens a)) = Some (r1, p1, gs)"
      "case r1 of Inl e \<Rightarrow> b = a\<lparr>ea_generations := gs\<rparr>
        | Inr _ \<Rightarrow> \<exists>r2 l. fl_try_reserve_total t p1 (ea_free a) tot = Some (r2, q, l) \<and> b = a\<lparr>ea_generations := gs, ea_free := l\<rparr>"
      using r by (auto simp: ea_try_prepare_alloc_def Let_def split: bind_splits sum.splits)
    note ge = pv_try_reserve_elems [OF g(1)]
    show thesis
    proof (cases r1)
      case (Inl x)
      then show thesis using g(2) ge that [where gs = gs and fs = "fl_slots (ea_free a)"] by simp
    next
      case (Inr x)
      then obtain r2 fs where fs: "pv_try_reserve t p1 (fl_slots (ea_free a)) (tot - pv_len (fl_slots (ea_free a))) = Some (r2, q, fs)"
        "b = a\<lparr>ea_generations := gs, ea_free := (ea_free a)\<lparr>fl_slots := fs\<rparr>\<rparr>"
        using g(2) by (auto simp: fl_try_reserve_total_def split: bind_splits)
      have "pv_elems fs = pv_elems (fl_slots (ea_free a))" "pv_cap (fl_slots (ea_free a)) \<le> pv_cap fs" using pv_try_reserve_elems [OF fs(1)] by auto
      then show thesis using ge fs(2) that [where gs = gs and fs = fs] by blast
    qed
  qed
  have fi: "fl_inv (ea_free a)" using ok by (simp add: ea_ok_def)
  show "ea_ok b" "ea_abs b = ea_abs a" using ok fl_slots_inv [OF fi b(3)] b by (auto simp: ea_ok_def ea_abs_def)
  then show "held a e \<Longrightarrow> held b e" by (simp add: held_abs)
qed

text \<open>\<^verbatim>\<open>try_spawn\<close>: every way of running out of memory leaves the contents as they were.\<close>

lemma reserve_locations_keeps:
  assumes "pv_try_reserve t p (w_locations w) n = Some (r, q, ls)"
  shows "places (w\<lparr>w_pool := q, w_locations := ls\<rparr>) = places w"
  by (rule places_cong) (use pv_try_reserve_elems [OF assms] in simp)

lemma try_spawn_sim:
  assumes ok: "settled w" and dr: "drain_orphans t w0 = Some w" and fit: "bundle_fits (w_components w) b" and pre: "ea_pre EAlloc (ea_abs (w_entities w))"
    and r: "try_spawn t w0 b = Some (res, w')"
  shows "settled w' \<and> w_sparse w' = w_sparse w \<and> (case res of Inl _ \<Rightarrow> aw_of w' = typed_in b (aw_of w) | Inr e \<Rightarrow> place_spec b (typed_in b (aw_of w)) = (e, aw_of w'))"
proof -
  obtain i w2 where b: "bundle_archetype t w b = Some (i, w2)" using r dr by (auto simp: try_spawn_def split: bind_splits)
  note A = bundle_archetype_ok [OF ok fit b]
  have v2: "aw_of w2 = typed_in b (aw_of w)" using A view_rows_eq [OF A(2)] by (simp add: aw_of_def typed_in_def)
  obtain r1 w3 where g: "grow_archetype t w2 i = Some (r1, w3)" using r dr b by (auto simp: try_spawn_def split: bind_splits)
  note G = grow_archetype_ok [OF A(1,9) g]
  have v3: "aw_of w3 = aw_of w2" using G view_rows_eq [OF G(2)] by (simp add: aw_of_def)
  show ?thesis
  proof (cases r1)
    case (Inl x)
    then have "res = Inl x \<and> w' = w3" using r dr b g by (simp add: try_spawn_def)
    then show ?thesis using G(1,6) A(5) v3 v2 by simp
  next
    case (Inr x)
    obtain r2 p en where pa: "ea_try_prepare_alloc t (w_pool w3) (w_entities w3) = Some (r2, p, en)"
      using r dr b g Inr by (auto simp: try_spawn_def split: bind_splits)
    define w4 where "w4 = w3\<lparr>w_pool := p, w_entities := en\<rparr>"
    note K = prepare_keeps [OF settledD(2) [OF G(1)] pa]
    have p4: "places w4 = places w3" by (rule places_cong) (simp add: w4_def)
    note S4 = same_rows_settled [OF G(1) p4]
    have s4: "settled w4" "rows w4 = rows w3" using S4 K by (simp_all add: w4_def)
    have v4: "aw_of w4 = aw_of w3" using view_rows_eq [OF s4(2)] K(2) by (simp add: aw_of_def w4_def)
    show ?thesis
    proof (cases r2)
      case (Inl x)
      then have "res = Inl x \<and> w' = w4" using r dr b g Inr pa by (simp add: try_spawn_def Let_def w4_def \<open>r1 = Inr _\<close>)
      then show ?thesis using s4(1) G(6) A(5) v4 v3 v2 by (simp add: w4_def)
    next
      case r2: (Inr bound)
      obtain r3 p' ls where ls: "pv_try_reserve t (w_pool w4) (w_locations w4) (bound - length (w_locs w4)) = Some (r3, p', ls)"
        using r dr b g \<open>r1 = Inr x\<close> pa r2 by (auto simp: try_spawn_def Let_def w4_def split: bind_splits)
      define w5 where "w5 = w4\<lparr>w_pool := p', w_locations := ls\<rparr>"
      have p5: "places w5 = places w4" unfolding w5_def by (rule reserve_locations_keeps [OF ls])
      note S5 = same_rows_settled [OF s4(1) p5]
      have s5: "settled w5" "rows w5 = rows w4" using S5 settledD(2) [OF s4(1)] by (simp_all add: w5_def)
      have v5: "aw_of w5 = aw_of w4" using view_rows_eq [OF s5(2)] by (simp add: aw_of_def w5_def)
      show ?thesis
      proof (cases r3)
        case (Inl y)
        then have "res = Inl y \<and> w' = w5" using r dr b g \<open>r1 = Inr x\<close> pa r2 ls by (simp add: try_spawn_def Let_def w4_def w5_def)
        then show ?thesis using s5(1) G(6) A(5) v5 v4 v3 v2 by (simp add: w5_def w4_def)
      next
        case (Inr y)
        then obtain e where pn: "place_new t w5 i b = Some (e, w')" "res = Inr e"
          using r dr b g \<open>r1 = Inr x\<close> pa r2 ls by (auto simp: try_spawn_def Let_def w4_def w5_def split: bind_splits)
        have arcs: "w_archetypes w5 = w_archetypes w3" "w_components w5 = w_components w2" using G(4) by (simp_all add: w5_def w4_def)
        have "ea_abs (w_entities w5) = ea_abs (w_entities w)" using K(2) G(5) A(4) by (simp add: w5_def w4_def)
        then have pre5: "ea_pre EAlloc (ea_abs (w_entities w5))" using pre by simp
        have i5: "i < length (w_archs w5)" "set (ar_sorted_ids (w_archs w5 ! i)) = dom (bundle_map (w_components w5) b)"
          using arcs G(9,10) A(9,10) by simp_all
        have b5: "bundle_ok (w_components w5) b" using A(8) arcs by simp
        note P = place_new_ok [OF s5(1) pre5 b5 i5 pn(1)]
        show ?thesis using P(1,6) place_new_spec [OF s5(1) pre5 b5 i5 pn(1)] pn(2) v5 v4 v3 v2 G(6) A(5) by (simp add: w5_def w4_def)
      qed
    qed
  qed
qed

subsection \<open>Batches\<close>

lemma place_all_sim:
  assumes "settled w" "i < length (w_archs w)"
    and "\<And>b. b \<in> set bs \<Longrightarrow> bundle_ok (w_components w) b \<and> set (ar_sorted_ids (w_archs w ! i)) = dom (bundle_map (w_components w) b)"
    and "bundles_pre bs (aw_of w)" "place_all t w i bs = Some (es, w')"
  shows "settled w' \<and> place_all_spec bs (aw_of w) = (es, aw_of w') \<and> w_sparse w' = w_sparse w"
  using assms
proof (induction bs arbitrary: w es)
  case (Cons b bs)
  obtain e w1 es' where s: "place_new t w i b = Some (e, w1)" "place_all t w1 i bs = Some (es', w')" "es = e # es'"
    using Cons.prems(5) by (auto split: bind_splits)
  have pre: "ea_pre EAlloc (ea_abs (w_entities w))" "bundles_pre bs (snd (place_spec b (aw_of w)))" using Cons.prems(4) by (simp_all add: aw_of_def)
  have b: "bundle_ok (w_components w) b" "set (ar_sorted_ids (w_archs w ! i)) = dom (bundle_map (w_components w) b)" using Cons.prems(3) by simp_all
  note P = place_new_ok [OF Cons.prems(1) pre(1) b(1) Cons.prems(2) b(2) s(1)]
  have sp: "place_spec b (aw_of w) = (e, aw_of w1)" by (rule place_new_spec [OF Cons.prems(1) pre(1) b(1) Cons.prems(2) b(2) s(1)])
  have "bundle_ok (w_components w1) b' \<and> set (ar_sorted_ids (w_archs w1 ! i)) = dom (bundle_map (w_components w1) b')" if "b' \<in> set bs" for b'
    using Cons.prems(3) [of b'] that P(5,10) by simp
  then have "settled w' \<and> place_all_spec bs (aw_of w1) = (es', aw_of w') \<and> w_sparse w' = w_sparse w1"
    using Cons.prems(2) P(9) pre(2) sp by (intro Cons.IH [OF P(1) _ _ _ s(2)]) simp_all
  then show ?case using sp s(3) P(6) by simp
qed simp

lemma zip_bundle:
  assumes "length r = length tys" "bundle_ok reg (map (\<lambda>ty. (ty, [])) tys)" "bundle_fits reg0 (zip tys r)" "reg = snd (register_all reg0 tys)"
  shows "bundle_ok reg (zip tys r)" "dom (bundle_map reg (zip tys r)) = dom (bundle_map reg (map (\<lambda>ty. (ty, [])) tys))"
proof -
  have mf: "map fst (zip tys r) = tys" using assms(1) by simp
  have ids: "map (\<lambda>v. the (cr_id reg (fst v))) (zip tys r) = map (\<lambda>ty. the (cr_id reg ty)) tys"
    using mf by (metis (no_types, lifting) map_eq_conv map_map comp_apply)
  have each: "\<exists>c. cr_id reg (fst v) = Some c \<and> sized reg c (snd v)" if "v \<in> set (zip tys r)" for v
  proof -
    have ty: "fst v \<in> set tys" using that set_zip_leftD [of "fst v" "snd v" tys r] by simp
    then have "(fst v, []) \<in> set (map (\<lambda>ty. (ty, [])) tys)" by auto
    then obtain c info where c: "cr_id reg (fst v) = Some c" "cr_info reg c = Some info" using assms(2) by (fastforce simp: bundle_ok_def sized_def)
    have "l_size (ci_layout info) = 0 \<longrightarrow> snd v = []" using bundle_fitsD [OF assms(3) that _ c] mf assms(4) by simp
    then show ?thesis using c by (auto simp: sized_def)
  qed
  show ok: "bundle_ok reg (zip tys r)" using assms(2) each ids by (simp add: bundle_ok_def comp_def)
  show "dom (bundle_map reg (zip tys r)) = dom (bundle_map reg (map (\<lambda>ty. (ty, [])) tys))"
    unfolding bundle_map_dom [OF ok] bundle_map_dom [OF assms(2)] ids by (simp add: comp_def)
qed

lemma spawn_batch_sim:
  assumes ok: "settled w" and dr: "drain_orphans t w0 = Some w"
    and fit: "\<forall>r \<in> set rws. length r = length tys \<and> bundle_fits (w_components w) (zip tys r)"
    and pre: "bundles_pre (map (zip tys) rws) (typed_in (map (\<lambda>ty. (ty, [])) tys) (aw_of w))"
    and r: "spawn_batch t w0 tys rws n = Some (es, w')"
  shows "settled w' \<and> w_sparse w' = w_sparse w \<and> place_all_spec (map (zip tys) rws) (typed_in (map (\<lambda>ty. (ty, [])) tys) (aw_of w)) = (es, aw_of w')"
proof -
  let ?b = "map (\<lambda>ty. (ty, [])) tys :: bundle_values"
  obtain i w2 where b: "bundle_archetype t w ?b = Some (i, w2)" using r dr by (auto simp: spawn_batch_def split: bind_splits)
  have f0: "bundle_fits (w_components w) ?b" by (auto simp: bundle_fits_def Let_def list_all_iff split: option.splits)
  note A = bundle_archetype_ok [OF ok f0 b]
  have v2: "aw_of w2 = typed_in ?b (aw_of w)" using A view_rows_eq [OF A(2)] by (simp add: aw_of_def typed_in_def)
  obtain w3 where w3: "settled w3" "aw_of w3 = aw_of w2" "w_sparse w3 = w_sparse w2" "w_components w3 = w_components w2"
    "i < length (w_archs w3)" "ar_sorted_ids (w_archs w3 ! i) = ar_sorted_ids (w_archs w2 ! i)" "place_all t w3 i (map (zip tys) rws) = Some (es, w')"
  proof (cases "n > 0")
    case False
    then show thesis using that [of w2] A(1,9) r dr b by (simp add: spawn_batch_def)
  next
    case True
    let ?a = "w_archs w2 ! i"
    obtain p cols p' ent where s: "reserve_columns t (w_pool w2) (ar_columns ?a) n = Some (p, cols)" "pv_reserve t p (ar_entities ?a) n = Some (p', ent)"
      "place_all t ((set_archetype w2 i (?a\<lparr>ar_columns := cols, ar_entities := ent\<rparr>))\<lparr>w_pool := p'\<rparr>) i (map (zip tys) rws) = Some (es, w')"
      using True r dr b A(9) by (auto simp: spawn_batch_def nth_opt_def split: bind_splits)
    note wf = struct_okD(4) [OF settledD(1) [OF A(1)] A(9)]
    have cs: "cols_step (\<lambda>_ xs. xs) (w_components w2) (ar_sorted_ids ?a) (ar_columns ?a) cols"
      using reserve_columns_same [OF _ _ s(1)] ar_wfD(2,4) [OF wf] by simp
    define w3 where "w3 = (set_archetype w2 i (?a\<lparr>ar_columns := cols, ar_entities := ent\<rparr>))\<lparr>w_pool := p'\<rparr>"
    have el: "pv_elems ent = pv_elems (ar_entities ?a)" using pv_reserve_elems [OF s(2)] by simp
    note R = settled_roomier [OF A(1,9) cs el w3_def]
    have "aw_of w3 = aw_of w2" using R view_rows_eq [OF R(2)] by (simp add: aw_of_def)
    then show thesis using that [of w3] R A(9) s(3) by (simp add: w3_def)
  qed
  have reg: "w_components w3 = snd (register_all (w_components w) tys)" using w3(4) A(3) by (simp add: bundle_reg_def comp_def)
  have "bundle_ok (w_components w3) b' \<and> set (ar_sorted_ids (w_archs w3 ! i)) = dom (bundle_map (w_components w3) b')" if m: "b' \<in> set (map (zip tys) rws)" for b'
  proof -
    obtain rw where rw: "rw \<in> set rws" "b' = zip tys rw" using m by auto
    have f: "length rw = length tys" "bundle_fits (w_components w) (zip tys rw)" using fit rw(1) by auto
    have b0: "bundle_ok (w_components w3) ?b" using A(8) w3(4) by simp
    note Z = zip_bundle [OF f(1) b0 f(2) reg]
    show ?thesis using Z rw(2) A(10) w3(4,6) by simp
  qed
  moreover have "bundles_pre (map (zip tys) rws) (aw_of w3)" using pre w3(2) v2 by simp
  ultimately have "settled w' \<and> place_all_spec (map (zip tys) rws) (aw_of w3) = (es, aw_of w') \<and> w_sparse w' = w_sparse w3"
    using place_all_sim [OF w3(1,5) _ _ w3(7)] by blast
  then show ?thesis using w3(2,3) v2 A(5) by simp
qed

subsection \<open>Reading\<close>

text \<open>Readers do not drain; the invariant without the orphans is enough for them.\<close>

lemma settled_mask:
  assumes "world_ok w"
  shows "settled (w\<lparr>w_orphans := oq_new\<rparr>)" "view (w\<lparr>w_orphans := oq_new\<rparr>) = view w" "places (w\<lparr>w_orphans := oq_new\<rparr>) = places w"
proof -
  let ?v = "w\<lparr>w_orphans := oq_new\<rparr>"
  have ss: "same_store w ?v" by (simp add: same_store_def)
  note R = same_store_rows [OF ss]
  show "settled ?v" using assms same_store_struct [OF ss] R by (intro settledI) (simp_all add: world_ok_def placed_held_def oq_new_def)
  show "view ?v = view w" by (rule view_rows_eq [OF R(1)])
  show "places ?v = places w" by (rule R(2))
qed

lemma locate_cases:
  assumes ok: "world_ok w" and l: "locate w e = Some place"
  shows "case place of None \<Rightarrow> view w e = None
    | Some l \<Rightarrow> el_archetype_id l < length (w_archs w) \<and> ar_wf (w_components w) (w_archs w ! el_archetype_id l) \<and> el_row_of l < ar_len (w_archs w ! el_archetype_id l)
        \<and> places w (ent_index e) = Some (el_archetype_id l, el_row_of l) \<and> view w e = Some (row_comps (w_archs w ! el_archetype_id l) (el_row_of l)) \<and> ea_is_alive (w_entities w) e"
proof -
  let ?v = "w\<lparr>w_orphans := oq_new\<rparr>"
  note M = settled_mask [OF ok]
  show ?thesis
  proof (cases place)
    case None
    then have "\<not> ea_is_alive (w_entities ?v) e \<or> loc_of ?v e = None" using l by (auto simp: locate_def loc_of_def nth_opt_def split: if_splits)
    then show ?thesis using insert_dead [OF M(1)] M(2) None by simp
  next
    case (Some p)
    then have al: "ea_is_alive (w_entities ?v) e" "loc_of ?v e = Some p" using l by (auto simp: locate_def loc_of_def nth_opt_def split: if_splits)
    have pl: "places ?v (ent_index e) = Some (el_archetype_id p, el_row_of p)" using loc_of_places [of ?v e] al(2) by simp
    note O = own_row [OF M(1) al(1) pl]
    have "ar_wf (w_components w) (w_archs w ! el_archetype_id p)" using struct_okD(4) [OF settledD(1) [OF M(1)] O(1)] by simp
    then show ?thesis using Some O pl M al by simp
  qed
qed

lemma read_row_ok:
  assumes "i < length (w_archs w)" "ar_wf (w_components w) (w_archs w ! i)" "el_archetype_id l = i"
  shows "read_row w l c = Some (row_comps (w_archs w ! i) (el_row_of l) c)"
  using assms column_index_bound [OF assms(2), of c]
  by (cases "column_index (w_archs w ! i) c") (auto simp: read_row_def nth_opt_def row_comps_def)

lemma get_sim: "world_ok w \<Longrightarrow> get w e ty = Some r \<Longrightarrow> r = read_spec (aw_of w) e ty"
proof -
  assume ok: "world_ok w" and g: "get w e ty = Some r"
  obtain place where l: "locate w e = Some place" using g by (auto simp: get_def split: bind_splits)
  note L = locate_cases [OF ok l]
  show ?thesis
  proof (cases place)
    case None
    then show ?thesis using g l L by (simp add: get_def read_spec_def aw_of_def)
  next
    case (Some p)
    then have p: "el_archetype_id p < length (w_archs w)" "ar_wf (w_components w) (w_archs w ! el_archetype_id p)"
      "view w e = Some (row_comps (w_archs w ! el_archetype_id p) (el_row_of p))" using L by auto
    show ?thesis
      using g l Some p(3) read_row_ok [OF p(1,2) refl]
      by (cases "cr_id (w_components w) ty") (auto simp: get_def read_spec_def aw_of_def split: if_splits)
  qed
qed

lemma st_contains_get:
  assumes "storage_ok st"
  shows "st_contains st c e \<longleftrightarrow> st_get st c e \<noteq> None"
proof (cases "st c")
  case (Some s)
  then have "sparse_ok (bv_item (ss_values s)) (bv_drop_fn (ss_values s)) s" using assms by (simp add: storage_ok_def)
  then show ?thesis using Some by (cases "dense_index s e") (simp_all add: st_contains_def st_get_def ss_contains_def ss_get_def)
qed (simp add: st_contains_def st_get_def)

lemma has_sim: "world_ok w \<Longrightarrow> has_component w e ty = Some r \<Longrightarrow> r = (read_spec (aw_of w) e ty \<noteq> None)"
proof -
  assume ok: "world_ok w" and g: "has_component w e ty = Some r"
  obtain place where l: "locate w e = Some place" using g by (auto simp: has_component_def split: bind_splits)
  note L = locate_cases [OF ok l]
  show ?thesis
  proof (cases place)
    case None
    then show ?thesis using g l L by (simp add: has_component_def read_spec_def aw_of_def)
  next
    case (Some p)
    let ?a = "w_archs w ! el_archetype_id p"
    have p: "el_archetype_id p < length (w_archs w)" "ar_wf (w_components w) ?a"
      "view w e = Some (row_comps ?a (el_row_of p))" using L Some by auto
    have "c \<in> ar_component_ids ?a \<longleftrightarrow> row_comps ?a (el_row_of p) c \<noteq> None" for c
      using row_comps_dom [OF p(2), of "el_row_of p"] ar_wfD(1) [OF p(2)] by (auto simp: dom_def)
    moreover have "storage_ok (w_sparse w)" using ok by (simp add: world_ok_def)
    ultimately show ?thesis
      using g l Some p(1,3) st_contains_get
      by (cases "cr_id (w_components w) ty") (auto simp: has_component_def read_spec_def aw_of_def nth_opt_def split: if_splits)
  qed
qed

lemma get_mut_sim:
  assumes ok: "settled w" and dr: "drain_orphans t w0 = Some w" and pre: "\<And>c. cr_id (w_components w) ty = Some c \<Longrightarrow> \<not> is_sparse (w_components w) c \<and> sized (w_components w) c x"
    and r: "get_mut t w0 e ty x = Some (b, w')"
  shows "settled w' \<and> w_sparse w' = w_sparse w
    \<and> (case Option.bind (view w e) (\<lambda>m. map_option (Pair m) (cr_id (w_components w) ty)) of
        None \<Rightarrow> \<not> b \<and> aw_of w' = aw_of w
      | Some (m, c) \<Rightarrow> b = (m c \<noteq> None) \<and> aw_of w' = (aw_of w)\<lparr>aw_tick := advance (w_tick w), aw_view := if m c = None then view w else (view w)(e \<mapsto> m(c \<mapsto> x))\<rparr>)"
proof -
  obtain place where l: "locate w e = Some place" using r dr by (auto simp: get_mut_def split: bind_splits)
  note L = locate_cases [OF settledD(6) [OF ok] l]
  show ?thesis
  proof (cases "place = None \<or> cr_id (w_components w) ty = None")
    case True
    then have "b = False \<and> w' = w" using r dr l by (auto simp: get_mut_def split: option.splits)
    moreover have "Option.bind (view w e) (\<lambda>m. map_option (Pair m) (cr_id (w_components w) ty)) = None" using True L by (cases "view w e") auto
    ultimately show ?thesis using ok by simp
  next
    case False
    then obtain p c where p: "place = Some p" and c: "cr_id (w_components w) ty = Some c" by auto
    let ?i = "el_archetype_id p" and ?row = "el_row_of p"
    let ?a = "w_archs w ! ?i"
    have P: "?i < length (w_archs w)" "ar_wf (w_components w) ?a" "?row < ar_len ?a" "places w (ent_index e) = Some (?i, ?row)"
      "view w e = Some (row_comps ?a ?row)" "ea_is_alive (w_entities w) e" using L p by auto
    note O = own_row [OF ok P(6,4)]
    have con: "ar_consistent ?a" by (rule struct_okD(5) [OF settledD(1) [OF ok] P(1)])
    define w1 where "w1 = w\<lparr>w_tick := advance (w_tick w)\<rparr>"
    have ss: "same_store w w1" by (simp add: same_store_def w1_def)
    note R1 = same_store_rows [OF ss]
    have s1: "settled w1" using settledD [OF ok] same_store_struct [OF ss] R1 by (intro settledI) (simp_all add: placed_held_def w1_def)
    show ?thesis
    proof (cases "column_index ?a c")
      case None
      then have "b = False \<and> w' = w1" using r dr l p c pre [OF c] P(1) by (simp add: get_mut_def next_tick_def w1_def nth_opt_def Let_def)
      moreover have "row_comps ?a ?row c = None" using None by (simp add: row_comps_def)
      moreover have "view w1 = view w" by (rule view_rows_eq [OF R1(1)])
      ultimately show ?thesis using s1 P(5) c by (simp add: aw_of_def w1_def)
    next
      case (Some k)
      have k: "k < length (ar_columns ?a)" by (rule column_index_bound [OF P(2) Some])
      have kc: "ar_sorted_ids ?a ! k = c" using ar_wfD(3) [OF P(2)] Some by blast
      let ?v = "ar_columns ?a ! k"
      let ?u = "bv_write (get_ptr_mut ?v ?row (advance (w_tick w))) ?row x"
      define a' where "a' = ?a\<lparr>ar_columns := (ar_columns ?a)[k := ?u]\<rparr>"
      have res: "b = True \<and> w' = set_archetype w1 ?i a'"
        using r dr l p c pre [OF c] P(1) Some k by (simp add: get_mut_def next_tick_def w1_def a'_def nth_opt_def Let_def)
      have rl: "?row < bv_len ?v" using consistent_len [OF con k] P(3) by simp
      have "typed (w_components w) c ?v" using ar_wfD(4) [OF P(2) k] kc by simp
      then obtain info where info: "cr_info (w_components w) c = Some info" "col_ok (ci_layout info) (ci_drop_fn info) ?v" by (rule typedE)
      have xs: "l_size (bv_item (get_ptr_mut ?v ?row (advance (w_tick w)))) = 0 \<Longrightarrow> x = []"
        using pre [OF c] info by (auto simp: sized_def get_ptr_mut_def col_ok_def)
      have lv: "live_rows ?u = (live_rows ?v)[?row := x]"
        using live_write [of ?row "get_ptr_mut ?v ?row (advance (w_tick w))" x] rl xs by (simp add: get_ptr_mut_def)
      have ty: "typed (w_components w) c ?u" using info by (auto simp: typed_def col_ok_def bv_write_def get_ptr_mut_def has_scratch_def)
      have tys: "\<forall>j < length (ar_columns ?a). typed (w_components w) (ar_sorted_ids ?a ! j) (ar_columns ?a ! j)" using ar_wfD(4) [OF P(2)] by blast
      have ty': "typed (w_components w) (ar_sorted_ids ?a ! k) ?u" using ty kc by simp
      have cs: "cols_step (\<lambda>i xs. if i = k then xs[?row := x] else xs) (w_components w) (ar_sorted_ids ?a) (ar_columns ?a) (ar_columns a')"
        using cols_step_one [OF k tys ty', of "\<lambda>xs. xs[?row := x]"] lv by (simp add: a'_def)
      have ids: "ar_sorted_ids ?a ! i = c \<longleftrightarrow> i = k" if "i < length (ar_columns ?a)" for i
        using that kc k ar_wf_distinct [OF P(2)] ar_wfD(2) [OF P(2)] by (auto simp: nth_eq_iff_index_eq)
      have cs': "cols_step (\<lambda>i xs. case [c \<mapsto> x] (ar_sorted_ids ?a ! i) of None \<Rightarrow> xs | Some y \<Rightarrow> xs[?row := y]) (w_components w) (ar_sorted_ids ?a) (ar_columns ?a) (ar_columns a')"
        by (rule cols_step_cong [OF cs]) (use ids in simp)
      have sh: "same_shape ?a a'" by (simp add: a'_def)
      have ents: "pv_elems (ar_entities a') = pv_elems (ar_entities ?a)" by (simp add: a'_def)
      have cm: "dom [c \<mapsto> x] \<subseteq> set (ar_sorted_ids ?a)" using nth_mem [of k "ar_sorted_ids ?a"] k kc ar_wfD(2) [OF P(2)] by simp
      have R: "ar_wf (w_components w) a'" "ar_consistent a'" "arch_rows a' = (arch_rows ?a)[?row := (e, row_comps ?a ?row ++ [c \<mapsto> x])]"
        using rows_updated [OF P(2) con sh P(3) cs' ents] bind_index [OF P(2) cm] O(3) by auto
      have "places w1 (ent_index e) = Some (?i, ?row)" using R1(2) P(4) by simp
      from struct_update [OF settledD(1) [OF s1] this, of a'] R sh
      have X: "struct_ok w'" "rows w' = (rows w1)(ent_index e \<mapsto> (?i, e, row_comps ?a ?row ++ [c \<mapsto> x]))" using res by (simp_all add: w1_def)
      have own: "rows w1 (ent_index e) = Some (?i, e, row_comps ?a ?row)" using O(4) R1(1) by simp
      have f: "w_entities w' = w_entities w1" "w_sparse w' = w_sparse w1" "w_orphans w' = w_orphans w1" using res by simp_all
      note Q = settled_put [OF s1 own X f]
      have "view w1 = view w" by (rule view_rows_eq [OF R1(1)])
      then show ?thesis using Q res P(5) c Some by (simp add: aw_of_def w1_def row_comps_def)
    qed
  qed
qed

subsection \<open>The refinement\<close>

lemma run_drops_quiet: "run_drops quiet ds = (ds, False)"
  by (rule run_drops_calm) simp

lemma despawn_sim:
  assumes ok: "settled w" and dr: "drain_orphans t w0 = Some w" and cover: "dom (w_sparse w) \<subseteq> set order"
    and d: "despawn quiet order t w0 e = Some ((out, ds), w')"
  shows "settled w' \<and> dom (w_sparse w') = dom (w_sparse w) \<and> (if view w e = None then out = Returned False \<and> aw_of w' = aw_of w
    else out = Returned True \<and> aw_of w' = (aw_of w)\<lparr>aw_slots := dealloc_spec (ea_abs (w_entities w)) e, aw_view := (view w)(e := None),
       aw_sparse := (\<lambda>c. (st_get (w_sparse w) c)(e := None))\<rparr>)"
proof (cases "view w e = None")
  case True
  then show ?thesis using despawn_ok [OF ok dr cover d] ok by simp
next
  case False
  obtain sds su st where st: "st_remove_all quiet order (w_sparse w) e = Some ((sds, su), st)" "dom st = dom (w_sparse w)"
    "\<forall>c e'. e' \<noteq> e \<or> c \<notin> set order \<longrightarrow> st_get st c e' = st_get (w_sparse w) c e'"
    "if su then visit_stopped quiet order (w_sparse w) e sds st else \<forall>c \<in> set order. st_get st c e = None"
    using st_remove_all_run [OF settledD(4) [OF ok], of quiet order e] by blast
  have su: "\<not> su" using st(4) by (auto simp: visit_stopped_def split: if_splits)
  have D: "settled w'" "view w' = (view w)(e := None)" "w_sparse w' = st" "w_components w' = w_components w" "w_tick w' = w_tick w"
    "w_orphans w' = w_orphans w" "ea_abs (w_entities w') = dealloc_spec (ea_abs (w_entities w)) e" "out = Returned True"
    using despawn_ok [OF ok dr cover d] False st(1) su by (auto simp: run_drops_quiet)
  have "st_get st c e = None" for c
  proof (cases "c \<in> set order")
    case True
    then show ?thesis using st(4) su by simp
  next
    case False
    then have "c \<notin> dom st" using cover st(2) by blast
    then show ?thesis by (simp add: st_get_def dom_def)
  qed
  then have "st_get st = (\<lambda>c. (st_get (w_sparse w) c)(e := None))" using st(3) by (auto simp: fun_eq_iff)
  then show ?thesis using D False st(2) by (simp add: aw_of_def)
qed

lemma inserted_spec: "inserted w e b w' \<Longrightarrow> settled w' \<and> w_sparse w' = w_sparse w \<and> aw_of w' = insert_spec e b (aw_of w)"
  by (simp add: inserted_def aw_of_def insert_spec_def typed_in_def Let_def)

lemma removed_spec: "removed_comp w e c w' \<Longrightarrow> settled w' \<and> w_sparse w' = w_sparse w
    \<and> aw_of w' = (aw_of w)\<lparr>aw_view := (view w)(e \<mapsto> (the (view w e))(c := None))\<rparr>"
  by (simp add: removed_comp_def aw_of_def)

lemma world_step_sim:
  assumes inv: "world_inv order w" and pre: "world_pre a (aw_of w)" and st: "world_step order t a w = Some (r, w')"
  shows "world_inv order w' \<and> world_spec a (aw_of w) = (r, aw_of w')"
proof -
  have ok: "world_ok w" and cover: "dom (w_sparse w) \<subseteq> set order" using inv by (simp_all add: world_inv_def)
  have dr: "settled v" "aw_of v = drained (aw_of w)" "w_sparse v = w_sparse w" "w_components v = w_components w" if "drain_orphans t w = Some v" for v
    using drain_settled [OF ok that] by blast+
  have sl: "ea_abs (w_entities v) = aw_slots (aw_of v)" "w_components v = aw_reg (aw_of v)" "view v = aw_view (aw_of v)" "st_get (w_sparse v) = aw_sparse (aw_of v)"
    "w_tick v = aw_tick (aw_of v)" for v by (simp_all add: aw_of_def)
  have done_: "world_inv order w' \<and> world_spec a (aw_of w) = (r, aw_of w')"
    if "settled w'" "w_sparse w' = w_sparse v" "w_sparse v = w_sparse w" "world_spec a (aw_of w) = (r, aw_of w')" for v
    using that settled_inv [of w' w order] inv by simp
  show ?thesis
  proof (cases a)
    case (WSpawn b)
    obtain e v i v2 where s: "drain_orphans t w = Some v" "bundle_archetype t v b = Some (i, v2)" "place_new t v2 i b = Some (e, w')" "r = WEntity e"
      using st WSpawn by (auto simp: spawn_def split: bind_splits)
    note D = dr [OF s(1)]
    have fit: "bundle_fits (w_components v) b" "ea_pre EAlloc (ea_abs (w_entities v))" using pre WSpawn D(2,4) by (simp_all add: sl)
    note P = spawn_sim [OF D(1) fit s(2,3)]
    show ?thesis by (rule done_ [OF P(1,3) D(3)]) (use P(2) D(2) s(4) WSpawn in simp)
  next
    case (WTrySpawn b okf)
    obtain res where t: "try_spawn t w b = Some (res, w')" "case res of Inl _ \<Rightarrow> \<not> okf \<and> r = WExhausted | Inr e \<Rightarrow> okf \<and> r = WEntity e"
      using st WTrySpawn by (auto split: bind_splits sum.splits if_splits)
    obtain v where v: "drain_orphans t w = Some v" using t(1) by (auto simp: try_spawn_def split: bind_splits)
    note D = dr [OF v]
    have fit: "bundle_fits (w_components v) b" "ea_pre EAlloc (ea_abs (w_entities v))" using pre WTrySpawn D(2,4) by (simp_all add: sl)
    note P = try_spawn_sim [OF D(1) v fit t(1)]
    have P1: "settled w'" "w_sparse w' = w_sparse v" using P by blast+
    show ?thesis by (rule done_ [OF P1 D(3)]) (use P t(2) D(2) WTrySpawn in \<open>auto split: sum.splits\<close>)
  next
    case (WSpawnBatch tys rws n)
    obtain es where t: "spawn_batch t w tys rws n = Some (es, w')" "r = WEntities es" using st WSpawnBatch by auto
    obtain v where v: "drain_orphans t w = Some v" using t(1) by (auto simp: spawn_batch_def split: bind_splits)
    note D = dr [OF v]
    have fit: "\<forall>r \<in> set rws. length r = length tys \<and> bundle_fits (w_components v) (zip tys r)"
      "bundles_pre (map (zip tys) rws) (typed_in (map (\<lambda>ty. (ty, [])) tys) (aw_of v))" using pre WSpawnBatch D(2,4) by (simp_all add: sl)
    note P = spawn_batch_sim [OF D(1) v fit t(1)]
    have P1: "settled w'" "w_sparse w' = w_sparse v" using P by blast+
    show ?thesis by (rule done_ [OF P1 D(3)]) (use P t(2) D(2) WSpawnBatch in simp)
  next
    case WAlloc
    obtain e v where s: "drain_orphans t w = Some v" "world_alloc t v = Some (e, w')" "r = WEntity e" using st WAlloc by (auto simp: alloc_entity_def split: bind_splits)
    note D = dr [OF s(1)]
    have p: "ea_pre EAlloc (ea_abs (w_entities v))" using pre WAlloc D(2) by (simp add: sl)
    note A = world_alloc_ok [OF D(1) p s(2)]
    have "alloc_spec (aw_of v) = (e, aw_of w')" using alloc_spec_eq [OF A(6)] A(7-11) view_rows_eq [OF A(2)] by (simp add: alloc_spec_def aw_of_def)
    then show ?thesis using D(2) s(3) WAlloc by (intro done_ [OF A(1,9) D(3)]) simp
  next
    case (WDespawn e)
    obtain out ds b where t: "despawn quiet order t w e = Some ((out, ds), w')" "out = Returned b" "r = WFlag b"
      using st WDespawn by (auto split: bind_splits outcome.splits)
    obtain v where v: "drain_orphans t w = Some v" using t(1) by (auto simp: despawn_def split: bind_splits)
    note D = dr [OF v]
    have cv: "dom (w_sparse v) \<subseteq> set order" using cover D(3) by simp
    note P = despawn_sim [OF D(1) v cv t(1)]
    have "world_inv order w'" using P cv by (simp add: world_inv_def settledD(6))
    moreover have "world_spec a (aw_of w) = (r, aw_of w')"
      using P t(2,3) WDespawn unfolding sl D(2) by (auto simp: Let_def split: if_splits)
    ultimately show ?thesis by blast
  next
    case (WInsert e b)
    obtain out ds x where t: "world_insert quiet t w e b = Some ((out, ds), w')" "out = Returned x" "r = WFlag (case x of Inl _ \<Rightarrow> False | Inr _ \<Rightarrow> True)"
      using st WInsert by (auto split: bind_splits outcome.splits)
    obtain v where v: "drain_orphans t w = Some v" using t(1) by (auto simp: world_insert_def split: bind_splits)
    note D = dr [OF v]
    have fit: "bundle_fits (w_components v) b" using pre WInsert D(2,4) by (simp add: sl)
    have P: "if view v e = None then out = Returned (Inl e) \<and> ds = [] \<and> w' = v else out = Returned (Inr ()) \<and> inserted v e b w'"
      by (rule world_insert_ok [OF D(1) v fit _ t(1)]) simp
    show ?thesis
    proof (cases "view v e = None")
      case True
      then show ?thesis using P t(2,3) D(1,2) WInsert by (intro done_ [OF _ _ D(3)]) (simp_all add: Let_def sl)
    next
      case False
      then have "inserted v e b w'" using P by simp
      from inserted_spec [OF this] show ?thesis using False P t(2,3) D(2) WInsert by (intro done_ [OF _ _ D(3)]) (auto simp: Let_def sl)
    qed
  next
    case (WTryInsert e b okf)
    obtain out ds where t: "try_insert quiet t w e b = Some ((out, ds), w')"
      "case out of Returned (Inr _) \<Rightarrow> okf \<and> r = WFlag True | Returned (Inl (insert_error.Exhausted _)) \<Rightarrow> \<not> okf \<and> r = WExhausted
         | Returned (Inl _) \<Rightarrow> r = WFlag False | Unwound \<Rightarrow> False"
      using st WTryInsert by (auto split: bind_splits outcome.splits sum.splits insert_error.splits if_splits)
    obtain v where v: "drain_orphans t w = Some v" using t(1) by (auto simp: try_insert_def split: bind_splits)
    note D = dr [OF v]
    have fit: "bundle_fits (w_components v) b" using pre WTryInsert D(2,4) by (simp add: sl)
    note P = try_insert_ok [OF D(1) v fit _ t(1)]
    show ?thesis
    proof (cases "view v e = None")
      case True
      then show ?thesis using P t(2) D(1,2) WTryInsert by (intro done_ [OF _ _ D(3)]) (auto simp: Let_def sl)
    next
      case False
      show ?thesis
      proof (cases "out = Returned (Inr ())")
        case True
        then have "inserted v e b w'" using P False by auto
        from inserted_spec [OF this] show ?thesis using False True t(2) D(2) WTryInsert by (intro done_ [OF _ _ D(3)]) (simp_all add: Let_def sl)
      next
        case nok: False
        then obtain x where x: "out = Returned (Inl (insert_error.Exhausted x))" "settled w'" "view w' = view v" "w_components w' = bundle_reg (w_components v) b"
            "w_entities w' = w_entities v" "w_sparse w' = w_sparse v" "w_orphans w' = w_orphans v" "w_tick w' = w_tick v" using P False by auto
        then have "aw_of w' = typed_in b (aw_of v)" by (simp add: aw_of_def typed_in_def)
        then show ?thesis using False x t(2) D(2) WTryInsert by (intro done_ [OF _ _ D(3)]) (simp_all add: Let_def sl)
      qed
    qed
  next
    case (WRemove e ty)
    obtain res where t: "world_remove t w e ty = Some (res, w')" "r = WItem res" using st WRemove by auto
    obtain v where v: "drain_orphans t w = Some v" using t(1) by (auto simp: world_remove_def split: bind_splits)
    note D = dr [OF v]
    note P = world_remove_ok [OF D(1) v t(1)]
    show ?thesis
    proof (cases "Option.bind (view v e) (\<lambda>m. Option.bind (cr_id (w_components v) ty) (\<lambda>c. map_option (Pair c) (m c)))")
      case None
      then show ?thesis using P t(2) D(1,2) WRemove by (intro done_ [OF _ _ D(3)]) (simp_all add: Let_def sl)
    next
      case (Some cx)
      obtain c x where cx: "cx = (c, x)" by (cases cx)
      then have q: "res = Some x" "removed_comp v e c w'" using P Some by auto
      from removed_spec [OF q(2)] show ?thesis using Some cx q(1) t(2) D(2) WRemove by (intro done_ [OF _ _ D(3)]) (simp_all add: Let_def sl)
    qed
  next
    case (WGetMut e ty x)
    obtain b where t: "get_mut t w e ty x = Some (b, w')" "r = WFlag b" using st WGetMut by auto
    obtain v where v: "drain_orphans t w = Some v" using t(1) by (auto simp: get_mut_def split: bind_splits)
    note D = dr [OF v]
    have p: "\<not> is_sparse (w_components v) c \<and> sized (w_components v) c x" if "cr_id (w_components v) ty = Some c" for c
      using pre WGetMut D(4) that by (simp add: sl)
    note P = get_mut_sim [OF D(1) v p t(1)]
    show ?thesis
    proof (cases "Option.bind (view v e) (\<lambda>m. map_option (Pair m) (cr_id (w_components v) ty))")
      case None
      then show ?thesis using P t(2) D(2) WGetMut by (intro done_ [OF _ _ D(3)]) (simp_all add: Let_def sl)
    next
      case (Some mc)
      obtain m c where mc: "mc = (m, c)" by (cases mc)
      have q: "settled w'" "w_sparse w' = w_sparse v" "b = (m c \<noteq> None)" "aw_of w' = (aw_of v)\<lparr>aw_tick := advance (w_tick v), aw_view := if m c = None then view v else (view v)(e \<mapsto> m(c \<mapsto> x))\<rparr>"
        using P Some mc by auto
      have "world_spec a (aw_of w) = (r, aw_of w')"
        using Some mc q(3,4) t(2) D(2) WGetMut by (cases "m c") (simp_all add: Let_def sl)
      then show ?thesis by (rule done_ [OF q(1,2) D(3)])
    qed
  next
    case (WGet e ty)
    then obtain x where "get w e ty = Some x" "r = WItem x" "w' = w" using st by auto
    then show ?thesis using get_sim [OF ok] inv WGet by simp
  next
    case (WHas e ty)
    then obtain x where "has_component w e ty = Some x" "r = WFlag x" "w' = w" using st by auto
    then show ?thesis using has_sim [OF ok] inv WHas by simp
  next
    case (WRegister ty)
    obtain v i reg where s: "drain_orphans t w = Some v" "register (w_components v) ty = (i, reg)" "w' = v\<lparr>w_components := reg\<rparr>" "r = WId i"
      using st WRegister by (auto simp: register_component_def Let_def split: bind_splits prod.splits)
    note D = dr [OF s(1)]
    note R = register_id [OF struct_okD(1) [OF settledD(1) [OF D(1)]] s(2)]
    note S = settled_reg [OF D(1) R(1,2)]
    have "aw_of w' = (aw_of v)\<lparr>aw_reg := reg\<rparr>" using view_rows_eq [OF S(2)] by (simp add: s(3) aw_of_def)
    then show ?thesis using S(1) s(2-4) D(2) WRegister by (intro done_ [OF _ _ D(3)]) (simp_all add: Let_def sl)
  qed
qed

interpretation world_sim: simulation "world_step order t" world_spec world_pre "world_inv order" aw_of
  by unfold_locales (use world_step_sim in blast)

text \<open>
  (C1) The world is a map from entities to components. Over every history of spawning (single,
  batched, fallible), despawning, inserting, removing, registering, reading and writing that
  completes, with destructors that return, the answers are those of the abstract world: a
  slot table of handles, the pending orphans, the component registry, one map from placed
  entities to their component values, one from sparse components to theirs, and the change
  tick. A refused or failed operation changes nothing that can be observed, rows that move
  inside or between archetypes are never lost, mixed up or duplicated, and the invariant of
  the location table holds in the end.
\<close>

theorem world_refines:
  assumes "world_inv order w" "spec_allows world_pre world_spec ops (aw_of w)" "run_answers (world_step order t) ops w = Some (rs, w')"
  shows "world_inv order w' \<and> spec_answers world_spec ops (aw_of w) = (rs, aw_of w')"
  by (rule world_sim.run_sim [OF assms])

lemma sized_code [code]: "sized reg c x = (case cr_info reg c of None \<Rightarrow> False | Some info \<Rightarrow> l_size (ci_layout info) = 0 \<longrightarrow> x = [])"
  by (auto simp: sized_def split: option.splits)

text \<open>A world with two registered types, three archetypes and room for a few entities.\<close>

definition ty_byte :: rust_type where "ty_byte = \<lparr>ty_id = 3, ty_name = ''Byte'', ty_layout = \<lparr>l_size = 1, l_align = 1\<rparr>, ty_needs_drop = True\<rparr>"
definition ty_tag :: rust_type where "ty_tag = \<lparr>ty_id = 9, ty_name = ''Tag'', ty_layout = \<lparr>l_size = 0, l_align = 1\<rparr>, ty_needs_drop = False\<rparr>"

definition demo_reg :: registry where
  "demo_reg = snd (register (snd (register cr_new ty_byte)) ty_tag)"

definition tag_column :: blob_vec where
  "tag_column = bv_init \<lparr>l_size = 0, l_align = 1\<rparr> False (Dangling 1) USIZE_MAX"

text \<open>An empty archetype with room, for components below \<open>n\<close>.\<close>

definition room_arch :: "nat \<Rightarrow> nat \<Rightarrow> nat list \<Rightarrow> blob_vec list \<Rightarrow> archetype" where
  "room_arch n i ids cols = \<lparr>ar_id = i, ar_component_ids = set ids, ar_sorted_ids = ids, ar_columns = cols,
     ar_component_index = map (\<lambda>c. find (\<lambda>k. ids ! k = c) [0..<length ids]) [0..<n], ar_entities = roomy (pv_new ENTITY_TYPE)\<rparr>"

definition room_archs :: "(nat list \<times> blob_vec list) list \<Rightarrow> nat \<Rightarrow> archetypes" where
  "room_archs xs n = \<lparr>as_list = map (\<lambda>(i, ids, cols). room_arch n i ids cols) (enumerate 0 xs),
     as_by_components = map_of (map (\<lambda>(i, ids, cols). (ids, i)) (enumerate 0 xs))\<rparr>"

definition room_world :: "registry \<Rightarrow> (nat list \<times> blob_vec list) list \<Rightarrow> world" where
  "room_world reg xs = (new_with_pool 0 (slab_pool_new 2097152 1))\<lparr>w_entities := demo_ea, w_locations := roomy (pv_new LOCATION_TYPE),
     w_components := reg, w_archetypes := room_archs xs (cr_len reg)\<rparr>"

lemma room_arch_wf:
  assumes "distinct ids" "\<forall>c \<in> set ids. c < n" "length cols = length ids" "\<forall>k < length ids. typed reg (ids ! k) (cols ! k)"
  shows "ar_wf reg (room_arch n i ids cols)"
proof -
  have "column_index (room_arch n i ids cols) c = Some k \<longleftrightarrow> k < length ids \<and> ids ! k = c" for c k
  proof (cases "c < n")
    case True
    have "find (\<lambda>k. ids ! k = c) [0..<length ids] = Some k \<longleftrightarrow> k < length ids \<and> ids ! k = c"
      using assms(1) by (auto simp: find_Some_iff nth_eq_iff_index_eq)
    then show ?thesis using True by (simp add: column_index_def room_arch_def)
  next
    case False
    then have "\<not> (k < length ids \<and> ids ! k = c)" using assms(2) nth_mem by blast
    then show ?thesis using False by (auto simp: column_index_def room_arch_def)
  qed
  then show ?thesis using assms(3,4) unfolding ar_wf_typed by (simp add: room_arch_def)
qed

lemma room_archs_nth: "i < length xs \<Longrightarrow> as_list (room_archs xs n) ! i = room_arch n i (fst (xs ! i)) (snd (xs ! i))"
  by (simp add: room_archs_def nth_enumerate_eq split_def)

lemma room_archs_ids: "i < length xs \<Longrightarrow> ar_sorted_ids (as_list (room_archs xs n) ! i) = fst (xs ! i)"
  "i < length xs \<Longrightarrow> ar_id (as_list (room_archs xs n) ! i) = i"
  by (simp_all add: room_archs_nth room_arch_def)

lemma room_archs_len: "length (as_list (room_archs xs n)) = length xs"
  by (simp add: room_archs_def)

lemma room_archs_table:
  assumes "distinct (map fst xs)"
  shows "as_by_components (room_archs xs n) ids = Some i \<longleftrightarrow> i < length xs \<and> fst (xs ! i) = ids"
proof -
  let ?l = "map (\<lambda>(i, ids, cols). (ids, i)) (enumerate 0 xs)"
  have "map fst ?l = map fst xs" by (intro nth_equalityI) (auto simp: nth_enumerate_eq split_def)
  then have d: "distinct (map fst ?l)" using assms by simp
  have "map_of ?l ids = Some i \<longleftrightarrow> (ids, i) \<in> set ?l" by (rule map_of_eq_Some_iff [OF d])
  also have "\<dots> \<longleftrightarrow> (\<exists>cols. (i, ids, cols) \<in> set (enumerate 0 xs))" by (auto simp: image_iff Bex_def)
  also have "\<dots> \<longleftrightarrow> i < length xs \<and> fst (xs ! i) = ids" by (auto simp: in_set_enumerate_eq intro!: exI [of _ "snd (xs ! i)"])
  finally show ?thesis by (simp add: room_archs_def)
qed

lemma room_world_inv:
  assumes reg: "reg_inv reg" and xs: "distinct (map fst xs)"
    and each: "\<forall>(ids, cols) \<in> set xs. distinct ids \<and> (\<forall>c \<in> set ids. c < cr_len reg) \<and> length cols = length ids
      \<and> (\<forall>k < length ids. typed reg (ids ! k) (cols ! k) \<and> bv_len (cols ! k) = 0)"
  shows "world_inv [] (room_world reg xs)" "view (room_world reg xs) = Map.empty"
proof -
  let ?w = "room_world reg xs" and ?n = "cr_len reg"
  have f: "w_archetypes ?w = room_archs xs ?n" "w_components ?w = reg" "w_entities ?w = demo_ea" "w_orphans ?w = oq_new" "w_sparse ?w = Map.empty"
    by (simp_all add: room_world_def new_with_pool_def st_new_def)
  have p: "places ?w = Map.empty" by (simp add: places_def room_world_def roomy_def pv_new_def fun_eq_iff)
  have r: "rows ?w = Map.empty" by (simp add: rows_def row_of_def p fun_eq_iff)
  then show "view ?w = Map.empty" by (simp add: view_def view_of_def fun_eq_iff)
  have a: "ar_wf reg (as_list (room_archs xs ?n) ! i) \<and> ar_consistent (as_list (room_archs xs ?n) ! i) \<and> ar_len (as_list (room_archs xs ?n) ! i) = 0"
    if i: "i < length xs" for i
  proof -
    have e: "distinct (fst (xs ! i))" "\<forall>c \<in> set (fst (xs ! i)). c < ?n" "length (snd (xs ! i)) = length (fst (xs ! i))"
      "\<forall>k < length (fst (xs ! i)). typed reg (fst (xs ! i) ! k) (snd (xs ! i) ! k) \<and> bv_len (snd (xs ! i) ! k) = 0"
      using bspec [OF each nth_mem [OF i]] by (auto simp: split_beta)
    then show ?thesis unfolding room_archs_nth [OF i] using room_arch_wf [OF e(1-3)]
      by (auto simp: ar_consistent_def list_all_length room_arch_def ar_len_def roomy_def pv_new_def)
  qed
  have "as_wf reg (room_archs xs ?n)"
    using a by (simp add: as_wf_def room_archs_len room_archs_ids room_archs_table [OF xs] cong: conj_cong)
  moreover have "located row_key (places ?w) (tables ?w)"
    using a by (auto simp: located_def p tables_def f(1) room_archs_len)
  moreover have "\<forall>x \<in> set (w_archs ?w). ar_consistent x" using a by (auto simp: f(1) in_set_conv_nth room_archs_len)
  ultimately have "struct_ok ?w" using reg by (simp add: struct_ok_def f)
  then show "world_inv [] ?w" using demo_ea_ok by (simp add: world_inv_def world_ok_def f placed_held_def r orphans_ok_def oq_new_def storage_ok_def)
qed

definition demo_world :: world where
  "demo_world = room_world demo_reg [([0], [byte_column True]), ([0, 1], [byte_column True, tag_column]), ([1], [tag_column])]"

lemmas demo_defs = demo_reg_def ty_byte_def ty_tag_def byte_column_def tag_column_def bv_init_def register_def cr_new_def cr_info_def cr_len_def Let_def

lemma demo_columns: "typed demo_reg 0 (byte_column True)" "typed demo_reg 1 tag_column"
  by (simp_all add: typed_def demo_defs col_ok_def has_scratch_def USIZE_MAX_def)

lemma demo_reg_inv: "reg_inv demo_reg"
  using register_inv [of "snd (register cr_new ty_byte)" ty_tag] register_inv [of cr_new ty_byte] by (simp add: demo_reg_def)

lemma empty_columns: "bv_len (byte_column b) = 0" "bv_len tag_column = 0"
  by (simp_all add: byte_column_def tag_column_def bv_init_def)

lemma demo_world_inv: "world_inv [] demo_world" "view demo_world = Map.empty"
proof -
  let ?xs = "[([0], [byte_column True]), ([0, 1], [byte_column True, tag_column]), ([1 :: nat], [tag_column])]"
  have "cr_len demo_reg = 2" by (simp add: demo_defs)
  then have "\<forall>(ids, cols) \<in> set ?xs. distinct ids \<and> (\<forall>c \<in> set ids. c < cr_len demo_reg) \<and> length cols = length ids
      \<and> (\<forall>k < length ids. typed demo_reg (ids ! k) (cols ! k) \<and> bv_len (cols ! k) = 0)"
    using demo_columns empty_columns by (simp add: nth_Cons' less_Suc_eq)
  from room_world_inv [OF demo_reg_inv _ this] show "world_inv [] demo_world" "view demo_world = Map.empty" by (simp_all add: demo_world_def)
qed

lemma demo_world_abs: "aw_of demo_world = \<lparr>aw_slots = ([], [], 0), aw_orphans = oq_new, aw_reg = demo_reg, aw_view = Map.empty, aw_sparse = (\<lambda>c e. None), aw_tick = tick_new 0\<rparr>"
  by (simp add: aw_of_def demo_world_inv(2)) (simp add: demo_world_def room_world_def new_with_pool_def st_get_def st_new_def fun_eq_iff demo_ea_ok)

definition demo_ops :: "world_op list" where
  "demo_ops = [WSpawn [(ty_byte, [7])], WSpawn [(ty_byte, [8])], WInsert (entity_new 0 0) [(ty_tag, [])], WGet (entity_new 0 0) ty_byte,
     WRemove (entity_new 0 0) ty_byte, WDespawn (entity_new 1 0), WGet (entity_new 1 0) ty_byte, WHas (entity_new 0 0) ty_tag]"

definition demo_answers :: "world_answer list" where
  "demo_answers = [WEntity (entity_new 0 0), WEntity (entity_new 1 0), WFlag True, WItem (Some [7]), WItem (Some [7]), WFlag True, WItem None, WFlag True]"

theorem world_refines_witness:
  "\<exists>w'. run_answers (world_step [] 0) demo_ops demo_world = Some (demo_answers, w')
     \<and> spec_answers world_spec demo_ops (aw_of demo_world) = (demo_answers, aw_of w') \<and> world_inv [] w'"
proof -
  have "map_option fst (run_answers (world_step [] 0) demo_ops demo_world) = Some demo_answers" by code_simp
  then obtain w' where r: "run_answers (world_step [] 0) demo_ops demo_world = Some (demo_answers, w')" by auto
  have "spec_allows world_pre world_spec demo_ops (aw_of demo_world)" unfolding demo_world_abs by code_simp
  from world_refines [OF demo_world_inv(1) this r] r show ?thesis by blast
qed

end
