(* ===== verification/World_Batch.thy ===== *)
theory World_Batch
  imports World_Spec
begin

text \<open>
  Batched operations: despawning many entities back to front, archetype by archetype, is
  despawning them one after the other; reading many is reading each.
\<close>

subsection \<open>Rows gone, locations not yet cleared\<close>

text \<open>
  In the middle of a batch the rows of the entities in \<open>R\<close> are gone, but their entries in the
  location table still stand. The rest of the world is as the invariant wants it.
\<close>

definition masked :: "nat set \<Rightarrow> world \<Rightarrow> bool" where
  "masked R w \<longleftrightarrow> reg_inv (w_components w) \<and> as_wf (w_components w) (w_archetypes w)
     \<and> (\<forall>a \<in> set (w_archs w). ar_consistent a) \<and> located row_key (places w |` (- R)) (tables w)"

definition mrows :: "nat set \<Rightarrow> world \<Rightarrow> nat \<rightharpoonup> nat \<times> world_row" where
  "mrows R w = row_of (places w |` (- R)) (tables w)"

lemma masked_empty: "masked {} w = struct_ok w" "mrows {} w = rows w"
  by (simp_all add: masked_def struct_ok_def mrows_def rows_def restrict_map_def)

lemma maskedD:
  assumes "masked R w"
  shows "reg_inv (w_components w)" "as_wf (w_components w) (w_archetypes w)" "located row_key (places w |` (- R)) (tables w)"
    and "i < length (w_archs w) \<Longrightarrow> ar_wf (w_components w) (w_archs w ! i)" "i < length (w_archs w) \<Longrightarrow> ar_consistent (w_archs w ! i)"
  using assms unfolding masked_def as_wf_def by auto

lemma maskedI:
  "reg_inv (w_components w) \<Longrightarrow> as_wf (w_components w) (w_archetypes w) \<Longrightarrow> (\<And>i. i < length (w_archs w) \<Longrightarrow> ar_consistent (w_archs w ! i))
   \<Longrightarrow> located row_key (places w |` (- R)) (tables w) \<Longrightarrow> masked R w"
  unfolding masked_def by (auto simp: in_set_conv_nth)

lemma restrict_unplace:
  assumes "places w' = (if r < length xs then (places w)(row_key (xs ! r) \<mapsto> (i, r)) else places w)" "k \<notin> R"
    and "r < length xs \<Longrightarrow> row_key (xs ! r) \<notin> R" "xs = swap_remove r (tables w ! i)" "row_key (tables w ! i ! r) = k"
  shows "places w' |` (- insert k R) = unplace row_key (places w |` (- R)) (tables w) i r"
proof (rule ext)
  fix j
  show "(places w' |` (- insert k R)) j = unplace row_key (places w |` (- R)) (tables w) i r j"
  proof (cases "r < length xs")
    case True
    then show ?thesis using assms(1-5) by (auto simp: unplace_def Let_def restrict_map_def)
  next
    case False
    then show ?thesis using assms(1-5) by (auto simp: unplace_def Let_def restrict_map_def)
  qed
qed

lemma masked_remove:
  assumes m: "masked R w" and i: "i < length (w_archs w)" and r: "r < ar_len (w_archs w ! i)" and k: "k = ent_index (pv_elems (ar_entities (w_archs w ! i)) ! r)"
    and a: "same_shape (w_archs w ! i) a" "ar_wf (w_components w) a" "ar_consistent a" "arch_rows a = swap_remove r (arch_rows (w_archs w ! i))"
    and arcs: "w_archetypes w' = (w_archetypes w)\<lparr>as_list := (w_archs w)[i := a]\<rparr>" "w_components w' = w_components w"
    and locs: "places w' = (if r < ar_len a then (places w)(ent_index (pv_elems (ar_entities a) ! r) \<mapsto> (i, r)) else places w)"
  shows "masked (insert k R) w'" "mrows (insert k R) w' = (mrows R w)(k := None)"
proof -
  note loc = maskedD(3) [OF m]
  have it: "i < length (tables w)" "r < length (tables w ! i)" using i r by (simp_all add: tables_nth)
  have key: "row_key (tables w ! i ! r) = k" using i r k by (simp add: tables_nth arch_rows_nth)
  have at: "(places w |` (- R)) k = Some (i, r)" using locatedD(1) [OF loc it] key by simp
  then have kR: "k \<notin> R" by (auto simp: restrict_map_def split: if_splits)
  let ?xs = "swap_remove r (tables w ! i)"
  have xs: "?xs = arch_rows a" using a(4) i by (simp add: tables_nth)
  have len: "length ?xs = ar_len a" unfolding xs by simp
  have nR: "row_key (?xs ! r) \<notin> R" if q: "r < length ?xs"
  proof -
    have "?xs ! r = last (tables w ! i)" "tables w ! i \<noteq> []" using q it by (auto simp: nth_swap_remove)
    then have "?xs ! r = tables w ! i ! (length (tables w ! i) - 1)" by (simp add: last_conv_nth)
    then have "(places w |` (- R)) (row_key (?xs ! r)) = Some (i, length (tables w ! i) - 1)" using locatedD(1) [OF loc it(1), of "length (tables w ! i) - 1"] it(2) by simp
    then show ?thesis by (auto simp: restrict_map_def split: if_splits)
  qed
  have "places w' = (if r < length ?xs then (places w)(row_key (?xs ! r) \<mapsto> (i, r)) else places w)"
    unfolding locs len using arch_rows_nth [of r a] xs by simp
  then have p: "places w' |` (- insert k R) = unplace row_key (places w |` (- R)) (tables w) i r"
    by (rule restrict_unplace [OF _ kR nR refl key])
  have t: "tables w' = (tables w)[i := ?xs]" using arcs xs by (simp add: tables_def map_update)
  show "masked (insert k R) w'"
  proof (rule maskedI)
    show "located row_key (places w' |` (- insert k R)) (tables w')" unfolding p t by (rule located_remove [OF loc it])
    show "as_wf (w_components w') (w_archetypes w')" using as_wf_set [OF maskedD(2) [OF m] i a(1,2)] arcs by simp
    show "ar_consistent (w_archs w' ! j)" if "j < length (w_archs w')" for j
      using that consistent_set [OF maskedD(5) [OF m] a(3), of j i] arcs by simp
  qed (use maskedD(1) [OF m] arcs in simp)
  show "mrows (insert k R) w' = (mrows R w)(k := None)" unfolding mrows_def p t using row_of_remove [OF loc it] key by simp
qed

subsection \<open>Sweeping rows\<close>

definition swept :: "world \<Rightarrow> world \<Rightarrow> bool" where
  "swept w w' \<longleftrightarrow> w_components w' = w_components w \<and> w_entities w' = w_entities w \<and> w_sparse w' = w_sparse w \<and> w_orphans w' = w_orphans w
     \<and> w_tick w' = w_tick w \<and> length (w_archs w') = length (w_archs w) \<and> length (w_locs w') = length (w_locs w)"

lemma swept_trans: "swept w w1 \<Longrightarrow> swept w1 w2 \<Longrightarrow> swept w w2"
  by (simp add: swept_def)

lemma set_len_slot [simp]: "bv_slot (bv_set_len c n) = bv_slot c" "bv_slot (copy_unchecked c i j) = bv_slot c"
  by (simp_all add: bv_set_len_def copy_unchecked_def)

lemma swap_remove_take: "r < length xs \<Longrightarrow> take (length xs - 1) (xs[r := xs ! (length xs - 1)]) = swap_remove r xs"
proof -
  assume r: "r < length xs"
  then have ne: "xs \<noteq> []" by auto
  show ?thesis using r by (intro nth_equalityI) (auto simp: nth_swap_remove last_conv_nth [OF ne] nth_list_update)
qed

lemma sweep_row_ok:
  assumes m: "masked R w" and i: "i < length (w_archs w)" and r: "r < ar_len (w_archs w ! i)"
    and s: "sweep_row boom w i r = Some (dsu, w')"
  shows "masked (insert (ent_index (pv_elems (ar_entities (w_archs w ! i)) ! r)) R) w'"
    "mrows (insert (ent_index (pv_elems (ar_entities (w_archs w ! i)) ! r)) R) w' = (mrows R w)(ent_index (pv_elems (ar_entities (w_archs w ! i)) ! r) := None)"
    "swept w w'" "dsu = run_drops boom (row_drops (w_components w) (ar_sorted_ids (w_archs w ! i)) (map (\<lambda>c. live_rows c ! r) (ar_columns (w_archs w ! i))))"
    "a \<noteq> i \<Longrightarrow> w_archs w' ! a = w_archs w ! a" "arch_rows (w_archs w' ! i) = swap_remove r (arch_rows (w_archs w ! i))"
proof -
  let ?a = "w_archs w ! i"
  note wf = maskedD(4,5) [OF m i]
  let ?n = "ar_len ?a" and ?es = "pv_elems (ar_entities ?a)"
  have len: "length (ar_sorted_ids ?a) = length (ar_columns ?a)" using ar_wfD(2) [OF wf(1)] by simp
  have bl: "\<forall>j < length (ar_columns ?a). bv_len (ar_columns ?a ! j) = ?n" using consistent_len [OF wf(2)] by simp
  have ty: "\<forall>j < length (ar_columns ?a). typed (w_components w) (ar_sorted_ids ?a ! j) (ar_columns ?a ! j) \<and> r < bv_len (ar_columns ?a ! j)"
    using ar_wfD(4) [OF wf(1)] bl r by simp
  obtain slots cols1 where x: "extract_all r (ar_columns ?a) = Some (slots, cols1)" "cols_step (\<lambda>_ xs. xs) (w_components w) (ar_sorted_ids ?a) (ar_columns ?a) cols1"
    "\<forall>us. length us = length (ar_columns ?a) \<longrightarrow> (\<forall>j < length (ar_columns ?a). bv_slot (us ! j) = bv_slot (cols1 ! j)) \<longrightarrow>
         drop_slots boom (ar_sorted_ids ?a) us slots = run_drops boom (row_drops (w_components w) (ar_sorted_ids ?a) (map (\<lambda>c. live_rows c ! r) (ar_columns ?a)))"
    using extract_all_ok [OF len ty, of boom] by blast
  have lc: "length cols1 = length (ar_columns ?a)" by (rule cols_stepD(1) [OF x(2)])
  define cols2 where "cols2 = map (\<lambda>c. bv_set_len c (?n - 1)) (if r < ?n - 1 then map (\<lambda>c. copy_unchecked c (?n - 1) r) cols1 else cols1)"
  have st: "cols_step (\<lambda>_. swap_remove r) (w_components w) (ar_sorted_ids ?a) (ar_columns ?a) cols2" unfolding cols2_def by (rule shrink_all [OF x(2) bl r])
  define es where "es = (if r < ?n - 1 then (ar_entities ?a)\<lparr>pv_elems := ?es[r := ?es ! (?n - 1)]\<rparr> else ar_entities ?a)"
  define a' where "a' = ?a\<lparr>ar_columns := cols2, ar_entities := pv_truncate es (?n - 1)\<rparr>"
  have ne: "?es \<noteq> []" using r by (auto simp: ar_len_def)
  obtain w1 where w1: "(if r < ?n - 1 then put_location w (ent_index (?es ! (?n - 1))) i r else Some w) = Some w1" "w' = set_archetype w1 i a'"
    and du: "dsu = drop_slots boom (ar_sorted_ids ?a) cols2 slots"
  proof (cases "r < ?n - 1")
    case True
    then obtain w1 where "put_location w (ent_index (?es ! (?n - 1))) i r = Some w1" "w' = set_archetype w1 i a'" "dsu = drop_slots boom (ar_sorted_ids ?a) cols2 slots"
      using s i x(1) ne by (auto simp: sweep_row_def nth_opt_def Let_def a'_def es_def cols2_def ar_len_def comp_def split: bind_splits)
    then show thesis using that True by simp
  next
    case False
    then have "w' = set_archetype w i a'" "dsu = drop_slots boom (ar_sorted_ids ?a) cols2 slots"
      using s i x(1) ne by (simp_all add: sweep_row_def nth_opt_def Let_def a'_def es_def cols2_def ar_len_def)
    then show thesis using that False by simp
  qed
  have ent: "pv_elems (ar_entities a') = swap_remove r ?es"
  proof (cases "r < ?n - 1")
    case True
    then show ?thesis using swap_remove_take [of r ?es] r by (simp add: a'_def es_def ar_len_def)
  next
    case False
    then have "r = length ?es - 1" using r by (simp add: ar_len_def)
    then show ?thesis using False swap_remove_take [of r ?es] r by (simp add: a'_def es_def ar_len_def)
  qed
  have sh: "same_shape ?a a'" using lc by (simp add: a'_def cols2_def)
  have R: "ar_wf (w_components w) a' \<and> ar_consistent a' \<and> arch_rows a' = swap_remove r (arch_rows ?a)"
    by (rule rows_removed [OF wf sh r]) (use st ent in \<open>simp_all add: a'_def\<close>)
  have la: "ar_len a' = ?n - 1" using ent by (simp add: ar_len_def)
  have mv: "pv_elems (ar_entities a') ! r = ?es ! (?n - 1)" if "r < ?n - 1"
    using that ent ne r by (simp add: nth_swap_remove ar_len_def last_conv_nth)
  have f1: "w_archetypes w1 = w_archetypes w" "w_components w1 = w_components w" "w_entities w1 = w_entities w" "w_sparse w1 = w_sparse w" "w_orphans w1 = w_orphans w"
    "w_tick w1 = w_tick w" "length (w_locs w1) = length (w_locs w)" using w1(1) put_location_frame [of w _ _ _ w1] by (auto split: if_splits)
  have p1: "places w1 = (if r < ar_len a' then (places w)(ent_index (pv_elems (ar_entities a') ! r) \<mapsto> (i, r)) else places w)"
    using w1(1) put_location_places [of w _ _ _ w1] mv la by (auto split: if_splits)
  have pw: "places w' = places w1" unfolding w1(2) by (rule places_cong) simp
  have arcs: "w_archetypes w' = (w_archetypes w)\<lparr>as_list := (w_archs w)[i := a']\<rparr>" "w_components w' = w_components w"
    using f1 by (simp_all add: w1(2) set_archetype_def)
  note M = masked_remove [OF m i r refl sh _ _ _ arcs]
  show "masked (insert (ent_index (?es ! r)) R) w'" "mrows (insert (ent_index (?es ! r)) R) w' = (mrows R w)(ent_index (?es ! r) := None)"
    using M R p1 pw by simp_all
  show "swept w w'" using f1 by (simp add: swept_def w1(2))
  have "length cols2 = length (ar_columns ?a)" "\<forall>j < length (ar_columns ?a). bv_slot (cols2 ! j) = bv_slot (cols1 ! j)"
    using lc by (auto simp: cols2_def)
  then show "dsu = run_drops boom (row_drops (w_components w) (ar_sorted_ids ?a) (map (\<lambda>c. live_rows c ! r) (ar_columns ?a)))" using x(3) du by blast
  show "a \<noteq> i \<Longrightarrow> w_archs w' ! a = w_archs w ! a" using f1 by (simp add: w1(2))
  show "arch_rows (w_archs w' ! i) = swap_remove r (arch_rows ?a)" using f1 i R by (simp add: w1(2))
qed

text \<open>The rows of one archetype, back to front: a row that is still to go has not moved.\<close>

definition row_idx :: "world \<Rightarrow> nat \<Rightarrow> nat \<Rightarrow> nat" where
  "row_idx w i r = ent_index (pv_elems (ar_entities (w_archs w ! i)) ! r)"

lemma row_idx_rows: "r < ar_len (w_archs w ! i) \<Longrightarrow> row_idx w i r = row_key (arch_rows (w_archs w ! i) ! r)"
  by (simp add: row_idx_def arch_rows_nth)

lemma sweep_rows_ok:
  "masked R w \<Longrightarrow> i < length (w_archs w) \<Longrightarrow> sorted_wrt (>) rs \<Longrightarrow> \<forall>r \<in> set rs. r < ar_len (w_archs w ! i) \<Longrightarrow> (\<And>c x. \<not> boom c x) \<Longrightarrow>
   sweep_rows boom w i rs = Some ((ds, u), w') \<Longrightarrow>
   \<not> u \<and> masked (R \<union> row_idx w i ` set rs) w' \<and> mrows (R \<union> row_idx w i ` set rs) w' = mrows R w |` (- (row_idx w i ` set rs))
   \<and> swept w w' \<and> (\<forall>a. a \<noteq> i \<longrightarrow> w_archs w' ! a = w_archs w ! a)"
proof (induction rs arbitrary: w R ds)
  case Nil
  then show ?case by (simp add: swept_def restrict_map_def)
next
  case (Cons r rs)
  have r: "r < ar_len (w_archs w ! i)" using Cons.prems(4) by simp
  obtain d1 u1 w1 where s1: "sweep_row boom w i r = Some ((d1, u1), w1)" using Cons.prems(6) by (auto split: bind_splits)
  note S = sweep_row_ok [OF Cons.prems(1,2) r s1]
  have "run_drops boom xs = (xs, False)" for xs by (rule run_drops_calm) (use Cons.prems(5) in simp)
  then have u1: "\<not> u1" using S(4) by auto
  then obtain d2 where s2: "sweep_rows boom w1 i rs = Some ((d2, u), w')" using Cons.prems(6) s1 by (auto split: bind_splits)
  have i1: "i < length (w_archs w1)" using S(3) Cons.prems(2) by (simp add: swept_def)
  have len: "ar_len (w_archs w1 ! i) = ar_len (w_archs w ! i) - 1" using arg_cong [OF S(6), of length] by simp
  have lt: "q < r" "q < ar_len (w_archs w ! i) - 1" if "q \<in> set rs" for q using Cons.prems(3) that r by auto
  have keep: "row_idx w1 i q = row_idx w i q" if "q \<in> set rs" for q
  proof -
    have "row_idx w1 i q = row_key (swap_remove r (arch_rows (w_archs w ! i)) ! q)" using row_idx_rows [of q w1 i] lt [OF that] len S(6) by simp
    also have "\<dots> = row_key (arch_rows (w_archs w ! i) ! q)" using lt [OF that] r by (simp add: nth_swap_remove)
    also have "\<dots> = row_idx w i q" using row_idx_rows [of q w i] lt(2) [OF that] by simp
    finally show ?thesis .
  qed
  let ?k = "row_idx w i r"
  have m1: "masked (insert ?k R) w1" "mrows (insert ?k R) w1 = (mrows R w)(?k := None)" using S(1,2) by (simp_all add: row_idx_def)
  have "\<forall>q \<in> set rs. q < ar_len (w_archs w1 ! i)" using lt len by simp
  from Cons.IH [OF m1(1) i1 _ this Cons.prems(5) s2] Cons.prems(3)
  have I: "\<not> u" "masked (insert ?k R \<union> row_idx w1 i ` set rs) w'" "mrows (insert ?k R \<union> row_idx w1 i ` set rs) w' = mrows (insert ?k R) w1 |` (- (row_idx w1 i ` set rs))"
    "swept w1 w'" "\<forall>a. a \<noteq> i \<longrightarrow> w_archs w' ! a = w_archs w1 ! a" by auto
  have im: "row_idx w1 i ` set rs = row_idx w i ` set rs" using keep by (auto simp: image_iff)
  have set: "insert ?k R \<union> row_idx w1 i ` set rs = R \<union> row_idx w i ` set (r # rs)" unfolding im by auto
  have "((mrows R w)(?k := None)) |` (- (row_idx w i ` set rs)) = mrows R w |` (- (row_idx w i ` set (r # rs)))"
    by (auto simp: restrict_map_def fun_eq_iff)
  then have "mrows (R \<union> row_idx w i ` set (r # rs)) w' = mrows R w |` (- (row_idx w i ` set (r # rs)))" using I(3) m1(2) im set by simp
  then show ?case using I(1,2,5) S(5) swept_trans [OF S(3) I(4)] set by simp
qed

lemma group_rows_desc: "distinct (map (\<lambda>(i, r, _). (i, r)) found) \<Longrightarrow> sorted_wrt (>) (group_rows found k)"
  and group_rows_set: "set (group_rows found k) = {r. \<exists>e. (k, r, e) \<in> set found}"
proof -
  assume d: "distinct (map (\<lambda>(i, r, _). (i, r)) found)"
  have "distinct (map (\<lambda>(_, r, _). r) (filter (\<lambda>(i, _). i = k) found))"
    using d by (induction found) (auto simp: image_iff)
  then have "sorted_wrt (<) (sort (map (\<lambda>(_, r, _). r) (filter (\<lambda>(i, _). i = k) found)))" by (simp add: strict_sorted_iff)
  then show "sorted_wrt (>) (group_rows found k)" by (simp add: group_rows_def sorted_wrt_rev)
next
  show "set (group_rows found k) = {r. \<exists>e. (k, r, e) \<in> set found}" by (force simp: group_rows_def)
qed

definition group_idx :: "world \<Rightarrow> (nat \<times> nat \<times> entity) list \<Rightarrow> nat set \<Rightarrow> nat set" where
  "group_idx w found ks = {row_idx w k r | k r e. k \<in> ks \<and> (k, r, e) \<in> set found}"

lemma group_idx_insert: "group_idx w found (insert k ks) = row_idx w k ` set (group_rows found k) \<union> group_idx w found ks"
  by (auto simp: group_idx_def group_rows_set)

lemma sweep_groups_ok:
  "masked R w \<Longrightarrow> distinct ks \<Longrightarrow> \<forall>k \<in> set ks. k < length (w_archs w) \<Longrightarrow> distinct (map (\<lambda>(i, r, _). (i, r)) found) \<Longrightarrow>
   \<forall>(k, r, e) \<in> set found. k \<in> set ks \<longrightarrow> r < ar_len (w_archs w ! k) \<Longrightarrow> (\<And>c x. \<not> boom c x) \<Longrightarrow>
   sweep_groups boom w found ks = Some ((ds, u), w') \<Longrightarrow>
   \<not> u \<and> masked (R \<union> group_idx w found (set ks)) w' \<and> mrows (R \<union> group_idx w found (set ks)) w' = mrows R w |` (- group_idx w found (set ks)) \<and> swept w w'"
proof (induction ks arbitrary: w R ds)
  case Nil
  then show ?case by (simp add: swept_def restrict_map_def group_idx_def)
next
  case (Cons k ks)
  obtain d1 u1 w1 where s1: "sweep_rows boom w k (group_rows found k) = Some ((d1, u1), w1)" using Cons.prems(7) by (auto split: bind_splits)
  have k: "k < length (w_archs w)" using Cons.prems(3) by simp
  have rs: "\<forall>r \<in> set (group_rows found k). r < ar_len (w_archs w ! k)" using Cons.prems(5) by (auto simp: group_rows_set)
  note S = sweep_rows_ok [OF Cons.prems(1) k group_rows_desc [OF Cons.prems(4)] rs Cons.prems(6) s1]
  then obtain d2 where s2: "sweep_groups boom w1 found ks = Some ((d2, u), w')" using Cons.prems(7) s1 by (auto split: bind_splits)
  let ?K = "row_idx w k ` set (group_rows found k)"
  have oth: "w_archs w1 ! a = w_archs w ! a" if "a \<in> set ks" for a using S Cons.prems(2) that by auto
  have le: "length (w_archs w1) = length (w_archs w)" using S by (simp add: swept_def)
  have p5: "\<forall>(k, r, e) \<in> set found. k \<in> set ks \<longrightarrow> r < ar_len (w_archs w1 ! k)" using Cons.prems(5) oth by auto
  have m1: "masked (R \<union> ?K) w1" using S by blast
  have "distinct ks" "\<forall>k \<in> set ks. k < length (w_archs w1)" using Cons.prems(2,3) le by auto
  from Cons.IH [OF m1 this Cons.prems(4) p5 Cons.prems(6) s2]
  have I: "\<not> u" "masked (R \<union> ?K \<union> group_idx w1 found (set ks)) w'" "mrows (R \<union> ?K \<union> group_idx w1 found (set ks)) w' = mrows (R \<union> ?K) w1 |` (- group_idx w1 found (set ks))"
    "swept w1 w'" by auto
  have g: "group_idx w1 found (set ks) = group_idx w found (set ks)" using oth by (auto simp: group_idx_def row_idx_def) (metis oth)+
  have set: "R \<union> ?K \<union> group_idx w1 found (set ks) = R \<union> group_idx w found (set (k # ks))" unfolding g by (simp add: group_idx_insert Un_assoc)
  have mr: "mrows (R \<union> ?K) w1 = mrows R w |` (- ?K)" using S by blast
  have "mrows (R \<union> group_idx w found (set (k # ks))) w' = mrows R w |` (- group_idx w found (set (k # ks)))"
    using I(3) unfolding set mr g by (simp add: group_idx_insert Int_commute Un_assoc)
  moreover have "swept w w'" using S swept_trans I(4) by blast
  ultimately show ?case using I(1,2) set by simp
qed

subsection \<open>Collecting and releasing\<close>

lemma batch_collect_ok:
  assumes "settled w" "batch_collect w seen es = Some found"
  shows "\<forall>(a, r, e) \<in> set found. places w (ent_index e) = Some (a, r) \<and> ea_is_alive (w_entities w) e \<and> ent_index e \<notin> seen"
    and "distinct (map (\<lambda>(_, _, e). ent_index e) found)"
proof -
  have "(\<forall>(a, r, e) \<in> set found. places w (ent_index e) = Some (a, r) \<and> ea_is_alive (w_entities w) e \<and> ent_index e \<notin> seen)
    \<and> distinct (map (\<lambda>(_, _, e). ent_index e) found)"
    using assms(2)
  proof (induction es arbitrary: seen found)
    case (Cons e es)
    show ?case
    proof (cases "\<not> ea_is_alive (w_entities w) e \<or> ent_index e \<in> seen")
      case True
      then show ?thesis using Cons.IH Cons.prems by simp
    next
      case False
      then obtain place rest where s: "nth_opt (w_locs w) (ent_index e) = Some place" "batch_collect w (insert (ent_index e) seen) es = Some rest"
        "found = (case place of None \<Rightarrow> rest | Some l \<Rightarrow> (el_archetype_id l, el_row_of l, e) # rest)"
        using Cons.prems by (auto split: bind_splits)
      note ih = Cons.IH [OF s(2)]
      show ?thesis
      proof (cases place)
        case None
        then show ?thesis using ih s(3) by auto
      next
        case (Some l)
        then have "places w (ent_index e) = Some (el_archetype_id l, el_row_of l)" using s(1) by (auto simp: nth_opt_def places_def split: if_splits)
        moreover have "ent_index e \<notin> set (map (\<lambda>(_, _, e). ent_index e) rest)" using ih by auto
        ultimately show ?thesis using ih s(3) Some False by auto
      qed
    qed
  qed simp
  then show "\<forall>(a, r, e) \<in> set found. places w (ent_index e) = Some (a, r) \<and> ea_is_alive (w_entities w) e \<and> ent_index e \<notin> seen"
    "distinct (map (\<lambda>(_, _, e). ent_index e) found)" by blast+
qed

lemma release_all_ok:
  "release_all t w es = Some w' \<Longrightarrow> dealloc_orphans t (w_pool w) (w_entities w) es = Some (w_pool w', w_entities w')
   \<and> places w' = places w |` (- (ent_index ` set es)) \<and> w_archetypes w' = w_archetypes w \<and> w_components w' = w_components w
   \<and> w_sparse w' = w_sparse w \<and> w_orphans w' = w_orphans w \<and> w_tick w' = w_tick w"
proof (induction es arbitrary: w)
  case (Cons e es)
  obtain w1 b p en where s: "set_location w (ent_index e) None = Some w1" "ea_dealloc t (w_pool w1) (w_entities w1) e = Some (b, p, en)"
    "release_all t (w1\<lparr>w_pool := p, w_entities := en\<rparr>) es = Some w'" using Cons.prems by (auto split: bind_splits)
  let ?v = "w1\<lparr>w_pool := p, w_entities := en\<rparr>"
  note ih = Cons.IH [OF s(3)]
  note f = set_location_frame [OF s(1)]
  have "places ?v = places w1" by (rule places_cong) simp
  then have "places ?v = (places w)(ent_index e := None)" using set_location_places [OF s(1)] by simp
  then have "places w' = places w |` (- (ent_index ` set (e # es)))" using ih by (auto simp: restrict_map_def fun_eq_iff)
  then show ?case using ih f s(2) by simp
qed (simp add: restrict_map_def)

lemma sparse_remove_each_ok:
  "storage_ok st \<Longrightarrow> dom st \<subseteq> set order \<Longrightarrow> \<exists>ds st'. sparse_remove_each quiet order st es = Some ((ds, False), st') \<and> storage_ok st' \<and> dom st' = dom st
    \<and> st_get st' = (\<lambda>c. st_get st c |` (- set es))"
proof (induction es arbitrary: st)
  case Nil
  then show ?case by (simp add: restrict_map_def)
next
  case (Cons e es)
  obtain ds u st1 where s: "st_remove_all quiet order st e = Some ((ds, u), st1)" "storage_ok st1" "dom st1 = dom st"
    "\<forall>c e'. e' \<noteq> e \<or> c \<notin> set order \<longrightarrow> st_get st1 c e' = st_get st c e'"
    "if u then visit_stopped quiet order st e ds st1 else \<forall>c \<in> set order. st_get st1 c e = None"
    using st_remove_all_run [OF Cons.prems(1), of quiet order e] by blast
  have u: "\<not> u" using s(5) by (auto simp: visit_stopped_def split: if_splits)
  have none: "st_get st1 c e = None" for c
  proof (cases "c \<in> set order")
    case True
    then show ?thesis using s(5) u by simp
  next
    case False
    then have "c \<notin> dom st1" using Cons.prems(2) s(3) by blast
    then show ?thesis by (simp add: st_get_def dom_def)
  qed
  obtain ds' st2 where i: "sparse_remove_each quiet order st1 es = Some ((ds', False), st2)" "storage_ok st2" "dom st2 = dom st1"
    "st_get st2 = (\<lambda>c. st_get st1 c |` (- set es))" using Cons.IH [OF s(2)] Cons.prems(2) s(3) by auto
  have "st_get st2 = (\<lambda>c. st_get st c |` (- set (e # es)))"
    unfolding i(4) using none s(4) by (auto simp: restrict_map_def fun_eq_iff)
  then show ?case using s(1,3) u i by simp
qed

subsection \<open>Despawning a batch\<close>

text \<open>Entities gone from an abstract world: the handles released in this order, their components dropped.\<close>

definition gone :: "entity list \<Rightarrow> aworld \<Rightarrow> aworld" where
  "gone es A = A\<lparr>aw_slots := foldl dealloc_spec (aw_slots A) es, aw_view := aw_view A |` (- set es), aw_sparse := (\<lambda>c. aw_sparse A c |` (- set es))\<rparr>"

definition quiescent :: "aworld \<Rightarrow> bool" where
  "quiescent A \<longleftrightarrow> \<not> oq_has_items (aw_orphans A) \<and> (case aw_slots A of (G, F, n) \<Rightarrow> n \<le> length G)"

lemma dealloc_spec_len: "(case dealloc_spec (G, F, n) e of (G', F', n') \<Rightarrow> length G' = length G \<and> n' = n)"
  by (simp add: dealloc_spec_def Let_def)

lemma foldl_dealloc_len: "(case foldl dealloc_spec (G, F, n) es of (G', F', n') \<Rightarrow> length G' = length G \<and> n' = n)"
proof (induction es arbitrary: G F)
  case (Cons e es)
  obtain G1 F1 n1 where d: "dealloc_spec (G, F, n) e = (G1, F1, n1)" by (cases "dealloc_spec (G, F, n) e")
  then have "length G1 = length G" "n1 = n" using dealloc_spec_len [where G = G and F = F and n = n and e = e] by simp_all
  then show ?case using Cons.IH [of G1 F1] d by simp
qed simp

lemma drained_quiescent: "quiescent (drained A)"
proof -
  obtain G F n where s: "aw_slots A = (G, F, n)" by (cases "aw_slots A")
  have "case foldl dealloc_spec (filled G n, F, n) es of (G', F', n') \<Rightarrow> n' \<le> length G'" for es
    using foldl_dealloc_len [where G = "filled G n" and F = F and n = n and es = es] by (auto split: prod.splits)
  then show ?thesis using s by (cases "oq_has_items (aw_orphans A)") (simp_all add: quiescent_def drained_def oq_new_def Let_def)
qed

lemma quiescent_drained: "quiescent A \<Longrightarrow> drained A = A"
  by (cases "aw_slots A") (simp add: quiescent_def drained_def filled_def)

lemma quiescent_gone: "quiescent A \<Longrightarrow> quiescent (gone es A)"
proof -
  assume q: "quiescent A"
  obtain G F n where s: "aw_slots A = (G, F, n)" by (cases "aw_slots A")
  then show ?thesis using q foldl_dealloc_len [where G = G and F = F and n = n and es = es] by (auto simp: quiescent_def gone_def split: prod.splits)
qed

lemma gone_append: "gone (es @ fs) A = gone fs (gone es A)"
  by (simp add: gone_def Int_commute)

lemma gone_one:
  assumes "quiescent A" "aw_view A e \<noteq> None"
  shows "world_spec (WDespawn e) A = (WFlag True, gone [e] A)"
  using assms quiescent_drained [OF assms(1)] by (simp add: gone_def restrict_single Let_def)

lemma collect_is_sequence:
  assumes ok: "settled w" and c: "batch_collect w seen es = Some found" and q: "quiescent A" and v: "aw_view A = view w"
    and seen: "\<And>e. ea_is_alive (w_entities w) e \<Longrightarrow> ent_index e \<in> seen \<Longrightarrow> e \<in> set D \<or> view w e = None" "ent_index ` set D \<subseteq> seen"
  shows "\<exists>rs. spec_answers world_spec (map WDespawn es) (gone D A) = (rs, gone (D @ map (\<lambda>(_, _, e). e) found) A)
    \<and> length (filter (\<lambda>r. r = WFlag True) rs) = length found"
  using c seen
proof (induction es arbitrary: seen found D)
  case Nil
  then show ?case by simp
next
  case (Cons e es)
  have skip: "world_spec (WDespawn e) (gone D A) = (WFlag False, gone D A)" if "e \<in> set D \<or> view w e = None"
  proof -
    have "aw_view (gone D A) e = None" using that v by (auto simp: gone_def restrict_map_def)
    then show ?thesis using quiescent_drained [OF quiescent_gone [OF q, of D]] by (simp add: Let_def)
  qed
  show ?case
  proof (cases "\<not> ea_is_alive (w_entities w) e \<or> ent_index e \<in> seen")
    case True
    have "e \<in> set D \<or> view w e = None"
    proof (cases "ea_is_alive (w_entities w) e")
      case al: True
      then have "ent_index e \<in> seen" using True by simp
      then show ?thesis by (rule Cons.prems(2) [OF al])
    qed (use dead_view [OF ok] in simp)
    note sk = skip [OF this]
    have c': "batch_collect w seen es = Some found" using Cons.prems(1) True by simp
    obtain rs where "spec_answers world_spec (map WDespawn es) (gone D A) = (rs, gone (D @ map (\<lambda>(_, _, e). e) found) A)"
      "length (filter (\<lambda>r. r = WFlag True) rs) = length found" using Cons.IH [OF c' Cons.prems(2,3)] by blast
    then show ?thesis using sk by (simp del: world_spec.simps)
  next
    case False
    then obtain place rest where s: "nth_opt (w_locs w) (ent_index e) = Some place" "batch_collect w (insert (ent_index e) seen) es = Some rest"
      "found = (case place of None \<Rightarrow> rest | Some l \<Rightarrow> (el_archetype_id l, el_row_of l, e) # rest)"
      using Cons.prems(1) by (auto split: bind_splits)
    have same: "e' = e" if "ea_is_alive (w_entities w) e'" "ent_index e' = ent_index e" for e'
      using that False ent_index_eq [of e' e] by (simp add: ea_is_alive_def entity_eq_iff)
    show ?thesis
    proof (cases place)
      case None
      then have "places w (ent_index e) = None" using s(1) by (auto simp: nth_opt_def places_def split: if_splits)
      then have none: "view w e = None" by (rule unplaced_view [OF ok])
      have p2: "e' \<in> set D \<or> view w e' = None" if "ea_is_alive (w_entities w) e'" "ent_index e' \<in> insert (ent_index e) seen" for e'
      proof (cases "ent_index e' = ent_index e")
        case True
        then show ?thesis using same [OF that(1)] none by simp
      next
        case False
        then have "ent_index e' \<in> seen" using that(2) by simp
        then show ?thesis by (rule Cons.prems(2) [OF that(1)])
      qed
      have p3: "ent_index ` set D \<subseteq> insert (ent_index e) seen" using Cons.prems(3) by blast
      obtain rs where "spec_answers world_spec (map WDespawn es) (gone D A) = (rs, gone (D @ map (\<lambda>(_, _, e). e) rest) A)"
        "length (filter (\<lambda>r. r = WFlag True) rs) = length rest" using Cons.IH [OF s(2) p2 p3] by blast
      then show ?thesis using skip none s(3) None by (simp del: world_spec.simps)
    next
      case (Some l)
      have al: "ea_is_alive (w_entities w) e" using False by simp
      have pl: "places w (ent_index e) = Some (el_archetype_id l, el_row_of l)" using s(1) Some by (auto simp: nth_opt_def places_def split: if_splits)
      have ve: "view w e \<noteq> None" using own_row(5) [OF ok al pl] by simp
      have nD: "e \<notin> set D" using False Cons.prems(3) by auto
      have "aw_view (gone D A) e \<noteq> None" using ve nD v by (simp add: gone_def)
      note one = gone_one [OF quiescent_gone [OF q] this]
      have p2: "e' \<in> set (D @ [e]) \<or> view w e' = None" if "ea_is_alive (w_entities w) e'" "ent_index e' \<in> insert (ent_index e) seen" for e'
      proof (cases "ent_index e' = ent_index e")
        case True
        then show ?thesis using same [OF that(1)] by simp
      next
        case False
        then have "ent_index e' \<in> seen" using that(2) by simp
        then have "e' \<in> set D \<or> view w e' = None" by (rule Cons.prems(2) [OF that(1)])
        then show ?thesis by auto
      qed
      have p3: "ent_index ` set (D @ [e]) \<subseteq> insert (ent_index e) seen" using Cons.prems(3) by auto
      obtain rs where "spec_answers world_spec (map WDespawn es) (gone (D @ [e]) A) = (rs, gone ((D @ [e]) @ map (\<lambda>(_, _, e). e) rest) A)"
        "length (filter (\<lambda>r. r = WFlag True) rs) = length rest" using Cons.IH [OF s(2) p2 p3] by blast
      then show ?thesis using one s(3) Some by (simp add: gone_append del: world_spec.simps)
    qed
  qed
qed

lemma found_rows_distinct:
  assumes ok: "settled w" and "\<forall>(a, r, e) \<in> set found. places w (ent_index e) = Some (a, r)" "distinct (map (\<lambda>(_, _, e). ent_index e) found)"
  shows "distinct (map (\<lambda>(i, r, _). (i, r)) found)"
  using assms(2,3)
proof (induction found)
  case (Cons x found)
  obtain a r e where x: "x = (a, r, e)" by (cases x)
  have "(a, r) \<notin> set (map (\<lambda>(i, r, _). (i, r)) found)"
  proof
    assume "(a, r) \<in> set (map (\<lambda>(i, r, _). (i, r)) found)"
    then obtain e' where e': "(a, r, e') \<in> set found" by auto
    then have "places w (ent_index e') = Some (a, r)" "places w (ent_index e) = Some (a, r)" using Cons.prems(1) x by auto
    then have "ent_index e' = ent_index e" using rows_place(4) [OF settledD(1) [OF ok]] by metis
    moreover have "ent_index e' \<in> set (map (\<lambda>(_, _, e). ent_index e) found)" using e' by force
    ultimately show False using Cons.prems(2) x by simp
  qed
  then show ?case using Cons x by simp
qed simp

lemma view_of_restrict:
  assumes "\<And>i a e m. M i = Some (a, e, m) \<Longrightarrow> ent_index e = i" "\<And>e. e \<in> set es \<Longrightarrow> view_of M e \<noteq> None"
  shows "view_of (M |` (- (ent_index ` set es))) = view_of M |` (- set es)"
proof
  fix e
  show "view_of (M |` (- (ent_index ` set es))) e = (view_of M |` (- set es)) e"
  proof (cases "ent_index e \<in> ent_index ` set es")
    case True
    then obtain e' where e': "e' \<in> set es" "ent_index e' = ent_index e" by auto
    then have "view_of M e' \<noteq> None" using assms(2) by blast
    then obtain a m where "M (ent_index e) = Some (a, e', m)" using e'(2) by (auto simp: view_of_def split: option.splits prod.splits if_splits)
    then have "e \<notin> set es \<Longrightarrow> view_of M e = None" using e'(1) by (auto simp: view_of_def)
    then show ?thesis using True by (auto simp: view_of_def restrict_map_def)
  next
    case False
    then have "e \<notin> set es" by blast
    then show ?thesis using False by (simp add: view_of_def restrict_map_def)
  qed
qed

lemma despawn_batch_ok:
  assumes ok: "settled w" and dr: "drain_orphans t w0 = Some w" and cover: "dom (w_sparse w) \<subseteq> set order"
    and gr: "distinct groups" "set groups = {..<length (w_archs w)}"
    and d: "despawn_batch quiet order groups t w0 es = Some ((out, ds), w')"
  shows "\<exists>found. batch_collect w {} es = Some found \<and> out = Returned (length found) \<and> settled w' \<and> dom (w_sparse w') = dom (w_sparse w)
    \<and> aw_of w' = gone (map (\<lambda>(_, _, e). e) found) (aw_of w)"
proof -
  obtain found where f: "batch_collect w {} es = Some found" using d dr by (auto simp: despawn_batch_def split: bind_splits)
  define gs where "gs = map (\<lambda>(_, _, e). e) found"
  note F = batch_collect_ok [OF ok f]
  obtain sds st where st: "sparse_remove_each quiet order (w_sparse w) gs = Some ((sds, False), st)" "storage_ok st" "dom st = dom (w_sparse w)"
    "st_get st = (\<lambda>c. st_get (w_sparse w) c |` (- set gs))" using sparse_remove_each_ok [OF settledD(4) [OF ok] cover, of gs] by blast
  define w1 where "w1 = w\<lparr>w_sparse := st\<rparr>"
  have p1: "places w1 = places w" by (rule places_cong) (simp add: w1_def)
  have s1: "struct_ok w1" "rows w1 = rows w" using struct_places [OF settledD(1) [OF ok] p1] by (simp_all add: w1_def)
  have a1: "w_archs w1 = w_archs w" by (simp add: w1_def)
  have own: "a < length (w_archs w)" "r < ar_len (w_archs w ! a)" "row_idx w1 a r = ent_index e" "view w e \<noteq> None" if "(a, r, e) \<in> set found" for a r e
  proof -
    have "places w (ent_index e) = Some (a, r)" "ea_is_alive (w_entities w) e" using F(1) that by auto
    note O = own_row [OF ok this(2,1)]
    show "a < length (w_archs w)" "r < ar_len (w_archs w ! a)" "view w e \<noteq> None" using O by simp_all
    show "row_idx w1 a r = ent_index e" using O(3) by (simp add: row_idx_def a1)
  qed
  have dist: "distinct (map (\<lambda>(i, r, _). (i, r)) found)" by (rule found_rows_distinct [OF ok _ F(2)]) (use F(1) in auto)
  obtain sds2 u w2 where sw: "sweep_groups quiet w1 found groups = Some ((sds2, u), w2)"
    using d dr f st(1) by (auto simp: despawn_batch_def Let_def gs_def w1_def split: bind_splits)
  have m1: "masked {} w1" using s1(1) by (simp add: masked_empty)
  have gl: "\<forall>k \<in> set groups. k < length (w_archs w1)" using gr(2) a1 by auto
  have fl: "\<forall>(k, r, e) \<in> set found. k \<in> set groups \<longrightarrow> r < ar_len (w_archs w1 ! k)" using own(2) a1 by auto
  note S = sweep_groups_ok [OF m1 gr(1) gl dist fl _ sw]
  have gi: "group_idx w1 found (set groups) = ent_index ` set gs"
  proof -
    have "group_idx w1 found (set groups) = (\<lambda>(k, r, e). row_idx w1 k r) ` set found"
    proof (intro set_eqI iffI)
      fix x assume "x \<in> (\<lambda>(k, r, e). row_idx w1 k r) ` set found"
      then obtain k r e where "(k, r, e) \<in> set found" "x = row_idx w1 k r" by auto
      moreover from this have "k \<in> set groups" using own(1) gr(2) by blast
      ultimately show "x \<in> group_idx w1 found (set groups)" unfolding group_idx_def by blast
    qed (force simp: group_idx_def)
    also have "\<dots> = (\<lambda>(k, r, e). ent_index e) ` set found" by (intro image_cong refl) (use own(3) in auto)
    also have "\<dots> = ent_index ` set gs" by (simp add: gs_def image_image split_def)
    finally show ?thesis .
  qed
  have S2: "\<not> u" "masked (ent_index ` set gs) w2" "mrows (ent_index ` set gs) w2 = rows w |` (- (ent_index ` set gs))" "swept w1 w2"
    using S gi s1(2) by (simp_all add: masked_empty)
  have re: "release_all t w2 gs = Some w'" "out = Returned (length found)"
    using d dr f st(1) sw S2(1) by (auto simp: despawn_batch_def Let_def gs_def w1_def split: bind_splits)
  note R = release_all_ok [OF re(1)]
  have t3: "tables w' = tables w2" using R by (intro tables_cong) simp
  have p3: "places w' = places w2 |` (- (ent_index ` set gs))" using R by simp
  have st3: "struct_ok w'" using S2(2) R by (simp add: struct_ok_def masked_def t3 p3)
  have r3: "rows w' = rows w |` (- (ent_index ` set gs))" using S2(3) by (simp add: rows_def mrows_def t3 p3)
  have en2: "w_entities w2 = w_entities w" "w_components w2 = w_components w" "w_sparse w2 = st" "w_orphans w2 = w_orphans w" "w_tick w2 = w_tick w"
    using S2(4) by (simp_all add: swept_def w1_def)
  have dg: "distinct (map ent_index gs)" using F(2) by (simp add: gs_def comp_def split_def)
  have vg: "view w e \<noteq> None" if "e \<in> set gs" for e using own(4) that by (auto simp: gs_def)
  have fr: "\<forall>e \<in> set gs. entity_index e \<notin> set (fl_abs (ea_free (w_entities w)))"
    using vg view_held(1) [OF ok] by (auto simp: held_def)
  have D: "ea_ok (w_entities w') \<and> ea_abs (w_entities w') = foldl dealloc_spec (ea_abs (w_entities w)) gs
    \<and> (\<forall>e. held (w_entities w) e \<and> ent_index e \<notin> ent_index ` set gs \<longrightarrow> held (w_entities w') e)"
  proof -
    have "dealloc_orphans t (w_pool w2) (w_entities w) gs = Some (w_pool w', w_entities w')" using R en2(1) by simp
    from dealloc_orphans_ok [OF settledD(2) [OF ok] dg fr this] show ?thesis .
  qed
  have ph: "placed_held w'"
    unfolding placed_held_def
  proof (intro allI impI)
    fix i a e m assume x: "rows w' i = Some (a, e, m)"
    then have "rows w i = Some (a, e, m)" "i \<notin> ent_index ` set gs" unfolding r3 by (auto simp: restrict_map_def split: if_splits)
    note x = this
    have "ent_index e \<notin> ent_index ` set gs" using rows_key [OF settledD(1) [OF ok] x(1)] x(2) by simp
    moreover have "held (w_entities w) e" using settledD(3) [OF ok] x(1) unfolding placed_held_def by blast
    ultimately show "held (w_entities w') e" using D by blast
  qed
  have "settled w'" using st3 D ph st(2) R en2 settledD(5) [OF ok] by (intro settledI) simp_all
  moreover have "view w' = view w |` (- set gs)"
    unfolding view_def r3
  proof (rule view_of_restrict)
    show "rows w i = Some (a, e, m) \<Longrightarrow> ent_index e = i" for i a e m using rows_key [OF settledD(1) [OF ok]] by blast
    show "e \<in> set gs \<Longrightarrow> view_of (rows w) e \<noteq> None" for e using vg by (simp add: view_def)
  qed
  ultimately have "settled w' \<and> aw_of w' = gone gs (aw_of w) \<and> dom (w_sparse w') = dom (w_sparse w)"
    using D R en2 st(3,4) by (simp add: gone_def aw_of_def)
  then show ?thesis using f re(2) gs_def by blast
qed

text \<open>
  (C3) Despawning a batch is despawning one by one. Whatever the order in which the hash maps
  yield archetypes and sparse sets, with duplicates, dead and unplaced handles in the
  argument, the outcome is that of calling \<^verbatim>\<open>despawn\<close> on each entity in the order given: the
  same entities are left with the same components, the same handles are released in the same
  order (so the next spawns get the same handles), and the answer is the number of calls that
  would have answered true.
\<close>

theorem despawn_batch_is_sequence:
  assumes "world_inv order w0" "drain_orphans t w0 = Some w" "distinct groups" "set groups = {..<length (w_archs w)}"
    and "despawn_batch quiet order groups t w0 es = Some ((out, ds), w')"
  shows "world_inv order w' \<and> (\<exists>rs. spec_answers world_spec (map WDespawn es) (drained (aw_of w0)) = (rs, aw_of w')
    \<and> out = Returned (length (filter (\<lambda>r. r = WFlag True) rs)))"
proof -
  have ok: "world_ok w0" and cover: "dom (w_sparse w0) \<subseteq> set order" using assms(1) by (simp_all add: world_inv_def)
  note D = drain_settled [OF ok assms(2)]
  have cv: "dom (w_sparse w) \<subseteq> set order" using cover D(3) by simp
  obtain found where f: "batch_collect w {} es = Some found" "out = Returned (length found)" "settled w'" "dom (w_sparse w') = dom (w_sparse w)"
    "aw_of w' = gone (map (\<lambda>(_, _, e). e) found) (aw_of w)" using despawn_batch_ok [OF D(1) assms(2) cv assms(3,4,5)] by blast
  have q: "quiescent (aw_of w)" using D(2) drained_quiescent by simp
  have "gone [] (aw_of w) = aw_of w" by (simp add: gone_def restrict_map_def)
  moreover have "\<exists>rs. spec_answers world_spec (map WDespawn es) (gone [] (aw_of w)) = (rs, gone ([] @ map (\<lambda>(_, _, e). e) found) (aw_of w))
    \<and> length (filter (\<lambda>r. r = WFlag True) rs) = length found"
    by (rule collect_is_sequence [OF D(1) f(1) q]) (simp_all add: aw_of_def)
  ultimately obtain rs where "spec_answers world_spec (map WDespawn es) (aw_of w) = (rs, aw_of w')" "length (filter (\<lambda>r. r = WFlag True) rs) = length found"
    using f(5) by auto
  then show ?thesis using f(2-4) cv D(2) by (auto simp: world_inv_def settledD(6))
qed

text \<open>Three entities of one archetype.\<close>

definition three_spawns :: "world_op list" where
  "three_spawns = [WSpawn [(ty_byte, [7])], WSpawn [(ty_byte, [8])], WSpawn [(ty_byte, [9])]]"

lemma three_spawned:
  "\<exists>rs w. run_answers (world_step [] 0) three_spawns demo_world = Some (rs, w) \<and> world_inv [] w"
proof -
  have "run_answers (world_step [] 0) three_spawns demo_world \<noteq> None" by code_simp
  then obtain rs w where r: "run_answers (world_step [] 0) three_spawns demo_world = Some (rs, w)" by auto
  have "spec_allows world_pre world_spec three_spawns (aw_of demo_world)" unfolding demo_world_abs by code_simp
  from world_sim.run_sim [OF demo_world_inv(1) this r] r show ?thesis by blast
qed

definition batch_arg :: "entity list" where
  "batch_arg = [entity_new 1 0, entity_new 5 0, entity_new 0 0, entity_new 1 0]"

theorem despawn_batch_is_sequence_witness:
  "\<exists>rs w1 w w2 ds rs'. run_answers (world_step [] 0) three_spawns demo_world = Some (rs, w1) \<and> drain_orphans 0 w1 = Some w
     \<and> despawn_batch quiet [] [1, 0, 2] 0 w1 batch_arg = Some ((Returned 2, ds), w2) \<and> world_inv [] w2
     \<and> spec_answers world_spec (map WDespawn batch_arg) (drained (aw_of w1)) = (rs', aw_of w2)"
proof -
  obtain rs w1 where r: "run_answers (world_step [] 0) three_spawns demo_world = Some (rs, w1)" "world_inv [] w1" using three_spawned by blast
  have "Option.bind (run_answers (world_step [] 0) three_spawns demo_world) (\<lambda>(_, w1). map_option (\<lambda>w. length (w_archs w)) (drain_orphans 0 w1)) = Some 3" by code_simp
  then obtain w where w: "drain_orphans 0 w1 = Some w" "length (w_archs w) = 3" using r(1) by auto
  have "Option.bind (run_answers (world_step [] 0) three_spawns demo_world) (\<lambda>(_, w1). map_option (fst o fst) (despawn_batch quiet [] [1, 0, 2] 0 w1 batch_arg)) = Some (Returned 2)" by code_simp
  then obtain ds w2 where d: "despawn_batch quiet [] [1, 0, 2] 0 w1 batch_arg = Some ((Returned 2, ds), w2)" using r(1) by auto
  have g: "distinct [1 :: nat, 0, 2]" "set [1 :: nat, 0, 2] = {..<length (w_archs w)}" using w(2) by (auto simp: lessThan_def)
  from despawn_batch_is_sequence [OF r(2) w(1) g d] r w d show ?thesis by blast
qed

end
