(* ===== verification/World_Panic.thy ===== *)
theory World_Panic
  imports World_Batch
begin

text \<open>
  Destructors that panic, with a caller that catches the panic: which operations of the
  world leave it intact, and which do not.
\<close>

subsection \<open>Despawn\<close>

lemma st_remove_all_calm:
  "storage_ok st \<Longrightarrow> (\<And>c x. st_get st c e = Some x \<Longrightarrow> \<not> boom c x) \<Longrightarrow> st_remove_all boom ks st e = Some ((ds, u), st') \<Longrightarrow> \<not> u"
proof (induction ks arbitrary: st ds)
  case (Cons k ks)
  obtain b d u1 st1 where s: "st_remove_raw (boom k) st k e = Some ((b, d, u1), st1)" "storage_ok st1" "st_get st1 k e = None"
    "\<forall>c' e'. c' \<noteq> k \<or> e' \<noteq> e \<longrightarrow> st_get st1 c' e' = st_get st c' e'" "u1 \<longrightarrow> (\<exists>x. d = [x] \<and> boom k x \<and> st_get st k e = Some x)"
    using st_remove_step [OF Cons.prems(1), of "boom k" k e] by blast
  have "\<not> u1" using s(5) Cons.prems(2) by blast
  then obtain d2 where r: "st_remove_all boom ks st1 e = Some ((d2, u), st')" using Cons.prems(3) s(1) by (auto split: bind_splits)
  have "\<not> boom c x" if "st_get st1 c e = Some x" for c x
  proof (cases "c = k")
    case True
    then show ?thesis using that s(3) by simp
  next
    case False
    then show ?thesis using that s(4) Cons.prems(2) by simp
  qed
  then show ?case by (rule Cons.IH [OF s(2) _ r])
qed simp

lemma st_remove_all_gone:
  assumes "storage_ok st" "dom st \<subseteq> set order" "st_remove_all boom order st e = Some ((ds, False), st')"
  shows "dom st' = dom st" "st_get st' = (\<lambda>c. (st_get st c)(e := None))"
proof -
  have s: "dom st' = dom st" "\<forall>c e'. e' \<noteq> e \<or> c \<notin> set order \<longrightarrow> st_get st' c e' = st_get st c e'" "\<forall>c \<in> set order. st_get st' c e = None"
    using st_remove_all_run [OF assms(1), of boom order e] assms(3) by auto
  show "dom st' = dom st" by (rule s(1))
  have "st_get st' c e = None" for c
  proof (cases "c \<in> set order")
    case True
    then show ?thesis using s(3) by blast
  next
    case False
    then have "c \<notin> dom st'" using assms(2) s(1) by blast
    then show ?thesis by (simp add: st_get_def dom_def)
  qed
  then show "st_get st' = (\<lambda>c. (st_get st c)(e := None))" using s(2) by (auto simp: fun_eq_iff)
qed

text \<open>
  (C4) A panicking destructor in an archetype column does not damage the world. Whatever the
  destructors of the entity's columns do, \<^verbatim>\<open>despawn\<close> leaves a world in which the invariant holds
  and exactly this entity is gone: its handle released, its components and its sparse
  components no longer stored, every other entity with its own components. The destructors run
  in column order up to and including the first that panics, and the call panics only if one
  did.
\<close>

theorem despawn_column_panic_safe:
  assumes "world_inv order w0" "drain_orphans t w0 = Some w" "view w e \<noteq> None"
    and "\<And>c x. st_get (w_sparse w) c e = Some x \<Longrightarrow> \<not> boom c x" "despawn boom order t w0 e = Some ((out, ds), w')"
  shows "world_inv order w' \<and> aw_of w' = gone [e] (aw_of w)
    \<and> out = (if list_ex (\<lambda>(c, x). boom c x) (owed w e) then Unwound else Returned True)
    \<and> (\<exists>sds. ds = sds @ fst (run_drops boom (owed w e)))"
proof -
  have ok: "world_ok w0" and cover: "dom (w_sparse w0) \<subseteq> set order" using assms(1) by (simp_all add: world_inv_def)
  note D = drain_settled [OF ok assms(2)]
  have cv: "dom (w_sparse w) \<subseteq> set order" using cover D(3) by simp
  obtain sds su st where s: "st_remove_all boom order (w_sparse w) e = Some ((sds, su), st)"
    "if su then out = Unwound \<and> ds = sds \<and> w_entities w' = w_entities w
      else settled w' \<and> view w' = (view w)(e := None) \<and> w_sparse w' = st \<and> w_components w' = w_components w \<and> w_tick w' = w_tick w
        \<and> w_orphans w' = w_orphans w \<and> ea_abs (w_entities w') = dealloc_spec (ea_abs (w_entities w)) e
        \<and> out = (if snd (run_drops boom (owed w e)) then Unwound else Returned True) \<and> ds = sds @ fst (run_drops boom (owed w e))"
    using despawn_ok [OF D(1) assms(2) cv assms(5)] assms(3) by auto
  have su: "\<not> su" by (rule st_remove_all_calm [OF settledD(4) [OF D(1)] assms(4) s(1)])
  note G = st_remove_all_gone [OF settledD(4) [OF D(1)] cv, of boom e sds st]
  have st: "dom st = dom (w_sparse w)" "st_get st = (\<lambda>c. (st_get (w_sparse w) c)(e := None))" using G s(1) su by simp_all
  have R: "settled w'" "view w' = (view w)(e := None)" "w_sparse w' = st" "w_components w' = w_components w" "w_tick w' = w_tick w"
    "w_orphans w' = w_orphans w" "ea_abs (w_entities w') = dealloc_spec (ea_abs (w_entities w)) e"
    "out = (if snd (run_drops boom (owed w e)) then Unwound else Returned True)" "ds = sds @ fst (run_drops boom (owed w e))" using s(2) su by auto
  have "snd (run_drops boom xs) = list_ex (\<lambda>(c, x). boom c x) xs" for xs
  proof (induction xs)
    case (Cons a xs)
    then show ?case by (cases a) (simp add: run_drops_Cons del: run_drops.simps)
  qed simp
  moreover have "aw_of w' = gone [e] (aw_of w)" using R st(2) by (simp add: gone_def aw_of_def restrict_single)
  ultimately show ?thesis using R(1,3,8,9) cv st(1) by (auto simp: world_inv_def settledD(6))
qed

text \<open>A stale location: the entity is alive, its location names a row that is not its own.\<close>

lemma swap_remove_not_own:
  assumes ok: "struct_ok w" and pl: "places w (ent_index e) = Some (i, r)"
    and a: "arch_rows a = swap_remove r (arch_rows (w_archs w ! i))" and arcs: "w_archs w' = (w_archs w)[i := a]"
    and pl': "places w' (ent_index e) = Some (i, r)"
  shows "\<not> struct_ok w'"
proof
  assume ok': "struct_ok w'"
  note P = rows_place [OF ok pl] and P' = rows_place [OF ok' pl']
  have ai: "w_archs w' ! i = a" using arcs P(1) by simp
  have len: "ar_len a = ar_len (w_archs w ! i) - 1" using arg_cong [OF a, of length] by simp
  have r: "r < ar_len (w_archs w ! i) - 1" using P'(2) ai len by simp
  let ?T = "tables w" and ?n = "ar_len (w_archs w ! i) - 1"
  have ne: "arch_rows (w_archs w ! i) \<noteq> []" using r by (metis arch_rows_len list.size(3) less_nat_zero_code zero_diff)
  have "arch_rows a ! r = last (arch_rows (w_archs w ! i))" using a r by (simp add: nth_swap_remove)
  also have "\<dots> = arch_rows (w_archs w ! i) ! ?n" using last_conv_nth [OF ne] by simp
  finally have "row_key (arch_rows (w_archs w ! i) ! ?n) = ent_index e"
    using P'(2,4) ai arch_rows_nth [of r a] by simp
  then have "row_key (?T ! i ! ?n) = row_key (?T ! i ! r)" using P by (simp add: tables_nth arch_rows_nth)
  then have "?n = r" using key_inj [OF struct_okD(3) [OF ok], of i i ?n r] P(1,2) r by (simp add: tables_nth)
  then show False using r by simp
qed

lemma despawn_unwound:
  assumes ok: "settled w" and dr: "drain_orphans t w0 = Some w" and v: "view w e \<noteq> None"
    and sr: "st_remove_all boom order (w_sparse w) e = Some ((sds, True), st)"
    and d: "despawn boom order t w0 e = Some ((out, ds), w')"
  shows "out = Unwound \<and> w_entities w' = w_entities w \<and> \<not> struct_ok w'"
proof -
  have al: "ea_is_alive (w_entities w) e" using v view_held(2) [OF ok] by auto
  obtain pl where pl: "nth_opt (w_locs w) (ent_index e) = Some pl" using d dr al by (auto simp: despawn_def Let_def split: bind_splits)
  have i: "ent_index e < length (w_locs w)" "w_locs w ! ent_index e = pl" using pl by (auto simp: nth_opt_def split: if_splits)
  obtain l where l: "pl = Some l" using places_loc(2) [OF i(1)] i(2) unplaced_view [OF ok, of e] v by (cases pl) auto
  let ?aid = "el_archetype_id l" and ?row = "el_row_of l"
  have plc: "places w (ent_index e) = Some (?aid, ?row)" using places_loc(1) [OF i(1)] i(2) l by simp
  note O = own_row [OF ok al plc]
  let ?a = "w_archs w ! ?aid"
  have na: "nth_opt (w_archs w) ?aid = Some ?a" using O(1) by (simp add: nth_opt_def)
  obtain slots cols1 es where rr: "extract_all ?row (ar_columns ?a) = Some (slots, cols1)"
    "pv_swap_remove (ar_entities ?a) ?row = Some (pv_elems (ar_entities ?a) ! ?row, es)"
    "let cols' = map (\<lambda>c. commit_extracted_swap c ?row) cols1; a' = ?a\<lparr>ar_columns := cols', ar_entities := es\<rparr> in
        same_shape ?a a' \<and> ar_wf (w_components w) a' \<and> ar_consistent a' \<and> arch_rows a' = swap_remove ?row (arch_rows ?a)
      \<and> drop_slots boom (ar_sorted_ids ?a) cols' slots = run_drops boom (row_drops (w_components w) (ar_sorted_ids ?a) (map (\<lambda>c. live_rows c ! ?row) (ar_columns ?a)))"
    using remove_row [OF struct_okD(4) [OF settledD(1) [OF ok] O(1)] struct_okD(5) [OF settledD(1) [OF ok] O(1)] O(2), of boom] by blast
  define a' where "a' = ?a\<lparr>ar_columns := map (\<lambda>c. commit_extracted_swap c ?row) cols1, ar_entities := es\<rparr>"
  have A: "arch_rows a' = swap_remove ?row (arch_rows ?a)" using rr(3) by (simp add: Let_def a'_def)
  let ?w1 = "set_archetype w ?aid a'"
  obtain w2 where w2: "(if ?row < pv_len es then put_location ?w1 (ent_index (pv_elems es ! ?row)) ?aid ?row else Some ?w1) = Some w2"
    using d dr al pl l na rr(1,2) by (auto simp: despawn_def Let_def a'_def cong: if_cong simp del: pv_swap_remove_eq split: bind_splits)
  have f2: "w_entities w2 = w_entities w" "w_sparse w2 = w_sparse w" "w_archs w2 = (w_archs w)[?aid := a']"
    using w2 put_location_frame [of ?w1 _ _ _ w2] by (auto split: if_splits)
  have res: "out = Unwound \<and> w' = w2\<lparr>w_sparse := st\<rparr>"
    using d dr al pl l na rr(1,2) w2 sr f2(2) by (simp add: despawn_def Let_def a'_def cong: if_cong del: pv_swap_remove_eq)
  have p1: "places ?w1 = places w" by (rule places_cong) simp
  have p2: "places w2 (ent_index e) = Some (?aid, ?row)" using w2 put_location_places [of ?w1 _ _ _ w2] p1 plc by (auto split: if_splits)
  have "places w' = places w2" using res by (intro places_cong) simp
  then have "places w' (ent_index e) = Some (?aid, ?row)" using p2 by simp
  moreover have "w_archs w' = (w_archs w)[?aid := a']" using res f2(3) by simp
  ultimately have "\<not> struct_ok w'" using swap_remove_not_own [OF settledD(1) [OF ok] plc A] by blast
  then show ?thesis using res f2(1) by simp
qed


subsection \<open>Insert\<close>

lemma unwound_iff: "map_outcome f a = Unwound \<longleftrightarrow> a = Unwound"
  by (cases a) simp_all

lemma no_drop_len: "row < bv_len v \<Longrightarrow> bv_len (swap_remove_no_drop v row) = bv_len v - 1"
  using commit_len [of v row] by (simp add: removal_eq)

lemma move_columns_unwound:
  "move_columns boom True t reg leaving row ks (p, src, tgt) = Some ((ds, True), q, src', tgt') \<Longrightarrow> distinct (map fst ks) \<Longrightarrow>
   \<forall>(k, cid) \<in> set ks. row < bv_len (ar_columns src ! k) \<and> (cid \<in> leaving \<or> column_index tgt cid \<noteq> None) \<Longrightarrow>
   \<exists>js k cid ks'. ks = js @ (k, cid) # ks' \<and> cid \<in> leaving \<and> bv_len (ar_columns src' ! k) = bv_len (ar_columns src ! k)
     \<and> (\<forall>j \<in> fst ` set js. bv_len (ar_columns src' ! j) = bv_len (ar_columns src ! j) - 1)
     \<and> (\<forall>j. j \<notin> fst ` set ks \<longrightarrow> ar_columns src' ! j = ar_columns src ! j)"
proof (induction ks arbitrary: p src tgt ds)
  case (Cons kc ks)
  obtain k cid where kc: "kc = (k, cid)" by (cases kc)
  obtain v where v: "nth_opt (ar_columns src) k = Some v" using Cons.prems(1) kc by (auto simp: Let_def split: bind_splits)
  have kl: "k < length (ar_columns src)" "v = ar_columns src ! k" using v by (auto simp: nth_opt_def split: if_splits)
  have row: "row < bv_len v" "cid \<in> leaving \<or> column_index tgt cid \<noteq> None" using Cons.prems(3) kc kl by auto
  let ?src = "src\<lparr>ar_columns := (ar_columns src)[k := swap_remove_no_drop v row]\<rparr>"
  have nk: "k \<notin> fst ` set ks" and dk: "distinct (map fst ks)" using Cons.prems(2) kc by auto
  have nthk: "ar_columns ?src ! j = (if j = k then swap_remove_no_drop v row else ar_columns src ! j)" for j using kl by simp
  have rec: ?case if r: "move_columns boom True t reg leaving row ks (p', ?src, tx) = Some ((ds', True), q, src', tgt')"
      and tc: "\<And>c. column_index tx c = column_index tgt c" for p' tx ds'
  proof -
    have pre: "\<forall>(j, c) \<in> set ks. row < bv_len (ar_columns ?src ! j) \<and> (c \<in> leaving \<or> column_index tx c \<noteq> None)"
    proof
      fix x assume x: "x \<in> set ks"
      obtain j c where jc: "x = (j, c)" by (cases x)
      have "j \<noteq> k" using nk x jc by force
      then show "case x of (j, c) \<Rightarrow> row < bv_len (ar_columns ?src ! j) \<and> (c \<in> leaving \<or> column_index tx c \<noteq> None)"
        using Cons.prems(3) x jc nthk tc by auto
    qed
    have "\<exists>js k' cid' ks'. ks = js @ (k', cid') # ks' \<and> cid' \<in> leaving \<and> bv_len (ar_columns src' ! k') = bv_len (ar_columns ?src ! k')
     \<and> (\<forall>j \<in> fst ` set js. bv_len (ar_columns src' ! j) = bv_len (ar_columns ?src ! j) - 1)
     \<and> (\<forall>j. j \<notin> fst ` set ks \<longrightarrow> ar_columns src' ! j = ar_columns ?src ! j)"
      using Cons.IH [OF r dk] pre by simp
    then obtain js k' cid' ks' where I: "ks = js @ (k', cid') # ks'" "cid' \<in> leaving" "bv_len (ar_columns src' ! k') = bv_len (ar_columns ?src ! k')"
      "\<forall>j \<in> fst ` set js. bv_len (ar_columns src' ! j) = bv_len (ar_columns ?src ! j) - 1"
      "\<forall>j. j \<notin> fst ` set ks \<longrightarrow> ar_columns src' ! j = ar_columns ?src ! j" by blast
    have k': "k' \<noteq> k" using nk I(1) by auto
    have js: "j \<noteq> k" if "j \<in> fst ` set js" for j using nk I(1) that by auto
    have "kc # ks = (kc # js) @ (k', cid') # ks'" using I(1) by simp
    moreover have "bv_len (ar_columns src' ! k') = bv_len (ar_columns src ! k')" using I(3) k' by (simp add: nthk)
    moreover have "\<forall>j \<in> fst ` set (kc # js). bv_len (ar_columns src' ! j) = bv_len (ar_columns src ! j) - 1"
    proof
      fix j assume "j \<in> fst ` set (kc # js)"
      then consider "j = k" | "j \<in> fst ` set js" using kc by auto
      then show "bv_len (ar_columns src' ! j) = bv_len (ar_columns src ! j) - 1"
      proof cases
        case 1
        then have "ar_columns src' ! j = swap_remove_no_drop v row" using I(5) nk kl(1) by simp
        then show ?thesis using no_drop_len [OF row(1)] 1 kl(2) by simp
      next
        case 2
        then show ?thesis using bspec [OF I(4) 2] js [OF 2] by simp
      qed
    qed
    moreover have "\<forall>j. j \<notin> fst ` set (kc # ks) \<longrightarrow> ar_columns src' ! j = ar_columns src ! j" using I(5) kc nthk by auto
    ultimately show ?thesis using I(2) by blast
  qed
  show ?case
  proof (cases "cid \<in> leaving")
    case True
    obtain info where info: "cr_info reg cid = Some info" using Cons.prems(1) kc v True by (auto simp: Let_def split: bind_splits)
    let ?ds = "if ci_drop_fn info then [(cid, bv_read v row)] else []"
    show ?thesis
    proof (cases "list_ex (\<lambda>(c, x). boom c x) ?ds")
      case b: True
      then have "src' = src" using Cons.prems(1) kc v True info by (simp add: Let_def split: if_splits)
      then show ?thesis using kc True by (intro exI [of _ "[]"] exI [of _ k] exI [of _ cid] exI [of _ ks]) simp
    next
      case False
      then obtain ds' where "move_columns boom True t reg leaving row ks (p, ?src, tgt) = Some ((ds', True), q, src', tgt')"
        using Cons.prems(1) kc v True info by (auto simp: Let_def split: bind_splits if_splits)
      then show ?thesis by (rule rec) simp
    qed
  next
    case False
    then obtain j where j: "column_index tgt cid = Some j" using row(2) by auto
    obtain p1 u u' where z: "nth_opt (ar_columns tgt) j = Some u" "bv_push t p u (bv_read v row) = Some (p1, u')"
      "move_columns boom True t reg leaving row ks (p1, ?src, tgt\<lparr>ar_columns := (ar_columns tgt)[j := u']\<rparr>) = Some ((ds, True), q, src', tgt')"
      using Cons.prems(1) kc v False j by (auto simp: Let_def split: bind_splits)
    show ?thesis by (rule rec [OF z(3)]) simp
  qed
qed simp

lemma move_columns_len:
  "move_columns boom d t reg lv rw ks (p, s, tg) = Some (res, q, s', tg') \<Longrightarrow> length (ar_columns s') = length (ar_columns s)"
proof (induction ks arbitrary: p s tg res)
  case (Cons kc ks)
  obtain k cid where kc: "kc = (k, cid)" by (cases kc)
  obtain v where v: "nth_opt (ar_columns s) k = Some v" using Cons.prems kc by (auto simp: Let_def split: bind_splits)
  let ?s = "s\<lparr>ar_columns := (ar_columns s)[k := swap_remove_no_drop v rw]\<rparr>"
  have len: "length (ar_columns ?s) = length (ar_columns s)" by simp
  show ?case
  proof (cases "cid \<in> lv")
    case True
    then obtain info where info: "cr_info reg cid = Some info" using Cons.prems kc v by (auto simp: Let_def split: bind_splits)
    let ?ds = "if d \<and> ci_drop_fn info then [(cid, bv_read v rw)] else []"
    show ?thesis
    proof (cases "list_ex (\<lambda>(c, x). boom c x) ?ds")
      case b: True
      then have "s' = s" using Cons.prems kc v True info by (simp add: Let_def split: if_splits)
      then show ?thesis by simp
    next
      case False
      then obtain res' where "move_columns boom d t reg lv rw ks (p, ?s, tg) = Some (res', q, s', tg')"
        using Cons.prems kc v True info by (auto simp: Let_def split: bind_splits if_splits)
      from Cons.IH [OF this] len show ?thesis by simp
    qed
  next
    case False
    show ?thesis
    proof (cases "column_index tg cid")
      case None
      then have "move_columns boom d t reg lv rw ks (p, s, tg) = Some (res, q, s', tg')" using Cons.prems kc v False by simp
      then show ?thesis by (rule Cons.IH)
    next
      case (Some j)
      then obtain p1 u u' where "move_columns boom d t reg lv rw ks (p1, ?s, tg\<lparr>ar_columns := (ar_columns tg)[j := u']\<rparr>) = Some (res, q, s', tg')"
        using Cons.prems kc v False by (auto simp: Let_def split: bind_splits)
      from Cons.IH [OF this] len show ?thesis by simp
    qed
  qed
qed simp

lemma migrate_unwound:
  assumes ok: "settled w" and al: "ea_is_alive (w_entities w) e" and pl: "places w (ent_index e) = Some (i, row)"
    and ij: "i \<noteq> j" "j < length (w_archs w)" and ids: "set (ar_sorted_ids (w_archs w ! i)) \<subseteq> set (ar_sorted_ids (w_archs w ! j))"
    and hd: "hd (ar_sorted_ids (w_archs w ! i)) \<notin> set new_ids"
    and r: "migrate_insert boom t w e i row j new_ids b tk = Some ((Unwound, ds), w')"
  shows "\<not> ar_consistent (w_archs w' ! i) \<and> i < length (w_archs w') \<and> w_entities w' = w_entities w"
proof -
  note O = own_row [OF ok al pl]
  note st = settledD(1) [OF ok]
  let ?src = "w_archs w ! i" and ?tgt = "w_archs w ! j"
  note ws = struct_okD(4,5) [OF st O(1)]
  note wt = struct_okD(4,5) [OF st ij(2)]
  have gp: "get_pair (w_archs w) i j = Some (?src, ?tgt)" using ij O(1) by (simp add: get_pair_def nth_opt_def)
  obtain ds1 p src1 tgt1 where mv: "move_columns boom True t (w_components w) (set new_ids) row (enumerate 0 (ar_sorted_ids ?src)) (w_pool w, ?src, ?tgt) = Some ((ds1, True), p, src1, tgt1)"
    and w': "w' = (set_archetype (set_archetype w i src1) j tgt1)\<lparr>w_pool := p\<rparr>"
    using r gp by (auto simp: migrate_insert_def split: bind_splits if_splits)
  let ?ks = "enumerate 0 (ar_sorted_ids ?src)"
  have len: "length (ar_columns ?src) = length (ar_sorted_ids ?src)" by (rule ar_wfD(2) [OF ws(1)])
  have pre: "\<forall>(k, cid) \<in> set ?ks. row < bv_len (ar_columns ?src ! k) \<and> (cid \<in> set new_ids \<or> column_index ?tgt cid \<noteq> None)"
  proof
    fix x assume x: "x \<in> set ?ks"
    obtain k c where kc: "x = (k, c)" by (cases x)
    have k: "k < length (ar_columns ?src)" "c \<in> set (ar_sorted_ids ?src)" using x kc len by (auto simp: in_set_enumerate_eq)
    have "column_index ?tgt c \<noteq> None" using column_index_None [OF wt(1)] k(2) ids by blast
    then show "case x of (k, cid) \<Rightarrow> row < bv_len (ar_columns ?src ! k) \<and> (cid \<in> set new_ids \<or> column_index ?tgt cid \<noteq> None)"
      using consistent_len [OF ws(2) k(1)] O(2) kc by simp
  qed
  obtain js k cid ks' where U: "?ks = js @ (k, cid) # ks'" "cid \<in> set new_ids" "bv_len (ar_columns src1 ! k) = bv_len (ar_columns ?src ! k)"
    "\<forall>j \<in> fst ` set js. bv_len (ar_columns src1 ! j) = bv_len (ar_columns ?src ! j) - 1"
    using move_columns_unwound [OF mv _ pre] by auto
  have kk: "(k, cid) \<in> set ?ks" using U(1) by simp
  have kl: "k < length (ar_columns ?src)" "ar_sorted_ids ?src ! k = cid" using kk len by (auto simp: in_set_enumerate_eq)
  have "js \<noteq> []"
  proof
    assume "js = []"
    then have "k = 0" using U(1) by (cases "ar_sorted_ids ?src") auto
    then show False using kl hd U(2) len by (metis hd_conv_nth length_greater_0_conv)
  qed
  then have 0: "0 \<in> fst ` set js" using U(1) by (cases js; cases "ar_sorted_ids ?src") auto
  have l1: "length (ar_columns src1) = length (ar_columns ?src)"
    by (rule move_columns_len [OF mv])
  have z: "0 < length (ar_columns ?src)" using kl(1) by linarith
  have n: "bv_len (ar_columns ?src ! 0) = ar_len ?src" "bv_len (ar_columns ?src ! k) = ar_len ?src"
    using consistent_len [OF ws(2) z] consistent_len [OF ws(2) kl(1)] by auto
  have a: "w_archs w' ! i = src1" using ij O(1) by (simp add: w')
  have "\<not> ar_consistent (w_archs w' ! i)"
  proof
    assume c: "ar_consistent (w_archs w' ! i)"
    have "bv_len (ar_columns src1 ! 0) = ar_len src1" "bv_len (ar_columns src1 ! k) = ar_len src1" using consistent_len [OF c, of 0] consistent_len [OF c, of k] a kl(1) z l1 by auto
    moreover have "bv_len (ar_columns src1 ! 0) = ar_len ?src - 1" using bspec [OF U(4) 0] n(1) by simp
    ultimately show False using U(3) n(2) O(2) by simp
  qed
  then show ?thesis using O(1) by (simp add: w')
qed


subsection \<open>Concrete runs\<close>

definition two_spawns :: "world_op list" where
  "two_spawns = [WSpawn [(ty_byte, [7])], WSpawn [(ty_byte, [8])]]"

lemma two_spawned_view:
  "\<exists>rs w1 w. run_answers (world_step [] 0) two_spawns demo_world = Some (rs, w1) \<and> world_inv [] w1 \<and> drain_orphans 0 w1 = Some w
     \<and> view w1 (entity_new 0 0) \<noteq> None \<and> view w = view w1 \<and> w_sparse w = w_sparse w1 \<and> w_sparse w1 = Map.empty"
proof -
  have "Option.bind (run_answers (world_step [] 0) two_spawns demo_world) (\<lambda>(_, w1). map_option (\<lambda>w. ()) (drain_orphans 0 w1)) = Some ()" by code_simp
  then obtain rs w1 w where r: "run_answers (world_step [] 0) two_spawns demo_world = Some (rs, w1)" and w: "drain_orphans 0 w1 = Some w"
    by (auto split: bind_splits)
  have "spec_allows world_pre world_spec two_spawns (aw_of demo_world)" unfolding demo_world_abs by code_simp
  note S = world_sim.run_sim [OF demo_world_inv(1) this r]
  have a: "aw_of w1 = snd (spec_answers world_spec two_spawns (aw_of demo_world))" using S by simp
  have "\<not> Option.is_none (aw_view (snd (spec_answers world_spec two_spawns (aw_of demo_world))) (entity_new 0 0))" unfolding demo_world_abs by code_simp
  then have v: "view w1 (entity_new 0 0) \<noteq> None" unfolding a [symmetric] by (simp add: aw_of_def Option.is_none_def)
  have "world_ok w1" "w_sparse w1 = Map.empty" using S by (auto simp: world_inv_def)
  note D = drain_settled [OF this(1) w]
  have "view w = view w1" using arg_cong [OF D(2), of aw_view] by (simp add: aw_of_def)
  with r w v D(3) S \<open>w_sparse w1 = Map.empty\<close> show ?thesis by blast
qed

theorem despawn_column_panic_safe_witness:
  "\<exists>rs w1 w ds w'. run_answers (world_step [] 0) two_spawns demo_world = Some (rs, w1) \<and> drain_orphans 0 w1 = Some w
     \<and> despawn (\<lambda>c x. x = [7]) [] 0 w1 (entity_new 0 0) = Some ((Unwound, ds), w')
     \<and> world_inv [] w' \<and> aw_of w' = gone [entity_new 0 0] (aw_of w)"
proof -
  obtain rs w1 w where r: "run_answers (world_step [] 0) two_spawns demo_world = Some (rs, w1)" "world_inv [] w1" "drain_orphans 0 w1 = Some w"
    "view w (entity_new 0 0) \<noteq> None" "w_sparse w = Map.empty" using two_spawned_view by force
  have "Option.bind (run_answers (world_step [] 0) two_spawns demo_world) (\<lambda>(_, w1). map_option (fst o fst) (despawn (\<lambda>c x. x = [7]) [] 0 w1 (entity_new 0 0))) = Some Unwound"
    by code_simp
  then obtain ds w' where d: "despawn (\<lambda>c x. x = [7]) [] 0 w1 (entity_new 0 0) = Some ((Unwound, ds), w')" using r(1) by auto
  have "st_get (w_sparse w) c (entity_new 0 0) = None" for c using r(5) by (simp add: st_get_def)
  then have "world_inv [] w' \<and> aw_of w' = gone [entity_new 0 0] (aw_of w)" using despawn_column_panic_safe [OF r(2-4) _ d] by simp
  then show ?thesis using r d by blast
qed

text \<open>A sparse set that holds one value for the first entity.\<close>

definition sparse_one :: sparse_set where
  "sparse_one = (case ss_insert (\<lambda>x. False) 0 (slab_pool_new 2097152 1) sparse_room (entity_new 0 0) [5] of None \<Rightarrow> sparse_room | Some (_, _, s) \<Rightarrow> s)"

lemma sparse_one_ok: "storage_ok [4 \<mapsto> sparse_one]"
proof (cases "ss_insert (\<lambda>x. False) 0 (slab_pool_new 2097152 1) sparse_room (entity_new 0 0) [5]")
  case None
  then show ?thesis using sparse_room_ok by (auto simp: sparse_one_def storage_ok_def sparse_room_def byte_column_def bv_init_def)
next
  case (Some res)
  obtain ds u q s where res: "res = ((ds, u), q, s)" by (cases res) auto
  have "may_put \<lparr>l_size = 1, l_align = 1\<rparr> (entity_new 0 0) [5] (ss_for_each sparse_room)"
    by (simp add: may_put_def ss_for_each_def sparse_room_def pv_new_def)
  then have k: "sparse_ok \<lparr>l_size = 1, l_align = 1\<rparr> True s" using ss_insert_sim [OF sparse_room_ok _ Some [unfolded res]] by blast
  then have "bv_item (ss_values s) = \<lparr>l_size = 1, l_align = 1\<rparr>" "bv_drop_fn (ss_values s)" by (auto simp: sparse_ok_def col_ok_def)
  then show ?thesis using k Some res by (simp add: sparse_one_def storage_ok_def)
qed

definition sparse_worlds :: "(world_answer list \<times> world) option" where
  "sparse_worlds = map_option (map_prod id (\<lambda>w. w\<lparr>w_sparse := [4 \<mapsto> sparse_one]\<rparr>)) (run_answers (world_step [] 0) two_spawns demo_world)"


text \<open>A world whose first component is a tag: the second is replaced while the entity moves.\<close>

definition ty_mark :: rust_type where "ty_mark = \<lparr>ty_id = 5, ty_name = ''Mark'', ty_layout = \<lparr>l_size = 1, l_align = 1\<rparr>, ty_needs_drop = False\<rparr>"

definition mark_reg :: registry where
  "mark_reg = snd (register (snd (register (snd (register cr_new ty_tag)) ty_byte)) ty_mark)"

definition mark_world :: world where
  "mark_world = room_world mark_reg [([0, 1], [tag_column, byte_column True]), ([0, 1, 2], [tag_column, byte_column True, byte_column False])]"

lemmas mark_defs = mark_reg_def ty_mark_def demo_defs

lemma mark_world_inv: "world_inv [] mark_world" "view mark_world = Map.empty"
proof -
  let ?xs = "[([0, 1], [tag_column, byte_column True]), ([0, 1, 2 :: nat], [tag_column, byte_column True, byte_column False])]"
  have t: "typed mark_reg 0 tag_column" "typed mark_reg 1 (byte_column True)" "typed mark_reg 2 (byte_column False)"
    by (simp_all add: typed_def mark_defs col_ok_def has_scratch_def USIZE_MAX_def)
  have "cr_len mark_reg = 3" by (simp add: mark_defs)
  then have x: "\<forall>(ids, cols) \<in> set ?xs. distinct ids \<and> (\<forall>c \<in> set ids. c < cr_len mark_reg) \<and> length cols = length ids
      \<and> (\<forall>k < length ids. typed mark_reg (ids ! k) (cols ! k) \<and> bv_len (cols ! k) = 0)"
    using t empty_columns by (simp add: nth_Cons' less_Suc_eq numeral_2_eq_2)
  have "reg_inv mark_reg" unfolding mark_reg_def
    by (metis register_inv reg_new prod.collapse)
  from room_world_inv [OF this _ x] show "world_inv [] mark_world" "view mark_world = Map.empty" by (simp_all add: mark_world_def)
qed

lemma mark_world_abs: "aw_of mark_world = \<lparr>aw_slots = ([], [], 0), aw_orphans = oq_new, aw_reg = mark_reg, aw_view = Map.empty, aw_sparse = (\<lambda>c e. None), aw_tick = tick_new 0\<rparr>"
  by (simp add: aw_of_def mark_world_inv(2)) (simp add: mark_world_def room_world_def new_with_pool_def st_get_def st_new_def fun_eq_iff demo_ea_ok)

definition mark_spawn :: "world_op list" where
  "mark_spawn = [WSpawn [(ty_tag, []), (ty_byte, [7])]]"

definition mark_bundle :: bundle_values where
  "mark_bundle = [(ty_byte, [8]), (ty_mark, [1])]"


end
