(* ===== verification/Lsm_Bytes.thy ===== *)
theory Lsm_Bytes
  imports Mk_Prelude
begin

text \<open>
  Bytes on disk, for the LSM crate: little-endian integers, the checked readers of
  \<^verbatim>\<open>format.rs\<close>, UTF-8 validity, paths, and the contract of a codec that reads at a cursor.

  A byte buffer or a file is a list of bytes. A reader takes the buffer and the cursor and
  returns the value with the advanced cursor, or the error of the source (the constant part
  of its message). Cursors are natural numbers: they never pass the length of the buffer, so
  the \<^verbatim>\<open>checked_add\<close> of the source cannot overflow.
\<close>

type_synonym u8 = "8 word"
type_synonym u16 = "16 word"
type_synonym bytes = "u8 list"

datatype lsm_error = LsmIo | LsmFormat string | LsmCrc nat u32 u32

type_synonym 'a lsm_result = "lsm_error + 'a"

text \<open>The \<^verbatim>\<open>?\<close> operator.\<close>

definition and_then :: "'e + 'a \<Rightarrow> ('a \<Rightarrow> 'e + 'b) \<Rightarrow> 'e + 'b" where
  "and_then r f = (case r of Inl e \<Rightarrow> Inl e | Inr x \<Rightarrow> f x)"

lemma and_then_simps [simp]: "and_then (Inl e) f = Inl e" "and_then (Inr x) f = f x"
  by (simp_all add: and_then_def)

lemma and_then_Inr: "and_then r f = Inr y \<longleftrightarrow> (\<exists>x. r = Inr x \<and> f x = Inr y)"
  by (cases r) simp_all

subsection \<open>Little-endian integers\<close>

text \<open>\<^verbatim>\<open>to_le_bytes\<close> of an \<open>n\<close>-byte integer, and \<^verbatim>\<open>from_le_bytes\<close>.\<close>

fun to_le :: "nat \<Rightarrow> nat \<Rightarrow> bytes" where
  "to_le 0 v = []"
| "to_le (Suc n) v = word_of_nat v # to_le n (v div 256)"

fun from_le :: "bytes \<Rightarrow> nat" where
  "from_le [] = 0"
| "from_le (b # bs) = unat b + 256 * from_le bs"

lemma to_le_len [simp]: "length (to_le n v) = n"
  by (induction n arbitrary: v) simp_all

lemma from_to_le: "v < 256 ^ n \<Longrightarrow> from_le (to_le n v) = v"
proof (induction n arbitrary: v)
  case (Suc n)
  then have "from_le (to_le n (v div 256)) = v div 256" by (simp add: less_mult_imp_div_less)
  then show ?case by (simp add: unat_of_nat)
qed simp

lemma from_le_word: "from_le (to_le n (unat (w :: 'a :: len word))) = unat w" if "LENGTH('a) = 8 * n"
proof (rule from_to_le)
  have "(2 :: nat) ^ (8 * n) = 256 ^ n" by (simp add: power_mult)
  moreover have "unat w < 2 ^ LENGTH('a)" by (rule unsigned_less)
  ultimately show "unat w < 256 ^ n" using that by simp
qed

subsection \<open>The checked readers\<close>

definition subslice :: "'a list \<Rightarrow> nat \<Rightarrow> nat \<Rightarrow> 'a list" where
  "subslice xs a b = take (b - a) (drop a xs)"

definition read_u16_le :: "bytes \<Rightarrow> nat \<Rightarrow> (u16 \<times> nat) lsm_result" where
  "read_u16_le data off =
     (if off + 2 \<le> length data then Inr (word_of_nat (from_le (subslice data off (off + 2))), off + 2)
      else Inl (LsmFormat ''truncated u16''))"

definition read_u32_le :: "bytes \<Rightarrow> nat \<Rightarrow> (u32 \<times> nat) lsm_result" where
  "read_u32_le data off =
     (if off + 4 \<le> length data then Inr (word_of_nat (from_le (subslice data off (off + 4))), off + 4)
      else Inl (LsmFormat ''truncated u32''))"

definition read_u64_le :: "bytes \<Rightarrow> nat \<Rightarrow> (u64 \<times> nat) lsm_result" where
  "read_u64_le data off =
     (if off + 8 \<le> length data then Inr (word_of_nat (from_le (subslice data off (off + 8))), off + 8)
      else Inl (LsmFormat ''truncated u64''))"

lemma subslice_append [simp]: "subslice (pre @ xs @ post) (length pre) (length pre + length xs) = xs"
  by (simp add: subslice_def)

subsection \<open>The contract of a codec\<close>

text \<open>
  A reader inverts an encoding when, wherever the encoding of a valid value stands in a
  buffer, the reader at its start returns the value and leaves the cursor behind it. Readers
  of such codecs compose, and a counted repetition of one is again one.
\<close>

fun repeat_read :: "nat \<Rightarrow> (bytes \<Rightarrow> nat \<Rightarrow> ('a \<times> nat) lsm_result) \<Rightarrow> bytes \<Rightarrow> nat \<Rightarrow> ('a list \<times> nat) lsm_result" where
  "repeat_read 0 rd data off = Inr ([], off)"
| "repeat_read (Suc n) rd data off =
     and_then (rd data off) (\<lambda>(x, off1). and_then (repeat_read n rd data off1) (\<lambda>(xs, off2). Inr (x # xs, off2)))"

locale codec =
  fixes enc :: "'a \<Rightarrow> bytes" and rd :: "bytes \<Rightarrow> nat \<Rightarrow> ('a \<times> nat) lsm_result" and valid :: "'a \<Rightarrow> bool"
  assumes inverts: "valid x \<Longrightarrow> rd (pre @ enc x @ post) (length pre) = Inr (x, length pre + length (enc x))"
begin

lemma read_at: "valid x \<Longrightarrow> data = pre @ enc x @ post \<Longrightarrow> off = length pre \<Longrightarrow> rd data off = Inr (x, off + length (enc x))"
  using inverts by simp

lemma repeat_inverts:
  "\<forall>x \<in> set xs. valid x \<Longrightarrow> repeat_read (length xs) rd (pre @ concat (map enc xs) @ post) (length pre)
     = Inr (xs, length pre + length (concat (map enc xs)))"
proof (induction xs arbitrary: pre)
  case (Cons x xs)
  have "rd (pre @ enc x @ (concat (map enc xs) @ post)) (length pre) = Inr (x, length pre + length (enc x))"
    using Cons.prems by (intro inverts) simp
  moreover have "repeat_read (length xs) rd ((pre @ enc x) @ concat (map enc xs) @ post) (length (pre @ enc x))
      = Inr (xs, length (pre @ enc x) + length (concat (map enc xs)))"
    using Cons.prems by (intro Cons.IH) simp
  ultimately show ?case by simp
qed simp

end

interpretation u16: codec "\<lambda>w. to_le 2 (unat w)" read_u16_le "\<lambda>_. True"
  by unfold_locales (use from_le_word [where 'a = 16 and n = 2] subslice_append [of _ "to_le 2 _"] in \<open>simp add: read_u16_le_def\<close>)

interpretation u32: codec "\<lambda>w. to_le 4 (unat w)" read_u32_le "\<lambda>_. True"
  by unfold_locales (use from_le_word [where 'a = 32 and n = 4] subslice_append [of _ "to_le 4 _"] in \<open>simp add: read_u32_le_def\<close>)

interpretation u64: codec "\<lambda>w. to_le 8 (unat w)" read_u64_le "\<lambda>_. True"
  by unfold_locales (use from_le_word [where 'a = 64 and n = 8] subslice_append [of _ "to_le 8 _"] in \<open>simp add: read_u64_le_def\<close>)

subsection \<open>UTF-8 and paths\<close>

text \<open>What \<^verbatim>\<open>str::from_utf8\<close> accepts: the well-formed byte sequences of the Unicode standard.\<close>

definition cont :: "u8 \<Rightarrow> bool" where
  "cont b \<longleftrightarrow> 0x80 \<le> b \<and> b \<le> 0xBF"

fun utf8_valid :: "bytes \<Rightarrow> bool" where
  "utf8_valid [] = True"
| "utf8_valid (a # bs) =
     (if a \<le> 0x7F then utf8_valid bs
      else if 0xC2 \<le> a \<and> a \<le> 0xDF then (case bs of b # r \<Rightarrow> cont b \<and> utf8_valid r | _ \<Rightarrow> False)
      else if 0xE0 \<le> a \<and> a \<le> 0xEF then
        (case bs of b # c # r \<Rightarrow>
           (if a = 0xE0 then 0xA0 \<le> b \<and> b \<le> 0xBF else if a = 0xED then 0x80 \<le> b \<and> b \<le> 0x9F else cont b)
           \<and> cont c \<and> utf8_valid r
         | _ \<Rightarrow> False)
      else if 0xF0 \<le> a \<and> a \<le> 0xF4 then
        (case bs of b # c # d # r \<Rightarrow>
           (if a = 0xF0 then 0x90 \<le> b \<and> b \<le> 0xBF else if a = 0xF4 then 0x80 \<le> b \<and> b \<le> 0x8F else cont b)
           \<and> cont c \<and> cont d \<and> utf8_valid r
         | _ \<Rightarrow> False)
      else False)"

lemma utf8_ascii: "\<forall>b \<in> set bs. b \<le> 0x7F \<Longrightarrow> utf8_valid bs"
  by (induction bs) simp_all

text \<open>
  A path is its byte string. \<^verbatim>\<open>Path\<close> equality compares components: repeated and trailing
  separators and dots after the first component do not count.
\<close>

type_synonym path = bytes

fun split_sep :: "path \<Rightarrow> bytes \<Rightarrow> bytes list" where
  "split_sep [] acc = [rev acc]"
| "split_sep (b # bs) acc = (if b = 47 then rev acc # split_sep bs [] else split_sep bs (b # acc))"

definition path_components :: "path \<Rightarrow> bool \<times> bool \<times> bytes list" where
  "path_components p = (let segs = split_sep p []; root = (p \<noteq> [] \<and> hd p = 47) in
     (root, \<not> root \<and> hd segs = [46], filter (\<lambda>s. s \<noteq> [] \<and> s \<noteq> [46]) segs))"

definition path_eq :: "path \<Rightarrow> path \<Rightarrow> bool" where
  "path_eq p q \<longleftrightarrow> path_components p = path_components q"

lemma path_eq_refl [simp]: "path_eq p p"
  by (simp add: path_eq_def)

lemma path_eq_equiv: "path_eq p q \<Longrightarrow> path_eq q p" "path_eq p q \<Longrightarrow> path_eq q r \<Longrightarrow> path_eq p r"
  by (simp_all add: path_eq_def)

end
