(* ===== verification/Lsm_Bloom.thy ===== *)
theory Lsm_Bloom
  imports Lsm_Bytes
begin

unbundle bit_operations_syntax

text \<open>
  The blocked bloom filter of a sorted run (\<^verbatim>\<open>bloom.rs\<close>): building, serialising behind the
  pages of the run, and the view a reader takes of the bytes. A block is its eight 64-bit
  words. Indexing a block that is not there panics (\<open>None\<close>).
\<close>

subsection \<open>Hashing\<close>

definition BITS_PER_KEY :: nat where "BITS_PER_KEY = 10"
definition BLOCK_BITS :: nat where "BLOCK_BITS = 512"
definition BLOCK_BYTES :: nat where "BLOCK_BYTES = 64"
definition WORDS_PER_BLOCK :: nat where "WORDS_PER_BLOCK = 8"
definition NUM_HASHES :: nat where "NUM_HASHES = 8"

definition splitmix64 :: "u64 \<Rightarrow> u64" where
  "splitmix64 state =
     (let z = state + 0x9e3779b97f4a7c15;
          z = (z XOR drop_bit 30 z) * 0xbf58476d1ce4e5b9;
          z = (z XOR drop_bit 27 z) * 0x94d049bb13311177
      in z XOR drop_bit 31 z)"

definition pack_page_key :: "u16 \<Rightarrow> u16 \<Rightarrow> u16 \<Rightarrow> u64" where
  "pack_page_key arch_id slot page_index = (push_bit 32 (ucast arch_id) OR push_bit 16 (ucast slot)) OR ucast page_index"

text \<open>The bit of word \<open>i\<close> that a key with second and third hashes \<open>h2\<close>, \<open>h3\<close> sets.\<close>

definition probe_bit :: "u64 \<Rightarrow> u64 \<Rightarrow> nat \<Rightarrow> nat" where
  "probe_bit h2 h3 i = unat ((drop_bit (i * 6) h2 XOR drop_bit ((7 - i) * 6) h3) AND 0x3F)"

subsection \<open>The filter\<close>

type_synonym block = "u64 list"

definition block_zero :: block where "block_zero = replicate WORDS_PER_BLOCK 0"

record bloom =
  bf_blocks :: "block list"
  bf_num_blocks :: u32
  bf_seed :: u64

definition bloom_new :: "nat \<Rightarrow> u64 \<Rightarrow> bloom" where
  "bloom_new expected_keys seed =
     (if expected_keys = 0 then \<lparr>bf_blocks = [], bf_num_blocks = 0, bf_seed = seed\<rparr>
      else let n = (expected_keys * BITS_PER_KEY + (BLOCK_BITS - 1)) div BLOCK_BITS;
               num_blocks = word_of_nat (max n 1)
        in \<lparr>bf_blocks = replicate (unat num_blocks) block_zero, bf_num_blocks = num_blocks, bf_seed = seed\<rparr>)"

definition set_probe :: "u64 \<Rightarrow> u64 \<Rightarrow> block \<Rightarrow> nat \<Rightarrow> block" where
  "set_probe h2 h3 b i = b[i := b ! i OR push_bit (probe_bit h2 h3 i) 1]"

definition bloom_insert :: "bloom \<Rightarrow> u64 \<Rightarrow> bloom option" where
  "bloom_insert f key =
     (if bf_num_blocks f = 0 then Some f
      else let h1 = splitmix64 (key XOR bf_seed f);
               block_idx = unat (h1 mod ucast (bf_num_blocks f));
               h2 = splitmix64 h1; h3 = splitmix64 h2
        in if block_idx < length (bf_blocks f)
           then Some (f\<lparr>bf_blocks := (bf_blocks f)[block_idx := foldl (set_probe h2 h3) (bf_blocks f ! block_idx) [0..<NUM_HASHES]]\<rparr>)
           else None)"

definition block_has :: "u64 \<Rightarrow> u64 \<Rightarrow> block \<Rightarrow> bool" where
  "block_has h2 h3 b = list_all (\<lambda>i. b ! i AND push_bit (probe_bit h2 h3 i) 1 \<noteq> 0) [0..<NUM_HASHES]"

definition bloom_contains :: "bloom \<Rightarrow> u64 \<Rightarrow> bool option" where
  "bloom_contains f key =
     (if bf_num_blocks f = 0 then Some True
      else let h1 = splitmix64 (key XOR bf_seed f);
               block_idx = unat (h1 mod ucast (bf_num_blocks f));
               h2 = splitmix64 h1; h3 = splitmix64 h2
        in if block_idx < length (bf_blocks f) then Some (block_has h2 h3 (bf_blocks f ! block_idx)) else None)"

definition bloom_write_to :: "bloom \<Rightarrow> bytes lsm_result" where
  "bloom_write_to f =
     (if bf_num_blocks f = 0 then Inl (LsmFormat ''cannot serialize empty bloom filter'')
      else Inr ((to_le 4 (unat (bf_num_blocks f)) @ to_le 8 (unat (bf_seed f)) @ [0, 0, 0, 0])
        @ concat (map (\<lambda>b. concat (map (\<lambda>w. to_le 8 (unat w)) b)) (bf_blocks f))))"

subsection \<open>The view on the bytes of a run\<close>

text \<open>
  \<open>base\<close> is the address of the buffer: blocks that happen to be aligned are read in place,
  others are copied. On the little-endian targets the words read are the same.
\<close>

record bloom_view =
  bw_num_blocks :: u32
  bw_seed :: u64
  bw_owned :: bool
  bw_blocks :: "block list"

definition read_block :: "bytes \<Rightarrow> block" where
  "read_block chunk = map (\<lambda>i. word_of_nat (from_le (subslice chunk (i * 8) (i * 8 + 8)))) [0..<WORDS_PER_BLOCK]"

fun chunks_of :: "nat \<Rightarrow> bytes \<Rightarrow> bytes list" where
  "chunks_of 0 bs = []"
| "chunks_of (Suc n) bs = take BLOCK_BYTES bs # chunks_of n (drop BLOCK_BYTES bs)"

definition view_from_bytes :: "nat \<Rightarrow> bytes \<Rightarrow> nat \<Rightarrow> bloom_view lsm_result" where
  "view_from_bytes base buf off =
     (let header_end = off + 16 in
      if header_end > length buf then Inl (LsmFormat ''bloom header extends beyond file'')
      else let num_blocks = word_of_nat (from_le (subslice buf off (off + 4)));
               seed = word_of_nat (from_le (subslice buf (off + 4) (off + 12))) in
        if num_blocks = 0 then Inr \<lparr>bw_num_blocks = 0, bw_seed = seed, bw_owned = False, bw_blocks = []\<rparr>
        else let blocks_end = header_end + unat num_blocks * BLOCK_BYTES in
          if blocks_end > length buf then Inl (LsmFormat ''bloom blocks extend beyond file'')
          else let aligned = ((base + header_end) mod 64 = 0);
                   blocks = map read_block (chunks_of (unat num_blocks) (subslice buf header_end blocks_end))
            in Inr \<lparr>bw_num_blocks = num_blocks, bw_seed = seed, bw_owned = (\<not> aligned), bw_blocks = blocks\<rparr>)"

definition view_contains :: "bloom_view \<Rightarrow> u64 \<Rightarrow> bool option" where
  "view_contains v key =
     (if bw_num_blocks v = 0 then Some True
      else let h1 = splitmix64 (key XOR bw_seed v);
               block_idx = unat (h1 mod ucast (bw_num_blocks v));
               h2 = splitmix64 h1; h3 = splitmix64 h2
        in if block_idx < length (bw_blocks v) then Some (block_has h2 h3 (bw_blocks v ! block_idx)) else None)"

subsection \<open>The bloom section of a run\<close>

record index_entry =
  ie_arch_id :: u16
  ie_slot :: u16
  ie_page_index :: u16
  ie_pad :: u16
  ie_file_offset :: u64

definition entry_key :: "index_entry \<Rightarrow> u64" where
  "entry_key e = pack_page_key (ie_arch_id e) (ie_slot e) (ie_page_index e)"

fun insert_keys :: "bloom \<Rightarrow> index_entry list \<Rightarrow> bloom option" where
  "insert_keys f [] = Some f"
| "insert_keys f (e # es) = do { f1 \<leftarrow> bloom_insert f (entry_key e); insert_keys f1 es }"

text \<open>Written behind the bytes \<open>w\<close> that are already there; the result is the offset of the section.\<close>

definition write_bloom_section :: "bytes \<Rightarrow> index_entry list \<Rightarrow> u64 \<Rightarrow> (nat \<times> bytes) lsm_result option" where
  "write_bloom_section w entries seed =
     (if entries = [] then Some (Inr (0, w))
      else do {
        f \<leftarrow> insert_keys (bloom_new (length entries) seed) entries;
        let off = length w;
        let w1 = (if off mod 64 \<noteq> 0 then w @ replicate (64 - off mod 64) 0 else w);
        let off1 = length w1;
        if off1 mod 64 \<noteq> 0 then None
        else Some (case bloom_write_to f of Inl e \<Rightarrow> Inl e | Inr bs \<Rightarrow> Inr (off1, w1 @ bs))
      })"

subsection \<open>No false negatives\<close>

definition bloom_ok :: "bloom \<Rightarrow> bool" where
  "bloom_ok f \<longleftrightarrow> length (bf_blocks f) = unat (bf_num_blocks f) \<and> (\<forall>b \<in> set (bf_blocks f). length b = 8)"

lemma and_63: "unat (x AND 0x3F :: u64) < 64"
proof -
  have "x AND 0x3F \<le> (0x3F :: u64)" by (rule word_and_le1)
  then show ?thesis by (simp add: word_le_nat_alt)
qed

lemma probe_bound: "probe_bit h2 h3 i < 64"
  unfolding probe_bit_def by (rule and_63)

lemma probe_test: "w AND push_bit n 1 \<noteq> 0 \<longleftrightarrow> bit (w :: u64) n" if "n < 64"
proof
  assume "w AND push_bit n 1 \<noteq> 0"
  then obtain k where "bit (w AND push_bit n 1) k" by (metis bit_eqI bit_0_eq bot_apply bot_bool_def)
  then show "bit w n" by (auto simp: bit_simps)
next
  assume "bit w n"
  then have "bit (w AND push_bit n 1) n" using that by (simp add: bit_simps)
  then show "w AND push_bit n 1 \<noteq> 0" by force
qed

lemma block_has_iff: "block_has h2 h3 b \<longleftrightarrow> (\<forall>i < 8. bit (b ! i) (probe_bit h2 h3 i))"
  unfolding block_has_def NUM_HASHES_def list_all_iff probe_test [OF probe_bound] by auto

lemma set_probes:
  "length b = 8 \<Longrightarrow> k \<le> 8 \<Longrightarrow> length (foldl (set_probe h2 h3) b [0..<k]) = 8
     \<and> (\<forall>i < 8. \<forall>n. bit (foldl (set_probe h2 h3) b [0..<k] ! i) n \<longleftrightarrow> bit (b ! i) n \<or> (i < k \<and> n = probe_bit h2 h3 i))"
proof (induction k)
  case (Suc k)
  let ?r = "foldl (set_probe h2 h3) b [0..<k]"
  have I: "length ?r = 8" "\<forall>i < 8. \<forall>n. bit (?r ! i) n \<longleftrightarrow> bit (b ! i) n \<or> (i < k \<and> n = probe_bit h2 h3 i)" using Suc by auto
  have e: "foldl (set_probe h2 h3) b [0..<Suc k] = set_probe h2 h3 ?r k" by simp
  have "bit (set_probe h2 h3 ?r k ! i) n \<longleftrightarrow> bit (b ! i) n \<or> (i < Suc k \<and> n = probe_bit h2 h3 i)" if "i < 8" for i n
  proof (cases "i = k")
    case True
    then show ?thesis using I that probe_bound [of h2 h3 k] by (auto simp: set_probe_def bit_simps)
  next
    case False
    then show ?thesis using I that by (auto simp: set_probe_def less_Suc_eq)
  qed
  then show ?case unfolding e using I(1) by (simp add: set_probe_def)
qed simp

lemma index_bound: "n \<noteq> 0 \<Longrightarrow> unat (h mod ucast (n :: u32) :: u64) < unat n"
proof -
  assume n: "n \<noteq> 0"
  have "unat n < 2 ^ 64" using unsigned_less [of n, where 'a = nat] by simp
  then have u: "unat (ucast n :: u64) = unat n" by (simp add: unsigned_ucast_eq take_bit_nat_eq_self)
  have "unat n \<noteq> 0" using n by (simp add: unat_eq_0)
  then have "unat h mod unat n < unat n" by simp
  then show ?thesis by (simp add: unat_mod_distrib u)
qed

text \<open>The key's bits are set in its block.\<close>

definition holds_key :: "bloom \<Rightarrow> u64 \<Rightarrow> bool" where
  "holds_key f key \<longleftrightarrow> bloom_contains f key = Some True"

lemma holds_key_iff:
  assumes "bloom_ok f" "bf_num_blocks f \<noteq> 0"
  shows "holds_key f key \<longleftrightarrow> block_has (splitmix64 (splitmix64 (key XOR bf_seed f))) (splitmix64 (splitmix64 (splitmix64 (key XOR bf_seed f))))
    (bf_blocks f ! unat (splitmix64 (key XOR bf_seed f) mod ucast (bf_num_blocks f)))"
  using assms index_bound [OF assms(2)] by (simp add: holds_key_def bloom_contains_def Let_def bloom_ok_def)

lemma bloom_insert_ok:
  assumes ok: "bloom_ok f"
  shows "\<exists>g. bloom_insert f key = Some g \<and> bloom_ok g \<and> bf_num_blocks g = bf_num_blocks f \<and> bf_seed g = bf_seed f
    \<and> (\<forall>k. k = key \<or> holds_key f k \<longrightarrow> holds_key g k)"
proof (cases "bf_num_blocks f = 0")
  case True
  then show ?thesis using ok by (simp add: bloom_insert_def holds_key_def bloom_contains_def)
next
  case False
  let ?h1 = "splitmix64 (key XOR bf_seed f)"
  let ?h2 = "splitmix64 ?h1" and ?h3 = "splitmix64 (splitmix64 ?h1)" and ?i = "unat (?h1 mod ucast (bf_num_blocks f))"
  let ?b = "bf_blocks f ! ?i"
  have i: "?i < length (bf_blocks f)" using index_bound [OF False] ok by (simp add: bloom_ok_def)
  define b' where "b' = foldl (set_probe ?h2 ?h3) ?b [0..<8]"
  define g where "g = f\<lparr>bf_blocks := (bf_blocks f)[?i := b']\<rparr>"
  have g: "bloom_insert f key = Some g" using False i by (simp add: bloom_insert_def Let_def g_def b'_def NUM_HASHES_def)
  have "length ?b = 8" using ok i by (simp add: bloom_ok_def)
  then have B: "length b' = 8" "\<forall>j < 8. \<forall>n. bit (b' ! j) n \<longleftrightarrow> bit (?b ! j) n \<or> n = probe_bit ?h2 ?h3 j"
    using set_probes [of ?b 8 ?h2 ?h3] by (auto simp: b'_def)
  have okg: "bloom_ok g" using ok i B(1) by (auto simp: bloom_ok_def g_def dest!: set_update_subset_insert [THEN subsetD])
  have n: "bf_num_blocks g \<noteq> 0" using False by (simp add: g_def)
  have blk: "bf_blocks g ! j = (if j = ?i then b' else bf_blocks f ! j)" if "j < length (bf_blocks f)" for j using that by (simp add: g_def)
  have "holds_key g k" if "k = key \<or> holds_key f k" for k
  proof -
    let ?j = "unat (splitmix64 (k XOR bf_seed f) mod ucast (bf_num_blocks f))"
    have j: "?j < length (bf_blocks f)" using index_bound [OF False] ok by (simp add: bloom_ok_def)
    have sg: "bf_seed g = bf_seed f" "bf_num_blocks g = bf_num_blocks f" by (simp_all add: g_def)
    show ?thesis using that holds_key_iff [OF ok False, of k] unfolding holds_key_iff [OF okg n] sg blk [OF j] block_has_iff using B(2) by auto
  qed
  then show ?thesis using g okg by (auto simp: g_def)
qed

lemma insert_keys_ok:
  "bloom_ok f \<Longrightarrow> \<exists>g. insert_keys f es = Some g \<and> bloom_ok g \<and> bf_num_blocks g = bf_num_blocks f \<and> bf_seed g = bf_seed f
     \<and> (\<forall>k. k \<in> entry_key ` set es \<or> holds_key f k \<longrightarrow> holds_key g k)"
proof (induction es arbitrary: f)
  case (Cons e es)
  obtain g where g: "bloom_insert f (entry_key e) = Some g" "bloom_ok g" "bf_num_blocks g = bf_num_blocks f" "bf_seed g = bf_seed f"
    "\<forall>k. k = entry_key e \<or> holds_key f k \<longrightarrow> holds_key g k" using bloom_insert_ok [OF Cons.prems] by blast
  from Cons.IH [OF g(2)] obtain h where h: "insert_keys g es = Some h" "bloom_ok h" "bf_num_blocks h = bf_num_blocks g" "bf_seed h = bf_seed g"
    "\<forall>k. k \<in> entry_key ` set es \<or> holds_key g k \<longrightarrow> holds_key h k" by blast
  show ?case using g h by auto
qed simp

lemma bloom_new_ok: "bloom_ok (bloom_new n seed)"
  by (auto simp: bloom_ok_def bloom_new_def block_zero_def WORDS_PER_BLOCK_def Let_def)

subsection \<open>Reading back\<close>

lemma concat_words: "length (concat (map (\<lambda>w :: u64. to_le 8 (unat w)) b)) = 8 * length b"
  by (induction b) simp_all

lemma concat_len: "\<forall>x \<in> set xs. length (f x) = n \<Longrightarrow> length (concat (map f xs)) = n * length xs"
  by (induction xs) simp_all

lemma slice_words:
  "i < length b \<Longrightarrow> subslice (concat (map (\<lambda>w :: u64. to_le 8 (unat w)) b)) (i * 8) (i * 8 + 8) = to_le 8 (unat (b ! i))"
proof -
  assume i: "i < length b"
  let ?e = "\<lambda>w :: u64. to_le 8 (unat w)"
  have "concat (map ?e b) = concat (map ?e (take i b)) @ ?e (b ! i) @ concat (map ?e (drop (Suc i) b))"
    using arg_cong [OF id_take_nth_drop [OF i], of "\<lambda>x. concat (map ?e x)"] by simp
  then show ?thesis using subslice_append [of "concat (map ?e (take i b))" "?e (b ! i)"] i by (simp add: concat_words mult.commute)
qed

lemma read_block_back: "length b = 8 \<Longrightarrow> read_block (concat (map (\<lambda>w :: u64. to_le 8 (unat w)) b)) = b"
  by (intro nth_equalityI) (simp_all add: read_block_def WORDS_PER_BLOCK_def slice_words from_le_word)

lemma chunks_back:
  "\<forall>b \<in> set bs. length (f b) = 64 \<Longrightarrow> chunks_of (length bs) (concat (map f bs)) = map f bs"
  by (induction bs) (simp_all add: BLOCK_BYTES_def)

lemma view_back:
  assumes ok: "bloom_ok f" and w: "bloom_write_to f = Inr bs"
  shows "view_from_bytes base (pre @ bs @ post) (length pre)
    = Inr \<lparr>bw_num_blocks = bf_num_blocks f, bw_seed = bf_seed f, bw_owned = ((base + length pre + 16) mod 64 \<noteq> 0), bw_blocks = bf_blocks f\<rparr>"
proof -
  let ?n = "bf_num_blocks f" and ?enc = "\<lambda>b :: block. concat (map (\<lambda>w. to_le 8 (unat w)) b)"
  let ?N = "to_le 4 (unat ?n)" and ?S = "to_le 8 (unat (bf_seed f))" and ?Z = "[0, 0, 0, 0] :: bytes" and ?B = "concat (map ?enc (bf_blocks f))"
  have n: "?n \<noteq> 0" and bs: "bs = ?N @ ?S @ ?Z @ ?B" using w by (auto simp: bloom_write_to_def split: if_splits)
  let ?buf = "pre @ bs @ post"
  have 1: "subslice ?buf (length pre) (length pre + 4) = ?N" using subslice_append [of pre ?N "?S @ ?Z @ ?B @ post"] by (simp add: bs)
  have 2: "subslice ?buf (length pre + 4) (length pre + 12) = ?S" using subslice_append [of "pre @ ?N" ?S "?Z @ ?B @ post"] by (simp add: bs add.commute)
  have l8: "\<forall>b \<in> set (bf_blocks f). length (?enc b) = 64" using ok by (auto simp: bloom_ok_def concat_words)
  then have "length ?B = 64 * length (bf_blocks f)" by (rule concat_len)
  then have B: "length ?B = unat ?n * 64" using ok by (simp add: bloom_ok_def)
  have 3: "subslice ?buf (length pre + 16) (length pre + 16 + unat ?n * 64) = ?B" using subslice_append [of "pre @ ?N @ ?S @ ?Z" ?B post] B by (simp add: bs)
  have "map read_block (chunks_of (unat ?n) ?B) = bf_blocks f"
  proof -
    have "chunks_of (unat ?n) ?B = map ?enc (bf_blocks f)" using chunks_back [OF l8] ok by (simp add: bloom_ok_def)
    then show ?thesis using ok by (auto simp: bloom_ok_def read_block_back intro!: map_idI)
  qed
  then show ?thesis using n 1 2 3 B
    by (simp add: view_from_bytes_def Let_def bs BLOCK_BYTES_def from_le_word add.assoc)
qed

lemma view_of_bloom:
  "view_contains \<lparr>bw_num_blocks = bf_num_blocks f, bw_seed = bf_seed f, bw_owned = own, bw_blocks = bf_blocks f\<rparr> key = bloom_contains f key"
  by (simp add: view_contains_def bloom_contains_def Let_def)

lemma new_blocks: "0 < n \<Longrightarrow> n < 4294967296 \<Longrightarrow> bf_num_blocks (bloom_new n seed) \<noteq> 0"
proof -
  assume n: "0 < n" "n < 4294967296"
  define k where "k = max ((n * 10 + 511) div 512) 1"
  have k: "0 < k" "k < 4294967296" using n by (auto simp: k_def)
  then have "unat (word_of_nat k :: u32) = k" by (simp add: unat_of_nat)
  then have "(word_of_nat k :: u32) \<noteq> 0" using k(1) by auto
  then show ?thesis using n(1) by (simp add: bloom_new_def Let_def BITS_PER_KEY_def BLOCK_BITS_def k_def)
qed

text \<open>
  (C12) The bloom filter of a run has no false negatives. Whatever is already in the file, the
  section is written without a panic behind it at an aligned offset; a reader that takes its
  view there, in the finished file and at whatever address it is mapped, finds every page that
  was indexed. And the alignment is of no use: the blocks start sixteen bytes into the
  section, so that in a buffer at a page-aligned address they are always copied.
\<close>

theorem bloom_no_false_negatives:
  assumes "entries \<noteq> []" "length entries < 4294967296"
  shows "\<exists>off w' v. write_bloom_section w entries seed = Some (Inr (off, w')) \<and> take (length w) w' = w \<and> off mod 64 = 0
    \<and> view_from_bytes base (w' @ rest) off = Inr v \<and> (\<forall>e \<in> set entries. view_contains v (entry_key e) = Some True)
    \<and> (base mod 64 = 0 \<longrightarrow> bw_owned v)"
proof -
  obtain f where f: "insert_keys (bloom_new (length entries) seed) entries = Some f" "bloom_ok f" "bf_num_blocks f = bf_num_blocks (bloom_new (length entries) seed)"
    "\<forall>k. k \<in> entry_key ` set entries \<or> holds_key (bloom_new (length entries) seed) k \<longrightarrow> holds_key f k"
    using insert_keys_ok [OF bloom_new_ok] by blast
  have n: "bf_num_blocks f \<noteq> 0" using f(3) new_blocks [of "length entries" seed] assms by simp
  then obtain bs where bs: "bloom_write_to f = Inr bs" by (simp add: bloom_write_to_def)
  define w1 where "w1 = (if length w mod 64 \<noteq> 0 then w @ replicate (64 - length w mod 64) 0 else w)"
  have al: "length w1 mod 64 = 0"
  proof (cases "length w mod 64 = 0")
    case False
    have "(length w + (64 - length w mod 64)) mod 64 = 0" by presburger
    then show ?thesis using False by (simp add: w1_def)
  qed (simp add: w1_def)
  have ws: "write_bloom_section w entries seed = Some (Inr (length w1, w1 @ bs))"
    using f(1) al bs assms(1) unfolding write_bloom_section_def Let_def w1_def [symmetric] by simp
  note V = view_back [OF f(2) bs, of base w1 rest]
  have "view_contains \<lparr>bw_num_blocks = bf_num_blocks f, bw_seed = bf_seed f, bw_owned = ((base + length w1 + 16) mod 64 \<noteq> 0), bw_blocks = bf_blocks f\<rparr> (entry_key e) = Some True"
    if "e \<in> set entries" for e
  proof -
    have "holds_key f (entry_key e)" using f(4) that by blast
    then show ?thesis by (simp add: holds_key_def view_of_bloom)
  qed
  moreover have "base mod 64 = 0 \<longrightarrow> (base + length w1 + 16) mod 64 \<noteq> 0" using al by presburger
  moreover have "take (length w) (w1 @ bs) = w" by (simp add: w1_def)
  ultimately show ?thesis using ws V al by auto
qed

definition demo_entry :: "u16 \<Rightarrow> index_entry" where
  "demo_entry i = \<lparr>ie_arch_id = 2, ie_slot = 1, ie_page_index = i, ie_pad = 0, ie_file_offset = 64\<rparr>"

theorem bloom_no_false_negatives_witness:
  "\<exists>off w' v. write_bloom_section [1, 2, 3] [demo_entry 0, demo_entry 7] 5 = Some (Inr (off, w'))
     \<and> view_from_bytes 4096 (w' @ [9]) off = Inr v \<and> view_contains v (entry_key (demo_entry 7)) = Some True \<and> bw_owned v"
proof -
  have "[demo_entry 0, demo_entry 7] \<noteq> []" "length [demo_entry 0, demo_entry 7] < 4294967296" by simp_all
  from bloom_no_false_negatives [OF this, of "[1, 2, 3]" 5 4096 "[9]"] show ?thesis by auto
qed

end
