(* ===== verification/Lsm_Manifest.thy ===== *)
theory Lsm_Manifest
  imports Lsm_Bytes
begin

text \<open>
  The newtypes of \<^verbatim>\<open>types.rs\<close> and the in-memory manifest of \<^verbatim>\<open>manifest.rs\<close>: the sorted runs
  of each level and the next sequence number. The const parameter \<^verbatim>\<open>N\<close> is the length of the
  array of levels. A method on \<^verbatim>\<open>&mut self\<close> that can fail returns its result and the manifest
  it leaves.
\<close>

subsection \<open>Newtypes\<close>

definition MAX_LEVELS :: nat where "MAX_LEVELS = 32"

type_synonym level = u8
type_synonym seq_no = u64

record seq_range =
  sr_lo :: seq_no
  sr_hi :: seq_no

definition seq_next :: "seq_no \<Rightarrow> seq_no option" where
  "seq_next s = (if s = 0xFFFFFFFFFFFFFFFF then None else Some (s + 1))"

definition seq_range_new :: "seq_no \<Rightarrow> seq_no \<Rightarrow> seq_range lsm_result" where
  "seq_range_new lo hi = (if hi < lo then Inl (LsmFormat ''SeqRange: lo > hi'') else Inr \<lparr>sr_lo = lo, sr_hi = hi\<rparr>)"

definition level_new :: "u8 \<Rightarrow> level option" where
  "level_new b = (if unat b < MAX_LEVELS then Some b else None)"

definition as_index :: "level \<Rightarrow> nat" where
  "as_index l = unat l"

definition page_count_new :: "u64 \<Rightarrow> u64 option" where
  "page_count_new v = (if v = 0 then None else Some v)"

subsection \<open>Run metadata\<close>

record sorted_run_meta =
  rm_path :: path
  rm_sequence_range :: seq_range
  rm_archetype_coverage :: "u16 list"
  rm_page_count :: u64
  rm_size_bytes :: u64

fun strictly_sorted :: "u16 list \<Rightarrow> bool" where
  "strictly_sorted (a # b # xs) = (a < b \<and> strictly_sorted (b # xs))"
| "strictly_sorted _ = True"

definition run_meta_new :: "path \<Rightarrow> seq_range \<Rightarrow> u16 list \<Rightarrow> u64 \<Rightarrow> u64 \<Rightarrow> sorted_run_meta lsm_result" where
  "run_meta_new path sr coverage pages sz =
     (if \<not> strictly_sorted coverage then Inl (LsmFormat ''archetype_coverage is not strictly sorted'')
      else Inr \<lparr>rm_path = path, rm_sequence_range = sr, rm_archetype_coverage = coverage, rm_page_count = pages, rm_size_bytes = sz\<rparr>)"

text \<open>What the constructors of the newtypes enforce.\<close>

definition level_ok :: "level \<Rightarrow> bool" where
  "level_ok l \<longleftrightarrow> unat l < MAX_LEVELS"

definition meta_ok :: "sorted_run_meta \<Rightarrow> bool" where
  "meta_ok m \<longleftrightarrow> sr_lo (rm_sequence_range m) \<le> sr_hi (rm_sequence_range m) \<and> strictly_sorted (rm_archetype_coverage m) \<and> rm_page_count m \<noteq> 0"

subsection \<open>The manifest\<close>

record manifest =
  mf_levels :: "sorted_run_meta list list"
  mf_next_sequence :: u64

definition manifest_new :: "nat \<Rightarrow> manifest" where
  "manifest_new n = \<lparr>mf_levels = replicate n [], mf_next_sequence = 0\<rparr>"

definition add_run :: "manifest \<Rightarrow> level \<Rightarrow> sorted_run_meta \<Rightarrow> unit lsm_result \<times> manifest" where
  "add_run m l r =
     (if as_index l \<ge> length (mf_levels m) then (Inl (LsmFormat ''level out of range''), m)
      else (Inr (), m\<lparr>mf_levels := (mf_levels m)[as_index l := mf_levels m ! as_index l @ [r]]\<rparr>))"

fun run_position :: "('a \<Rightarrow> bool) \<Rightarrow> 'a list \<Rightarrow> nat option" where
  "run_position P [] = None"
| "run_position P (x # xs) = (if P x then Some 0 else map_option Suc (run_position P xs))"

definition remove_at :: "nat \<Rightarrow> 'a list \<Rightarrow> 'a list" where
  "remove_at i xs = take i xs @ drop (Suc i) xs"

definition remove_run :: "manifest \<Rightarrow> level \<Rightarrow> path \<Rightarrow> sorted_run_meta option \<times> manifest" where
  "remove_run m l p =
     (if as_index l \<ge> length (mf_levels m) then (None, m)
      else let runs = mf_levels m ! as_index l in
        (case run_position (\<lambda>r. path_eq (rm_path r) p) runs of
           None \<Rightarrow> (None, m)
         | Some i \<Rightarrow> (Some (runs ! i), m\<lparr>mf_levels := (mf_levels m)[as_index l := remove_at i runs]\<rparr>)))"

definition promote_run :: "manifest \<Rightarrow> level \<Rightarrow> level \<Rightarrow> path \<Rightarrow> unit lsm_result \<times> manifest" where
  "promote_run m from_l to_l p =
     (if as_index from_l \<ge> length (mf_levels m) \<or> as_index to_l \<ge> length (mf_levels m)
      then (Inl (LsmFormat ''level out of range''), m)
      else case remove_run m from_l p of
          (None, m1) \<Rightarrow> (Inl (LsmFormat ''run not found''), m1)
        | (Some r, m1) \<Rightarrow> add_run m1 to_l r)"

definition set_next_sequence :: "manifest \<Rightarrow> seq_no \<Rightarrow> manifest" where
  "set_next_sequence m s = m\<lparr>mf_next_sequence := s\<rparr>"

definition runs_at_level :: "manifest \<Rightarrow> level \<Rightarrow> sorted_run_meta list" where
  "runs_at_level m l = (if as_index l \<ge> length (mf_levels m) then [] else mf_levels m ! as_index l)"

definition all_run_paths :: "manifest \<Rightarrow> path list" where
  "all_run_paths m = concat (map (map rm_path) (mf_levels m))"

definition total_runs :: "manifest \<Rightarrow> nat" where
  "total_runs m = sum_list (map length (mf_levels m))"

subsection \<open>Facts\<close>

lemma run_position_None: "run_position P xs = None \<longleftrightarrow> (\<forall>x \<in> set xs. \<not> P x)"
  by (induction xs) auto

lemma run_position_Some: "run_position P xs = Some i \<Longrightarrow> i < length xs \<and> P (xs ! i) \<and> (\<forall>j < i. \<not> P (xs ! j))"
proof (induction xs arbitrary: i)
  case (Cons x xs)
  show ?case
  proof (cases "P x")
    case False
    then obtain k where k: "run_position P xs = Some k" "i = Suc k" using Cons.prems by auto
    from Cons.IH [OF k(1)] False k(2) show ?thesis by (auto simp: less_Suc_eq_0_disj)
  qed (use Cons.prems in auto)
qed simp

lemma remove_at_set: "set (remove_at i xs) \<subseteq> set xs"
  using set_take_subset [of i xs] set_drop_subset [of "Suc i" xs] by (auto simp: remove_at_def)

lemma remove_at_len: "i < length xs \<Longrightarrow> length (remove_at i xs) = length xs - 1"
  by (simp add: remove_at_def)

lemma remove_at_keeps: "x \<in> set xs \<Longrightarrow> i < length xs \<Longrightarrow> x \<noteq> xs ! i \<Longrightarrow> x \<in> set (remove_at i xs)"
  by (metis Un_iff append_take_drop_id id_take_nth_drop remove_at_def set_ConsD set_append)

lemma add_run_levels [simp]: "length (mf_levels (snd (add_run m l r))) = length (mf_levels m)"
  by (simp add: add_run_def)

lemma remove_run_levels [simp]: "length (mf_levels (snd (remove_run m l p))) = length (mf_levels m)"
  by (simp add: remove_run_def Let_def split: option.splits)

lemma remove_run_fails: "fst (remove_run m l p) = None \<Longrightarrow> snd (remove_run m l p) = m"
  by (auto simp: remove_run_def Let_def split: option.splits if_splits)

lemma add_run_result: "fst (add_run m l r) = Inr () \<longleftrightarrow> as_index l < length (mf_levels m)"
  "as_index l \<ge> length (mf_levels m) \<Longrightarrow> snd (add_run m l r) = m"
  by (auto simp: add_run_def)

lemma promote_run_levels [simp]: "length (mf_levels (snd (promote_run m a b p))) = length (mf_levels m)"
proof -
  obtain res m1 where r: "remove_run m a p = (res, m1)" by fastforce
  have "length (mf_levels m1) = length (mf_levels m)" using remove_run_levels [of m a p] r by simp
  then show ?thesis using r by (cases res) (simp_all add: promote_run_def)
qed

text \<open>A promotion that fails changes nothing: the level is checked before the run is taken out.\<close>

lemma promote_run_fails: "fst (promote_run m a b p) = Inl e \<Longrightarrow> snd (promote_run m a b p) = m"
proof (cases "as_index a \<ge> length (mf_levels m) \<or> as_index b \<ge> length (mf_levels m)")
  case False
  assume e: "fst (promote_run m a b p) = Inl e"
  obtain res m1 where r: "remove_run m a p = (res, m1)" by fastforce
  have len: "length (mf_levels m1) = length (mf_levels m)" using remove_run_levels [of m a p] r by simp
  show ?thesis
  proof (cases res)
    case None
    then show ?thesis using r False remove_run_fails [of m a p] by (simp add: promote_run_def)
  next
    case (Some x)
    then show ?thesis using e r False add_run_result(1) [of m1 b x] len by (simp add: promote_run_def)
  qed
qed (simp add: promote_run_def)

end
