(* ===== verification/Manifest_Codec.thy ===== *)
theory Manifest_Codec
  imports Lsm_Manifest
begin

text \<open>
  The entries of the manifest log and their bytes (\<^verbatim>\<open>manifest_log.rs\<close>, entry codec). An
  encoder appends to the buffer it is given, a decoder reads at a cursor; both fail with the
  errors of the source.
\<close>

subsection \<open>Entries\<close>

datatype manifest_entry =
    AddRun level sorted_run_meta
  | RemoveRun level path
  | PromoteRun level level path
  | SetSequence seq_no
  | AddRunAndSequence level sorted_run_meta seq_no
  | CompactionCommit level sorted_run_meta "(level \<times> path) list"

definition MAX_COMPACTION_INPUTS :: nat where "MAX_COMPACTION_INPUTS = 1024"

datatype manifest_tag = TAddRun | TRemoveRun | TPromoteRun | TSetSequence | TAddRunAndSequence | TCompactionCommit

fun tag_byte :: "manifest_tag \<Rightarrow> u8" where
  "tag_byte TAddRun = 1"
| "tag_byte TRemoveRun = 2"
| "tag_byte TPromoteRun = 3"
| "tag_byte TSetSequence = 4"
| "tag_byte TAddRunAndSequence = 5"
| "tag_byte TCompactionCommit = 6"

definition tag_try_from :: "u8 \<Rightarrow> manifest_tag lsm_result" where
  "tag_try_from b =
     (if b = 1 then Inr TAddRun else if b = 2 then Inr TRemoveRun else if b = 3 then Inr TPromoteRun
      else if b = 4 then Inr TSetSequence else if b = 5 then Inr TAddRunAndSequence else if b = 6 then Inr TCompactionCommit
      else Inl (LsmFormat ''unknown entry tag''))"

subsection \<open>Encoding\<close>

definition encode_path :: "bytes \<Rightarrow> path \<Rightarrow> bytes lsm_result" where
  "encode_path buf p =
     (if \<not> utf8_valid p then Inl (LsmFormat ''non-UTF-8 path'')
      else if length p > 65535 then Inl (LsmFormat ''path length exceeds u16'')
      else Inr (buf @ to_le 2 (length p) @ p))"

definition encode_coverage :: "bytes \<Rightarrow> u16 list \<Rightarrow> bytes lsm_result" where
  "encode_coverage buf cov =
     (if length cov > 65535 then Inl (LsmFormat ''archetype coverage count exceeds u16'')
      else Inr (buf @ to_le 2 (length cov) @ concat (map (\<lambda>a. to_le 2 (unat a)) cov)))"

definition encode_meta :: "bytes \<Rightarrow> sorted_run_meta \<Rightarrow> bytes lsm_result" where
  "encode_meta buf m =
     and_then (encode_path buf (rm_path m)) (\<lambda>b1.
     and_then (encode_coverage (b1 @ to_le 8 (unat (sr_lo (rm_sequence_range m))) @ to_le 8 (unat (sr_hi (rm_sequence_range m)))) (rm_archetype_coverage m)) (\<lambda>b2.
     Inr (b2 @ to_le 8 (unat (rm_page_count m)) @ to_le 8 (unat (rm_size_bytes m)))))"

fun encode_inputs :: "bytes \<Rightarrow> (level \<times> path) list \<Rightarrow> bytes lsm_result" where
  "encode_inputs buf [] = Inr buf"
| "encode_inputs buf ((l, p) # xs) = and_then (encode_path (buf @ [l]) p) (\<lambda>b. encode_inputs b xs)"

fun encode_entry :: "manifest_entry \<Rightarrow> bytes lsm_result" where
  "encode_entry (AddRun l m) = encode_meta [tag_byte TAddRun, l] m"
| "encode_entry (RemoveRun l p) = encode_path [tag_byte TRemoveRun, l] p"
| "encode_entry (PromoteRun a b p) = encode_path [tag_byte TPromoteRun, a, b] p"
| "encode_entry (SetSequence s) = Inr ([tag_byte TSetSequence] @ to_le 8 (unat s))"
| "encode_entry (AddRunAndSequence l m s) =
     and_then (encode_meta [tag_byte TAddRunAndSequence, l] m) (\<lambda>b. Inr (b @ to_le 8 (unat s)))"
| "encode_entry (CompactionCommit l out inputs) =
     (if length inputs > MAX_COMPACTION_INPUTS then Inl (LsmFormat ''CompactionCommit input_count exceeds MAX_COMPACTION_INPUTS'')
      else if length inputs > 4294967295 then Inl (LsmFormat ''CompactionCommit input_count exceeds u32'')
      else and_then (encode_meta [tag_byte TCompactionCommit, l] out) (\<lambda>b. encode_inputs (b @ to_le 4 (length inputs)) inputs))"

subsection \<open>Decoding\<close>

definition decode_path :: "bytes \<Rightarrow> nat \<Rightarrow> (path \<times> nat) lsm_result" where
  "decode_path data off =
     (if off + 2 > length data then Inl (LsmFormat ''truncated path length'')
      else let path_len = from_le (subslice data off (off + 2)); off1 = off + 2 in
        if off1 + path_len > length data then Inl (LsmFormat ''truncated path data'')
        else let s = subslice data off1 (off1 + path_len) in
          if \<not> utf8_valid s then Inl (LsmFormat ''invalid UTF-8 in path'') else Inr (s, off1 + path_len))"

definition decode_meta :: "bytes \<Rightarrow> nat \<Rightarrow> (sorted_run_meta \<times> nat) lsm_result" where
  "decode_meta data off =
     and_then (decode_path data off) (\<lambda>(p, off1).
     and_then (read_u64_le data off1) (\<lambda>(lo, off2).
     and_then (read_u64_le data off2) (\<lambda>(hi, off3).
     and_then (read_u16_le data off3) (\<lambda>(n, off4).
     if off4 + unat n * 2 > length data then Inl (LsmFormat ''truncated coverage data'')
     else and_then (repeat_read (unat n) read_u16_le data off4) (\<lambda>(cov, off5).
     and_then (read_u64_le data off5) (\<lambda>(pages, off6).
     and_then (read_u64_le data off6) (\<lambda>(sz, off7).
     case page_count_new pages of
       None \<Rightarrow> Inl (LsmFormat ''page_count must be non-zero'')
     | Some pc \<Rightarrow> and_then (seq_range_new lo hi) (\<lambda>sr. and_then (run_meta_new p sr cov pc sz) (\<lambda>m. Inr (m, off7))))))))))"

text \<open>A level byte: present, and a level.\<close>

definition decode_level :: "string \<Rightarrow> bytes \<Rightarrow> nat \<Rightarrow> (level \<times> nat) lsm_result" where
  "decode_level what data off =
     (if off \<ge> length data then Inl (LsmFormat what)
      else case level_new (data ! off) of None \<Rightarrow> Inl (LsmFormat ''invalid level'') | Some l \<Rightarrow> Inr (l, off + 1))"

definition decode_input :: "bytes \<Rightarrow> nat \<Rightarrow> ((level \<times> path) \<times> nat) lsm_result" where
  "decode_input data off =
     and_then (decode_level ''truncated CompactionCommit input level byte'' data off) (\<lambda>(l, off1).
     and_then (decode_path data off1) (\<lambda>(p, off2). Inr ((l, p), off2)))"

fun decode_body :: "manifest_tag \<Rightarrow> bytes \<Rightarrow> nat \<Rightarrow> manifest_entry lsm_result" where
  "decode_body TAddRun data off =
     and_then (decode_level ''truncated AddRun'' data off) (\<lambda>(l, off1).
     and_then (decode_meta data off1) (\<lambda>(m, _). Inr (AddRun l m)))"
| "decode_body TRemoveRun data off =
     and_then (decode_level ''truncated RemoveRun'' data off) (\<lambda>(l, off1).
     and_then (decode_path data off1) (\<lambda>(p, _). Inr (RemoveRun l p)))"
| "decode_body TPromoteRun data off =
     (if off + 2 > length data then Inl (LsmFormat ''truncated PromoteRun'')
      else case (level_new (data ! off), level_new (data ! (off + 1))) of
          (Some a, Some b) \<Rightarrow> and_then (decode_path data (off + 2)) (\<lambda>(p, _). Inr (PromoteRun a b p))
        | _ \<Rightarrow> Inl (LsmFormat ''invalid level''))"
| "decode_body TSetSequence data off = and_then (read_u64_le data off) (\<lambda>(s, _). Inr (SetSequence s))"
| "decode_body TAddRunAndSequence data off =
     and_then (decode_level ''truncated AddRunAndSequence'' data off) (\<lambda>(l, off1).
     and_then (decode_meta data off1) (\<lambda>(m, off2).
     and_then (read_u64_le data off2) (\<lambda>(s, _). Inr (AddRunAndSequence l m s))))"
| "decode_body TCompactionCommit data off =
     and_then (decode_level ''truncated CompactionCommit output_level'' data off) (\<lambda>(l, off1).
     and_then (decode_meta data off1) (\<lambda>(out, off2).
     and_then (read_u32_le data off2) (\<lambda>(n, off3).
     if unat n > MAX_COMPACTION_INPUTS then Inl (LsmFormat ''CompactionCommit input_count exceeds MAX_COMPACTION_INPUTS'')
     else and_then (repeat_read (unat n) decode_input data off3) (\<lambda>(inputs, _). Inr (CompactionCommit l out inputs)))))"

definition decode_entry :: "bytes \<Rightarrow> manifest_entry lsm_result" where
  "decode_entry data =
     (if data = [] then Inl (LsmFormat ''empty entry'')
      else and_then (tag_try_from (hd data)) (\<lambda>tag. decode_body tag data 1))"

subsection \<open>Round trips\<close>

text \<open>What the types of the fields enforce.\<close>

fun entry_ok :: "manifest_entry \<Rightarrow> bool" where
  "entry_ok (AddRun l m) = (level_ok l \<and> meta_ok m)"
| "entry_ok (RemoveRun l p) = level_ok l"
| "entry_ok (PromoteRun a b p) = (level_ok a \<and> level_ok b)"
| "entry_ok (SetSequence s) = True"
| "entry_ok (AddRunAndSequence l m s) = (level_ok l \<and> meta_ok m)"
| "entry_ok (CompactionCommit l out inputs) = (level_ok l \<and> meta_ok out \<and> (\<forall>(k, p) \<in> set inputs. level_ok k))"

definition path_fits :: "path \<Rightarrow> bool" where
  "path_fits p \<longleftrightarrow> utf8_valid p \<and> length p \<le> 65535"

definition path_bytes :: "path \<Rightarrow> bytes" where
  "path_bytes p = to_le 2 (length p) @ p"

definition meta_fits :: "sorted_run_meta \<Rightarrow> bool" where
  "meta_fits m \<longleftrightarrow> path_fits (rm_path m) \<and> length (rm_archetype_coverage m) \<le> 65535"

definition meta_bytes :: "sorted_run_meta \<Rightarrow> bytes" where
  "meta_bytes m = path_bytes (rm_path m) @ to_le 8 (unat (sr_lo (rm_sequence_range m))) @ to_le 8 (unat (sr_hi (rm_sequence_range m)))
     @ to_le 2 (length (rm_archetype_coverage m)) @ concat (map (\<lambda>a. to_le 2 (unat a)) (rm_archetype_coverage m))
     @ to_le 8 (unat (rm_page_count m)) @ to_le 8 (unat (rm_size_bytes m))"

definition input_bytes :: "level \<times> path \<Rightarrow> bytes" where
  "input_bytes x = fst x # path_bytes (snd x)"

lemma encode_path_eq: "encode_path buf p = Inr b \<longleftrightarrow> path_fits p \<and> b = buf @ path_bytes p"
  by (auto simp: encode_path_def path_fits_def path_bytes_def)

lemma encode_meta_eq: "encode_meta buf m = Inr b \<longleftrightarrow> meta_fits m \<and> b = buf @ meta_bytes m"
  by (auto simp: encode_meta_def and_then_Inr encode_path_eq encode_coverage_def meta_fits_def meta_bytes_def)

lemma encode_inputs_eq: "encode_inputs buf xs = Inr b \<longleftrightarrow> (\<forall>x \<in> set xs. path_fits (snd x)) \<and> b = buf @ concat (map input_bytes xs)"
  by (induction buf xs arbitrary: b rule: encode_inputs.induct) (auto simp: and_then_Inr encode_path_eq input_bytes_def)

lemma u16_nat: "n \<le> 65535 \<Longrightarrow> from_le (to_le 2 n) = n"
  by (rule from_to_le) simp

lemma decode_path_inverts: "path_fits p \<Longrightarrow> decode_path (pre @ path_bytes p @ post) (length pre) = Inr (p, length pre + length (path_bytes p))"
proof -
  assume f: "path_fits p"
  let ?d = "pre @ path_bytes p @ post"
  have 1: "subslice ?d (length pre) (length pre + 2) = to_le 2 (length p)"
    using subslice_append [of pre "to_le 2 (length p)" "p @ post"] by (simp add: path_bytes_def)
  have 2: "subslice ?d (length pre + 2) (length pre + 2 + length p) = p"
    using subslice_append [of "pre @ to_le 2 (length p)" p post] by (simp add: path_bytes_def)
  show ?thesis using f 1 2 by (simp add: decode_path_def u16_nat path_fits_def Let_def path_bytes_def)
qed

interpretation path: codec path_bytes decode_path path_fits
  by unfold_locales (rule decode_path_inverts)

lemma concat_u16: "length (concat (map (\<lambda>a :: u16. to_le 2 (unat a)) cov)) = 2 * length cov"
  by (induction cov) simp_all

lemma repeat_u16:
  "repeat_read (length cov) read_u16_le (pre @ concat (map (\<lambda>a. to_le 2 (unat a)) cov) @ post) (length pre) = Inr (cov, length pre + 2 * length cov)"
proof -
  show ?thesis using u16.repeat_inverts [of cov pre post] by (simp add: concat_u16)
qed

lemma unat_u16: "n \<le> 65535 \<Longrightarrow> unat (word_of_nat n :: u16) = n"
  by (simp add: unat_of_nat)

lemma decode_meta_inverts:
  assumes "meta_ok m" "meta_fits m"
  shows "decode_meta (pre @ meta_bytes m @ post) (length pre) = Inr (m, length pre + length (meta_bytes m))"
proof -
  define P L H N C G S where "P = path_bytes (rm_path m)" and "L = to_le 8 (unat (sr_lo (rm_sequence_range m)))" and "H = to_le 8 (unat (sr_hi (rm_sequence_range m)))"
    and "N = to_le 2 (length (rm_archetype_coverage m))" and "C = concat (map (\<lambda>a :: u16. to_le 2 (unat a)) (rm_archetype_coverage m))"
    and "G = to_le 8 (unat (rm_page_count m))" and "S = to_le 8 (unat (rm_size_bytes m))"
  let ?d = "pre @ meta_bytes m @ post" and ?n = "length (rm_archetype_coverage m)"
  have d: "meta_bytes m = P @ L @ H @ N @ C @ G @ S" by (simp add: meta_bytes_def P_def L_def H_def N_def C_def G_def S_def)
  have n: "?n \<le> 65535" "path_fits (rm_path m)" using assms(2) by (simp_all add: meta_fits_def)
  have lens: "length L = 8" "length H = 8" "length N = 2" "length G = 8" "length S = 8" by (simp_all add: L_def H_def N_def G_def S_def)
  have c: "length C = 2 * ?n" by (simp add: C_def concat_u16)
  have 1: "decode_path ?d (length pre) = Inr (rm_path m, length (pre @ P))"
    using path.read_at [OF n(2), of ?d pre "L @ H @ N @ C @ G @ S @ post"] d by (simp add: P_def)
  have 2: "read_u64_le ?d (length (pre @ P)) = Inr (sr_lo (rm_sequence_range m), length (pre @ P @ L))"
    using u64.read_at [where x = "sr_lo (rm_sequence_range m)" and data = ?d and pre = "pre @ P" and post = "H @ N @ C @ G @ S @ post"] d lens by (simp add: L_def)
  have 3: "read_u64_le ?d (length (pre @ P @ L)) = Inr (sr_hi (rm_sequence_range m), length (pre @ P @ L @ H))"
    using u64.read_at [where x = "sr_hi (rm_sequence_range m)" and data = ?d and pre = "pre @ P @ L" and post = "N @ C @ G @ S @ post"] d lens by (simp add: H_def)
  have 4: "read_u16_le ?d (length (pre @ P @ L @ H)) = Inr (word_of_nat ?n, length (pre @ P @ L @ H @ N))"
    using u16.read_at [where x = "word_of_nat ?n" and data = ?d and pre = "pre @ P @ L @ H" and post = "C @ G @ S @ post"] d lens n(1) by (simp add: N_def unat_u16)
  have 5: "repeat_read ?n read_u16_le ?d (length (pre @ P @ L @ H @ N)) = Inr (rm_archetype_coverage m, length (pre @ P @ L @ H @ N @ C))"
    using repeat_u16 [of "rm_archetype_coverage m" "pre @ P @ L @ H @ N" "G @ S @ post"] c by (simp add: d C_def)
  have 6: "read_u64_le ?d (length (pre @ P @ L @ H @ N @ C)) = Inr (rm_page_count m, length (pre @ P @ L @ H @ N @ C @ G))"
    using u64.read_at [where x = "rm_page_count m" and data = ?d and pre = "pre @ P @ L @ H @ N @ C" and post = "S @ post"] d lens by (simp add: G_def)
  have 7: "read_u64_le ?d (length (pre @ P @ L @ H @ N @ C @ G)) = Inr (rm_size_bytes m, length (pre @ P @ L @ H @ N @ C @ G @ S))"
    using u64.read_at [where x = "rm_size_bytes m" and data = ?d and pre = "pre @ P @ L @ H @ N @ C @ G" and post = post] d lens by (simp add: S_def)
  have k: "length (pre @ P @ L @ H @ N) + ?n * 2 \<le> length ?d" using c by (simp add: d)
  have ok: "page_count_new (rm_page_count m) = Some (rm_page_count m)"
    "seq_range_new (sr_lo (rm_sequence_range m)) (sr_hi (rm_sequence_range m)) = Inr (rm_sequence_range m)"
    "strictly_sorted (rm_archetype_coverage m)"
    using assms(1) by (auto simp: meta_ok_def page_count_new_def seq_range_new_def)
  show ?thesis unfolding decode_meta_def 1 and_then_simps prod.case 2 3 4 unat_u16 [OF n(1)] 5 6 7 ok option.case run_meta_new_def
    using k ok(3) by (simp add: d)
qed

interpretation meta: codec meta_bytes decode_meta "\<lambda>m. meta_ok m \<and> meta_fits m"
  by unfold_locales (use decode_meta_inverts in blast)

lemma level_byte: "level_ok l \<Longrightarrow> decode_level what (pre @ l # post) (length pre) = Inr (l, Suc (length pre))"
  by (simp add: decode_level_def level_new_def level_ok_def)

interpretation inputs: codec input_bytes decode_input "\<lambda>x. level_ok (fst x) \<and> path_fits (snd x)"
proof unfold_locales
  fix x :: "level \<times> path" and pre post
  assume v: "level_ok (fst x) \<and> path_fits (snd x)"
  have d: "pre @ input_bytes x @ post = pre @ fst x # path_bytes (snd x) @ post" by (simp add: input_bytes_def)
  have "decode_path (pre @ fst x # path_bytes (snd x) @ post) (Suc (length pre)) = Inr (snd x, Suc (length pre) + length (path_bytes (snd x)))"
    using decode_path_inverts [of "snd x" "pre @ [fst x]" post] v by simp
  then show "decode_input (pre @ input_bytes x @ post) (length pre) = Inr (x, length pre + length (input_bytes x))"
    unfolding d using v level_byte [of "fst x"] by (simp add: decode_input_def input_bytes_def)
qed

lemma level_first: "level_ok l \<Longrightarrow> decode_level what (t # l # rest) 1 = Inr (l, 2)"
  using level_byte [of l what "[t]" rest] by (simp add: numeral_2_eq_2)

lemma decode_tag: "decode_entry (tag_byte t # rest) = decode_body t (tag_byte t # rest) 1"
  by (cases t) (simp_all add: decode_entry_def tag_try_from_def)

lemma entry_read_back: "entry_ok e \<Longrightarrow> encode_entry e = Inr bs \<Longrightarrow> decode_entry bs = Inr e"
proof (cases e)
  case (AddRun l m)
  assume a: "entry_ok e" "encode_entry e = Inr bs"
  then have b: "bs = tag_byte TAddRun # l # meta_bytes m" "meta_ok m \<and> meta_fits m" "level_ok l" using AddRun by (auto simp: encode_meta_eq)
  have "decode_meta (tag_byte TAddRun # l # meta_bytes m) 2 = Inr (m, 2 + length (meta_bytes m))" by (rule meta.read_at [OF b(2), of _ "[_, _]" "[]"]) simp_all
  then show ?thesis unfolding b(1) decode_tag using AddRun level_first [OF b(3)] by simp
next
  case (RemoveRun l p)
  assume a: "entry_ok e" "encode_entry e = Inr bs"
  then have b: "bs = tag_byte TRemoveRun # l # path_bytes p" "path_fits p" "level_ok l" using RemoveRun by (auto simp: encode_path_eq)
  have "decode_path (tag_byte TRemoveRun # l # path_bytes p) 2 = Inr (p, 2 + length (path_bytes p))" by (rule path.read_at [OF b(2), of _ "[_, _]" "[]"]) simp_all
  then show ?thesis unfolding b(1) decode_tag using RemoveRun level_first [OF b(3)] by simp
next
  case (PromoteRun x y p)
  assume a: "entry_ok e" "encode_entry e = Inr bs"
  then have b: "bs = tag_byte TPromoteRun # x # y # path_bytes p" "path_fits p" "level_ok x" "level_ok y" using PromoteRun by (auto simp: encode_path_eq)
  have "decode_path (tag_byte TPromoteRun # x # y # path_bytes p) 3 = Inr (p, 3 + length (path_bytes p))" by (rule path.read_at [OF b(2), of _ "[_, _, _]" "[]"]) simp_all
  then show ?thesis unfolding b(1) decode_tag using PromoteRun b(3,4) by (simp add: level_new_def level_ok_def numeral_3_eq_3 numeral_2_eq_2)
next
  case (SetSequence q)
  assume a: "entry_ok e" "encode_entry e = Inr bs"
  then have b: "bs = tag_byte TSetSequence # to_le 8 (unat q)" using SetSequence by auto
  have "read_u64_le (tag_byte TSetSequence # to_le 8 (unat q)) 1 = Inr (q, 1 + length (to_le 8 (unat q)))" by (rule u64.read_at [where pre = "[_]" and post = "[]"]) simp_all
  then show ?thesis unfolding b decode_tag using SetSequence by simp
next
  case (AddRunAndSequence l m q)
  assume a: "entry_ok e" "encode_entry e = Inr bs"
  then have b: "bs = tag_byte TAddRunAndSequence # l # meta_bytes m @ to_le 8 (unat q)" "meta_ok m \<and> meta_fits m" "level_ok l"
    using AddRunAndSequence by (auto simp: encode_meta_eq and_then_Inr)
  let ?d = "tag_byte TAddRunAndSequence # l # meta_bytes m @ to_le 8 (unat q)"
  have "decode_meta ?d 2 = Inr (m, 2 + length (meta_bytes m))" by (rule meta.read_at [OF b(2), of _ "[_, _]"]) simp_all
  moreover have "read_u64_le ?d (2 + length (meta_bytes m)) = Inr (q, 2 + length (meta_bytes m) + length (to_le 8 (unat q)))"
    by (rule u64.read_at [where pre = "tag_byte TAddRunAndSequence # l # meta_bytes m" and post = "[]"]) simp_all
  ultimately show ?thesis unfolding b(1) decode_tag using AddRunAndSequence level_first [OF b(3)] by simp
next
  case (CompactionCommit l out ins)
  assume a: "entry_ok e" "encode_entry e = Inr bs"
  let ?I = "concat (map input_bytes ins)"
  have b: "bs = tag_byte TCompactionCommit # l # meta_bytes out @ to_le 4 (length ins) @ ?I" "meta_ok out \<and> meta_fits out" "level_ok l"
    "length ins \<le> MAX_COMPACTION_INPUTS" "\<forall>x \<in> set ins. level_ok (fst x) \<and> path_fits (snd x)"
    using a CompactionCommit by (auto simp: encode_meta_eq encode_inputs_eq and_then_Inr split: if_splits)
  let ?d = "tag_byte TCompactionCommit # l # meta_bytes out @ to_le 4 (length ins) @ ?I" and ?n = "word_of_nat (length ins) :: u32"
  have n: "unat ?n = length ins" using b(4) by (simp add: unat_of_nat MAX_COMPACTION_INPUTS_def)
  have "decode_meta ?d 2 = Inr (out, 2 + length (meta_bytes out))" by (rule meta.read_at [OF b(2), of _ "[_, _]"]) simp_all
  moreover have "read_u32_le ?d (2 + length (meta_bytes out)) = Inr (?n, 6 + length (meta_bytes out))"
    using u32.read_at [where x = ?n and data = ?d and pre = "tag_byte TCompactionCommit # l # meta_bytes out" and post = ?I] n by simp
  moreover have "repeat_read (length ins) decode_input ?d (6 + length (meta_bytes out)) = Inr (ins, 6 + length (meta_bytes out) + length ?I)"
    using inputs.repeat_inverts [OF b(5), of "tag_byte TCompactionCommit # l # meta_bytes out @ to_le 4 (length ins)" "[]"] by (simp add: add.commute add.left_commute)
  ultimately show ?thesis unfolding b(1) decode_tag using CompactionCommit level_first [OF b(3)] n b(4) by simp
qed

text \<open>
  (C8) An entry that can be written reads back as itself: whenever encoding a manifest entry
  succeeds, decoding the bytes returns that entry, for every kind of entry and every
  metadata the newtypes admit.
\<close>

theorem manifest_entry_roundtrip:
  assumes "entry_ok e" "encode_entry e = Inr bs"
  shows "decode_entry bs = Inr e"
  by (rule entry_read_back [OF assms])

definition demo_meta :: sorted_run_meta where
  "demo_meta = \<lparr>rm_path = [97, 46, 114], rm_sequence_range = \<lparr>sr_lo = 3, sr_hi = 258\<rparr>, rm_archetype_coverage = [1, 7, 300], rm_page_count = 2, rm_size_bytes = 70000\<rparr>"

definition demo_commit :: manifest_entry where
  "demo_commit = CompactionCommit 1 demo_meta [(0, [98]), (0, [0xC3, 0xA9])]"

theorem manifest_entry_roundtrip_witness:
  "\<exists>bs. encode_entry demo_commit = Inr bs \<and> length bs = 60 \<and> decode_entry bs = Inr demo_commit"
proof -
  have "case encode_entry demo_commit of Inl _ \<Rightarrow> False | Inr bs \<Rightarrow> length bs = 60" by code_simp
  then obtain bs where bs: "encode_entry demo_commit = Inr bs" "length bs = 60" by (auto split: sum.splits)
  have "entry_ok demo_commit" by code_simp
  from manifest_entry_roundtrip [OF this bs(1)] bs show ?thesis by blast
qed

subsection \<open>Decoded entries\<close>

lemma repeat_read_all:
  "repeat_read n rd data off = Inr (xs, off') \<Longrightarrow> (\<And>o1 x o2. rd data o1 = Inr (x, o2) \<Longrightarrow> P x) \<Longrightarrow> length xs = n \<and> (\<forall>x \<in> set xs. P x)"
proof (induction n arbitrary: off xs)
  case (Suc n)
  obtain x o1 ys where r: "rd data off = Inr (x, o1)" "repeat_read n rd data o1 = Inr (ys, off')" "xs = x # ys"
    using Suc.prems(1) by (auto simp: and_then_Inr)
  then show ?case using Suc.IH [OF r(2) Suc.prems(2)] Suc.prems(2) [OF r(1)] by simp
qed simp

lemma from_le_bound: "from_le bs < 256 ^ length bs"
proof (induction bs)
  case (Cons b bs)
  have "unat b < 256" using unsigned_less [of b, where 'a = nat] by simp
  then show ?case using Cons by simp
qed simp

lemma decode_path_fits: "decode_path data off = Inr (p, off') \<Longrightarrow> path_fits p"
proof -
  assume d: "decode_path data off = Inr (p, off')"
  let ?n = "from_le (subslice data off (off + 2))"
  have "?n < 256 ^ length (subslice data off (off + 2))" by (rule from_le_bound)
  also have "\<dots> \<le> 256 ^ 2" by (rule power_increasing) (simp_all add: subslice_def)
  finally have "?n \<le> 65535" by simp
  then show ?thesis using d by (auto simp: decode_path_def Let_def path_fits_def subslice_def split: if_splits)
qed

lemma decode_level_ok: "decode_level what data off = Inr (l, off') \<Longrightarrow> level_ok l"
  by (auto simp: decode_level_def level_new_def level_ok_def split: option.splits if_splits)

lemma decode_meta_ok: "decode_meta data off = Inr (m, off') \<Longrightarrow> meta_ok m \<and> meta_fits m"
proof -
  assume d: "decode_meta data off = Inr (m, off')"
  then obtain p o1 lo hi n o4 cov o5 pages pc sz sr where r: "decode_path data off = Inr (p, o1)" "repeat_read (unat (n :: u16)) read_u16_le data o4 = Inr (cov, o5)"
    "page_count_new pages = Some pc" and m: "seq_range_new lo hi = Inr sr" "run_meta_new p sr cov pc sz = Inr m"
    by (auto simp: decode_meta_def and_then_Inr split: if_splits option.splits)
  have "length cov = unat n" using repeat_read_all [OF r(2), of "\<lambda>_. True"] by simp
  moreover have "unat n < 65536" using unsigned_less [of n, where 'a = nat] by simp
  ultimately show ?thesis using m r(3) decode_path_fits [OF r(1)]
    by (auto simp: seq_range_new_def run_meta_new_def meta_ok_def meta_fits_def page_count_new_def split: if_splits)
qed

lemma decode_input_ok: "decode_input data off = Inr (x, off') \<Longrightarrow> level_ok (fst x) \<and> path_fits (snd x)"
  by (auto simp: decode_input_def and_then_Inr dest: decode_level_ok decode_path_fits)

lemma decoded_fits: "decode_entry data = Inr e \<Longrightarrow> entry_ok e \<and> (\<exists>bs. encode_entry e = Inr bs)"
proof -
  assume d: "decode_entry data = Inr e"
  then obtain t where t: "decode_body t data 1 = Inr e" by (auto simp: decode_entry_def and_then_Inr split: if_splits)
  have enc: "\<exists>b. encode_meta buf m = Inr b" if "meta_fits m" for buf m using that encode_meta_eq [of buf m] by blast
  show ?thesis
  proof (cases t)
    case TAddRun
    then show ?thesis using t by (auto simp: and_then_Inr encode_meta_eq dest: decode_level_ok decode_meta_ok)
  next
    case TRemoveRun
    then show ?thesis using t by (auto simp: and_then_Inr encode_path_eq dest: decode_level_ok decode_path_fits)
  next
    case TPromoteRun
    then show ?thesis using t
      by (auto simp: and_then_Inr encode_path_eq level_new_def level_ok_def dest: decode_path_fits split: if_splits option.splits)
  next
    case TSetSequence
    then show ?thesis using t by (auto simp: and_then_Inr)
  next
    case TAddRunAndSequence
    then show ?thesis using t by (auto simp: and_then_Inr encode_meta_eq dest: decode_level_ok decode_meta_ok)
  next
    case TCompactionCommit
    then obtain l o1 out o2 n o3 ins o4 where r: "decode_level ''truncated CompactionCommit output_level'' data 1 = Inr (l, o1)"
      "decode_meta data o1 = Inr (out, o2)" "\<not> unat (n :: u32) > MAX_COMPACTION_INPUTS" "repeat_read (unat n) decode_input data o3 = Inr (ins, o4)"
      "e = CompactionCommit l out ins"
      using t by (auto simp: and_then_Inr split: if_splits)
    have i: "length ins = unat n \<and> (\<forall>x \<in> set ins. level_ok (fst x) \<and> path_fits (snd x))" by (rule repeat_read_all [OF r(4) decode_input_ok])
    then have "length ins \<le> MAX_COMPACTION_INPUTS" "length ins \<le> 4294967295" using r(3) by (simp_all add: MAX_COMPACTION_INPUTS_def)
    then show ?thesis using i r(5) decode_level_ok [OF r(1)] decode_meta_ok [OF r(2)]
      by (auto simp: and_then_Inr encode_meta_eq encode_inputs_eq)
  qed
qed

text \<open>
  (C9) Whatever bytes are decoded, the entry that comes out is well typed: its levels are
  below the bound of the type, its metadata has an ordered sequence range, a strictly
  ascending coverage and a page count that is not zero; and it can be written again, to
  bytes that decode to the same entry.
\<close>

theorem decoded_entries_typed:
  assumes "decode_entry data = Inr e"
  shows "entry_ok e \<and> (\<exists>bs. encode_entry e = Inr bs \<and> decode_entry bs = Inr e)"
  using decoded_fits [OF assms] entry_read_back by blast

theorem decoded_entries_typed_witness:
  "\<exists>e. decode_entry ([3, 0, 1, 2, 0, 97, 98] @ [55]) = Inr e \<and> e = PromoteRun 0 1 [97, 98] \<and> entry_ok e"
proof -
  have "decode_entry ([3, 0, 1, 2, 0, 97, 98] @ [55]) = Inr (PromoteRun 0 1 [97, 98])" by code_simp
  from decoded_entries_typed [OF this] this show ?thesis by blast
qed

end
