(* ===== verification/Manifest_Log.thy ===== *)
theory Manifest_Log
  imports Manifest_Codec
begin

text \<open>
  The manifest log (\<^verbatim>\<open>manifest_log.rs\<close>): its header, its frames, the replay that rebuilds the
  manifest and cuts a damaged tail, and the two operations that commit to it, recording a
  flushed run (\<^verbatim>\<open>manifest_ops.rs\<close>) and committing a compaction (\<^verbatim>\<open>compactor.rs\<close>).

  A file is its bytes; the operating system carries out what it is asked for, except that a
  crash may cut a write short. The checksum of \<^verbatim>\<open>crc32fast\<close> is a parameter \<open>crc\<close>: nothing is
  assumed about it. A function whose result is an option panics when it returns \<open>None\<close>.
\<close>

subsection \<open>The file header\<close>

definition MAGIC_BYTES :: bytes where "MAGIC_BYTES = [77, 75, 77, 70]"
definition CURRENT_VERSION :: u8 where "CURRENT_VERSION = 2"
definition HEADER_SIZE :: nat where "HEADER_SIZE = 8"

text \<open>Writing at a position overwrites, and extends the file where needed.\<close>

definition write_at :: "bytes \<Rightarrow> nat \<Rightarrow> bytes \<Rightarrow> bytes" where
  "write_at file pos bs = take pos (file @ replicate (pos - length file) 0) @ bs @ drop (pos + length bs) file"

definition write_header :: "nat \<Rightarrow> bytes \<Rightarrow> unit lsm_result \<times> bytes" where
  "write_header n file =
     (if n > 255 then (Inl (LsmFormat ''N does not fit in max_level byte''), file)
      else (Inr (), write_at file 0 (MAGIC_BYTES @ [CURRENT_VERSION] @ [word_of_nat n] @ [0, 0])))"

definition validate_header :: "nat \<Rightarrow> bytes \<Rightarrow> unit lsm_result" where
  "validate_header n file =
     (if length file < 8 then Inl (LsmFormat ''not a manifest log: file too short for header'')
      else let header = take 8 file in
        if take 4 header \<noteq> MAGIC_BYTES then Inl (LsmFormat ''not a manifest log: bad magic'')
        else if header ! 4 \<noteq> CURRENT_VERSION then Inl (LsmFormat ''unsupported manifest version'')
        else if unat (header ! 5) \<noteq> n then Inl (LsmFormat ''manifest max_level mismatch'')
        else Inr ())"

subsection \<open>Frames\<close>

definition MAX_FRAME_PAYLOAD :: nat where "MAX_FRAME_PAYLOAD = 1048576"

definition write_frame :: "(bytes \<Rightarrow> u32) \<Rightarrow> bytes \<Rightarrow> nat \<Rightarrow> bytes \<Rightarrow> bytes \<times> nat" where
  "write_frame crc file pos payload =
     (write_at file pos (to_le 4 (length payload) @ to_le 4 (unat (crc payload)) @ payload), 8 + length payload)"

definition read_frame :: "(bytes \<Rightarrow> u32) \<Rightarrow> bytes \<Rightarrow> nat \<Rightarrow> (bytes \<times> nat) option lsm_result" where
  "read_frame crc file pos =
     (let n = min 8 (length file - pos) in
      if n = 0 then Inr None
      else if n < 8 then Inl (LsmFormat ''truncated frame header'')
      else let header = subslice file pos (pos + 8);
               len = from_le (take 4 header);
               stored_crc = word_of_nat (from_le (drop 4 header)) in
        if len > MAX_FRAME_PAYLOAD then Inl (LsmFormat ''frame length exceeds maximum'')
        else if pos + 8 + len > length file then Inl (LsmFormat ''truncated frame payload'')
        else let payload = subslice file (pos + 8) (pos + 8 + len); computed = crc payload in
          if stored_crc \<noteq> computed then Inl (LsmCrc pos stored_crc computed)
          else Inr (Some (payload, pos + 8 + len)))"

subsection \<open>Applying an entry\<close>

text \<open>The validation loop of a compaction commit: no input twice, every input present.\<close>

fun check_inputs :: "manifest \<Rightarrow> (level \<times> path) list \<Rightarrow> (level \<times> path) list \<Rightarrow> unit lsm_result" where
  "check_inputs m seen [] = Inr ()"
| "check_inputs m seen ((l, p) # xs) =
     (if list_ex (\<lambda>(k, q). k = l \<and> path_eq q p) seen then Inl (LsmFormat ''CompactionCommit: duplicate input'')
      else if \<not> list_ex (\<lambda>r. path_eq (rm_path r) p) (runs_at_level m l) then Inl (LsmFormat ''CompactionCommit: input run not found'')
      else check_inputs m ((l, p) # seen) xs)"

fun remove_inputs :: "manifest \<Rightarrow> (level \<times> path) list \<Rightarrow> manifest option" where
  "remove_inputs m [] = Some m"
| "remove_inputs m ((l, p) # xs) = (case remove_run m l p of (None, _) \<Rightarrow> None | (Some _, m1) \<Rightarrow> remove_inputs m1 xs)"

fun apply_entry :: "manifest \<Rightarrow> manifest_entry \<Rightarrow> (unit lsm_result \<times> manifest) option" where
  "apply_entry m (AddRun l r) = Some (add_run m l r)"
| "apply_entry m (RemoveRun l p) =
     (case remove_run m l p of
        (None, m1) \<Rightarrow> Some (Inl (LsmFormat ''RemoveRun: run not found''), m1)
      | (Some _, m1) \<Rightarrow> Some (Inr (), m1))"
| "apply_entry m (PromoteRun a b p) = Some (promote_run m a b p)"
| "apply_entry m (SetSequence s) = Some (Inr (), set_next_sequence m s)"
| "apply_entry m (AddRunAndSequence l r s) =
     (case add_run m l r of
        (Inl e, m1) \<Rightarrow> Some (Inl e, m1)
      | (Inr _, m1) \<Rightarrow> Some (Inr (), set_next_sequence m1 s))"
| "apply_entry m (CompactionCommit l out inputs) =
     (if as_index l \<ge> length (mf_levels m) then Some (Inl (LsmFormat ''CompactionCommit: output_level out of range''), m)
      else case check_inputs m [] inputs of
          Inl e \<Rightarrow> Some (Inl e, m)
        | Inr _ \<Rightarrow> (case add_run m l out of
            (Inl _, _) \<Rightarrow> None
          | (Inr _, m1) \<Rightarrow> map_option (Pair (Inr ())) (remove_inputs m1 inputs)))"

subsection \<open>Replay and recovery\<close>

lemma read_frame_advances: "read_frame crc file pos = Inr (Some (payload, next)) \<Longrightarrow> pos + 8 \<le> next \<and> next \<le> length file"
  by (auto simp: read_frame_def Let_def split: if_splits)

text \<open>\<^verbatim>\<open>truncate_at\<close> cuts the file; the loop stops at the first frame that cannot be used.\<close>

definition truncate_at :: "bytes \<Rightarrow> nat \<Rightarrow> bytes" where
  "truncate_at file len = take len file"

function replay_loop :: "(bytes \<Rightarrow> u32) \<Rightarrow> bytes \<Rightarrow> nat \<Rightarrow> manifest \<Rightarrow> (manifest \<times> nat \<times> bytes) lsm_result option" where
  "replay_loop crc file pos m =
     (case read_frame crc file pos of
        Inl LsmIo \<Rightarrow> Some (Inl LsmIo)
      | Inl _ \<Rightarrow> Some (Inr (m, pos, truncate_at file pos))
      | Inr None \<Rightarrow> Some (Inr (m, pos, file))
      | Inr (Some (payload, next_pos)) \<Rightarrow>
          (case decode_entry payload of
             Inl _ \<Rightarrow> Some (Inr (m, pos, truncate_at file pos))
           | Inr entry \<Rightarrow>
               (case apply_entry m entry of
                  None \<Rightarrow> None
                | Some (Inl _, m1) \<Rightarrow> Some (Inr (m1, pos, truncate_at file pos))
                | Some (Inr _, m1) \<Rightarrow> replay_loop crc file next_pos m1)))"
  by pat_completeness auto

termination
  by (relation "measure (\<lambda>(crc, file, pos, m). length file - pos)") (auto dest!: read_frame_advances)

declare replay_loop.simps [simp del]

definition replay_frames :: "(bytes \<Rightarrow> u32) \<Rightarrow> nat \<Rightarrow> bytes \<Rightarrow> nat \<Rightarrow> (manifest \<times> nat \<times> bytes) lsm_result option" where
  "replay_frames crc n file start = replay_loop crc file start (manifest_new n)"

record manifest_log =
  ml_file :: bytes
  ml_write_pos :: nat

text \<open>Recovery from what is at the path (\<open>None\<close>: nothing); the second result is what is there afterwards.\<close>

definition recover :: "(bytes \<Rightarrow> u32) \<Rightarrow> nat \<Rightarrow> bytes option \<Rightarrow> ((manifest \<times> manifest_log) lsm_result \<times> bytes option) option" where
  "recover crc n disk =
     (case disk of
        None \<Rightarrow>
          (case write_header n [] of
             (Inl e, file) \<Rightarrow> Some (Inl e, Some file)
           | (Inr _, file) \<Rightarrow> Some (Inr (manifest_new n, \<lparr>ml_file = file, ml_write_pos = HEADER_SIZE\<rparr>), Some file))
      | Some file \<Rightarrow>
          (case validate_header n file of
             Inl e \<Rightarrow> Some (Inl e, Some file)
           | Inr _ \<Rightarrow>
               (case replay_frames crc n file HEADER_SIZE of
                  None \<Rightarrow> None
                | Some (Inl e) \<Rightarrow> Some (Inl e, Some file)
                | Some (Inr (m, pos, file1)) \<Rightarrow> Some (Inr (m, \<lparr>ml_file = file1, ml_write_pos = pos\<rparr>), Some file1))))"

definition append_entry :: "(bytes \<Rightarrow> u32) \<Rightarrow> manifest_log \<Rightarrow> manifest_entry \<Rightarrow> unit lsm_result \<times> manifest_log" where
  "append_entry crc log e =
     (case encode_entry e of
        Inl err \<Rightarrow> (Inl err, log)
      | Inr payload \<Rightarrow> let (file, written) = write_frame crc (ml_file log) (ml_write_pos log) payload in
          (Inr (), log\<lparr>ml_file := file, ml_write_pos := ml_write_pos log + written\<rparr>))"

subsection \<open>The two committing operations\<close>

text \<open>\<^verbatim>\<open>flush_and_record\<close>, from the metadata of the run that was written.\<close>

definition record_flush :: "(bytes \<Rightarrow> u32) \<Rightarrow> manifest \<Rightarrow> manifest_log \<Rightarrow> sorted_run_meta \<Rightarrow> seq_no \<Rightarrow> unit lsm_result \<times> manifest \<times> manifest_log" where
  "record_flush crc m log meta hi =
     (case append_entry crc log (AddRunAndSequence 0 meta hi) of
        (Inl e, log1) \<Rightarrow> (Inl e, m, log1)
      | (Inr _, log1) \<Rightarrow>
          (case add_run m 0 meta of
             (Inl e, m1) \<Rightarrow> (Inl e, m1, log1)
           | (Inr _, m1) \<Rightarrow> (Inr (), set_next_sequence m1 hi, log1)))"

text \<open>\<^verbatim>\<open>execute_compaction_observed\<close> from its step 6 on, for the metadata the writer returned.\<close>

definition commit_compaction :: "(bytes \<Rightarrow> u32) \<Rightarrow> manifest \<Rightarrow> manifest_log \<Rightarrow> level \<Rightarrow> level \<Rightarrow> path list \<Rightarrow> sorted_run_meta
    \<Rightarrow> (unit lsm_result \<times> manifest \<times> manifest_log) option" where
  "commit_compaction crc m log from_l to_l inputs out =
     (if as_index to_l \<ge> length (mf_levels m) then Some (Inl (LsmFormat ''execute_compaction: to_level out of range''), m, log)
      else if \<not> list_all (\<lambda>p. list_ex (\<lambda>r. path_eq (rm_path r) p) (runs_at_level m from_l)) inputs
      then Some (Inl (LsmFormat ''execute_compaction: input run not found''), m, log)
      else case append_entry crc log (CompactionCommit to_l out (map (Pair from_l) inputs)) of
          (Inl e, log1) \<Rightarrow> Some (Inl e, m, log1)
        | (Inr _, log1) \<Rightarrow>
            (case add_run m to_l out of
               (Inl _, _) \<Rightarrow> None
             | (Inr _, m1) \<Rightarrow> map_option (\<lambda>m2. (Inr (), m2, log1)) (remove_inputs m1 (map (Pair from_l) inputs))))"

end
