(* ===== verification/Manifest_Recovery.thy ===== *)
theory Manifest_Recovery
  imports Manifest_Log
begin

text \<open>
  What the manifest log guarantees: applying an entry is all or nothing and never panics,
  replay ends on every file, a frame that is not entirely on disk does not count, and the
  recovered manifest is the one that was in memory.
\<close>

subsection \<open>Applying an entry is all or nothing\<close>

definition present :: "manifest \<Rightarrow> level \<Rightarrow> path \<Rightarrow> bool" where
  "present m l p \<longleftrightarrow> list_ex (\<lambda>r. path_eq (rm_path r) p) (runs_at_level m l)"

fun fresh_inputs :: "(level \<times> path) list \<Rightarrow> (level \<times> path) list \<Rightarrow> bool" where
  "fresh_inputs seen [] = True"
| "fresh_inputs seen ((l, p) # xs) = (\<not> list_ex (\<lambda>(k, q). k = l \<and> path_eq q p) seen \<and> fresh_inputs ((l, p) # seen) xs)"

lemma check_inputs_ok: "check_inputs m seen xs = Inr () \<longleftrightarrow> (\<forall>(l, p) \<in> set xs. present m l p) \<and> fresh_inputs seen xs"
  by (induction m seen xs rule: check_inputs.induct) (auto simp: present_def)

lemma fresh_not_seen: "fresh_inputs seen xs \<Longrightarrow> (k, q) \<in> set seen \<Longrightarrow> (l, p) \<in> set xs \<Longrightarrow> \<not> (k = l \<and> path_eq q p)"
  by (induction seen xs rule: fresh_inputs.induct) (auto simp: list_ex_iff)

lemma remove_run_hit:
  assumes "present m l p"
  shows "\<exists>r m1. remove_run m l p = (Some r, m1) \<and> mf_next_sequence m1 = mf_next_sequence m \<and> length (mf_levels m1) = length (mf_levels m)
    \<and> (\<forall>k q. \<not> (l = k \<and> path_eq p q) \<longrightarrow> present m k q \<longrightarrow> present m1 k q)"
proof -
  have l: "as_index l < length (mf_levels m)" and ex: "list_ex (\<lambda>r. path_eq (rm_path r) p) (mf_levels m ! as_index l)"
    using assms by (auto simp: present_def runs_at_level_def split: if_splits)
  let ?runs = "mf_levels m ! as_index l"
  obtain i where i: "run_position (\<lambda>r. path_eq (rm_path r) p) ?runs = Some i"
    using ex run_position_None [of "\<lambda>r. path_eq (rm_path r) p" ?runs] by (auto simp: list_ex_iff)
  note P = run_position_Some [OF i]
  define m1 where "m1 = m\<lparr>mf_levels := (mf_levels m)[as_index l := remove_at i ?runs]\<rparr>"
  have rr: "remove_run m l p = (Some (?runs ! i), m1)" using l i by (simp add: remove_run_def m1_def Let_def)
  have keep: "present m1 k q" if ne: "\<not> (l = k \<and> path_eq p q)" and pr: "present m k q" for k q
  proof -
    obtain r where r: "r \<in> set (runs_at_level m k)" "path_eq (rm_path r) q" using pr by (auto simp: present_def list_ex_iff)
    have "r \<in> set (runs_at_level m1 k)"
    proof (cases "k = l")
      case True
      then have "r \<noteq> ?runs ! i" using ne P r(2) path_eq_equiv by blast
      then show ?thesis using r(1) True P l remove_at_keeps [of r ?runs i] by (simp add: runs_at_level_def m1_def)
    next
      case False
      then have "as_index k \<noteq> as_index l" by (simp add: as_index_def word_unat_eq_iff)
      then show ?thesis using r(1) by (auto simp: runs_at_level_def m1_def split: if_splits)
    qed
    then show ?thesis using r(2) by (auto simp: present_def list_ex_iff)
  qed
  show ?thesis using rr keep by (auto simp: m1_def)
qed

lemma remove_inputs_ok:
  "\<forall>(l, p) \<in> set xs. present m l p \<Longrightarrow> fresh_inputs seen xs \<Longrightarrow>
   \<exists>m'. remove_inputs m xs = Some m' \<and> length (mf_levels m') = length (mf_levels m) \<and> mf_next_sequence m' = mf_next_sequence m"
proof (induction xs arbitrary: m seen)
  case (Cons x xs)
  obtain l p where x: "x = (l, p)" by (cases x)
  have "present m l p" using Cons.prems(1) x by simp
  from remove_run_hit [OF this] obtain r m1 where r: "remove_run m l p = (Some r, m1)" "mf_next_sequence m1 = mf_next_sequence m"
    "length (mf_levels m1) = length (mf_levels m)" "\<forall>k q. \<not> (l = k \<and> path_eq p q) \<longrightarrow> present m k q \<longrightarrow> present m1 k q" by blast
  have f: "fresh_inputs ((l, p) # seen) xs" using Cons.prems(2) x by simp
  have "present m1 k q" if "(k, q) \<in> set xs" for k q
    using r(4) fresh_not_seen [OF f, of l p k q] Cons.prems(1) that by auto
  then have "\<forall>(k, q) \<in> set xs. present m1 k q" by blast
  from Cons.IH [OF this f] r x show ?case by auto
qed simp

lemma add_run_present: "present m k q \<Longrightarrow> present (snd (add_run m l r)) k q"
  by (auto simp: present_def add_run_def runs_at_level_def list_ex_iff nth_list_update as_index_def split: if_splits)

lemma commit_applies:
  assumes "as_index l < length (mf_levels m)" "\<forall>(k, p) \<in> set xs. present m k p" "fresh_inputs [] xs"
  shows "\<exists>m1 m'. add_run m l r = (Inr (), m1) \<and> remove_inputs m1 xs = Some m' \<and> length (mf_levels m') = length (mf_levels m)"
proof -
  obtain m1 where m1: "add_run m l r = (Inr (), m1)" using assms(1) by (simp add: add_run_def)
  have "\<forall>(k, p) \<in> set xs. present m1 k p" using assms(2) add_run_present [of m _ _ l r] m1 by auto
  from remove_inputs_ok [OF this assms(3)] add_run_levels [of m l r] m1 show ?thesis by auto
qed

lemma apply_entry_total:
  "\<exists>r m'. apply_entry m e = Some (r, m') \<and> length (mf_levels m') = length (mf_levels m) \<and> (r \<noteq> Inr () \<longrightarrow> m' = m)"
proof (cases e)
  case (AddRun l r)
  then show ?thesis by (auto simp: add_run_def)
next
  case (RemoveRun l p)
  then show ?thesis using remove_run_levels [of m l p] remove_run_fails [of m l p] by (cases "remove_run m l p") (auto split: option.splits)
next
  case (PromoteRun a b p)
  obtain r m1 where r: "promote_run m a b p = (r, m1)" by fastforce
  have "length (mf_levels m1) = length (mf_levels m)"
    using promote_run_levels [of m a b p] r by simp
  moreover have "m1 = m" if "r \<noteq> Inr ()" using that r promote_run_fails [of m a b p] by (cases r) auto
  ultimately show ?thesis using PromoteRun r by auto
next
  case (SetSequence s)
  then show ?thesis by (simp add: set_next_sequence_def)
next
  case (AddRunAndSequence l r s)
  then show ?thesis by (auto simp: add_run_def set_next_sequence_def)
next
  case (CompactionCommit l out xs)
  show ?thesis
  proof (cases "as_index l < length (mf_levels m) \<and> check_inputs m [] xs = Inr ()")
    case True
    then have "\<forall>(k, p) \<in> set xs. present m k p" "fresh_inputs [] xs" by (simp_all add: check_inputs_ok)
    from commit_applies [OF conjunct1 [OF True] this, of out] CompactionCommit True show ?thesis by auto
  next
    case False
    then show ?thesis using CompactionCommit by (cases "check_inputs m [] xs") auto
  qed
qed

subsection \<open>Replay\<close>

lemma read_frame_errors: "read_frame crc file pos = Inl err \<Longrightarrow> err \<noteq> LsmIo"
  by (auto simp: read_frame_def Let_def split: if_splits)

text \<open>One round of the loop: the next position and manifest, if the frame can be used.\<close>

definition replay_step :: "(bytes \<Rightarrow> u32) \<Rightarrow> bytes \<Rightarrow> nat \<Rightarrow> manifest \<Rightarrow> (nat \<times> manifest) option" where
  "replay_step crc file pos m =
     (case read_frame crc file pos of
        Inr (Some (payload, nx)) \<Rightarrow>
          (case decode_entry payload of
             Inr entry \<Rightarrow> (case apply_entry m entry of Some (Inr _, m1) \<Rightarrow> Some (nx, m1) | _ \<Rightarrow> None)
           | _ \<Rightarrow> None)
      | _ \<Rightarrow> None)"

lemma replay_unfold:
  assumes "pos \<le> length file"
  shows "replay_loop crc file pos m = (case replay_step crc file pos m of Some (nx, m1) \<Rightarrow> replay_loop crc file nx m1 | None \<Rightarrow> Some (Inr (m, pos, take pos file)))"
proof (cases "read_frame crc file pos")
  case (Inl err)
  then show ?thesis using read_frame_errors [OF Inl] by (cases err) (simp_all add: replay_loop.simps [of crc "file" pos] truncate_at_def replay_step_def)
next
  case (Inr fr)
  show ?thesis
  proof (cases fr)
    case None
    then have "length file \<le> pos" using Inr by (auto simp: read_frame_def Let_def split: if_splits)
    then show ?thesis using None Inr assms by (simp add: replay_loop.simps [of crc "file" pos] replay_step_def)
  next
    case (Some x)
    obtain payload nx where x: "x = (payload, nx)" by (cases x)
    have rf: "read_frame crc file pos = Inr (Some (payload, nx))" using Inr Some x by simp
    show ?thesis
    proof (cases "decode_entry payload")
      case (Inl e)
      then show ?thesis by (simp add: replay_loop.simps [of crc "file" pos] rf truncate_at_def replay_step_def)
    next
      case d: (Inr entry)
      obtain r m1 where a: "apply_entry m entry = Some (r, m1)" "r \<noteq> Inr () \<longrightarrow> m1 = m" using apply_entry_total [of m entry] by blast
      then show ?thesis by (cases r) (simp_all add: replay_loop.simps [of crc "file" pos] rf d truncate_at_def replay_step_def)
    qed
  qed
qed

lemma replay_stepD:
  "replay_step crc file pos m = Some (nx, m1) \<Longrightarrow> \<exists>payload entry. read_frame crc file pos = Inr (Some (payload, nx)) \<and> decode_entry payload = Inr entry
     \<and> apply_entry m entry = Some (Inr (), m1)"
  by (auto simp: replay_step_def split: sum.splits option.splits)

lemma replay_step_advances:
  "replay_step crc file pos m = Some (nx, m1) \<Longrightarrow> pos + 8 \<le> nx \<and> nx \<le> length file \<and> length (mf_levels m1) = length (mf_levels m)"
proof -
  assume "replay_step crc file pos m = Some (nx, m1)"
  from replay_stepD [OF this] obtain payload entry where "read_frame crc file pos = Inr (Some (payload, nx))" "apply_entry m entry = Some (Inr (), m1)" by blast
  with read_frame_advances [of crc "file" pos] apply_entry_total [of m entry] show ?thesis by auto
qed

lemma replay_step_end: "length file \<le> pos \<Longrightarrow> replay_step crc file pos m = None"
  by (simp add: replay_step_def read_frame_def)

lemma subslice_prefix: "take b xs = take b ys \<Longrightarrow> subslice xs a b = subslice ys a b"
  by (metis subslice_def drop_take)

lemma read_frame_prefix:
  assumes r: "read_frame crc file pos = Inr (Some (payload, nx))" and t: "take nx file = take nx file'" and n: "nx \<le> length file'"
  shows "read_frame crc file' pos = Inr (Some (payload, nx))"
proof -
  let ?h = "subslice file pos (pos + 8)"
  have f: "pos + 8 + from_le (take 4 ?h) = nx" "payload = subslice file (pos + 8) nx" "from_le (take 4 ?h) \<le> MAX_FRAME_PAYLOAD"
    "word_of_nat (from_le (drop 4 ?h)) = crc payload"
    using r by (auto simp: read_frame_def Let_def split: if_splits)
  have "take (pos + 8) file = take (pos + 8) file'" using t f(1) by (metis le_add1 min.absorb1 take_take)
  then have h: "subslice file' pos (pos + 8) = ?h" by (metis subslice_prefix)
  have p: "subslice file' (pos + 8) nx = payload" using subslice_prefix [OF t] f(2) by simp
  show ?thesis using n f h p by (simp add: read_frame_def Let_def)
qed

lemma replay_step_prefix:
  assumes "replay_step crc file pos m = Some (nx, m1)" "take nx file = take nx file'" "nx \<le> length file'"
  shows "replay_step crc file' pos m = Some (nx, m1)"
proof -
  from replay_stepD [OF assms(1)] obtain payload entry where "read_frame crc file pos = Inr (Some (payload, nx))" "decode_entry payload = Inr entry"
    "apply_entry m entry = Some (Inr (), m1)" by blast
  with read_frame_prefix [OF _ assms(2,3)] show ?thesis by (simp add: replay_step_def)
qed

text \<open>Replay ends, without a panic, at a position it cuts the file at; replaying what is left ends there again.\<close>

lemma replay_total:
  "pos \<le> length file \<Longrightarrow>
   \<exists>m' p. replay_loop crc file pos m = Some (Inr (m', p, take p file)) \<and> pos \<le> p \<and> p \<le> length file \<and> length (mf_levels m') = length (mf_levels m)
     \<and> replay_loop crc (take p file) pos m = Some (Inr (m', p, take p file))"
proof (induction "length file - pos" arbitrary: pos m rule: less_induct)
  case less
  show ?case
  proof (cases "replay_step crc file pos m")
    case None
    have "replay_step crc (take pos file) pos m = None" by (rule replay_step_end) simp
    then show ?thesis using None less.prems replay_unfold [of pos "take pos file" crc m] replay_unfold [OF less.prems, of crc m] by simp
  next
    case (Some x)
    obtain nx m1 where x: "x = (nx, m1)" by (cases x)
    note A = replay_step_advances [OF Some [unfolded x]]
    have lt: "length file - nx < length file - pos" using A by linarith
    obtain m' p where I: "replay_loop crc file nx m1 = Some (Inr (m', p, take p file))" "nx \<le> p" "p \<le> length file" "length (mf_levels m') = length (mf_levels m1)"
      "replay_loop crc (take p file) nx m1 = Some (Inr (m', p, take p file))"
      using less.hyps [OF lt, of m1] A by blast
    have "replay_step crc (take p file) pos m = Some (nx, m1)"
      by (rule replay_step_prefix [OF Some [unfolded x]]) (use I(2,3) in \<open>simp_all add: min_def\<close>)
    then have "replay_loop crc (take p file) pos m = Some (Inr (m', p, take p file))"
      using I(3,5) less.prems A I(2) replay_unfold [of pos "take p file" crc m] by simp
    then show ?thesis using I A Some x replay_unfold [OF less.prems, of crc m] by auto
  qed
qed

text \<open>What is appended behind a cleanly ending file is replayed from there.\<close>

lemma replay_append:
  "replay_loop crc file pos m = Some (Inr (m', length file, file)) \<Longrightarrow> pos \<le> length file \<Longrightarrow>
   replay_loop crc (file @ x) pos m = replay_loop crc (file @ x) (length file) m'"
proof (induction "length file - pos" arbitrary: pos m rule: less_induct)
  case less
  show ?case
  proof (cases "replay_step crc file pos m")
    case None
    then have "Some (Inr (m, pos, take pos file)) = Some (Inr (m', length file, file))" using less.prems(1) unfolding replay_unfold [OF less.prems(2)] by simp
    then have "pos = length file" "m' = m" unfolding option.inject sum.inject prod.inject by blast+
    then show ?thesis by simp
  next
    case (Some y)
    obtain nx m1 where y: "y = (nx, m1)" by (cases y)
    note A = replay_step_advances [OF Some [unfolded y]]
    have lt: "length file - nx < length file - pos" using A by linarith
    have "replay_loop crc file nx m1 = Some (Inr (m', length file, file))" using less.prems Some y replay_unfold [OF less.prems(2), of crc m] by simp
    then have I: "replay_loop crc (file @ x) nx m1 = replay_loop crc (file @ x) (length file) m'" using less.hyps [OF lt] A by simp
    have "replay_step crc (file @ x) pos m = Some (nx, m1)" by (rule replay_step_prefix [OF Some [unfolded y]]) (use A in simp_all)
    then show ?thesis using I replay_unfold [of pos "file @ x" crc m] less.prems(2) by simp
  qed
qed

text \<open>
  (C7) Recovery of a manifest log ends on every file without a panic. It keeps a prefix of
  the file that begins with the header, and recovering once more from what it left gives the
  same manifest and changes nothing: a damaged tail is cut once. A file with a header that
  does not fit is refused and left alone.
\<close>

theorem manifest_recovery_total:
  "\<exists>res disk. recover crc n (Some file) = Some (res, Some disk)
     \<and> (case res of
          Inl e \<Rightarrow> disk = file \<and> validate_header n file = Inl e
        | Inr (m, log) \<Rightarrow> ml_file log = disk \<and> ml_write_pos log = length disk \<and> HEADER_SIZE \<le> length disk \<and> disk = take (length disk) file
            \<and> length (mf_levels m) = n \<and> recover crc n (Some disk) = Some (Inr (m, log), Some disk))"
proof (cases "validate_header n file")
  case (Inl e)
  then show ?thesis by (simp add: recover_def)
next
  case (Inr u)
  then have len: "8 \<le> length file" by (auto simp: validate_header_def split: if_splits)
  obtain m p where r: "replay_loop crc file 8 (manifest_new n) = Some (Inr (m, p, take p file))" "8 \<le> p" "p \<le> length file"
    "length (mf_levels m) = n" "replay_loop crc (take p file) 8 (manifest_new n) = Some (Inr (m, p, take p file))"
    using replay_total [OF len, of crc "manifest_new n"] by (auto simp: manifest_new_def)
  have "validate_header n (take p file) = Inr u" using Inr r(2,3) by (simp add: validate_header_def Let_def min_def)
  then show ?thesis using Inr r by (simp add: recover_def replay_frames_def HEADER_SIZE_def min_def)
qed

subsection \<open>Appending\<close>

definition frame :: "(bytes \<Rightarrow> u32) \<Rightarrow> bytes \<Rightarrow> bytes" where
  "frame crc payload = to_le 4 (length payload) @ to_le 4 (unat (crc payload)) @ payload"

lemma frame_len [simp]: "length (frame crc payload) = 8 + length payload"
  by (simp add: frame_def)

lemma write_frame_end: "write_frame crc file (length file) payload = (file @ frame crc payload, 8 + length payload)"
  by (simp add: write_frame_def write_at_def frame_def)

lemma read_whole_frame:
  assumes "length payload \<le> MAX_FRAME_PAYLOAD"
  shows "read_frame crc (file @ frame crc payload) (length file) = Inr (Some (payload, length file + 8 + length payload))"
proof -
  let ?f = "file @ frame crc payload" and ?l = "to_le 4 (length payload)" and ?c = "to_le 4 (unat (crc payload))"
  have h: "subslice ?f (length file) (length file + 8) = ?l @ ?c" using subslice_append [of "file" "?l @ ?c" payload] by (simp add: frame_def)
  have p: "subslice ?f (length file + 8) (length file + 8 + length payload) = payload"
    using subslice_append [of "file @ ?l @ ?c" payload "[]"] by (simp add: frame_def)
  have "from_le ?l = length payload" using assms by (intro from_to_le) (simp add: MAX_FRAME_PAYLOAD_def)
  moreover have "word_of_nat (from_le ?c) = crc payload" using from_le_word [where 'a = 32 and n = 4] by simp
  ultimately show ?thesis using assms h p by (simp add: read_frame_def Let_def)
qed

lemma read_torn_frame:
  assumes "length payload \<le> MAX_FRAME_PAYLOAD" "k < 8 + length payload"
  shows "\<not> (\<exists>x. read_frame crc (file @ take k (frame crc payload)) (length file) = Inr (Some x))"
proof (cases "k < 8")
  case True
  then show ?thesis by (simp add: read_frame_def min_def)
next
  case False
  let ?f = "file @ take k (frame crc payload)" and ?l = "to_le 4 (length payload)" and ?c = "to_le 4 (unat (crc payload))"
  have "take k (frame crc payload) = (?l @ ?c) @ take (k - 8) payload" using False by (simp add: frame_def)
  then have h: "subslice ?f (length file) (length file + 8) = ?l @ ?c" using subslice_append [of "file" "?l @ ?c" "take (k - 8) payload"] by simp
  have "from_le ?l = length payload" using assms(1) by (intro from_to_le) (simp add: MAX_FRAME_PAYLOAD_def)
  then show ?thesis using h False assms(2) by (simp add: read_frame_def Let_def min_def)
qed

text \<open>The log describes the manifest.\<close>

definition log_inv :: "(bytes \<Rightarrow> u32) \<Rightarrow> nat \<Rightarrow> manifest \<times> manifest_log \<Rightarrow> bool" where
  "log_inv crc n c \<longleftrightarrow> (case c of (m, log) \<Rightarrow> validate_header n (ml_file log) = Inr () \<and> ml_write_pos log = length (ml_file log)
     \<and> length (mf_levels m) = n \<and> replay_frames crc n (ml_file log) HEADER_SIZE = Some (Inr (m, length (ml_file log), ml_file log)))"

lemma log_invD:
  assumes "log_inv crc n (m, log)"
  shows "validate_header n (ml_file log) = Inr ()" "ml_write_pos log = length (ml_file log)" "length (mf_levels m) = n"
    "replay_loop crc (ml_file log) 8 (manifest_new n) = Some (Inr (m, length (ml_file log), ml_file log))" "8 \<le> length (ml_file log)"
    "log = \<lparr>ml_file = ml_file log, ml_write_pos = length (ml_file log)\<rparr>"
  using assms by (auto simp: log_inv_def replay_frames_def HEADER_SIZE_def validate_header_def split: if_splits)

lemma recover_again: "log_inv crc n (m, log) \<Longrightarrow> recover crc n (Some (ml_file log)) = Some (Inr (m, log), Some (ml_file log))"
proof -
  assume "log_inv crc n (m, log)"
  note I = log_invD [OF this]
  show ?thesis using I(1,4) by (subst I(6)) (simp add: recover_def replay_frames_def HEADER_SIZE_def)
qed

lemma header_append: "validate_header n file = Inr () \<Longrightarrow> validate_header n (file @ x) = Inr ()"
  by (auto simp: validate_header_def Let_def split: if_splits)

definition frame_fits :: "manifest_entry \<Rightarrow> bool" where
  "frame_fits e \<longleftrightarrow> (case encode_entry e of Inl _ \<Rightarrow> True | Inr bs \<Rightarrow> length bs \<le> MAX_FRAME_PAYLOAD)"

lemma append_entry_eq:
  assumes "log_inv crc n (m, log)" "encode_entry e = Inr bs"
  shows "append_entry crc log e = (Inr (), \<lparr>ml_file = ml_file log @ frame crc bs, ml_write_pos = length (ml_file log) + (8 + length bs)\<rparr>)"
  using log_invD(2) [OF assms(1)] assms(2) by (simp add: append_entry_def write_frame_end)

text \<open>A frame that is entirely in the file: its entry is applied, or it is cut when it does not apply.\<close>

lemma log_extends:
  assumes inv: "log_inv crc n (m, log)" and e: "entry_ok e" "encode_entry e = Inr bs" "length bs \<le> MAX_FRAME_PAYLOAD" and a: "apply_entry m e = Some (Inr (), m')"
  shows "log_inv crc n (m', snd (append_entry crc log e))"
proof -
  note I = log_invD [OF inv]
  let ?f = "ml_file log" and ?x = "frame crc bs"
  have d: "decode_entry bs = Inr e" by (rule entry_read_back [OF e(1,2)])
  have s: "replay_step crc (?f @ ?x) (length ?f) m = Some (length (?f @ ?x), m')"
    using read_whole_frame [OF e(3), of crc ?f] d a by (simp add: replay_step_def)
  have "replay_loop crc (?f @ ?x) 8 (manifest_new n) = replay_loop crc (?f @ ?x) (length ?f) m" by (rule replay_append [OF I(4,5)])
  also have "\<dots> = replay_loop crc (?f @ ?x) (length (?f @ ?x)) m'" using replay_unfold [of "length ?f" "?f @ ?x" crc m] s by simp
  also have "\<dots> = Some (Inr (m', length (?f @ ?x), ?f @ ?x))"
    using replay_unfold [of "length (?f @ ?x)" "?f @ ?x" crc m'] replay_step_end [of "?f @ ?x" "length (?f @ ?x)" crc m'] by simp
  finally have "replay_loop crc (?f @ ?x) 8 (manifest_new n) = Some (Inr (m', length (?f @ ?x), ?f @ ?x))" .
  then show ?thesis using append_entry_eq [OF inv e(2)] header_append [OF I(1)] apply_entry_total [of m e] a I(3)
    by (simp add: log_inv_def replay_frames_def HEADER_SIZE_def)
qed

text \<open>A tail from which no entry can be used is cut off.\<close>

lemma recover_cut:
  assumes inv: "log_inv crc n (m, log)" and s: "replay_step crc (ml_file log @ x) (length (ml_file log)) m = None"
  shows "recover crc n (Some (ml_file log @ x)) = Some (Inr (m, log), Some (ml_file log))"
proof -
  note I = log_invD [OF inv]
  let ?f = "ml_file log"
  have "replay_loop crc (?f @ x) 8 (manifest_new n) = replay_loop crc (?f @ x) (length ?f) m" by (rule replay_append [OF I(4,5)])
  also have "\<dots> = Some (Inr (m, length ?f, ?f))" using replay_unfold [of "length ?f" "?f @ x" crc m] s by simp
  finally show ?thesis using header_append [OF I(1)] by (subst (2) I(6)) (simp add: recover_def replay_frames_def HEADER_SIZE_def)
qed

lemma recover_torn:
  assumes inv: "log_inv crc n (m, log)" and b: "length bs \<le> MAX_FRAME_PAYLOAD" "k < 8 + length bs"
  shows "recover crc n (Some (ml_file log @ take k (frame crc bs))) = Some (Inr (m, log), Some (ml_file log))"
proof (rule recover_cut [OF inv])
  show "replay_step crc (ml_file log @ take k (frame crc bs)) (length (ml_file log)) m = None"
    using read_torn_frame [OF b, of crc "ml_file log"] by (auto simp: replay_step_def split: sum.splits option.splits)
qed

lemma recover_new:
  assumes "n \<le> 255"
  shows "\<exists>log. recover crc n None = Some (Inr (manifest_new n, log), Some (ml_file log)) \<and> log_inv crc n (manifest_new n, log)"
proof -
  let ?f = "MAGIC_BYTES @ [CURRENT_VERSION] @ [word_of_nat n] @ [0, 0] :: bytes"
  have w: "write_header n [] = (Inr (), ?f)" using assms by (simp add: write_header_def write_at_def)
  have "unat (word_of_nat n :: u8) = n" using assms by (simp add: unat_of_nat)
  then have v: "validate_header n ?f = Inr ()" by (simp add: validate_header_def MAGIC_BYTES_def CURRENT_VERSION_def)
  have l: "length ?f = 8" by (simp add: MAGIC_BYTES_def)
  have "replay_loop crc ?f 8 (manifest_new n) = Some (Inr (manifest_new n, 8, ?f))"
    using replay_unfold [of 8 ?f crc "manifest_new n"] replay_step_end [of ?f 8 crc "manifest_new n"] l by simp
  then show ?thesis using w v l by (simp add: recover_def log_inv_def replay_frames_def HEADER_SIZE_def) (simp add: manifest_new_def)
qed

end
