(* ===== verification/Manifest_System.thy ===== *)
theory Manifest_System
  imports Manifest_Recovery
begin

text \<open>
  The manifest and its log as one system: recording flushes, committing compactions,
  restarting, and crashing in the middle of an append. Seen from outside it is just the
  manifest: a restart does not change it, and a crash leaves it as before or after the entry.
\<close>

datatype log_op = LFlush sorted_run_meta seq_no | LCompact level level "path list" sorted_run_meta
  | LRestart | LCrash manifest_entry nat

datatype log_answer = LDone | LRefused lsm_error

definition answer_of :: "unit lsm_result \<Rightarrow> log_answer" where
  "answer_of r = (case r of Inl e \<Rightarrow> LRefused e | Inr _ \<Rightarrow> LDone)"

definition restart :: "(bytes \<Rightarrow> u32) \<Rightarrow> nat \<Rightarrow> bytes \<Rightarrow> (log_answer \<times> manifest \<times> manifest_log) option" where
  "restart crc n disk = (case recover crc n (Some disk) of Some (Inr c, _) \<Rightarrow> Some (LDone, c) | _ \<Rightarrow> None)"

text \<open>In \<open>LCrash e k\<close> the process dies in the append of \<open>e\<close> with \<open>k\<close> bytes of its frame on disk.\<close>

fun log_step :: "(bytes \<Rightarrow> u32) \<Rightarrow> nat \<Rightarrow> log_op \<Rightarrow> manifest \<times> manifest_log \<Rightarrow> (log_answer \<times> manifest \<times> manifest_log) option" where
  "log_step crc n (LFlush meta hi) (m, log) = Some (apfst answer_of (record_flush crc m log meta hi))"
| "log_step crc n (LCompact a b ps out) (m, log) = map_option (apfst answer_of) (commit_compaction crc m log a b ps out)"
| "log_step crc n LRestart (m, log) = restart crc n (ml_file log)"
| "log_step crc n (LCrash e k) (m, log) = restart crc n (take (ml_write_pos log + k) (ml_file (snd (append_entry crc log e))))"

text \<open>The specification: the manifest alone.\<close>

definition compacted :: "manifest \<Rightarrow> level \<Rightarrow> level \<Rightarrow> path list \<Rightarrow> sorted_run_meta \<Rightarrow> manifest" where
  "compacted m a b ps out = the (remove_inputs (snd (add_run m b out)) (map (Pair a) ps))"

fun log_spec :: "log_op \<Rightarrow> manifest \<Rightarrow> log_answer \<times> manifest" where
  "log_spec (LFlush meta hi) m =
     (case encode_entry (AddRunAndSequence 0 meta hi) of
        Inl e \<Rightarrow> (LRefused e, m)
      | Inr _ \<Rightarrow> (LDone, set_next_sequence (snd (add_run m 0 meta)) hi))"
| "log_spec (LCompact a b ps out) m =
     (if as_index b \<ge> length (mf_levels m) then (LRefused (LsmFormat ''execute_compaction: to_level out of range''), m)
      else if \<not> list_all (present m a) ps then (LRefused (LsmFormat ''execute_compaction: input run not found''), m)
      else case encode_entry (CompactionCommit b out (map (Pair a) ps)) of
          Inl e \<Rightarrow> (LRefused e, m)
        | Inr _ \<Rightarrow> (LDone, compacted m a b ps out))"
| "log_spec LRestart m = (LDone, m)"
| "log_spec (LCrash e k) m =
     (LDone, case encode_entry e of
        Inl _ \<Rightarrow> m
      | Inr bs \<Rightarrow> if k < 8 + length bs then m else snd (the (apply_entry m e)))"

text \<open>
  The callers' side: the metadata is well formed, the manifest has a level 0, the inputs of a
  compaction are listed once (as the picker does), and the entry fits in a frame.
\<close>

fun log_pre :: "log_op \<Rightarrow> manifest \<Rightarrow> bool" where
  "log_pre (LFlush meta hi) m = (meta_ok meta \<and> 0 < length (mf_levels m) \<and> frame_fits (AddRunAndSequence 0 meta hi))"
| "log_pre (LCompact a b ps out) m =
     (level_ok a \<and> level_ok b \<and> meta_ok out \<and> fresh_inputs [] (map (Pair a) ps) \<and> frame_fits (CompactionCommit b out (map (Pair a) ps)))"
| "log_pre LRestart m = True"
| "log_pre (LCrash e k) m = (entry_ok e \<and> frame_fits e)"

subsection \<open>Each operation\<close>

lemma append_fails: "encode_entry e = Inl err \<Longrightarrow> append_entry crc log e = (Inl err, log)"
  by (simp add: append_entry_def)

lemma flush_sim:
  assumes inv: "log_inv crc n (m, log)" and pre: "log_pre (LFlush meta hi) m"
  shows "\<exists>r c. log_step crc n (LFlush meta hi) (m, log) = Some (r, c) \<and> log_inv crc n c \<and> log_spec (LFlush meta hi) m = (r, fst c)"
proof (cases "encode_entry (AddRunAndSequence 0 meta hi)")
  case (Inl err)
  then show ?thesis using inv append_fails [OF Inl] by (simp add: record_flush_def answer_of_def del: encode_entry.simps)
next
  case (Inr bs)
  let ?e = "AddRunAndSequence 0 meta hi"
  obtain m1 where m1: "add_run m 0 meta = (Inr (), m1)" using pre by (simp add: add_run_def as_index_def)
  have ok: "entry_ok ?e" "length bs \<le> MAX_FRAME_PAYLOAD" using pre Inr by (simp_all add: frame_fits_def level_ok_def MAX_LEVELS_def del: encode_entry.simps)
  have "log_inv crc n (set_next_sequence m1 hi, snd (append_entry crc log ?e))"
    by (rule log_extends [OF inv ok(1) Inr ok(2)]) (simp add: m1)
  then show ?thesis using m1 Inr append_entry_eq [OF inv Inr] by (simp add: record_flush_def answer_of_def del: encode_entry.simps)
qed

lemma commit_entry:
  assumes "as_index b < length (mf_levels m)" "list_all (present m a) ps" "fresh_inputs [] (map (Pair a) ps)"
  shows "\<exists>m1 m'. add_run m b out = (Inr (), m1) \<and> remove_inputs m1 (map (Pair a) ps) = Some m' \<and> m' = compacted m a b ps out
    \<and> apply_entry m (CompactionCommit b out (map (Pair a) ps)) = Some (Inr (), m')"
proof -
  have p: "\<forall>(k, p) \<in> set (map (Pair a) ps). present m k p" using assms(2) by (auto simp: list_all_iff)
  then have "check_inputs m [] (map (Pair a) ps) = Inr ()" using assms(3) by (simp add: check_inputs_ok)
  with commit_applies [OF assms(1) p assms(3), of out] assms(1) show ?thesis by (auto simp: compacted_def)
qed

lemma compact_sim:
  assumes inv: "log_inv crc n (m, log)" and pre: "log_pre (LCompact a b ps out) m"
  shows "\<exists>r c. log_step crc n (LCompact a b ps out) (m, log) = Some (r, c) \<and> log_inv crc n c \<and> log_spec (LCompact a b ps out) m = (r, fst c)"
proof (cases "as_index b < length (mf_levels m) \<and> list_all (present m a) ps")
  case False
  then show ?thesis using inv by (auto simp: commit_compaction_def answer_of_def present_def [abs_def] simp del: encode_entry.simps)
next
  case True
  let ?e = "CompactionCommit b out (map (Pair a) ps)"
  have g: "\<not> as_index b \<ge> length (mf_levels m)" "list_all (\<lambda>p. list_ex (\<lambda>r. path_eq (rm_path r) p) (runs_at_level m a)) ps"
    using True by (simp_all add: present_def [abs_def])
  show ?thesis
  proof (cases "encode_entry ?e")
    case (Inl err)
    then show ?thesis using inv g True append_fails [OF Inl] by (simp add: commit_compaction_def answer_of_def del: encode_entry.simps)
  next
    case (Inr bs)
    obtain m1 m' where m': "add_run m b out = (Inr (), m1)" "remove_inputs m1 (map (Pair a) ps) = Some m'" "m' = compacted m a b ps out" "apply_entry m ?e = Some (Inr (), m')"
      using commit_entry [of b m a ps out] True pre by auto
    have ok: "entry_ok ?e" "length bs \<le> MAX_FRAME_PAYLOAD" using pre Inr by (auto simp: frame_fits_def simp del: encode_entry.simps)
    note X = log_extends [OF inv ok(1) Inr ok(2) m'(4)]
    then show ?thesis using g True m' Inr append_entry_eq [OF inv Inr] by (simp add: commit_compaction_def answer_of_def del: encode_entry.simps)
  qed
qed

lemma crash_sim:
  assumes inv: "log_inv crc n (m, log)" and pre: "log_pre (LCrash e k) m"
  shows "\<exists>r c. log_step crc n (LCrash e k) (m, log) = Some (r, c) \<and> log_inv crc n c \<and> log_spec (LCrash e k) m = (r, fst c)"
proof (cases "encode_entry e")
  case (Inl err)
  then show ?thesis using inv append_fails [OF Inl] recover_again [OF inv] log_invD(2) [OF inv] by (simp add: restart_def)
next
  case (Inr bs)
  note A = append_entry_eq [OF inv Inr]
  have ok: "entry_ok e" "length bs \<le> MAX_FRAME_PAYLOAD" using pre Inr by (simp_all add: frame_fits_def)
  have disk: "take (ml_write_pos log + k) (ml_file (snd (append_entry crc log e))) = ml_file log @ take k (frame crc bs)" using A log_invD(2) [OF inv] by simp
  show ?thesis
  proof (cases "k < 8 + length bs")
    case True
    then show ?thesis using disk recover_torn [OF inv ok(2) True] Inr inv by (simp add: restart_def)
  next
    case False
    then have whole: "take k (frame crc bs) = frame crc bs" by simp
    obtain r m' where a: "apply_entry m e = Some (r, m')" "r \<noteq> Inr () \<longrightarrow> m' = m" using apply_entry_total [of m e] by blast
    show ?thesis
    proof (cases "r = Inr ()")
      case True
      have X: "log_inv crc n (m', snd (append_entry crc log e))" by (rule log_extends [OF inv ok(1) Inr ok(2)]) (use a True in simp)
      from recover_again [OF this] show ?thesis using X disk whole A a False Inr by (simp add: restart_def)
    next
      case bad: False
      have "replay_step crc (ml_file log @ frame crc bs) (length (ml_file log)) m = None"
        using read_whole_frame [OF ok(2), of crc "ml_file log"] entry_read_back [OF ok(1) Inr] a bad by (auto simp: replay_step_def split: sum.splits)
      from recover_cut [OF inv this] show ?thesis using disk whole a bad False Inr inv by (simp add: restart_def)
    qed
  qed
qed

lemma log_step_sim:
  assumes "log_inv crc n c" "log_pre a (fst c)"
  shows "\<exists>r c'. log_step crc n a c = Some (r, c') \<and> log_inv crc n c' \<and> log_spec a (fst c) = (r, fst c')"
proof -
  obtain m log where c: "c = (m, log)" by (cases c)
  show ?thesis
  proof (cases a)
    case (LFlush meta hi)
    then show ?thesis using flush_sim [of crc n m log meta hi] assms c by simp
  next
    case (LCompact x y ps out)
    then show ?thesis using compact_sim [of crc n m log x y ps out] assms c by simp
  next
    case LRestart
    then show ?thesis using recover_again [of crc n m log] assms c by (simp add: restart_def)
  next
    case (LCrash e k)
    then show ?thesis using crash_sim [of crc n m log e k] assms c by simp
  qed
qed

interpretation log_sim: total_simulation "log_step crc n" log_spec log_pre "log_inv crc n" fst
proof unfold_locales
  fix c a r c'
  assume "log_inv crc n c" "log_pre a (fst c)" "log_step crc n a c = Some (r, c')"
  then show "log_inv crc n c' \<and> log_spec a (fst c) = (r, fst c')" using log_step_sim [of crc n c a] by auto
next
  fix c a
  assume "log_inv crc n c" "log_pre a (fst c)"
  then show "log_step crc n a c \<noteq> None" using log_step_sim [of crc n c a] by auto
qed

text \<open>
  (C2) The manifest survives restarts and crashes. From a new log, over every history of
  recorded flushes, compaction commits, restarts and crashes in the middle of an append, with
  any checksum function: no operation panics, the answers are those of the manifest alone, a
  restart changes nothing, an entry whose frame was cut short has left no trace and one that
  was written entirely counts as a whole, a compaction commit included; and at the end the log
  recovers to the manifest in memory.
\<close>

theorem manifest_log_refines:
  assumes "recover crc n None = Some (Inr c, disk)" "spec_allows log_pre log_spec ops (manifest_new n)"
  shows "\<exists>rs m log. run_answers (log_step crc n) ops c = Some (rs, m, log) \<and> spec_answers log_spec ops (manifest_new n) = (rs, m)
    \<and> recover crc n (Some (ml_file log)) = Some (Inr (m, log), Some (ml_file log))"
proof -
  have "n \<le> 255" using assms(1) by (auto simp: recover_def write_header_def split: if_splits)
  then have c: "fst c = manifest_new n" "log_inv crc n c" using recover_new [of n crc] assms(1) by auto
  then have "spec_allows log_pre log_spec ops (fst c)" using assms(2) by simp
  from log_sim.run_refines [OF c(2) this] obtain rs c' where r: "run_answers (log_step crc n) ops c = Some (rs, c')" "log_inv crc n c'"
    "spec_answers log_spec ops (fst c) = (rs, fst c')" by blast
  obtain m log where c': "c' = (m, log)" by (cases c')
  show ?thesis using r c(1) c' recover_again [of crc n m log] by auto
qed

definition len_crc :: "bytes \<Rightarrow> u32" where
  "len_crc bs = word_of_nat (length bs)"

definition run_of :: "path \<Rightarrow> sorted_run_meta" where
  "run_of p = demo_meta\<lparr>rm_path := p\<rparr>"

definition demo_log_ops :: "log_op list" where
  "demo_log_ops = [LFlush (run_of [97]) 4, LFlush (run_of [98]) 9, LRestart, LCrash (AddRun 0 (run_of [99])) 20,
     LCompact 0 1 [[97], [98]] (run_of [100]), LCrash (SetSequence 12) 17, LCrash (RemoveRun 0 [97]) 99, LRestart]"

theorem manifest_log_refines_witness:
  "\<exists>c rs m log. recover len_crc 4 None = Some (Inr c, Some (ml_file (snd c))) \<and> run_answers (log_step len_crc 4) demo_log_ops c = Some (rs, m, log)
     \<and> mf_levels m = [[], [run_of [100]], [], []] \<and> mf_next_sequence m = 12
     \<and> recover len_crc 4 (Some (ml_file log)) = Some (Inr (m, log), Some (ml_file log))"
proof -
  obtain log0 where c: "recover len_crc 4 None = Some (Inr (manifest_new 4, log0), Some (ml_file log0))" using recover_new [of 4 len_crc] by auto
  have a: "spec_allows log_pre log_spec demo_log_ops (manifest_new 4)" by code_simp
  have m: "snd (spec_answers log_spec demo_log_ops (manifest_new 4)) = \<lparr>mf_levels = [[], [run_of [100]], [], []], mf_next_sequence = 12\<rparr>" by code_simp
  from manifest_log_refines [OF c a] obtain rs m log where "run_answers (log_step len_crc 4) demo_log_ops (manifest_new 4, log0) = Some (rs, m, log)"
    "spec_answers log_spec demo_log_ops (manifest_new 4) = (rs, m)" "recover len_crc 4 (Some (ml_file log)) = Some (Inr (m, log), Some (ml_file log))" by blast
  with c m show ?thesis by (intro exI [of _ "(manifest_new 4, log0)"] exI [of _ rs] exI [of _ m] exI [of _ log]) simp
qed

subsection \<open>Entries that do not fit in a frame\<close>

lemma read_oversized:
  assumes "MAX_FRAME_PAYLOAD < length bs" "length bs < 4294967296"
  shows "read_frame crc (file @ frame crc bs @ x) (length file) = Inl (LsmFormat ''frame length exceeds maximum'')"
proof -
  let ?l = "to_le 4 (length bs)" and ?c = "to_le 4 (unat (crc bs))"
  have h: "subslice (file @ frame crc bs @ x) (length file) (length file + 8) = ?l @ ?c" using subslice_append [of "file" "?l @ ?c" "bs @ x"] by (simp add: frame_def)
  have "from_le ?l = length bs" using assms(2) by (intro from_to_le) simp
  then show ?thesis using h assms(1) by (simp add: read_frame_def Let_def min_def)
qed

text \<open>
  (C10) An entry larger than the reader's limit is accepted and then lost. Appending it reports
  success, but recovery takes its frame for a damaged tail: it cuts the log in front of it, so
  that this entry and everything appended after it is gone. The source refuses at encoding
  time only a compaction commit with too many inputs, for exactly this reason.
\<close>

theorem oversized_entry_lost:
  assumes "log_inv crc n (m, log)" "encode_entry e = Inr bs" "MAX_FRAME_PAYLOAD < length bs" "length bs < 4294967296"
  shows "fst (append_entry crc log e) = Inr ()
    \<and> recover crc n (Some (ml_file (snd (append_entry crc log e)) @ later)) = Some (Inr (m, log), Some (ml_file log))"
proof -
  have "replay_step crc (ml_file log @ frame crc bs @ later) (length (ml_file log)) m = None"
    using read_oversized [OF assms(3,4), of crc "ml_file log" later] by (simp add: replay_step_def)
  from recover_cut [OF assms(1) this] append_entry_eq [OF assms(1,2)] show ?thesis by simp
qed

definition big_inputs :: "(level \<times> path) list" where
  "big_inputs = map (\<lambda>i. (0, replicate (1100 + i) 97)) [0..<1000]"

lemma concat_bounds:
  "\<forall>x \<in> set xs. a \<le> length (f x) \<and> length (f x) \<le> b \<Longrightarrow> a * length xs \<le> length (concat (map f xs)) \<and> length (concat (map f xs)) \<le> b * length xs"
  by (induction xs) (auto simp: algebra_simps)

lemma big_inputs_size: "1103000 \<le> length (concat (map input_bytes big_inputs)) \<and> length (concat (map input_bytes big_inputs)) \<le> 2102000"
proof -
  have "\<forall>x \<in> set big_inputs. 1103 \<le> length (input_bytes x) \<and> length (input_bytes x) \<le> 2102" by (auto simp: big_inputs_def input_bytes_def path_bytes_def)
  from concat_bounds [OF this] show ?thesis by (simp add: big_inputs_def)
qed

theorem oversized_entry_lost_witness:
  "\<exists>log bs. encode_entry (CompactionCommit 1 demo_meta big_inputs) = Inr bs
     \<and> fst (append_entry len_crc log (CompactionCommit 1 demo_meta big_inputs)) = Inr ()
     \<and> recover len_crc 4 (Some (ml_file (snd (append_entry len_crc log (CompactionCommit 1 demo_meta big_inputs))) @ [1, 2]))
       = Some (Inr (manifest_new 4, log), Some (ml_file log))"
proof -
  obtain log where l: "log_inv len_crc 4 (manifest_new 4, log)" using recover_new [of 4 len_crc] by auto
  let ?e = "CompactionCommit 1 demo_meta big_inputs"
  have "meta_fits demo_meta" by code_simp
  moreover have "\<forall>x \<in> set big_inputs. path_fits (snd x)" by (auto simp: big_inputs_def path_fits_def intro!: utf8_ascii)
  moreover have "length big_inputs = 1000" by (simp add: big_inputs_def)
  ultimately have e: "encode_entry ?e = Inr ([tag_byte TCompactionCommit, 1] @ meta_bytes demo_meta @ to_le 4 1000 @ concat (map input_bytes big_inputs))"
    by (simp add: MAX_COMPACTION_INPUTS_def and_then_Inr encode_meta_eq encode_inputs_eq)
  have "length (meta_bytes demo_meta) = 45" by code_simp
  then have b: "MAX_FRAME_PAYLOAD < length ([tag_byte TCompactionCommit, 1] @ meta_bytes demo_meta @ to_le 4 1000 @ concat (map input_bytes big_inputs))"
    "length ([tag_byte TCompactionCommit, 1] @ meta_bytes demo_meta @ to_le 4 1000 @ concat (map input_bytes big_inputs)) < 4294967296"
    using big_inputs_size by (simp_all add: MAX_FRAME_PAYLOAD_def)
  from oversized_entry_lost [OF l e b, of "[1, 2]"] e show ?thesis by blast
qed

end
