(* ===== verification/Lsm_Compaction.thy ===== *)
theory Lsm_Compaction
  imports Manifest_System "HOL-Library.List_Lexorder"
begin

text \<open>
  The compaction driver (\<^verbatim>\<open>compactor.rs\<close>): picking a job and carrying it out. What the readers
  find in the run files and what the writer makes of the inputs are parameters: \<open>names_of\<close>
  gives the component names of each archetype in a run file (or fails to open it), \<open>merge\<close> the
  metadata of the output (or fails).
\<close>

definition COMPACTION_TRIGGER :: nat where "COMPACTION_TRIGGER = 4"

type_synonym signature = "bytes list"

record compaction_job =
  cj_from_level :: level
  cj_to_level :: level
  cj_all_component_signatures :: "signature list"
  cj_input_paths :: "path list"

subsection \<open>The picker\<close>

text \<open>The signatures of one run: sorted component names, archetypes without components left out.\<close>

definition run_signatures :: "bytes list list \<Rightarrow> signature list" where
  "run_signatures archs = filter (\<lambda>s. s \<noteq> []) (map sort archs)"

fun open_runs :: "(path \<Rightarrow> bytes list list lsm_result) \<Rightarrow> sorted_run_meta list \<Rightarrow> (sorted_run_meta \<times> signature list) list lsm_result" where
  "open_runs names_of [] = Inr []"
| "open_runs names_of (r # rs) =
     and_then (names_of (rm_path r)) (\<lambda>archs. and_then (open_runs names_of rs) (\<lambda>rest. Inr ((r, run_signatures archs) # rest)))"

fun group_push :: "(signature \<times> nat list) list \<Rightarrow> signature \<Rightarrow> nat \<Rightarrow> (signature \<times> nat list) list" where
  "group_push [] s i = [(s, [i])]"
| "group_push ((t, js) # gs) s i = (if t = s then (t, js @ [i]) # gs else (t, js) # group_push gs s i)"

definition group_runs :: "(sorted_run_meta \<times> signature list) list \<Rightarrow> (signature \<times> nat list) list" where
  "group_runs infos = foldl (\<lambda>gs (i, _, sigs). foldl (\<lambda>gs s. group_push gs s i) gs sigs) [] (enumerate 0 infos)"

fun dedup_paths :: "path list \<Rightarrow> path list \<Rightarrow> path list" where
  "dedup_paths acc [] = acc"
| "dedup_paths acc (p # ps) = dedup_paths (if list_ex (\<lambda>q. path_eq q p) acc then acc else acc @ [p]) ps"

fun dedup_sigs :: "signature list \<Rightarrow> signature list \<Rightarrow> signature list" where
  "dedup_sigs acc [] = acc"
| "dedup_sigs acc (s # ss) = dedup_sigs (if s \<in> set acc then acc else acc @ [s]) ss"

definition level_job :: "nat \<Rightarrow> level \<Rightarrow> (sorted_run_meta \<times> signature list) list \<Rightarrow> compaction_job option lsm_result" where
  "level_job level_idx level infos =
     (case find (\<lambda>(_, js). \<not> length js < COMPACTION_TRIGGER) (group_runs infos) of
        None \<Rightarrow> Inr None
      | Some (_, js) \<Rightarrow>
          (case level_new (word_of_nat (level_idx + 1)) of
             None \<Rightarrow> Inl (LsmFormat ''cannot compact: destination exceeds MAX_LEVELS'')
           | Some to_level \<Rightarrow> Inr (Some \<lparr>cj_from_level = level, cj_to_level = to_level,
               cj_all_component_signatures = sort (dedup_sigs [] (concat (map (\<lambda>i. snd (infos ! i)) js))),
               cj_input_paths = dedup_paths [] (map (\<lambda>i. rm_path (fst (infos ! i))) js)\<rparr>)))"

fun scan_levels :: "(path \<Rightarrow> bytes list list lsm_result) \<Rightarrow> manifest \<Rightarrow> nat list \<Rightarrow> compaction_job option lsm_result" where
  "scan_levels names_of m [] = Inr None"
| "scan_levels names_of m (level_idx # is) =
     (if level_idx = length (mf_levels m) - 1 then scan_levels names_of m is
      else case level_new (word_of_nat level_idx) of
          None \<Rightarrow> Inl (LsmFormat ''level index out of MAX_LEVELS range'')
        | Some level \<Rightarrow>
            if length (runs_at_level m level) < COMPACTION_TRIGGER then scan_levels names_of m is
            else and_then (open_runs names_of (runs_at_level m level)) (\<lambda>infos.
              and_then (level_job level_idx level infos) (\<lambda>job.
                case job of None \<Rightarrow> scan_levels names_of m is | Some j \<Rightarrow> Inr (Some j))))"

definition find_compaction_candidate :: "(path \<Rightarrow> bytes list list lsm_result) \<Rightarrow> manifest \<Rightarrow> compaction_job option lsm_result" where
  "find_compaction_candidate names_of m = scan_levels names_of m [0..<length (mf_levels m)]"

definition needs_compaction :: "(path \<Rightarrow> bytes list list lsm_result) \<Rightarrow> manifest \<Rightarrow> bool lsm_result" where
  "needs_compaction names_of m = and_then (find_compaction_candidate names_of m) (\<lambda>job. Inr (job \<noteq> None))"

subsection \<open>One compaction\<close>

definition compact_one :: "(bytes \<Rightarrow> u32) \<Rightarrow> (path \<Rightarrow> bytes list list lsm_result) \<Rightarrow> (compaction_job \<Rightarrow> sorted_run_meta lsm_result)
    \<Rightarrow> manifest \<Rightarrow> manifest_log \<Rightarrow> (compaction_job option lsm_result \<times> manifest \<times> manifest_log) option" where
  "compact_one crc names_of merge m log =
     (case find_compaction_candidate names_of m of
        Inl e \<Rightarrow> Some (Inl e, m, log)
      | Inr None \<Rightarrow> Some (Inr None, m, log)
      | Inr (Some job) \<Rightarrow>
          (case merge job of
             Inl e \<Rightarrow> Some (Inl e, m, log)
           | Inr out \<Rightarrow> map_option (apfst (\<lambda>r. and_then r (\<lambda>_. Inr (Some job))))
               (commit_compaction crc m log (cj_from_level job) (cj_to_level job) (cj_input_paths job) out)))"

text \<open>The callers' loop, with a bound on the rounds: \<open>None\<close> when it is used up.\<close>

fun compact_all :: "nat \<Rightarrow> (bytes \<Rightarrow> u32) \<Rightarrow> (path \<Rightarrow> bytes list list lsm_result) \<Rightarrow> (compaction_job \<Rightarrow> sorted_run_meta lsm_result)
    \<Rightarrow> manifest \<Rightarrow> manifest_log \<Rightarrow> (unit lsm_result \<times> manifest \<times> manifest_log) option" where
  "compact_all 0 crc names_of merge m log = None"
| "compact_all (Suc k) crc names_of merge m log =
     (case needs_compaction names_of m of
        Inl e \<Rightarrow> Some (Inl e, m, log)
      | Inr False \<Rightarrow> Some (Inr (), m, log)
      | Inr True \<Rightarrow>
          (case compact_one crc names_of merge m log of
             None \<Rightarrow> None
           | Some (Inl e, m1, log1) \<Rightarrow> Some (Inl e, m1, log1)
           | Some (Inr _, m1, log1) \<Rightarrow> compact_all k crc names_of merge m1 log1))"

subsection \<open>Jobs are well formed\<close>

lemma group_push_all:
  "\<forall>(t, js) \<in> set gs. js \<noteq> [] \<and> set js \<subseteq> A \<Longrightarrow> i \<in> A \<Longrightarrow> \<forall>(t, js) \<in> set (group_push gs s i). js \<noteq> [] \<and> set js \<subseteq> A"
  by (induction gs s i rule: group_push.induct) auto

lemma group_runs_all: "\<forall>(t, js) \<in> set (group_runs infos). js \<noteq> [] \<and> set js \<subseteq> {..<length infos}"
proof -
  let ?P = "\<lambda>gs :: (signature \<times> nat list) list. \<forall>(t, js) \<in> set gs. js \<noteq> [] \<and> set js \<subseteq> {..<length infos}"
  have inner: "?P gs \<Longrightarrow> i < length infos \<Longrightarrow> ?P (foldl (\<lambda>gs s. group_push gs s i) gs sigs)" for gs i sigs
  proof (induction sigs arbitrary: gs)
    case (Cons s sigs)
    have "?P (group_push gs s i)" by (rule group_push_all) (use Cons.prems in simp_all)
    from Cons.IH [OF this Cons.prems(2)] show ?case by simp
  qed simp
  have "?P gs \<Longrightarrow> \<forall>x \<in> set xs. fst x < length infos \<Longrightarrow> ?P (foldl (\<lambda>gs (i, _, sigs). foldl (\<lambda>gs s. group_push gs s i) gs sigs) gs xs)"
    for gs and xs :: "(nat \<times> sorted_run_meta \<times> signature list) list"
  proof (induction xs arbitrary: gs)
    case (Cons x xs)
    obtain i r sigs where x: "x = (i, r, sigs)" by (cases x) auto
    have "?P (foldl (\<lambda>gs s. group_push gs s i) gs sigs)" by (rule inner) (use Cons.prems x in simp_all)
    from Cons.IH [OF this] Cons.prems(2) x show ?case by simp
  qed simp
  from this [of "[]" "enumerate 0 infos"] show ?thesis by (auto simp: group_runs_def in_set_enumerate_eq)
qed

lemma open_runs_fst: "open_runs names_of rs = Inr infos \<Longrightarrow> map fst infos = rs"
  by (induction rs arbitrary: infos) (auto simp: and_then_Inr)

lemma fresh_snoc:
  "fresh_inputs seen (map (Pair a) (xs @ [p])) \<longleftrightarrow> fresh_inputs seen (map (Pair a) xs)
     \<and> \<not> list_ex (\<lambda>(k, q). k = a \<and> path_eq q p) seen \<and> \<not> list_ex (\<lambda>q. path_eq q p) xs"
  by (induction xs arbitrary: seen) auto

lemma dedup_paths_ok:
  "fresh_inputs [] (map (Pair a) acc) \<Longrightarrow> fresh_inputs [] (map (Pair a) (dedup_paths acc ps))
     \<and> set (dedup_paths acc ps) \<subseteq> set acc \<union> set ps \<and> (acc \<noteq> [] \<or> ps \<noteq> [] \<longrightarrow> dedup_paths acc ps \<noteq> [])"
proof (induction ps arbitrary: acc)
  case (Cons p ps)
  let ?acc = "if list_ex (\<lambda>q. path_eq q p) acc then acc else acc @ [p]"
  have "fresh_inputs [] (map (Pair a) ?acc)" using Cons.prems by (simp add: fresh_snoc del: map_append)
  moreover have "?acc \<noteq> []" by (cases acc) simp_all
  moreover have "set ?acc \<subseteq> set acc \<union> {p}" by auto
  ultimately show ?case using Cons.IH [of ?acc] by fastforce
qed simp

text \<open>A job merges runs of one level, each listed once and present there, into the next level.\<close>

definition job_ok :: "manifest \<Rightarrow> compaction_job \<Rightarrow> bool" where
  "job_ok m j \<longleftrightarrow> level_ok (cj_from_level j) \<and> level_ok (cj_to_level j) \<and> as_index (cj_to_level j) = Suc (as_index (cj_from_level j))
     \<and> as_index (cj_to_level j) < length (mf_levels m) \<and> cj_input_paths j \<noteq> []
     \<and> list_all (present m (cj_from_level j)) (cj_input_paths j) \<and> fresh_inputs [] (map (Pair (cj_from_level j)) (cj_input_paths j))"

lemma level_new_Some: "k \<le> 255 \<Longrightarrow> level_new (word_of_nat k) = Some l \<Longrightarrow> level_ok l \<and> as_index l = k"
  by (auto simp: level_new_def level_ok_def as_index_def unat_of_nat split: if_splits)

lemma level_job_ok:
  assumes l: "level_ok l" "as_index l = i" and i: "Suc i < length (mf_levels m)" "length (mf_levels m) \<le> 255"
    and o: "open_runs names_of (runs_at_level m l) = Inr infos" and j: "level_job i l infos = Inr (Some job)"
  shows "job_ok m job"
proof -
  obtain g js b where f: "find (\<lambda>(_, js). \<not> length js < COMPACTION_TRIGGER) (group_runs infos) = Some (g, js)" "level_new (word_of_nat (i + 1)) = Some b"
    and job: "cj_from_level job = l" "cj_to_level job = b" "cj_input_paths job = dedup_paths [] (map (\<lambda>i. rm_path (fst (infos ! i))) js)"
    using j by (auto simp: level_job_def split: option.splits)
  have "(g, js) \<in> set (group_runs infos)" using f(1) by (auto simp: find_Some_iff) (metis nth_mem)
  then have js: "js \<noteq> []" "set js \<subseteq> {..<length infos}" using group_runs_all [of infos] by auto
  have pr: "present m l (rm_path (fst (infos ! k)))" if "k \<in> set js" for k
  proof -
    have "k < length infos" using js(2) that by auto
    then have "fst (infos ! k) \<in> set (runs_at_level m l)" using open_runs_fst [OF o] by (metis length_map nth_map nth_mem)
    then show ?thesis by (auto simp: present_def list_ex_iff intro!: bexI [of _ "fst (infos ! k)"])
  qed
  note D = dedup_paths_ok [of l "[]" "map (\<lambda>i. rm_path (fst (infos ! i))) js"]
  have "list_all (present m l) (cj_input_paths job)" using D pr job(3) by (auto simp: list_all_iff)
  moreover have "level_ok b \<and> as_index b = Suc i" using level_new_Some [OF _ f(2)] i by simp
  ultimately show ?thesis using D js(1) job l i(1) by (simp add: job_ok_def)
qed

lemma scan_levels_ok:
  "set is \<subseteq> {..<length (mf_levels m)} \<Longrightarrow> length (mf_levels m) \<le> 255 \<Longrightarrow> scan_levels names_of m is = Inr (Some job) \<Longrightarrow> job_ok m job"
proof (induction "is")
  case (Cons i "is")
  show ?case
  proof (cases "scan_levels names_of m is = Inr (Some job)")
    case True
    then show ?thesis using Cons.IH Cons.prems by simp
  next
    case False
    have i: "i < length (mf_levels m)" using Cons.prems(1) by simp
    obtain l infos where l: "level_new (word_of_nat i) = Some l" "i \<noteq> length (mf_levels m) - 1"
      "open_runs names_of (runs_at_level m l) = Inr infos" "level_job i l infos = Inr (Some job)"
      using Cons.prems(3) False by (auto simp: and_then_Inr split: if_splits option.splits)
    have "level_ok l \<and> as_index l = i" by (rule level_new_Some [OF _ l(1)]) (use i Cons.prems(2) in simp)
    then show ?thesis using level_job_ok [OF _ _ _ Cons.prems(2) l(3,4)] i l(2) by simp
  qed
qed simp

lemma candidate_ok: "length (mf_levels m) \<le> 255 \<Longrightarrow> find_compaction_candidate names_of m = Inr (Some job) \<Longrightarrow> job_ok m job"
  using scan_levels_ok [of "[0..<length (mf_levels m)]" m names_of job] by (simp add: find_compaction_candidate_def lessThan_atLeast0)

subsection \<open>Compaction ends\<close>

text \<open>The weight of the levels: a run weighs the more, the higher its level stands.\<close>

fun weight :: "'a list list \<Rightarrow> nat" where
  "weight [] = 0"
| "weight (rs # rest) = length rs * Suc (length rest) + weight rest"

lemma weight_update:
  "i < length ls \<Longrightarrow> weight (ls[i := xs]) + length (ls ! i) * (length ls - i) = weight ls + length xs * (length ls - i)"
proof (induction ls arbitrary: i)
  case (Cons rs rest)
  show ?case
  proof (cases i)
    case 0
    then show ?thesis by simp
  next
    case (Suc k)
    have "weight (rest[k := xs]) + length (rest ! k) * (length rest - k) = weight rest + length xs * (length rest - k)" using Cons Suc by simp
    then show ?thesis using Suc by simp
  qed
qed simp

lemma add_run_weight:
  "add_run m b out = (Inr (), m1) \<Longrightarrow> weight (mf_levels m1) = weight (mf_levels m) + (length (mf_levels m) - as_index b)"
  using weight_update [of "as_index b" "mf_levels m" "mf_levels m ! as_index b @ [out]"] by (auto simp: add_run_def distrib_right split: if_splits)

lemma remove_run_weight:
  assumes "remove_run m a p = (Some r, m1)"
  shows "weight (mf_levels m1) + (length (mf_levels m) - as_index a) = weight (mf_levels m)" "length (mf_levels m1) = length (mf_levels m)"
proof -
  obtain k where k: "as_index a < length (mf_levels m)" "run_position (\<lambda>r. path_eq (rm_path r) p) (mf_levels m ! as_index a) = Some k"
    "m1 = m\<lparr>mf_levels := (mf_levels m)[as_index a := remove_at k (mf_levels m ! as_index a)]\<rparr>"
    using assms by (auto simp: remove_run_def Let_def split: option.splits if_splits)
  have n: "length (remove_at k (mf_levels m ! as_index a)) = length (mf_levels m ! as_index a) - 1" "0 < length (mf_levels m ! as_index a)"
    using run_position_Some [OF k(2)] remove_at_len by auto
  have "weight (mf_levels m1) + length (mf_levels m ! as_index a) * (length (mf_levels m) - as_index a)
      = weight (mf_levels m) + (length (mf_levels m ! as_index a) - 1) * (length (mf_levels m) - as_index a)"
    using weight_update [OF k(1), of "remove_at k (mf_levels m ! as_index a)"] n(1) k(3) by simp
  moreover have "length (mf_levels m ! as_index a) * (length (mf_levels m) - as_index a)
      = (length (mf_levels m ! as_index a) - 1) * (length (mf_levels m) - as_index a) + (length (mf_levels m) - as_index a)"
    using n(2) by (cases "length (mf_levels m ! as_index a)") simp_all
  ultimately show "weight (mf_levels m1) + (length (mf_levels m) - as_index a) = weight (mf_levels m)" by linarith
  show "length (mf_levels m1) = length (mf_levels m)" by (simp add: k(3))
qed

lemma remove_inputs_weight:
  "remove_inputs m (map (Pair a) ps) = Some m' \<Longrightarrow> weight (mf_levels m') + length ps * (length (mf_levels m) - as_index a) = weight (mf_levels m)"
proof (induction ps arbitrary: m)
  case (Cons p ps)
  obtain r m1 where r: "remove_run m a p = (Some r, m1)" "remove_inputs m1 (map (Pair a) ps) = Some m'"
    using Cons.prems by (auto split: prod.splits option.splits)
  show ?case using Cons.IH [OF r(2)] remove_run_weight [OF r(1)] by simp
qed simp

lemma compact_one_ok:
  assumes n: "length (mf_levels m) \<le> 255"
  shows "\<exists>r m' log'. compact_one crc names_of merge m log = Some (r, m', log') \<and> length (mf_levels m') = length (mf_levels m)
    \<and> (case r of Inl _ \<Rightarrow> weight (mf_levels m') \<le> weight (mf_levels m) | Inr None \<Rightarrow> needs_compaction names_of m = Inr False \<and> m' = m
        | Inr (Some _) \<Rightarrow> weight (mf_levels m') < weight (mf_levels m))"
proof (cases "find_compaction_candidate names_of m")
  case (Inl e)
  then show ?thesis by (simp add: compact_one_def)
next
  case c: (Inr job)
  show ?thesis
  proof (cases job)
    case None
    then show ?thesis using c by (simp add: compact_one_def needs_compaction_def)
  next
    case (Some j)
    note J = candidate_ok [OF n c [unfolded Some], unfolded job_ok_def]
    let ?a = "cj_from_level j" and ?b = "cj_to_level j" and ?ps = "cj_input_paths j"
    show ?thesis
    proof (cases "merge j")
      case (Inl e)
      then show ?thesis using c Some by (simp add: compact_one_def)
    next
      case w: (Inr out)
      have g: "\<not> length (mf_levels m) \<le> as_index ?b" "list_all (\<lambda>p. list_ex (\<lambda>r. path_eq (rm_path r) p) (runs_at_level m ?a)) ?ps"
        using J by (simp_all add: present_def [abs_def])
      obtain m1 m2 where m: "add_run m ?b out = (Inr (), m1)" "remove_inputs m1 (map (Pair ?a) ?ps) = Some m2"
        using commit_entry [of ?b m ?a ?ps out] J by blast
      have len: "length (mf_levels m1) = length (mf_levels m)" using add_run_levels [of m ?b out] m(1) by simp
      have "Suc (length (mf_levels m) - as_index ?b) = length (mf_levels m) - as_index ?a" using J by linarith
      moreover have "1 * (length (mf_levels m) - as_index ?a) \<le> length ?ps * (length (mf_levels m) - as_index ?a)"
        using J by (intro mult_le_mono1) (cases ?ps, simp_all)
      ultimately have lt: "weight (mf_levels m2) < weight (mf_levels m)" using add_run_weight [OF m(1)] remove_inputs_weight [OF m(2)] unfolding len by linarith
      have l2: "length (mf_levels m2) = length (mf_levels m)" using commit_applies [of ?b m "map (Pair ?a) ?ps" out] J m by (auto simp: list_all_iff)
      obtain ar log1 where ap: "append_entry crc log (CompactionCommit ?b out (map (Pair ?a) ?ps)) = (ar, log1)" by fastforce
      then show ?thesis using c Some w g m lt l2 by (cases ar) (auto simp: compact_one_def commit_compaction_def)
    qed
  qed
qed


definition four_runs :: manifest where
  "four_runs = (manifest_new 4)\<lparr>mf_levels := [[run_of [97], run_of [98], run_of [99], run_of [100]], [], [], []]\<rparr>"

definition one_archetype :: "path \<Rightarrow> bytes list list lsm_result" where
  "one_archetype p = Inr [[[66], [65]]]"


end
