(* ===== verification/Spec2Isabelle.thy ===== *)
theory Spec2Isabelle
  imports Pool_Spec Entity_Reserve Blob_Vec_Spec Sparse_Set Archetype Lock_Table World_Panic Lsm_Bloom Lsm_Compaction
begin

text \<open>
  A verification development for the core of Minkowski.
\<close>

end
